(* ===== verification/Pool_Prelude.thy ===== *)
theory Pool_Prelude
  imports Main "HOL-Library.Word"
begin

text \<open>
  Shared vocabulary of the development: the machine integers of the C code, the
  outcome type of operations that may block or leave the defined behaviour of C, the
  error codes of \<^verbatim>\<open>new_ProcessPool/include/process_pool.h\<close>, and the generic facts on
  words and ring buffers that the component theories use.
\<close>

unbundle bit_operations_syntax

named_theorems wf_intros \<open>introduction rules for the well-formedness predicates\<close>
named_theorems ring_simps \<open>rewriting of the list of live slots of a ring buffer\<close>
named_theorems step_defs \<open>definitions unfolded when a step of a state machine is analysed\<close>

type_synonym u8 = "8 word"
type_synonym u32 = "32 word"
type_synonym u64 = "64 word"

subsection \<open>Outcomes of C operations\<close>

text \<open>
  \<open>Done x\<close>: the call returns \<open>x\<close>. \<open>Blocked\<close>: the caller is suspended in a wait and has
  not changed the state. \<open>Fault\<close>: undefined behaviour (access outside an object, use of
  a freed object, division by zero).
\<close>

datatype 'a outcome = Done 'a | Blocked | Fault

fun bind_outcome :: "'a outcome \<Rightarrow> ('a \<Rightarrow> 'b outcome) \<Rightarrow> 'b outcome" where
  "bind_outcome (Done x) f = f x"
| "bind_outcome Blocked f = Blocked"
| "bind_outcome Fault f = Fault"

lemma bind_outcome_Done_iff [simp]:
  "bind_outcome m f = Done y \<longleftrightarrow> (\<exists>x. m = Done x \<and> f x = Done y)"
  by (cases m) auto

subsection \<open>Error codes\<close>

text \<open>
  The enumerators of \<open>pool_error_t\<close>, plus \<open>POOL_ERROR_OUT_OF_MEMORY\<close>, the identifier
  that \<^verbatim>\<open>task_manager.c\<close> returns although the header does not declare it.
\<close>

datatype pool_error =
    POOL_SUCCESS
  | POOL_ERROR_INVALID_PARAM
  | POOL_ERROR_NO_MEMORY
  | POOL_ERROR_SYSTEM_CALL
  | POOL_ERROR_TIMEOUT
  | POOL_ERROR_QUEUE_FULL
  | POOL_ERROR_WORKER_DEAD
  | POOL_ERROR_SHUTDOWN
  | POOL_ERROR_OUT_OF_MEMORY

subsection \<open>Words\<close>

lemma unat_and_mask:
  fixes x m :: "'a::len word"
  assumes "unat m = 2 ^ k - 1"
  shows "unat (x AND m) = unat x mod 2 ^ k"
proof -
  have "m = of_nat (2 ^ k - 1)"
    using assms by (metis of_nat_unat ucast_id)
  then have "m = mask k"
    by (simp add: mask_eq_exp_minus_1 of_nat_diff)
  then have "unat (x AND m) = unat (take_bit k x)"
    by (simp only: take_bit_eq_mask)
  also have "\<dots> = take_bit k (unat x)"
    by (rule unsigned_take_bit_eq)
  also have "\<dots> = unat x mod 2 ^ k"
    by (rule take_bit_eq_mod)
  finally show ?thesis .
qed

lemma unat_add_mod_pow2:
  fixes a b :: u32
  assumes "k \<le> 32"
  shows "unat (a + b) mod 2 ^ k = (unat a + unat b) mod 2 ^ k"
proof -
  have "(2::nat) ^ k dvd 2 ^ 32"
    using assms by (rule le_imp_power_dvd)
  then show ?thesis
    by (simp add: unat_word_ariths mod_mod_cancel)
qed

lemma unat_sub_add_mod_pow2:
  fixes a b :: u32
  assumes "k \<le> 32"
  shows "(unat a + unat (b - a)) mod 2 ^ k = unat b mod 2 ^ k"
proof -
  have "unat (a + (b - a)) mod 2 ^ k = (unat a + unat (b - a)) mod 2 ^ k"
    by (rule unat_add_mod_pow2 [OF assms])
  then show ?thesis by simp
qed

lemma unat_succ_lt:
  fixes a b :: "'a::len word"
  assumes "a < b"
  shows "unat (a + 1) = Suc (unat a)"
proof -
  have "unat a < unat b" using assms by (simp add: word_less_nat_alt)
  moreover have "unat b < 2 ^ LENGTH('a)" by (rule unsigned_less)
  ultimately have "unat a + 1 < 2 ^ LENGTH('a)" by linarith
  then show ?thesis by (simp add: unat_word_ariths)
qed

lemma unat_sum_list:
  fixes vs :: "'a::len word list"
  assumes "sum_list (map unat vs) < 2 ^ LENGTH('a)"
  shows "unat (sum_list vs) = sum_list (map unat vs)"
  using assms
proof (induction vs)
  case (Cons v vs)
  then have "unat (sum_list vs) = sum_list (map unat vs)" by simp
  then show ?case using Cons.prems by (simp add: unat_word_ariths)
qed simp

lemma add_mod_eq_self_iff: "((h::nat) + c) mod n = h mod n \<longleftrightarrow> n dvd c"
  by (metis add_diff_cancel_left' le_add1 mod_eq_dvd_iff_nat)

lemma add_mod_eq_self_small: "(c::nat) < n \<Longrightarrow> (h + c) mod n = h mod n \<longleftrightarrow> c = 0"
  by (auto simp: add_mod_eq_self_iff dest: dvd_imp_le)

lemma add_mod_eq_self_le:
  "0 < (c::nat) \<Longrightarrow> c \<le> n \<Longrightarrow> (h + c) mod n = h mod n \<longleftrightarrow> c = n"
  by (auto simp: add_mod_eq_self_iff dest: dvd_imp_le)

text \<open>
  Concrete power-of-two helpers, to instantiate the parameters that stand for the undefined
  \<open>is_power_of_2\<close> and \<open>next_power_of_2\<close>.
\<close>

definition pow2_test :: "u32 \<Rightarrow> bool" where
  "pow2_test n \<longleftrightarrow> n \<in> set (map (\<lambda>k. 2 ^ k) [0..<32])"

definition pow2_ceil :: "u32 \<Rightarrow> u32" where
  "pow2_ceil n = (case find (\<lambda>k. n \<le> 2 ^ k) [0..<32] of Some k \<Rightarrow> 2 ^ k | None \<Rightarrow> 0)"

lemma unat_pow2:
  assumes "k < 32"
  shows "unat ((2::u32) ^ k) = 2 ^ k"
proof -
  have "(2::nat) ^ k < 4294967296"
    using power_strict_increasing [of k 32 "2::nat"] assms by simp
  moreover have "unat (of_nat (2 ^ k) :: u32) = 2 ^ k mod 2 ^ LENGTH(32)"
    by (rule unat_of_nat)
  ultimately show ?thesis by simp
qed

lemma eq_of_nat_unat: "unat (w :: 'a::len word) = n \<Longrightarrow> w = of_nat n"
  by auto

lemma unat_u32_less: "unat (n :: u32) < 2 ^ 32"
  using unsigned_less [of n] by simp

lemma unat_ucast_u64: "unat (ucast (n :: u32) :: u64) = unat n"
  using unat_u32_less [of n] by (simp add: unsigned_ucast_eq take_bit_nat_eq_self)

lemma unat_max_u64: "unat (- 1 :: u64) = 2 ^ 64 - 1"
  by (simp add: unsigned_minus_1_eq_mask mask_eq_exp_minus_1)

lemma pow2_test_iff: "pow2_test n \<longleftrightarrow> (\<exists>k. unat n = 2 ^ k)"
proof
  assume "pow2_test n"
  then obtain k where "k < 32" "n = 2 ^ k" by (auto simp: pow2_test_def)
  then have "unat n = 2 ^ k" by (simp only: unat_pow2)
  then show "\<exists>k. unat n = 2 ^ k" by blast
next
  assume "\<exists>k. unat n = 2 ^ k"
  then obtain k where k: "unat n = 2 ^ k" by blast
  have "(2::nat) ^ k < 2 ^ 32" using unat_u32_less [of n] by (simp add: k)
  then have "k < 32" by (rule power_less_imp_less_exp [rotated]) simp
  then have "n = 2 ^ k" using k unat_pow2 [of k] by (simp add: word_unat_eq_iff)
  then show "pow2_test n" using \<open>k < 32\<close> by (auto simp: pow2_test_def)
qed

lemma pow2_ceil_pow2:
  assumes "n \<le> 2 ^ 31"
  shows "\<exists>k. unat (pow2_ceil n) = 2 ^ k"
proof -
  have "find (\<lambda>k. n \<le> 2 ^ k) [0..<32] \<noteq> None"
  proof
    assume "find (\<lambda>k. n \<le> 2 ^ k) [0..<32] = None"
    then have none: "\<nexists>k. k \<in> set [0..<32] \<and> n \<le> 2 ^ k"
      by (rule find_None_iff [THEN iffD1])
    have "(31::nat) \<in> set [0..<32]" by simp
    then have "\<not> n \<le> 2 ^ 31" using none by (metis (full_types))
    then show False using assms by simp
  qed
  then obtain k where k: "find (\<lambda>k. n \<le> 2 ^ k) [0..<32] = Some k" by auto
  then have "k < 32" by (auto simp: find_Some_iff)
  then have "unat (pow2_ceil n) = 2 ^ k" by (simp only: pow2_ceil_def k option.case unat_pow2)
  then show ?thesis by blast
qed

lemma pow2_test_numerals [simp]:
  "pow2_test 1" "pow2_test 2" "pow2_test 4" "pow2_test 8" "\<not> pow2_test 0" "\<not> pow2_test 3"
  by code_simp+

subsection \<open>Sums over the threads of a pool\<close>

text \<open>One thread of \<open>n\<close> changes its state.\<close>

lemma sum_state_upd:
  fixes f :: "'s \<Rightarrow> 'b :: comm_monoid_add" and pcs :: "nat \<Rightarrow> 's"
  assumes "i < n"
  shows "(\<Sum>j<n. f ((pcs(i := pc)) j)) + f (pcs i) = (\<Sum>j<n. f (pcs j)) + f pc"
proof -
  have "(\<Sum>j\<in>{..<n} - {i}. f ((pcs(i := pc)) j)) = (\<Sum>j\<in>{..<n} - {i}. f (pcs j))"
    by (intro sum.cong) auto
  moreover have r: "(\<Sum>j<n. f (g j)) = f (g i) + (\<Sum>j\<in>{..<n} - {i}. f (g j))" for g :: "nat \<Rightarrow> 's"
    by (rule sum.remove) (simp_all add: assms)
  ultimately show ?thesis using r [of pcs] r [of "pcs(i := pc)"] by (simp add: ac_simps)
qed

subsection \<open>Ring buffers as lists\<close>

text \<open>
  The contents of a ring of \<open>n\<close> slots (slot \<open>i\<close> holds \<open>f i\<close>) with \<open>c\<close> live slots from
  position \<open>h\<close> on, oldest first.
\<close>

definition ring_list :: "(nat \<Rightarrow> 'a) \<Rightarrow> nat \<Rightarrow> nat \<Rightarrow> nat \<Rightarrow> 'a list" where
  "ring_list f n h c = map (\<lambda>i. f ((h + i) mod n)) [0..<c]"

lemma length_ring_list [ring_simps, simp]: "length (ring_list f n h c) = c"
  by (simp add: ring_list_def)

lemma ring_list_0 [ring_simps, simp]: "ring_list f n h 0 = []"
  by (simp add: ring_list_def)

lemma ring_list_eq_Nil [simp]: "ring_list f n h c = [] \<longleftrightarrow> c = 0"
  by (simp add: ring_list_def)

lemma ring_list_mod [ring_simps]: "ring_list f n (h mod n) c = ring_list f n h c"
  by (simp add: ring_list_def mod_add_left_eq)

lemma ring_list_cong:
  assumes "n > 0" and "\<And>i. i < n \<Longrightarrow> f i = g i"
  shows "ring_list f n h c = ring_list g n h c"
  using assms by (simp add: ring_list_def)

lemma ring_list_Suc_front:
  "ring_list f n h (Suc c) = f (h mod n) # ring_list f n (Suc h) c"
  by (simp add: ring_list_def upt_conv_Cons map_Suc_upt [symmetric] comp_def del: upt_Suc)

lemma ring_list_Suc_back:
  "ring_list f n h (Suc c) = ring_list f n h c @ [f ((h + c) mod n)]"
  by (simp add: ring_list_def)

lemma ring_slot_free:
  assumes "i < c" and "c < (n::nat)"
  shows "(h + i) mod n \<noteq> (h + c) mod n"
proof
  assume "(h + i) mod n = (h + c) mod n"
  then have "n dvd (h + c) - (h + i)"
    using assms by (metis mod_eq_dvd_iff_nat add_le_cancel_left less_imp_le)
  then have "n dvd c - i" by simp
  then show False using assms by (auto dest!: dvd_imp_le)
qed

text \<open>Writing the first free slot appends.\<close>

lemma ring_list_write:
  assumes "c < n"
  shows "ring_list (f((h + c) mod n := x)) n h (Suc c) = ring_list f n h c @ [x]"
proof -
  have "ring_list (f((h + c) mod n := x)) n h c = ring_list f n h c"
    using assms by (auto simp: ring_list_def ring_slot_free)
  then show ?thesis by (simp add: ring_list_Suc_back)
qed

text \<open>Overwriting the slot that has just been read does not change the rest.\<close>

lemma ring_list_clear:
  assumes "c < n"
  shows "ring_list (f(h mod n := x)) n (Suc h) c = ring_list f n (Suc h) c"
proof -
  have "(Suc h + i) mod n \<noteq> h mod n" if "i < c" for i
  proof
    assume "(Suc h + i) mod n = h mod n"
    then have "n dvd (Suc h + i) - h"
      by (metis mod_eq_dvd_iff_nat le_add1 add_Suc_shift)
    then have "n dvd Suc i" by simp
    then show False using that assms by (auto dest!: dvd_imp_le)
  qed
  then show ?thesis by (auto simp: ring_list_def)
qed

lemma ring_list_nth:
  "i < c \<Longrightarrow> ring_list f n h c ! i = f ((h + i) mod n)"
  by (simp add: ring_list_def)

lemma ring_list_list_update:
  assumes "n = length xs" "n > 0" "c < n"
  shows "ring_list ((!) (xs[(h + c) mod n := x])) n h (Suc c) = ring_list ((!) xs) n h c @ [x]"
proof -
  have "ring_list ((!) (xs[(h + c) mod n := x])) n h (Suc c)
      = ring_list (((!) xs)((h + c) mod n := x)) n h (Suc c)"
    by (rule ring_list_cong) (use assms in \<open>auto simp: nth_list_update\<close>)
  then show ?thesis using assms by (simp add: ring_list_write)
qed

lemma ring_list_list_clear:
  assumes "n = length xs" "n > 0" "c < n"
  shows "ring_list ((!) (xs[h mod n := x])) n (Suc h) c = ring_list ((!) xs) n (Suc h) c"
proof -
  have "ring_list ((!) (xs[h mod n := x])) n (Suc h) c
      = ring_list (((!) xs)(h mod n := x)) n (Suc h) c"
    by (rule ring_list_cong) (use assms in \<open>auto simp: nth_list_update\<close>)
  then show ?thesis using assms by (simp add: ring_list_clear)
qed

text \<open>Writing a slot past the live ones changes nothing.\<close>

lemma ring_list_list_free:
  assumes "n = length xs" "n > 0" "c < n"
  shows "ring_list ((!) (xs[(h + c) mod n := x])) n h c = ring_list ((!) xs) n h c"
  using ring_list_list_update [OF assms, of h x] by (simp add: ring_list_Suc_back)

text \<open>The same ring with the C \<open>int\<close>s of the older queues: first slot, size and number of live
  slots.\<close>

definition int_ring :: "'a list \<Rightarrow> int \<Rightarrow> int \<Rightarrow> int \<Rightarrow> 'a list" where
  "int_ring xs n front count = ring_list ((!) xs) (nat n) (nat front) (nat count)"

lemma length_int_ring [simp]: "length (int_ring xs n front count) = nat count"
  by (simp add: int_ring_def)

lemma int_ring_eq_Nil: "0 \<le> count \<Longrightarrow> int_ring xs n front count = [] \<longleftrightarrow> count = 0"
  by (auto simp: int_ring_def)

lemma int_ring_put:
  assumes "0 < n" "length xs = nat n" "0 \<le> front" "0 \<le> count" "count < n" "rear = (front + count) mod n"
  shows "int_ring (xs[nat rear := x]) n front (count + 1) = int_ring xs n front count @ [x]"
    and "(rear + 1) mod n = (front + (count + 1)) mod n"
proof -
  have rear: "nat rear = (nat front + nat count) mod nat n"
    using assms by (simp add: nat_mod_distrib nat_add_distrib)
  have len: "nat n = length xs" "0 < nat n" "nat count < nat n" "nat (count + 1) = Suc (nat count)"
    using assms by (simp_all add: nat_add_distrib)
  show "int_ring (xs[nat rear := x]) n front (count + 1) = int_ring xs n front count @ [x]"
    using ring_list_list_update [OF len(1-3), of "nat front" x] by (simp add: int_ring_def rear len(4))
  show "(rear + 1) mod n = (front + (count + 1)) mod n"
    using assms(6) by (simp add: mod_add_left_eq add.assoc)
qed

lemma int_ring_take:
  assumes "0 \<le> front" "front < n" "0 < count"
  shows "int_ring xs n front count = xs ! nat front # int_ring xs n ((front + 1) mod n) (count - 1)"
    and "(front + count) mod n = ((front + 1) mod n + (count - 1)) mod n"
proof -
  define c where "c = nat count - 1"
  have c: "nat count = Suc c" "nat (count - 1) = c" using assms(3) by (simp_all add: c_def)
  have h: "nat front mod nat n = nat front" using assms by (simp add: nat_less_eq_zless)
  have f: "nat ((front + 1) mod n) = Suc (nat front) mod nat n"
    using assms by (simp add: nat_mod_distrib nat_add_distrib)
  show "int_ring xs n front count = xs ! nat front # int_ring xs n ((front + 1) mod n) (count - 1)"
    by (simp add: int_ring_def c f ring_list_Suc_front h ring_list_mod)
  show "(front + count) mod n = ((front + 1) mod n + (count - 1)) mod n"
    by (simp add: mod_add_left_eq)
qed

subsection \<open>Bytes\<close>

text \<open>A 32-bit integer in memory, little endian.\<close>

definition enc32 :: "u32 \<Rightarrow> u8 list" where
  "enc32 w = map (\<lambda>i. ucast (drop_bit (8 * i) w)) [0..<4]"

definition dec32 :: "u8 list \<Rightarrow> u32" where
  "dec32 bs = (ucast (bs ! 0) :: u32) OR push_bit 8 (ucast (bs ! 1)) OR push_bit 16 (ucast (bs ! 2))
      OR push_bit 24 (ucast (bs ! 3))"

lemma length_enc32 [simp]: "length (enc32 w) = 4"
  by (simp add: enc32_def)

lemma dec_enc32: "dec32 (enc32 w) = w"
proof (rule bit_word_eqI)
  fix i assume "i < LENGTH(32)"
  then show "bit (dec32 (enc32 w)) i = bit w i"
    by (cases "i < 24"; cases "i < 16") (auto simp: dec32_def enc32_def bit_simps)
qed

subsection \<open>Formatting\<close>

text \<open>The decimal digits of a number, as \<open>printf\<close> writes it with \<open>%u\<close>.\<close>

fun decimal :: "nat \<Rightarrow> string" where
  "decimal n = (if n < 10 then [char_of (48 + n)]
                else decimal (n div 10) @ [char_of (48 + n mod 10)])"

declare decimal.simps [simp del]

end
