(* ===== verification/Bounded_Queue.thy ===== *)
theory Bounded_Queue
  imports Pool_Prelude
begin

text \<open>
  The contract every task queue of the repository promises: a first-in first-out queue
  with a bound. Its clients' facts (order and conservation of the elements over any
  sequence of operations, agreement with a list-based reference queue, complete
  draining) are proved once here, and every queue implementation interprets the locale.
\<close>

datatype 'a qop = Enq 'a | Deq

text \<open>
  A sequence of calls against a queue: the elements accepted, the elements delivered, and
  the final queue. A rejected enqueue and a dequeue on an empty queue leave it unchanged.
\<close>

fun queue_run ::
  "('q \<Rightarrow> 'a \<Rightarrow> 'q option) \<Rightarrow> ('q \<Rightarrow> ('a \<times> 'q) option) \<Rightarrow> 'q \<Rightarrow> 'a qop list
     \<Rightarrow> 'a list \<times> 'a list \<times> 'q" where
  "queue_run enq deq q [] = ([], [], q)"
| "queue_run enq deq q (Enq x # ops) =
     (case enq q x of
        None \<Rightarrow> queue_run enq deq q ops
      | Some q' \<Rightarrow> (case queue_run enq deq q' ops of (acc, out, r) \<Rightarrow> (x # acc, out, r)))"
| "queue_run enq deq q (Deq # ops) =
     (case deq q of
        None \<Rightarrow> queue_run enq deq q ops
      | Some (y, q') \<Rightarrow> (case queue_run enq deq q' ops of (acc, out, r) \<Rightarrow> (acc, y # out, r)))"

lemma queue_run_append:
  "queue_run enq deq q (ops1 @ ops2) =
     (case queue_run enq deq q ops1 of (acc1, out1, q1) \<Rightarrow>
        case queue_run enq deq q1 ops2 of (acc2, out2, q2) \<Rightarrow> (acc1 @ acc2, out1 @ out2, q2))"
  by (induction enq deq q ops1 rule: queue_run.induct) (auto split: option.splits prod.splits)

text \<open>The reference queue: a list with a bound.\<close>

definition spec_enq :: "nat \<Rightarrow> 'a list \<Rightarrow> 'a \<Rightarrow> 'a list option" where
  "spec_enq b xs x = (if length xs < b then Some (xs @ [x]) else None)"

fun spec_deq :: "'a list \<Rightarrow> ('a \<times> 'a list) option" where
  "spec_deq [] = None"
| "spec_deq (x # xs) = Some (x, xs)"

fun qop_ok :: "('a \<Rightarrow> bool) \<Rightarrow> 'a qop \<Rightarrow> bool" where
  "qop_ok ok (Enq x) = ok x"
| "qop_ok ok Deq = True"

lemma qop_ok_True [simp]: "qop_ok (\<lambda>_. True) op"
  by (cases op) simp_all

lemma list_all_qop_ok_True [simp]: "list_all (qop_ok (\<lambda>_. True)) ops"
  by (induction ops) simp_all

lemma list_all_Enq [simp]: "list_all (qop_ok ok) (map Enq xs) = list_all ok xs"
  by (induction xs) simp_all

lemma list_all_Deq [simp]: "list_all (qop_ok ok) (replicate n Deq)"
  by (induction n) simp_all

locale bounded_queue =
  fixes enq :: "'q \<Rightarrow> 'a \<Rightarrow> 'q option"
    and deq :: "'q \<Rightarrow> ('a \<times> 'q) option"
    and contents :: "'q \<Rightarrow> 'a list"
    and wf :: "'q \<Rightarrow> bool"
    and bound :: "'q \<Rightarrow> nat"
    and ok :: "'a \<Rightarrow> bool"
  assumes length_bound: "wf q \<Longrightarrow> length (contents q) \<le> bound q"
    and enq_full: "wf q \<Longrightarrow> ok x \<Longrightarrow> length (contents q) = bound q \<Longrightarrow> enq q x = None"
    and enq_room: "wf q \<Longrightarrow> ok x \<Longrightarrow> length (contents q) < bound q \<Longrightarrow>
          \<exists>q'. enq q x = Some q' \<and> wf q' \<and> contents q' = contents q @ [x] \<and> bound q' = bound q"
    and deq_empty: "wf q \<Longrightarrow> contents q = [] \<Longrightarrow> deq q = None"
    and deq_nonempty: "wf q \<Longrightarrow> contents q = x # xs \<Longrightarrow>
          \<exists>q'. deq q = Some (x, q') \<and> wf q' \<and> contents q' = xs \<and> bound q' = bound q"
begin

lemma enq_SomeD:
  assumes "wf q" "ok x" "enq q x = Some q'"
  shows "wf q' \<and> contents q' = contents q @ [x] \<and> bound q' = bound q
       \<and> length (contents q) < bound q"
proof (cases "length (contents q) = bound q")
  case True
  then show ?thesis using enq_full assms by simp
next
  case False
  then have "length (contents q) < bound q" using length_bound assms(1) by fastforce
  then show ?thesis using enq_room [OF assms(1,2)] assms(3) by auto
qed

lemma enq_NoneD:
  assumes "wf q" "ok x" "enq q x = None"
  shows "length (contents q) = bound q"
proof (rule ccontr)
  assume "length (contents q) \<noteq> bound q"
  then have "length (contents q) < bound q" using length_bound assms(1) by fastforce
  then show False using enq_room [OF assms(1,2)] assms(3) by auto
qed

lemma deq_SomeD:
  assumes "wf q" "deq q = Some (x, q')"
  shows "wf q' \<and> contents q = x # contents q' \<and> bound q' = bound q"
proof (cases "contents q")
  case Nil
  then show ?thesis using deq_empty assms by simp
next
  case (Cons y ys)
  then show ?thesis using deq_nonempty [OF assms(1) Cons] assms(2) by auto
qed

lemma deq_NoneD:
  assumes "wf q" "deq q = None"
  shows "contents q = []"
proof (cases "contents q")
  case (Cons x xs)
  then show ?thesis using deq_nonempty [OF assms(1) Cons] assms(2) by simp
qed

text \<open>Nothing is lost, duplicated or reordered over any sequence of calls.\<close>

lemma run_fifo:
  assumes "wf q" "list_all (qop_ok ok) ops" "queue_run enq deq q ops = (acc, out, q')"
  shows "wf q' \<and> bound q' = bound q \<and> contents q @ acc = out @ contents q'"
  using assms
proof (induction ops arbitrary: q acc out)
  case Nil
  then show ?case by simp
next
  case (Cons op ops)
  show ?case
  proof (cases op)
    case (Enq x)
    show ?thesis
    proof (cases "enq q x")
      case None
      then show ?thesis using Cons Enq by simp
    next
      case (Some r)
      then have "wf r" "contents r = contents q @ [x]" "bound r = bound q"
        using enq_SomeD [of q x r] Cons.prems Enq by auto
      then show ?thesis
        using Cons.IH [of r] Cons.prems Enq Some by (auto split: prod.splits)
    qed
  next
    case Deq
    show ?thesis
    proof (cases "deq q")
      case None
      then show ?thesis using Cons Deq by simp
    next
      case (Some yr)
      then obtain y r where yr: "deq q = Some (y, r)" by (cases yr) auto
      then have "wf r" "contents q = y # contents r" "bound r = bound q"
        using deq_SomeD [of q y r] Cons.prems by auto
      then show ?thesis
        using Cons.IH [of r] Cons.prems Deq yr by (auto split: prod.splits)
    qed
  qed
qed

text \<open>The queue is indistinguishable from the bounded reference list.\<close>

lemma run_refines:
  assumes "wf q" "list_all (qop_ok ok) ops"
  shows "(case queue_run enq deq q ops of (acc, out, q') \<Rightarrow> (acc, out, contents q'))
       = queue_run (spec_enq (bound q)) spec_deq (contents q) ops"
  using assms
proof (induction ops arbitrary: q)
  case Nil
  then show ?case by simp
next
  case (Cons op ops)
  show ?case
  proof (cases op)
    case (Enq x)
    show ?thesis
    proof (cases "enq q x")
      case None
      then have "spec_enq (bound q) (contents q) x = None"
        using enq_NoneD [of q x] Cons.prems Enq by (auto simp: spec_enq_def)
      then show ?thesis using Cons Enq None by simp
    next
      case (Some r)
      then have r: "wf r" "contents r = contents q @ [x]" "bound r = bound q"
        and "length (contents q) < bound q"
        using enq_SomeD [of q x r] Cons.prems Enq by auto
      then have "spec_enq (bound q) (contents q) x = Some (contents r)"
        by (simp add: spec_enq_def)
      then show ?thesis
        using Cons.IH [of r] Cons.prems Enq Some r by (auto split: prod.splits)
    qed
  next
    case Deq
    show ?thesis
    proof (cases "deq q")
      case None
      then show ?thesis using Cons Deq deq_NoneD [of q] by simp
    next
      case (Some yr)
      then obtain y r where yr: "deq q = Some (y, r)" by (cases yr) auto
      then have "wf r" "contents q = y # contents r" "bound r = bound q"
        using deq_SomeD [of q y r] Cons.prems by auto
      then show ?thesis
        using Cons.IH [of r] Cons.prems Deq yr by (auto split: prod.splits)
    qed
  qed
qed

text \<open>On a full queue every enqueue is rejected, on an empty one every dequeue.\<close>

lemma run_full:
  "wf q \<Longrightarrow> list_all ok xs \<Longrightarrow> length (contents q) = bound q
     \<Longrightarrow> queue_run enq deq q (map Enq xs) = ([], [], q)"
  by (induction xs) (auto simp: enq_full)

lemma run_empty:
  "wf q \<Longrightarrow> contents q = [] \<Longrightarrow> queue_run enq deq q (replicate n Deq) = ([], [], q)"
  by (induction n) (auto simp: deq_empty)

text \<open>Enough dequeues deliver the whole contents in order and leave the queue empty.\<close>

lemma run_drain:
  assumes "wf q" "length (contents q) \<le> n"
  shows "\<exists>q'. queue_run enq deq q (replicate n Deq) = ([], contents q, q')
       \<and> wf q' \<and> contents q' = []"
  using assms
proof (induction n arbitrary: q)
  case 0
  then show ?case by simp
next
  case (Suc n)
  show ?case
  proof (cases "contents q")
    case Nil
    then have "deq q = None" using deq_empty [of q] Suc.prems by simp
    then show ?thesis using Suc.IH [of q] Suc.prems Nil by simp
  next
    case (Cons x xs)
    then obtain r where r: "deq q = Some (x, r)" "wf r" "contents r = xs"
      using deq_nonempty [OF Suc.prems(1) Cons] by auto
    then show ?thesis using Suc Cons by (force split: prod.splits)
  qed
qed

end

text \<open>The reference queue is itself an instance of the contract.\<close>

interpretation spec_queue: bounded_queue "spec_enq b" spec_deq "\<lambda>xs. xs"
    "\<lambda>xs. length xs \<le> b" "\<lambda>_. b" "\<lambda>_. True" for b :: nat
  by unfold_locales (auto simp: spec_enq_def)

end
