(* ===== verification/Lockfree_Queue.thy ===== *)
theory Lockfree_Queue
  imports Bounded_Queue
begin

text \<open>
  The lock-free ring queue of \<^verbatim>\<open>new_ProcessPool/src/core/lockfree_queue.c\<close>, one call at a
  time (its interleavings are in \<open>Spsc_Queue\<close>). Pointers are options: a queue or a task
  pointer that may be \<open>NULL\<close> is \<open>None\<close>. The functions \<open>is_power_of_2\<close> and
  \<open>next_power_of_2\<close> are declared in \<^verbatim>\<open>internal.h\<close> but defined nowhere, so they are
  parameters of \<open>queue_create\<close>, as are the results of the two allocations.
\<close>

record 'a lfq =
  lf_head :: u32
  lf_tail :: u32
  lf_capacity :: u32
  lf_mask :: u32
  lf_tasks :: "'a option list"

subsection \<open>Operations\<close>

definition queue_create ::
  "(u32 \<Rightarrow> bool) \<Rightarrow> (u32 \<Rightarrow> u32) \<Rightarrow> bool \<Rightarrow> bool \<Rightarrow> u32 \<Rightarrow> 'a lfq option" where
  "queue_create isp2 np2 queue_mem tasks_mem capacity0 =
     (let capacity = (if capacity0 = 0 \<or> \<not> isp2 capacity0 then np2 capacity0 else capacity0)
      in if capacity > 2 ^ 20 then None
         else if \<not> queue_mem then None
         else if \<not> tasks_mem then None
         else Some \<lparr>lf_head = 0, lf_tail = 0, lf_capacity = capacity, lf_mask = capacity - 1,
                    lf_tasks = replicate (unat capacity) None\<rparr>)"

definition lf_enqueue :: "'a lfq \<Rightarrow> 'a option \<Rightarrow> 'a lfq option" where
  "lf_enqueue q x =
     (let head = lf_head q; tail = lf_tail q
      in if (tail + 1) AND lf_mask q = head AND lf_mask q then None
         else Some (q\<lparr>lf_tasks := (lf_tasks q)[unat (tail AND lf_mask q) := x],
                      lf_tail := tail + 1\<rparr>))"

fun queue_enqueue :: "'a lfq option \<Rightarrow> 'a option \<Rightarrow> bool \<times> 'a lfq option" where
  "queue_enqueue (Some q) (Some task) =
     (case lf_enqueue q (Some task) of None \<Rightarrow> (False, Some q) | Some q' \<Rightarrow> (True, Some q'))"
| "queue_enqueue q t = (False, q)"

definition lf_dequeue :: "'a lfq \<Rightarrow> 'a option \<times> 'a lfq" where
  "lf_dequeue q =
     (let head = lf_head q; tail = lf_tail q
      in if head AND lf_mask q = tail AND lf_mask q then (None, q)
         else (lf_tasks q ! unat (head AND lf_mask q),
               q\<lparr>lf_tasks := (lf_tasks q)[unat (head AND lf_mask q) := None],
                 lf_head := head + 1\<rparr>))"

fun queue_dequeue :: "'a lfq option \<Rightarrow> 'a option \<times> 'a lfq option" where
  "queue_dequeue None = (None, None)"
| "queue_dequeue (Some q) = (case lf_dequeue q of (t, q') \<Rightarrow> (t, Some q'))"

fun queue_is_empty :: "'a lfq option \<Rightarrow> bool" where
  "queue_is_empty None = True"
| "queue_is_empty (Some q) = (lf_head q AND lf_mask q = lf_tail q AND lf_mask q)"

fun queue_is_full :: "'a lfq option \<Rightarrow> bool" where
  "queue_is_full None = True"
| "queue_is_full (Some q) = ((lf_tail q + 1) AND lf_mask q = lf_head q AND lf_mask q)"

fun queue_size :: "'a lfq option \<Rightarrow> u32" where
  "queue_size None = 0"
| "queue_size (Some q) = (lf_tail q - lf_head q) AND lf_mask q"

text \<open>
  The drain loop of \<open>queue_destroy\<close>: it hands every dequeued task to \<open>task_destroy\<close> until
  \<open>queue_dequeue\<close> returns \<open>NULL\<close>. The result is the list of tasks destroyed, in order. It
  stops for every queue, well-formed or not: \<open>tail - head\<close> shrinks with each round.
\<close>

lemma lf_dequeue_decreases:
  assumes "lf_dequeue q = (Some x, q')"
  shows "unat (lf_tail q' - lf_head q') < unat (lf_tail q - lf_head q)"
proof -
  have ne: "lf_head q AND lf_mask q \<noteq> lf_tail q AND lf_mask q"
    and q': "q' = q\<lparr>lf_tasks := (lf_tasks q)[unat (lf_head q AND lf_mask q) := None],
                 lf_head := lf_head q + 1\<rparr>"
    using assms by (auto simp: lf_dequeue_def Let_def split: if_splits)
  then have "lf_tail q - lf_head q \<noteq> 0" by auto
  then have "unat (lf_tail q - lf_head q - 1) < unat (lf_tail q - lf_head q)"
    by (rule measure_unat)
  then show ?thesis by (simp add: q' diff_diff_eq)
qed

function queue_drain :: "'a lfq \<Rightarrow> 'a list" where
  "queue_drain q =
     (case lf_dequeue q of (None, q') \<Rightarrow> [] | (Some task, q') \<Rightarrow> task # queue_drain q')"
  by pat_completeness auto
termination
  by (relation "measure (\<lambda>q. unat (lf_tail q - lf_head q))")
    (auto dest: lf_dequeue_decreases [OF sym])

declare queue_drain.simps [simp del]

fun queue_destroy :: "'a lfq option \<Rightarrow> 'a list" where
  "queue_destroy None = []"
| "queue_destroy (Some q) = queue_drain q"

subsection \<open>Batch operations\<close>

text \<open>
  The copy loops: slot \<open>(pos + i) & mask\<close> receives, or gives up, element \<open>i\<close>.
\<close>

fun batch_write :: "u32 \<Rightarrow> u32 \<Rightarrow> 'a option list \<Rightarrow> 'a option list \<Rightarrow> 'a option list" where
  "batch_write msk pos [] slots = slots"
| "batch_write msk pos (t # ts) slots =
     batch_write msk (pos + 1) ts (slots[unat (pos AND msk) := t])"

fun batch_read :: "u32 \<Rightarrow> u32 \<Rightarrow> nat \<Rightarrow> 'a option list \<Rightarrow> 'a option list \<times> 'a option list" where
  "batch_read msk pos 0 slots = ([], slots)"
| "batch_read msk pos (Suc n) slots =
     (let index = unat (pos AND msk)
      in case batch_read msk (pos + 1) n (slots[index := None]) of
           (ts, slots') \<Rightarrow> (slots ! index # ts, slots'))"

text \<open>
  \<open>queue_enqueue_batch\<close> returns its boolean, the value stored through \<open>enqueued\<close> and the
  queue. Reading past the caller's array is a fault.
\<close>

fun queue_enqueue_batch ::
  "'a lfq option \<Rightarrow> 'a option list option \<Rightarrow> u32 \<Rightarrow> (bool \<times> u32 \<times> 'a lfq option) outcome" where
  "queue_enqueue_batch (Some q) (Some tasks) count =
     (if count = 0 then Done (False, 0, Some q)
      else let head = lf_head q; tail = lf_tail q;
               available = lf_capacity q - ((tail - head) AND lf_mask q) - 1;
               to_enqueue = (if count < available then count else available)
           in if to_enqueue = 0 then Done (False, 0, Some q)
              else if unat to_enqueue > length tasks then Fault
              else Done (True, to_enqueue,
                     Some (q\<lparr>lf_tasks := batch_write (lf_mask q) tail
                                            (take (unat to_enqueue) tasks) (lf_tasks q),
                             lf_tail := tail + to_enqueue\<rparr>)))"
| "queue_enqueue_batch q tasks count = Done (False, 0, q)"

text \<open>
  \<open>queue_dequeue_batch\<close> fills the caller's array of \<open>buf\<close> entries and returns their number.
\<close>

fun queue_dequeue_batch ::
  "'a lfq option \<Rightarrow> nat option \<Rightarrow> u32 \<Rightarrow> ('a option list \<times> u32 \<times> 'a lfq option) outcome" where
  "queue_dequeue_batch (Some q) (Some buf) max_count =
     (if max_count = 0 then Done ([], 0, Some q)
      else let head = lf_head q; tail = lf_tail q;
               available = (tail - head) AND lf_mask q;
               to_dequeue = (if max_count < available then max_count else available)
           in if to_dequeue = 0 then Done ([], 0, Some q)
              else if unat to_dequeue > buf then Fault
              else case batch_read (lf_mask q) head (unat to_dequeue) (lf_tasks q) of
                     (ts, slots) \<Rightarrow>
                       Done (ts, to_dequeue,
                             Some (q\<lparr>lf_tasks := slots, lf_head := head + to_dequeue\<rparr>)))"
| "queue_dequeue_batch q buf max_count = Done ([], 0, q)"

subsection \<open>Statistics\<close>

text \<open>
  \<open>utilization\<close> is a \<open>double\<close>; the floating-point division is the parameter \<open>fdiv\<close>.
\<close>

record 'd queue_stats =
  st_capacity :: u32
  st_size :: u32
  st_head_pos :: u32
  st_tail_pos :: u32
  st_utilization :: 'd
  st_is_empty :: bool
  st_is_full :: bool

fun queue_get_stats :: "(u32 \<Rightarrow> u32 \<Rightarrow> 'd) \<Rightarrow> 'a lfq option \<Rightarrow> 'd queue_stats option" where
  "queue_get_stats fdiv None = None"
| "queue_get_stats fdiv (Some q) =
     Some (let head = lf_head q; tail = lf_tail q; size = (tail - head) AND lf_mask q
      in \<lparr>st_capacity = lf_capacity q, st_size = size,
          st_head_pos = head AND lf_mask q, st_tail_pos = tail AND lf_mask q,
          st_utilization = fdiv size (lf_capacity q - 1),
          st_is_empty = (size = 0), st_is_full = (size = lf_capacity q - 1)\<rparr>)"

subsection \<open>Well-formed queues and their contents\<close>

definition lf_wf :: "'a lfq \<Rightarrow> bool" where
  "lf_wf q \<longleftrightarrow>
     (\<exists>k\<le>20. unat (lf_capacity q) = 2 ^ k \<and> unat (lf_mask q) = 2 ^ k - 1
            \<and> length (lf_tasks q) = 2 ^ k)
     \<and> unat (lf_tail q - lf_head q) < unat (lf_capacity q)
     \<and> None \<notin> set (ring_list ((!) (lf_tasks q)) (unat (lf_capacity q))
                       (unat (lf_head q)) (unat (lf_tail q - lf_head q)))"

definition lf_slots :: "'a lfq \<Rightarrow> 'a option list" where
  "lf_slots q = ring_list ((!) (lf_tasks q)) (unat (lf_capacity q)) (unat (lf_head q))
                  (unat (lf_tail q - lf_head q))"

definition lf_contents :: "'a lfq \<Rightarrow> 'a list" where
  "lf_contents q = map the (lf_slots q)"

definition lf_bound :: "'a lfq \<Rightarrow> nat" where
  "lf_bound q = unat (lf_capacity q) - 1"

lemma length_lf_contents: "length (lf_contents q) = unat (lf_tail q - lf_head q)"
  by (simp add: lf_contents_def lf_slots_def)

lemma lf_wf_size:
  assumes "lf_wf q"
  shows "0 < unat (lf_capacity q)" "unat (lf_capacity q) \<le> 2 ^ 20"
    "length (lf_tasks q) = unat (lf_capacity q)"
    "unat (lf_mask q) = unat (lf_capacity q) - 1"
    "unat (lf_tail q - lf_head q) < unat (lf_capacity q)"
    "None \<notin> set (lf_slots q)"
proof -
  obtain k where k: "k \<le> 20" "unat (lf_capacity q) = 2 ^ k" "unat (lf_mask q) = 2 ^ k - 1"
      "length (lf_tasks q) = 2 ^ k"
    using assms by (auto simp: lf_wf_def)
  moreover have "(2::nat) ^ k \<le> 2 ^ 20"
    using k(1) by (rule power_increasing) simp
  ultimately show "0 < unat (lf_capacity q)" "unat (lf_capacity q) \<le> 2 ^ 20"
    "length (lf_tasks q) = unat (lf_capacity q)"
    "unat (lf_mask q) = unat (lf_capacity q) - 1"
    by simp_all
  show "unat (lf_tail q - lf_head q) < unat (lf_capacity q)" "None \<notin> set (lf_slots q)"
    using assms by (simp_all add: lf_wf_def lf_slots_def)
qed

lemma lf_wf_and:
  assumes "lf_wf q"
  shows "unat (x AND lf_mask q) = unat x mod unat (lf_capacity q)"
proof -
  obtain k where "unat (lf_capacity q) = 2 ^ k" "unat (lf_mask q) = 2 ^ k - 1"
    using assms by (auto simp: lf_wf_def)
  then show ?thesis by (simp add: unat_and_mask)
qed

lemma lf_wf_add:
  fixes a b :: u32
  assumes "lf_wf q"
  shows "unat (a + b) mod unat (lf_capacity q) = (unat a + unat b) mod unat (lf_capacity q)"
proof -
  obtain k where "k \<le> 20" "unat (lf_capacity q) = 2 ^ k"
    using assms by (auto simp: lf_wf_def)
  then show ?thesis by (simp add: unat_add_mod_pow2)
qed

lemma lf_wf_tail:
  assumes "lf_wf q"
  shows "unat (lf_tail q) mod unat (lf_capacity q)
       = (unat (lf_head q) + unat (lf_tail q - lf_head q)) mod unat (lf_capacity q)"
  using lf_wf_add [OF assms, of "lf_head q" "lf_tail q - lf_head q"] by simp

lemma lf_wfI [wf_intros]:
  assumes "k \<le> 20" "unat (lf_capacity q) = 2 ^ k" "unat (lf_mask q) = 2 ^ k - 1"
    "length (lf_tasks q) = 2 ^ k" "unat (lf_tail q - lf_head q) < 2 ^ k"
    "None \<notin> set (lf_slots q)"
  shows "lf_wf q"
  using assms unfolding lf_wf_def lf_slots_def by auto

text \<open>Replacing slots and moving the two counters keeps the shape.\<close>

lemma lf_wf_update:
  assumes "lf_wf q" "length xs = length (lf_tasks q)" "unat (t - h) < unat (lf_capacity q)"
    "None \<notin> set (lf_slots (q\<lparr>lf_tasks := xs, lf_head := h, lf_tail := t\<rparr>))"
  shows "lf_wf (q\<lparr>lf_tasks := xs, lf_head := h, lf_tail := t\<rparr>)"
proof -
  obtain k where "k \<le> 20" "unat (lf_capacity q) = 2 ^ k" "unat (lf_mask q) = 2 ^ k - 1"
      "length (lf_tasks q) = 2 ^ k"
    using assms(1) by (auto simp: lf_wf_def)
  then show ?thesis using assms by (intro lf_wfI [of k]) auto
qed

text \<open>The masked comparisons of the code decide emptiness and fullness.\<close>

lemma lf_empty_iff:
  assumes "lf_wf q"
  shows "lf_head q AND lf_mask q = lf_tail q AND lf_mask q \<longleftrightarrow> lf_contents q = []"
proof -
  let ?n = "unat (lf_capacity q)" and ?c = "unat (lf_tail q - lf_head q)"
  have "lf_head q AND lf_mask q = lf_tail q AND lf_mask q
      \<longleftrightarrow> (unat (lf_head q) + ?c) mod ?n = unat (lf_head q) mod ?n"
    by (metis word_unat_eq_iff lf_wf_and [OF assms] lf_wf_tail [OF assms])
  then show ?thesis
    using lf_wf_size [OF assms] by (simp add: add_mod_eq_self_small lf_contents_def lf_slots_def)
qed

lemma lf_full_iff:
  assumes "lf_wf q"
  shows "(lf_tail q + 1) AND lf_mask q = lf_head q AND lf_mask q
       \<longleftrightarrow> length (lf_contents q) = lf_bound q"
proof -
  let ?n = "unat (lf_capacity q)" and ?c = "unat (lf_tail q - lf_head q)"
  have "unat (lf_tail q + 1) mod ?n = (unat (lf_tail q) mod ?n + 1) mod ?n"
    using lf_wf_add [OF assms, of "lf_tail q" 1] by (simp add: mod_Suc_eq)
  also have "\<dots> = (unat (lf_head q) + Suc ?c) mod ?n"
    by (simp add: lf_wf_tail [OF assms] mod_Suc_eq)
  finally have "(lf_tail q + 1) AND lf_mask q = lf_head q AND lf_mask q
      \<longleftrightarrow> (unat (lf_head q) + Suc ?c) mod ?n = unat (lf_head q) mod ?n"
    by (metis word_unat_eq_iff lf_wf_and [OF assms])
  also have "\<dots> \<longleftrightarrow> Suc ?c = ?n"
    using lf_wf_size [OF assms] by (intro add_mod_eq_self_le) auto
  finally show ?thesis
    using lf_wf_size [OF assms] by (auto simp: length_lf_contents lf_bound_def)
qed

text \<open>The slot written by an enqueue and the slot read by a dequeue.\<close>

lemma lf_slots_enqueue:
  assumes "lf_wf q" "unat (lf_tail q - lf_head q) + 1 < unat (lf_capacity q)"
  shows "lf_slots (q\<lparr>lf_tasks := (lf_tasks q)[unat (lf_tail q AND lf_mask q) := x],
                     lf_tail := lf_tail q + 1\<rparr>) = lf_slots q @ [x]"
    and "unat (lf_tail q + 1 - lf_head q) = Suc (unat (lf_tail q - lf_head q))"
proof -
  note s = lf_wf_size [OF assms(1)]
  have "lf_tail q - lf_head q < lf_capacity q"
    using s by (simp add: word_less_nat_alt)
  then have "unat ((lf_tail q - lf_head q) + 1) = Suc (unat (lf_tail q - lf_head q))"
    by (rule unat_succ_lt)
  then show c: "unat (lf_tail q + 1 - lf_head q) = Suc (unat (lf_tail q - lf_head q))"
    by (simp add: algebra_simps)
  have i: "unat (lf_tail q AND lf_mask q)
      = (unat (lf_head q) + unat (lf_tail q - lf_head q)) mod unat (lf_capacity q)"
    by (simp add: lf_wf_and [OF assms(1)] lf_wf_tail [OF assms(1)])
  show "lf_slots (q\<lparr>lf_tasks := (lf_tasks q)[unat (lf_tail q AND lf_mask q) := x],
                     lf_tail := lf_tail q + 1\<rparr>) = lf_slots q @ [x]"
    using s by (simp add: lf_slots_def c i ring_list_list_update)
qed

lemma lf_slots_dequeue:
  assumes "lf_wf q" "lf_tail q - lf_head q \<noteq> 0"
  shows "lf_slots q = lf_tasks q ! unat (lf_head q AND lf_mask q)
           # lf_slots (q\<lparr>lf_tasks := (lf_tasks q)[unat (lf_head q AND lf_mask q) := None],
                         lf_head := lf_head q + 1\<rparr>)"
    and "unat (lf_tail q - (lf_head q + 1)) = unat (lf_tail q - lf_head q) - 1"
proof -
  let ?n = "unat (lf_capacity q)" and ?c = "unat (lf_tail q - lf_head q)"
  note s = lf_wf_size [OF assms(1)]
  have "unat ((lf_tail q - lf_head q) - 1) = ?c - 1"
    using assms(2) by (rule unat_minus_one)
  then show c: "unat (lf_tail q - (lf_head q + 1)) = ?c - 1"
    by (simp add: diff_diff_eq)
  have pos: "?c = Suc (?c - 1)" using assms(2) by (simp add: unat_eq_0 [symmetric])
  have h: "unat (lf_head q + 1) mod ?n = Suc (unat (lf_head q)) mod ?n"
    using lf_wf_add [OF assms(1), of "lf_head q" 1] by simp
  have "lf_slots q = (lf_tasks q) ! (unat (lf_head q) mod ?n)
        # ring_list ((!) (lf_tasks q)) ?n (Suc (unat (lf_head q))) (?c - 1)"
    unfolding lf_slots_def by (subst pos) (rule ring_list_Suc_front)
  also have "ring_list ((!) (lf_tasks q)) ?n (Suc (unat (lf_head q))) (?c - 1)
      = ring_list ((!) ((lf_tasks q)[unat (lf_head q) mod ?n := None])) ?n
          (Suc (unat (lf_head q))) (?c - 1)"
    using s by (intro ring_list_list_clear [symmetric]) auto
  also have "\<dots> = ring_list ((!) ((lf_tasks q)[unat (lf_head q) mod ?n := None])) ?n
          (unat (lf_head q + 1)) (?c - 1)"
    by (metis ring_list_mod h)
  finally show "lf_slots q = lf_tasks q ! unat (lf_head q AND lf_mask q)
           # lf_slots (q\<lparr>lf_tasks := (lf_tasks q)[unat (lf_head q AND lf_mask q) := None],
                         lf_head := lf_head q + 1\<rparr>)"
    by (simp add: lf_slots_def lf_wf_and [OF assms(1)] c)
qed

subsection \<open>The queue is a bounded FIFO\<close>

text \<open>The calls on a live queue, in the shape of the queue contract.\<close>

definition lf_put :: "'a lfq \<Rightarrow> 'a \<Rightarrow> 'a lfq option" where
  "lf_put q x = (case queue_enqueue (Some q) (Some x) of (ok, q') \<Rightarrow> if ok then q' else None)"

definition lf_get :: "'a lfq \<Rightarrow> ('a \<times> 'a lfq) option" where
  "lf_get q = (case queue_dequeue (Some q) of (Some x, Some q') \<Rightarrow> Some (x, q') | _ \<Rightarrow> None)"

lemma lf_put_eq: "lf_put q x = lf_enqueue q (Some x)"
  by (simp add: lf_put_def split: option.splits)

lemma lf_get_eq:
  "lf_get q = (case lf_dequeue q of (None, q') \<Rightarrow> None | (Some x, q') \<Rightarrow> Some (x, q'))"
  by (auto simp: lf_get_def split: option.splits prod.splits)

lemma lf_enqueue_full:
  assumes "lf_wf q"
  shows "lf_enqueue q x = None \<longleftrightarrow> length (lf_contents q) = lf_bound q"
  using lf_full_iff [OF assms] by (simp add: lf_enqueue_def Let_def)

lemma lf_enqueue_room:
  assumes "lf_wf q" "length (lf_contents q) < lf_bound q"
  shows "\<exists>q'. lf_enqueue q (Some x) = Some q' \<and> lf_wf q'
       \<and> lf_contents q' = lf_contents q @ [x] \<and> lf_bound q' = lf_bound q"
proof -
  let ?q = "q\<lparr>lf_tasks := (lf_tasks q)[unat (lf_tail q AND lf_mask q) := Some x],
              lf_tail := lf_tail q + 1\<rparr>"
  have room: "unat (lf_tail q - lf_head q) + 1 < unat (lf_capacity q)"
    using assms(2) by (simp add: length_lf_contents lf_bound_def)
  note e = lf_slots_enqueue [OF assms(1) room]
  have "lf_enqueue q (Some x) = Some ?q"
    using lf_full_iff [OF assms(1)] assms(2) by (simp add: lf_enqueue_def Let_def)
  moreover have "lf_wf ?q"
    using lf_wf_update [OF assms(1), of "(lf_tasks q)[unat (lf_tail q AND lf_mask q) := Some x]"
        "lf_tail q + 1" "lf_head q"] e(1) [of "Some x"] e(2) room lf_wf_size(6) [OF assms(1)]
    by simp
  moreover have "lf_contents ?q = lf_contents q @ [x]"
    by (simp add: lf_contents_def e)
  ultimately show ?thesis by (simp add: lf_bound_def)
qed

lemma lf_dequeue_empty:
  "lf_wf q \<Longrightarrow> lf_contents q = [] \<Longrightarrow> lf_dequeue q = (None, q)"
  using lf_empty_iff [of q] by (simp add: lf_dequeue_def)

lemma lf_dequeue_nonempty:
  assumes "lf_wf q" "lf_contents q = x # xs"
  shows "\<exists>q'. lf_dequeue q = (Some x, q') \<and> lf_wf q' \<and> lf_contents q' = xs
       \<and> lf_bound q' = lf_bound q"
proof -
  let ?q = "q\<lparr>lf_tasks := (lf_tasks q)[unat (lf_head q AND lf_mask q) := None],
              lf_head := lf_head q + 1\<rparr>"
  let ?t = "lf_tasks q ! unat (lf_head q AND lf_mask q)"
  have "length (lf_contents q) \<noteq> 0" using assms(2) by simp
  then have ne: "lf_tail q - lf_head q \<noteq> 0"
    by (metis length_lf_contents unat_0)
  note d = lf_slots_dequeue [OF assms(1) ne]
  note s = lf_wf_size [OF assms(1)]
  have t: "?t = Some x" and tl: "lf_contents ?q = xs" and "None \<notin> set (lf_slots ?q)"
    using d(1) s(6) assms(2) by (cases ?t; auto simp: lf_contents_def)+
  moreover have "unat (lf_tail q - (lf_head q + 1)) < unat (lf_capacity q)"
    using d(2) s(5) by simp
  ultimately have "lf_wf ?q"
    using lf_wf_update [OF assms(1), of "(lf_tasks q)[unat (lf_head q AND lf_mask q) := None]"
        "lf_tail q" "lf_head q + 1"] by simp
  moreover have "lf_dequeue q = (Some x, ?q)"
    using lf_empty_iff [OF assms(1)] assms(2) t by (simp add: lf_dequeue_def Let_def)
  ultimately show ?thesis using tl by (simp add: lf_bound_def)
qed

interpretation lfq: bounded_queue lf_put lf_get lf_contents lf_wf lf_bound "\<lambda>_. True"
proof (unfold_locales, goal_cases)
  case (1 q)
  then show ?case using lf_wf_size(5) [of q] by (simp add: length_lf_contents lf_bound_def)
next
  case (2 q x)
  then show ?case using lf_enqueue_full [of q] by (simp add: lf_put_eq)
next
  case (3 q x)
  then show ?case using lf_enqueue_room [of q x] by (simp add: lf_put_eq)
next
  case (4 q)
  then show ?case using lf_dequeue_empty [of q] by (simp add: lf_get_eq)
next
  case (5 q x xs)
  then show ?case using lf_dequeue_nonempty [of q x xs] by (auto simp: lf_get_eq)
qed

lemma queue_size_contents:
  assumes "lf_wf q"
  shows "unat (queue_size (Some q)) = length (lf_contents q)"
  using lf_wf_and [OF assms] lf_wf_size(5) [OF assms] by (simp add: length_lf_contents)

lemma queue_create_wf:
  assumes "\<And>n. isp2 n \<Longrightarrow> \<exists>k. unat n = 2 ^ k"
    and "\<And>n. n \<le> 2 ^ 31 \<Longrightarrow> \<exists>k. unat (np2 n) = 2 ^ k"
    and "capacity \<le> 2 ^ 31" "queue_create isp2 np2 m1 m2 capacity = Some q"
  shows "lf_wf q \<and> lf_contents q = [] \<and> lf_head q = 0 \<and> lf_tail q = 0"
proof -
  obtain c where c: "\<exists>k. unat c = 2 ^ k" "c \<le> 2 ^ 20"
    and q: "q = \<lparr>lf_head = 0, lf_tail = 0, lf_capacity = c, lf_mask = c - 1,
                 lf_tasks = replicate (unat c) None\<rparr>"
    using assms by (auto simp: queue_create_def Let_def not_less split: if_splits)
  obtain k where k: "unat c = 2 ^ k" using c(1) by blast
  have "unat c \<le> 2 ^ 20" using c(2) by (simp add: word_le_nat_alt)
  then have "k \<le> 20" using k by (simp add: power_le_imp_le_exp [of "2::nat" k 20])
  moreover have "c \<noteq> 0" using k by (auto simp: unat_eq_0 [symmetric])
  then have "unat (c - 1) = 2 ^ k - 1" using k by (simp add: unat_minus_one)
  ultimately have "lf_wf q" using k by (intro lf_wfI [of k]) (auto simp: q lf_slots_def)
  then show ?thesis by (simp add: q lf_contents_def lf_slots_def)
qed

text \<open>Draining delivers the contents in order.\<close>

lemma queue_drain_contents: "lf_wf q \<Longrightarrow> queue_drain q = lf_contents q"
proof (induction "lf_contents q" arbitrary: q)
  case Nil
  then show ?case using lf_dequeue_empty [of q] by (simp add: queue_drain.simps [of q])
next
  case (Cons x xs)
  then obtain q' where q': "lf_dequeue q = (Some x, q')" "lf_wf q'" "lf_contents q' = xs"
    using lf_dequeue_nonempty [of q x xs] by auto
  then show ?case using Cons.hyps(1) [of q'] Cons.hyps(2) by (simp add: queue_drain.simps [of q])
qed

subsection \<open>The batch operations and their one-by-one reference\<close>

lemma lf_put_explicit:
  assumes "lf_wf q" "length (lf_contents q) < lf_bound q"
  shows "lf_put q x = Some (q\<lparr>lf_tasks := (lf_tasks q)[unat (lf_tail q AND lf_mask q) := Some x],
                               lf_tail := lf_tail q + 1\<rparr>)"
  using assms lf_full_iff [OF assms(1)] by (simp add: lf_put_eq lf_enqueue_def Let_def)

lemma lf_get_explicit:
  assumes "lf_wf q" "lf_contents q = x # xs"
  shows "lf_get q = Some (x, q\<lparr>lf_tasks := (lf_tasks q)[unat (lf_head q AND lf_mask q) := None],
                               lf_head := lf_head q + 1\<rparr>)"
    and "lf_tasks q ! unat (lf_head q AND lf_mask q) = Some x"
proof -
  obtain q' where q': "lf_dequeue q = (Some x, q')"
    using lf_dequeue_nonempty [OF assms] by auto
  then show "lf_tasks q ! unat (lf_head q AND lf_mask q) = Some x"
    "lf_get q = Some (x, q\<lparr>lf_tasks := (lf_tasks q)[unat (lf_head q AND lf_mask q) := None],
                               lf_head := lf_head q + 1\<rparr>)"
    by (auto simp: lf_get_eq lf_dequeue_def Let_def split: if_splits)
qed

lemma run_enqueues:
  assumes "lf_wf q" "length (lf_contents q) + length xs \<le> lf_bound q"
  shows "queue_run lf_put lf_get q (map Enq xs) =
     (xs, [], q\<lparr>lf_tasks := batch_write (lf_mask q) (lf_tail q) (map Some xs) (lf_tasks q),
                lf_tail := lf_tail q + of_nat (length xs)\<rparr>)"
  using assms
proof (induction xs arbitrary: q)
  case Nil
  then show ?case by simp
next
  case (Cons x xs)
  let ?q = "q\<lparr>lf_tasks := (lf_tasks q)[unat (lf_tail q AND lf_mask q) := Some x],
              lf_tail := lf_tail q + 1\<rparr>"
  have put: "lf_put q x = Some ?q"
    using Cons.prems by (intro lf_put_explicit) auto
  then have "lf_wf ?q" "lf_contents ?q = lf_contents q @ [x]" "lf_bound ?q = lf_bound q"
    using lfq.enq_SomeD [OF Cons.prems(1) TrueI put] by auto
  then show ?case
    using Cons.IH [of ?q] Cons.prems put by (simp add: add.assoc)
qed

lemma run_dequeues:
  assumes "lf_wf q" "n \<le> length (lf_contents q)"
  shows "\<exists>slots. queue_run lf_put lf_get q (replicate n Deq) =
           ([], take n (lf_contents q), q\<lparr>lf_tasks := slots, lf_head := lf_head q + of_nat n\<rparr>)
       \<and> batch_read (lf_mask q) (lf_head q) n (lf_tasks q)
         = (map Some (take n (lf_contents q)), slots)"
  using assms
proof (induction n arbitrary: q)
  case 0
  have "q\<lparr>lf_tasks := lf_tasks q, lf_head := lf_head q\<rparr> = q" by simp
  then show ?case by simp
next
  case (Suc n)
  then obtain x xs where c: "lf_contents q = x # xs" by (cases "lf_contents q") auto
  let ?q = "q\<lparr>lf_tasks := (lf_tasks q)[unat (lf_head q AND lf_mask q) := None],
              lf_head := lf_head q + 1\<rparr>"
  note get = lf_get_explicit [OF Suc.prems(1) c]
  then have "lf_wf ?q" "lf_contents ?q = xs"
    using lfq.deq_SomeD [OF Suc.prems(1) get(1)] c by auto
  then show ?case
    using Suc.IH [of ?q] Suc.prems get c by (auto simp: add.assoc Let_def)
qed

lemma unat_available:
  assumes "lf_wf q"
  shows "unat (lf_capacity q - ((lf_tail q - lf_head q) AND lf_mask q) - 1)
       = lf_bound q - length (lf_contents q)"
proof -
  let ?s = "(lf_tail q - lf_head q) AND lf_mask q"
  have s: "unat ?s = length (lf_contents q)"
    using queue_size_contents [OF assms] by simp
  have lt: "unat ?s < unat (lf_capacity q)"
    using lf_wf_size(5) [OF assms] by (simp add: s length_lf_contents)
  then have "unat (lf_capacity q - ?s) = unat (lf_capacity q) - unat ?s"
    by (intro unat_sub) (simp add: word_le_nat_alt)
  moreover from this lt have "lf_capacity q - ?s \<noteq> 0"
    by (metis unat_0 zero_less_diff less_numeral_extra(3))
  ultimately show ?thesis
    using s by (simp add: unat_minus_one lf_bound_def)
qed

lemma unat_min_count:
  fixes a :: u32
  assumes "n < 2 ^ 32"
  shows "unat (if of_nat n < a then of_nat n else a) = min n (unat a)"
  using assms by (simp add: word_less_nat_alt unat_of_nat min_def)

subsection \<open>Properties\<close>

text \<open>C40. A queue made by \<open>queue_create\<close> behaves, over every sequence of \<open>queue_enqueue\<close>
  and \<open>queue_dequeue\<close> calls, exactly like a FIFO list bounded by capacity - 1: the same
  calls are accepted, the same elements come out in the same order, and what is left in the
  ring is the rest of the list.\<close>

theorem queue_refines_bounded_list:
  assumes "\<And>n. isp2 n \<longleftrightarrow> (\<exists>k. unat n = 2 ^ k)"
    and "\<And>n. n \<le> 2 ^ 31 \<Longrightarrow> \<exists>k. unat (np2 n) = 2 ^ k"
    and "capacity \<le> 2 ^ 31" "queue_create isp2 np2 m1 m2 capacity = Some q"
  shows "(case queue_run lf_put lf_get q ops of (acc, out, q') \<Rightarrow> (acc, out, lf_contents q'))
       = queue_run (spec_enq (lf_bound q)) spec_deq [] ops"
proof -
  have "lf_wf q \<and> lf_contents q = []"
    using queue_create_wf [of isp2 np2 capacity m1 m2 q] assms by blast
  then show ?thesis using lfq.run_refines [of q ops] by simp
qed

theorem queue_refines_bounded_list_witness:
  "\<exists>q :: nat lfq. queue_create pow2_test pow2_ceil True True 4 = Some q
     \<and> (case queue_run lf_put lf_get q [Enq 7, Enq 8, Deq, Enq 9, Enq 10, Enq 11, Deq] of
          (acc, out, q') \<Rightarrow> (acc, out, lf_contents q')) = ([7, 8, 9, 10], [7, 8], [9, 10])"
proof -
  obtain q :: "nat lfq" where q: "queue_create pow2_test pow2_ceil True True 4 = Some q"
    by (simp add: queue_create_def)
  then have b: "lf_bound q = 3"
    by (auto simp: queue_create_def lf_bound_def)
  show ?thesis
    using queue_refines_bounded_list
        [OF pow2_test_iff pow2_ceil_pow2 _ q, of "[Enq 7, Enq 8, Deq, Enq 9, Enq 10, Enq 11, Deq]"]
      q by (simp add: b spec_enq_def)
qed

text \<open>\<open>queue_enqueue_batch\<close> leaves the queue, and reports the count, exactly as calling
  \<open>queue_enqueue\<close> on the tasks one by one would: it takes the longest prefix that fits.\<close>

theorem queue_enqueue_batch_equiv:
  assumes "lf_wf q" "length xs < 2 ^ 32"
  shows "\<exists>acc q'. queue_run lf_put lf_get q (map Enq xs) = (acc, [], q')
       \<and> acc = take (lf_bound q - length (lf_contents q)) xs
       \<and> queue_enqueue_batch (Some q) (Some (map Some xs)) (of_nat (length xs))
           = Done (acc \<noteq> [], of_nat (length acc), Some q')"
proof -
  let ?room = "lf_bound q - length (lf_contents q)"
  let ?n = "min (length xs) ?room"
  let ?a = "lf_capacity q - ((lf_tail q - lf_head q) AND lf_mask q) - 1"
  let ?t = "if of_nat (length xs) < ?a then of_nat (length xs) else ?a"
  let ?q = "q\<lparr>lf_tasks := batch_write (lf_mask q) (lf_tail q) (map Some (take ?n xs)) (lf_tasks q),
              lf_tail := lf_tail q + of_nat ?n\<rparr>"
  have le: "length (lf_contents q) \<le> lf_bound q" by (rule lfq.length_bound [OF assms(1)])
  have t: "unat ?t = ?n"
    by (simp only: unat_min_count [OF assms(2)] unat_available [OF assms(1)])
  then have tw: "?t = of_nat ?n" by (rule eq_of_nat_unat)
  have run: "queue_run lf_put lf_get q (map Enq (take ?n xs)) = (take ?n xs, [], ?q)"
    using run_enqueues [OF assms(1), of "take ?n xs"] le by simp
  have "queue_run lf_put lf_get ?q (map Enq (drop ?n xs)) = ([], [], ?q)"
  proof (cases "length xs \<le> ?room")
    case False
    have "list_all (qop_ok (\<lambda>_. True)) (map Enq (take ?n xs))" by (rule list_all_qop_ok_True)
    note f = lfq.run_fifo [OF assms(1) this run]
    then have "length (lf_contents q @ take ?n xs) = length (lf_contents ?q)" by (metis append_Nil)
    then have "length (lf_contents ?q) = lf_bound ?q" "lf_wf ?q"
      using False le f by auto
    then show ?thesis by (intro lfq.run_full) (auto simp: list_all_length)
  qed simp
  then have "queue_run lf_put lf_get q (map Enq (take ?n xs @ drop ?n xs)) = (take ?n xs, [], ?q)"
    by (simp only: map_append queue_run_append run prod.case append_Nil append_Nil2)
  then have "queue_run lf_put lf_get q (map Enq xs) = (take ?n xs, [], ?q)" by simp
  moreover have "queue_enqueue_batch (Some q) (Some (map Some xs)) (of_nat (length xs))
      = Done (take ?n xs \<noteq> [], of_nat ?n, Some ?q)"
  proof (cases "?n = 0")
    case True
    then have "?t = 0" using tw by simp
    moreover have "?q = q" using True by auto
    ultimately show ?thesis using True by (simp add: Let_def)
  next
    case False
    then have "?t \<noteq> 0" "of_nat (length xs) \<noteq> (0::u32)"
      using t assms(2) by (auto simp: unat_eq_0 [symmetric] unat_of_nat)
    then show ?thesis using False t tw by (simp add: Let_def take_map)
  qed
  ultimately show ?thesis by (intro exI [of _ "take ?n xs"] exI [of _ ?q]) (simp add: min_def)
qed

lemma lf_wf_example:
  "lf_wf \<lparr>lf_head = 4294967294, lf_tail = 4294967295, lf_capacity = 4, lf_mask = 3,
          lf_tasks = [None, None, Some (5::nat), None]\<rparr>"
  by (rule lf_wfI [of 2]) (simp_all add: lf_slots_def ring_list_def)

theorem queue_enqueue_batch_equiv_witness:
  "\<exists>acc q'. queue_run lf_put lf_get
       \<lparr>lf_head = 4294967294, lf_tail = 4294967295, lf_capacity = 4, lf_mask = 3,
        lf_tasks = [None, None, Some (5::nat), None]\<rparr> (map Enq [6, 7, 8]) = (acc, [], q')
     \<and> acc = [6, 7] \<and> lf_tail q' = 1"
proof -
  let ?q = "\<lparr>lf_head = 4294967294, lf_tail = 4294967295, lf_capacity = 4, lf_mask = 3,
        lf_tasks = [None, None, Some (5::nat), None]\<rparr>"
  have "length [6, 7, 8 :: nat] < 2 ^ 32" by simp
  from queue_enqueue_batch_equiv [OF lf_wf_example this]
  obtain acc q' where r: "queue_run lf_put lf_get ?q (map Enq [6, 7, 8]) = (acc, [], q')"
    and a: "acc = take (lf_bound ?q - length (lf_contents ?q)) [6, 7, 8]"
    and b: "queue_enqueue_batch (Some ?q) (Some (map Some [6, 7, 8])) (of_nat (length [6, 7, 8 :: nat]))
             = Done (acc \<noteq> [], of_nat (length acc), Some q')"
    by blast
  have "acc = [6, 7]" using a by (simp add: lf_bound_def length_lf_contents)
  moreover have "lf_tail q' = 1" using b by (auto simp: Let_def)
  ultimately show ?thesis using r by blast
qed

text \<open>\<open>queue_dequeue_batch\<close> delivers the tasks, and leaves the queue, exactly as calling
  \<open>queue_dequeue\<close> the same number of times would.\<close>

theorem queue_dequeue_batch_equiv:
  assumes "lf_wf q" "n < 2 ^ 32" "n \<le> buf"
  shows "\<exists>out q'. queue_run lf_put lf_get q (replicate n Deq) = ([], out, q')
       \<and> out = take n (lf_contents q)
       \<and> queue_dequeue_batch (Some q) (Some buf) (of_nat n)
           = Done (map Some out, of_nat (length out), Some q')"
proof -
  let ?m = "min n (length (lf_contents q))"
  let ?a = "(lf_tail q - lf_head q) AND lf_mask q"
  let ?t = "if of_nat n < ?a then of_nat n else ?a"
  have a: "unat ?a = length (lf_contents q)"
    using queue_size_contents [OF assms(1)] by simp
  have t: "unat ?t = ?m"
    by (simp only: unat_min_count [OF assms(2)] a)
  then have tw: "?t = of_nat ?m" by (rule eq_of_nat_unat)
  obtain slots where run: "queue_run lf_put lf_get q (replicate ?m Deq) =
      ([], take ?m (lf_contents q), q\<lparr>lf_tasks := slots, lf_head := lf_head q + of_nat ?m\<rparr>)"
    and rd: "batch_read (lf_mask q) (lf_head q) ?m (lf_tasks q)
         = (map Some (take ?m (lf_contents q)), slots)"
    using run_dequeues [OF assms(1), of ?m] by auto
  let ?q = "q\<lparr>lf_tasks := slots, lf_head := lf_head q + of_nat ?m\<rparr>"
  have "queue_run lf_put lf_get ?q (replicate (n - ?m) Deq) = ([], [], ?q)"
  proof (cases "n \<le> length (lf_contents q)")
    case False
    note f = lfq.run_fifo [OF assms(1) list_all_Deq run]
    then have "lf_wf ?q" "lf_contents ?q = []"
      using False by (auto simp: min_def)
    then show ?thesis by (rule lfq.run_empty)
  qed simp
  then have "queue_run lf_put lf_get q (replicate ?m Deq @ replicate (n - ?m) Deq)
      = ([], take ?m (lf_contents q), ?q)"
    by (simp only: queue_run_append run prod.case append_Nil append_Nil2)
  moreover have "replicate ?m Deq @ replicate (n - ?m) Deq = replicate n (Deq :: 'a qop)"
    by (simp add: replicate_add [symmetric] min_def)
  moreover have "take ?m (lf_contents q) = take n (lf_contents q)" by (simp add: min_def)
  moreover have "queue_dequeue_batch (Some q) (Some buf) (of_nat n)
      = Done (map Some (take ?m (lf_contents q)), of_nat ?m, Some ?q)"
  proof (cases "?m = 0")
    case True
    then have "?t = 0" using tw by simp
    moreover have "?q = q" using True rd by auto
    ultimately show ?thesis using True by (simp add: Let_def)
  next
    case False
    then have "?t \<noteq> 0" "of_nat n \<noteq> (0::u32)"
      using t assms(2) by (auto simp: unat_eq_0 [symmetric] unat_of_nat)
    moreover have "\<not> unat ?t > buf" using t assms(3) by simp
    moreover have "batch_read (lf_mask q) (lf_head q) (unat ?t) (lf_tasks q)
         = (map Some (take ?m (lf_contents q)), slots)" using rd by (simp only: t)
    ultimately show ?thesis using tw by (simp add: Let_def)
  qed
  ultimately show ?thesis
    by (intro exI [of _ "take ?m (lf_contents q)"] exI [of _ ?q]) (simp add: min_def)
qed

theorem queue_dequeue_batch_equiv_witness:
  "\<exists>out q'. queue_run lf_put lf_get
       \<lparr>lf_head = 4294967294, lf_tail = 4294967295, lf_capacity = 4, lf_mask = 3,
        lf_tasks = [None, None, Some (5::nat), None]\<rparr> (replicate 3 Deq) = ([], out, q')
     \<and> out = [5] \<and> lf_head q' = 4294967295"
proof -
  let ?q = "\<lparr>lf_head = 4294967294, lf_tail = 4294967295, lf_capacity = 4, lf_mask = 3,
        lf_tasks = [None, None, Some (5::nat), None]\<rparr>"
  have "(3::nat) < 2 ^ 32" "(3::nat) \<le> 8" by simp_all
  from queue_dequeue_batch_equiv [OF lf_wf_example this]
  obtain out q' where r: "queue_run lf_put lf_get ?q (replicate 3 Deq) = ([], out, q')"
    and o: "out = take 3 (lf_contents ?q)"
    and b: "queue_dequeue_batch (Some ?q) (Some 8) (of_nat 3)
             = Done (map Some out, of_nat (length out), Some q')"
    by blast
  have "out = [5]" using o by (simp add: lf_contents_def lf_slots_def ring_list_def)
  moreover have "lf_head q' = 4294967295" using b by (auto simp: Let_def split: prod.splits)
  ultimately show ?thesis using r by blast
qed

text \<open>The queries agree with the contents and with each other: \<open>queue_size\<close> is the number
  of tasks, \<open>queue_is_empty\<close> and \<open>queue_is_full\<close> and the flags of \<open>queue_get_stats\<close> say
  whether that number is 0 or capacity - 1, \<open>queue_enqueue\<close> fails exactly on a full queue,
  and \<open>queue_destroy\<close> destroys exactly the remaining tasks, in order.\<close>

theorem queue_queries_agree:
  assumes "lf_wf q"
  shows "unat (queue_size (Some q)) = length (lf_contents q)
    \<and> queue_is_empty (Some q) = (lf_contents q = [])
    \<and> queue_is_full (Some q) = (length (lf_contents q) = lf_bound q)
    \<and> (fst (queue_enqueue (Some q) (Some x)) \<longleftrightarrow> \<not> queue_is_full (Some q))
    \<and> queue_destroy (Some q) = lf_contents q
    \<and> (\<exists>st. queue_get_stats fdiv (Some q) = Some st
         \<and> st_size st = queue_size (Some q)
         \<and> st_is_empty st = queue_is_empty (Some q) \<and> st_is_full st = queue_is_full (Some q))"
proof -
  have s: "unat (queue_size (Some q)) = length (lf_contents q)"
    by (rule queue_size_contents [OF assms])
  have "lf_capacity q \<noteq> 0" using lf_wf_size(1) [OF assms] by (auto simp: unat_eq_0 [symmetric])
  then have c: "unat (lf_capacity q - 1) = lf_bound q" by (simp add: unat_minus_one lf_bound_def)
  have e: "queue_is_empty (Some q) = (lf_contents q = [])"
    using lf_empty_iff [OF assms] by simp
  have f: "queue_is_full (Some q) = (length (lf_contents q) = lf_bound q)"
    using lf_full_iff [OF assms] by simp
  have "(queue_size (Some q) = 0) = (lf_contents q = [])"
    by (metis s unat_eq_0 length_0_conv)
  moreover have "(queue_size (Some q) = lf_capacity q - 1) = (length (lf_contents q) = lf_bound q)"
    by (metis s c word_unat_eq_iff)
  moreover have "fst (queue_enqueue (Some q) (Some x)) \<longleftrightarrow> \<not> queue_is_full (Some q)"
    by (simp add: lf_enqueue_def Let_def)
  ultimately show ?thesis
    using s e f queue_drain_contents [OF assms] by (simp add: Let_def)
qed

theorem queue_queries_agree_witness:
  "unat (queue_size (Some \<lparr>lf_head = 4294967294, lf_tail = 4294967295, lf_capacity = 4,
      lf_mask = 3, lf_tasks = [None, None, Some (5::nat), None]\<rparr>)) = 1"
  using queue_queries_agree [OF lf_wf_example, of 0 "\<lambda>_ _. ()"]
  by (simp add: length_lf_contents)

text \<open>A queue of capacity 1, which \<open>validate_config\<close> accepts and \<open>queue_create\<close> builds,
  is empty and full at once and rejects every task: one slot is always kept free.\<close>

theorem queue_capacity_one_rejects:
  assumes "isp2 1"
  shows "\<exists>q. queue_create isp2 np2 True True 1 = Some q
     \<and> queue_is_empty (Some q) \<and> queue_is_full (Some q)
     \<and> queue_enqueue (Some q) (Some x) = (False, Some q)"
  using assms by (simp add: queue_create_def Let_def lf_enqueue_def)

theorem queue_capacity_one_rejects_witness:
  "\<exists>q. queue_create pow2_test pow2_ceil True True 1 = Some q
     \<and> queue_enqueue (Some q) (Some (7::nat)) = (False, Some q)"
  using queue_capacity_one_rejects [of pow2_test pow2_ceil "7::nat"] by auto

end
