(* ===== verification/Spsc_Queue.thy ===== *)
theory Spsc_Queue
  imports Lockfree_Queue
begin

text \<open>
  The interleavings of \<open>queue_enqueue\<close> and \<open>queue_dequeue\<close>
  (\<^verbatim>\<open>lockfree_queue.c\<close>, lines 63-115). Every atomic load and store and every slot access
  is a step of its own; the program counters carry the local variables. The accesses are
  sequentially consistent (\<open>ATOMIC_LOAD\<close>, \<open>ATOMIC_STORE\<close> and the fence are
  \<open>memory_order_seq_cst\<close>). Producers are numbered; the file promises correctness for a
  single one (SPSC). \<open>produced\<close> and \<open>consumed\<close> are the history of the calls that returned:
  the tasks accepted and the pointers delivered.
\<close>

datatype 'a producer_pc =
    PIdle
  | PLoadedHead 'a u32
  | PLoadedBoth 'a u32 u32
  | PWritten 'a u32

datatype 'a consumer_pc =
    CIdle
  | CLoadedHead u32
  | CLoadedBoth u32 u32
  | CRead u32 "'a option"
  | CCleared u32 "'a option"

record 'a spsc =
  sq :: "'a lfq"
  producers :: "nat \<Rightarrow> 'a producer_pc"
  consumer :: "'a consumer_pc"
  produced :: "'a list"
  consumed :: "'a option list"

text \<open>Producer \<open>i\<close> makes one step; an idle one starts enqueuing \<open>x\<close>.\<close>

definition producer_step :: "nat \<Rightarrow> 'a \<Rightarrow> 'a spsc \<Rightarrow> 'a spsc" where
  "producer_step i x s =
     (let q = sq s in
      case producers s i of
        PIdle \<Rightarrow> s\<lparr>producers := (producers s)(i := PLoadedHead x (lf_head q))\<rparr>
      | PLoadedHead y head \<Rightarrow>
          s\<lparr>producers := (producers s)(i := PLoadedBoth y head (lf_tail q))\<rparr>
      | PLoadedBoth y head tail \<Rightarrow>
          if (tail + 1) AND lf_mask q = head AND lf_mask q
          then s\<lparr>producers := (producers s)(i := PIdle)\<rparr>
          else s\<lparr>sq := q\<lparr>lf_tasks := (lf_tasks q)[unat (tail AND lf_mask q) := Some y]\<rparr>,
                 producers := (producers s)(i := PWritten y tail)\<rparr>
      | PWritten y tail \<Rightarrow>
          s\<lparr>sq := q\<lparr>lf_tail := tail + 1\<rparr>, producers := (producers s)(i := PIdle),
            produced := produced s @ [y]\<rparr>)"

definition consumer_step :: "'a spsc \<Rightarrow> 'a spsc" where
  "consumer_step s =
     (let q = sq s in
      case consumer s of
        CIdle \<Rightarrow> s\<lparr>consumer := CLoadedHead (lf_head q)\<rparr>
      | CLoadedHead head \<Rightarrow> s\<lparr>consumer := CLoadedBoth head (lf_tail q)\<rparr>
      | CLoadedBoth head tail \<Rightarrow>
          if head AND lf_mask q = tail AND lf_mask q then s\<lparr>consumer := CIdle\<rparr>
          else s\<lparr>consumer := CRead head (lf_tasks q ! unat (head AND lf_mask q))\<rparr>
      | CRead head v \<Rightarrow>
          s\<lparr>sq := q\<lparr>lf_tasks := (lf_tasks q)[unat (head AND lf_mask q) := None]\<rparr>,
            consumer := CCleared head v\<rparr>
      | CCleared head v \<Rightarrow>
          s\<lparr>sq := q\<lparr>lf_head := head + 1\<rparr>, consumer := CIdle, consumed := consumed s @ [v]\<rparr>)"

datatype 'a act = Producer nat 'a | Consumer

fun spsc_step :: "'a act \<Rightarrow> 'a spsc \<Rightarrow> 'a spsc" where
  "spsc_step (Producer i x) s = producer_step i x s"
| "spsc_step Consumer s = consumer_step s"

fun spsc_run :: "'a act list \<Rightarrow> 'a spsc \<Rightarrow> 'a spsc" where
  "spsc_run [] s = s"
| "spsc_run (a # as) s = spsc_run as (spsc_step a s)"

definition spsc_init :: "'a lfq \<Rightarrow> 'a spsc" where
  "spsc_init q = \<lparr>sq = q, producers = (\<lambda>_. PIdle), consumer = CIdle, produced = [], consumed = []\<rparr>"

fun single_producer :: "'a act \<Rightarrow> bool" where
  "single_producer (Producer i x) = (i = 0)"
| "single_producer Consumer = True"

subsection \<open>The invariant\<close>

text \<open>The ring itself: shape and number of live slots.\<close>

definition ring_ok :: "'a lfq \<Rightarrow> bool" where
  "ring_ok q \<longleftrightarrow>
     (\<exists>k\<le>20. unat (lf_capacity q) = 2 ^ k \<and> unat (lf_mask q) = 2 ^ k - 1
            \<and> length (lf_tasks q) = 2 ^ k)
     \<and> unat (lf_tail q - lf_head q) < unat (lf_capacity q)"

abbreviation live_count :: "'a lfq \<Rightarrow> nat" where
  "live_count q \<equiv> unat (lf_tail q - lf_head q)"

text \<open>
  A head position \<open>h\<close> read earlier by the producer lags behind the current one but is
  still less than a lap behind the tail; a tail position read earlier by the consumer is
  between the current head and tail.
\<close>

definition stale_head :: "'a lfq \<Rightarrow> u32 \<Rightarrow> bool" where
  "stale_head q h \<longleftrightarrow> unat (lf_tail q - h) < unat (lf_capacity q)
     \<and> live_count q \<le> unat (lf_tail q - h)"

definition stale_tail :: "'a lfq \<Rightarrow> u32 \<Rightarrow> bool" where
  "stale_tail q t \<longleftrightarrow> unat (t - lf_head q) \<le> live_count q"

fun producer_inv :: "'a lfq \<Rightarrow> 'a producer_pc \<Rightarrow> bool" where
  "producer_inv q PIdle = True"
| "producer_inv q (PLoadedHead x h) = stale_head q h"
| "producer_inv q (PLoadedBoth x h t) = (stale_head q h \<and> t = lf_tail q)"
| "producer_inv q (PWritten x t) =
     (t = lf_tail q \<and> live_count q + 1 < unat (lf_capacity q)
      \<and> lf_tasks q ! unat (lf_tail q AND lf_mask q) = Some x)"

fun consumer_inv :: "'a lfq \<Rightarrow> 'a consumer_pc \<Rightarrow> bool" where
  "consumer_inv q CIdle = True"
| "consumer_inv q (CLoadedHead h) = (h = lf_head q)"
| "consumer_inv q (CLoadedBoth h t) = (h = lf_head q \<and> stale_tail q t)"
| "consumer_inv q (CRead h v) =
     (h = lf_head q \<and> 0 < live_count q \<and> v = lf_tasks q ! unat (lf_head q AND lf_mask q))"
| "consumer_inv q (CCleared h v) = (h = lf_head q \<and> 0 < live_count q)"

text \<open>The tasks in the queue: a consumer that has cleared its slot still holds the oldest one.\<close>

fun in_flight :: "'a lfq \<Rightarrow> 'a consumer_pc \<Rightarrow> 'a option list" where
  "in_flight q (CCleared h v) =
     v # ring_list ((!) (lf_tasks q)) (unat (lf_capacity q)) (Suc (unat (lf_head q)))
           (live_count q - 1)"
| "in_flight q c = lf_slots q"

definition spsc_inv :: "'a spsc \<Rightarrow> bool" where
  "spsc_inv s \<longleftrightarrow> ring_ok (sq s) \<and> producer_inv (sq s) (producers s 0)
     \<and> consumer_inv (sq s) (consumer s)
     \<and> map Some (produced s) = consumed s @ in_flight (sq s) (consumer s)"

lemma ring_ok_size:
  fixes a b :: u32
  assumes "ring_ok q"
  shows "0 < unat (lf_capacity q)" "length (lf_tasks q) = unat (lf_capacity q)"
    "live_count q < unat (lf_capacity q)"
    "unat (x AND lf_mask q) = unat x mod unat (lf_capacity q)"
    "unat (a + b) mod unat (lf_capacity q) = (unat a + unat b) mod unat (lf_capacity q)"
proof -
  obtain k where k: "k \<le> 20" "unat (lf_capacity q) = 2 ^ k" "unat (lf_mask q) = 2 ^ k - 1"
      "length (lf_tasks q) = 2 ^ k"
    using assms by (auto simp: ring_ok_def)
  then show "0 < unat (lf_capacity q)" "length (lf_tasks q) = unat (lf_capacity q)"
    "unat (x AND lf_mask q) = unat x mod unat (lf_capacity q)"
    "unat (a + b) mod unat (lf_capacity q) = (unat a + unat b) mod unat (lf_capacity q)"
    by (simp_all add: unat_and_mask unat_add_mod_pow2)
  show "live_count q < unat (lf_capacity q)" using assms by (simp add: ring_ok_def)
qed

lemma ring_ok_update:
  assumes "ring_ok q" "length xs = length (lf_tasks q)" "unat (t - h) < unat (lf_capacity q)"
  shows "ring_ok (q\<lparr>lf_tasks := xs, lf_head := h, lf_tail := t\<rparr>)"
  using assms by (simp add: ring_ok_def)

lemma ring_ok_tail_slot:
  assumes "ring_ok q"
  shows "unat (lf_tail q AND lf_mask q)
       = (unat (lf_head q) + live_count q) mod unat (lf_capacity q)"
  using ring_ok_size(4) [OF assms, of "lf_tail q"]
    ring_ok_size(5) [OF assms, of "lf_head q" "lf_tail q - lf_head q"] by simp

text \<open>As long as something is live, the producer's slot is not the consumer's.\<close>

lemma ring_ok_slots_differ:
  assumes "ring_ok q" "0 < live_count q"
  shows "unat (lf_tail q AND lf_mask q) \<noteq> unat (lf_head q AND lf_mask q)"
  using ring_slot_free [of 0 "live_count q" "unat (lf_capacity q)" "unat (lf_head q)"]
    ring_ok_size(3,4) [OF assms(1)] ring_ok_tail_slot [OF assms(1)] assms(2)
  by (metis add.right_neutral)

lemma live_count_succ:
  assumes "ring_ok q"
  shows "unat (lf_tail q + 1 - lf_head q) = Suc (live_count q)"
proof -
  have "lf_tail q - lf_head q < lf_capacity q"
    using ring_ok_size(3) [OF assms] by (simp add: word_less_nat_alt)
  then have "unat ((lf_tail q - lf_head q) + 1) = Suc (live_count q)"
    by (rule unat_succ_lt)
  then show ?thesis by (simp add: algebra_simps)
qed

lemma live_count_pred:
  assumes "0 < live_count q"
  shows "unat (lf_tail q - (lf_head q + 1)) = live_count q - 1"
proof -
  have "lf_tail q - lf_head q \<noteq> 0" using assms by (simp add: unat_eq_0 [symmetric])
  then have "unat ((lf_tail q - lf_head q) - 1) = live_count q - 1"
    by (rule unat_minus_one)
  then show ?thesis by (simp add: diff_diff_eq)
qed

text \<open>The fullness test against a head read earlier errs on the safe side.\<close>

lemma stale_head_room:
  assumes "ring_ok q" "stale_head q h" "(lf_tail q + 1) AND lf_mask q \<noteq> h AND lf_mask q"
  shows "live_count q + 1 < unat (lf_capacity q)"
proof -
  let ?n = "unat (lf_capacity q)" and ?d = "unat (lf_tail q - h)"
  have d: "?d < ?n" "live_count q \<le> ?d" using assms(2) by (auto simp: stale_head_def)
  have "unat (lf_tail q + 1) mod ?n = (unat h + Suc ?d) mod ?n"
    using ring_ok_size(5) [OF assms(1), of "lf_tail q" 1]
      ring_ok_size(5) [OF assms(1), of h "lf_tail q - h"]
    by (simp add: mod_Suc_eq) (metis mod_Suc_eq)
  moreover have "unat (lf_tail q + 1) mod ?n \<noteq> unat h mod ?n"
    using assms(3) ring_ok_size(4) [OF assms(1)] by (metis word_unat_eq_iff)
  moreover have "(unat h + ?n) mod ?n = unat h mod ?n" by simp
  ultimately have "Suc ?d \<noteq> ?n" by metis
  then show ?thesis using d by linarith
qed

lemma ring_write_free:
  assumes "ring_ok q"
  shows "lf_slots (q\<lparr>lf_tasks := (lf_tasks q)[unat (lf_tail q AND lf_mask q) := v]\<rparr>) = lf_slots q"
  using ring_ok_size(1-3) [OF assms]
  by (simp add: lf_slots_def ring_ok_tail_slot [OF assms] ring_list_list_free)

lemma ring_write_free_cleared:
  assumes "ring_ok q" "0 < live_count q"
  shows "ring_list ((!) ((lf_tasks q)[unat (lf_tail q AND lf_mask q) := v]))
           (unat (lf_capacity q)) (Suc (unat (lf_head q))) (live_count q - 1)
       = ring_list ((!) (lf_tasks q)) (unat (lf_capacity q)) (Suc (unat (lf_head q)))
           (live_count q - 1)"
proof -
  have i: "unat (lf_tail q AND lf_mask q)
      = (Suc (unat (lf_head q)) + (live_count q - 1)) mod unat (lf_capacity q)"
    using assms(2) by (simp add: ring_ok_tail_slot [OF assms(1)])
  show ?thesis
    unfolding i using ring_ok_size(1-3) [OF assms(1)]
    by (intro ring_list_list_free) auto
qed

subsection \<open>Every step of a single producer and a single consumer keeps the invariant\<close>

lemma spsc_invI:
  assumes "ring_ok (sq s)" "producer_inv (sq s) (producers s 0)"
    "consumer_inv (sq s) (consumer s)"
    "map Some (produced s) = consumed s @ in_flight (sq s) (consumer s)"
  shows "spsc_inv s"
  using assms by (simp add: spsc_inv_def)

lemma spsc_inv_write:
  assumes "spsc_inv s" "producers s 0 = PLoadedBoth y h t"
    "(t + 1) AND lf_mask (sq s) \<noteq> h AND lf_mask (sq s)"
  shows "spsc_inv (s\<lparr>sq := (sq s)\<lparr>lf_tasks :=
            (lf_tasks (sq s))[unat (t AND lf_mask (sq s)) := Some y]\<rparr>,
          producers := (producers s)(0 := PWritten y t)\<rparr>)"
proof -
  let ?q = "sq s"
  have r: "ring_ok ?q" and t: "t = lf_tail ?q" and sh: "stale_head ?q h"
    and c: "consumer_inv ?q (consumer s)"
    and f: "map Some (produced s) = consumed s @ in_flight ?q (consumer s)"
    using assms by (auto simp: spsc_inv_def)
  let ?q' = "?q\<lparr>lf_tasks := (lf_tasks ?q)[unat (t AND lf_mask ?q) := Some y]\<rparr>"
  have room: "live_count ?q + 1 < unat (lf_capacity ?q)"
    using stale_head_room [OF r sh] assms(3) by (simp add: t)
  have r': "ring_ok ?q'" using r by (simp add: ring_ok_def)
  have sl: "lf_slots ?q' = lf_slots ?q" by (simp only: t ring_write_free [OF r])
  have "unat (t AND lf_mask ?q) < length (lf_tasks ?q)"
    using ring_ok_size [OF r] by simp
  then have p: "producer_inv ?q' (PWritten y t)" using room t by simp
  have fl: "consumer_inv ?q' (consumer s) \<and> in_flight ?q' (consumer s) = in_flight ?q (consumer s)"
  proof (cases "consumer s")
    case (CRead h' v)
    then have "0 < live_count ?q" using c by simp
    then show ?thesis using CRead c sl ring_ok_slots_differ [OF r] t by auto
  next
    case (CCleared h' v)
    then have "0 < live_count ?q" using c by simp
    then show ?thesis using CCleared c t ring_write_free_cleared [OF r] by auto
  qed (use c sl in \<open>auto simp: stale_tail_def\<close>)
  show ?thesis by (rule spsc_invI) (use r' p fl f in auto)
qed

lemma spsc_inv_publish:
  assumes "spsc_inv s" "producers s 0 = PWritten y t"
  shows "spsc_inv (s\<lparr>sq := (sq s)\<lparr>lf_tail := t + 1\<rparr>, producers := (producers s)(0 := PIdle),
            produced := produced s @ [y]\<rparr>)"
proof -
  let ?q = "sq s" and ?n = "unat (lf_capacity (sq s))" and ?c = "live_count (sq s)"
  have r: "ring_ok ?q" and t: "t = lf_tail ?q" and room: "?c + 1 < ?n"
    and y: "lf_tasks ?q ! unat (lf_tail ?q AND lf_mask ?q) = Some y"
    and c: "consumer_inv ?q (consumer s)"
    and f: "map Some (produced s) = consumed s @ in_flight ?q (consumer s)"
    using assms by (auto simp: spsc_inv_def)
  let ?q' = "?q\<lparr>lf_tail := t + 1\<rparr>"
  have l: "live_count ?q' = Suc ?c" using live_count_succ [OF r] by (simp add: t)
  have r': "ring_ok ?q'"
    using ring_ok_update [OF r, of "lf_tasks ?q" "t + 1" "lf_head ?q"] l room by simp
  have slot: "lf_tasks ?q ! ((unat (lf_head ?q) + ?c) mod ?n) = Some y"
    using y by (simp add: ring_ok_tail_slot [OF r])
  have sl: "lf_slots ?q' = lf_slots ?q @ [Some y]"
    using l slot by (simp add: lf_slots_def ring_list_Suc_back)
  have fl: "consumer_inv ?q' (consumer s)
      \<and> in_flight ?q' (consumer s) = in_flight ?q (consumer s) @ [Some y]"
  proof (cases "consumer s")
    case (CCleared h' v)
    then have "0 < ?c" using c by simp
    then obtain m where m: "?c = Suc m" by (cases ?c) auto
    then show ?thesis using CCleared c l slot by (simp add: ring_list_Suc_back)
  qed (use c sl l in \<open>auto simp: stale_tail_def\<close>)
  show ?thesis by (rule spsc_invI) (use r' fl f in auto)
qed

lemma spsc_inv_producer:
  assumes "spsc_inv s"
  shows "spsc_inv (producer_step 0 x s)"
proof (cases "producers s 0")
  case (PLoadedBoth y h t)
  then show ?thesis
    using assms spsc_inv_write [OF assms PLoadedBoth]
    by (auto simp: producer_step_def Let_def spsc_inv_def)
next
  case (PWritten y t)
  then show ?thesis
    using spsc_inv_publish [OF assms PWritten] by (simp add: producer_step_def Let_def)
qed (use assms in \<open>auto simp: producer_step_def Let_def spsc_inv_def stale_head_def ring_ok_def\<close>)

lemma spsc_inv_clear:
  assumes "spsc_inv s" "consumer s = CRead h v"
  shows "spsc_inv (s\<lparr>sq := (sq s)\<lparr>lf_tasks :=
            (lf_tasks (sq s))[unat (h AND lf_mask (sq s)) := None]\<rparr>,
          consumer := CCleared h v\<rparr>)"
proof -
  let ?q = "sq s" and ?n = "unat (lf_capacity (sq s))" and ?c = "live_count (sq s)"
  have r: "ring_ok ?q" and h: "h = lf_head ?q" and pos: "0 < ?c"
    and v: "v = lf_tasks ?q ! unat (lf_head ?q AND lf_mask ?q)"
    and p: "producer_inv ?q (producers s 0)"
    and f: "map Some (produced s) = consumed s @ lf_slots ?q"
    using assms by (auto simp: spsc_inv_def)
  let ?q' = "?q\<lparr>lf_tasks := (lf_tasks ?q)[unat (h AND lf_mask ?q) := None]\<rparr>"
  have r': "ring_ok ?q'" using r by (simp add: ring_ok_def)
  have p': "producer_inv ?q' (producers s 0)"
    using p ring_ok_slots_differ [OF r pos] h
    by (cases "producers s 0") (auto simp: stale_head_def)
  obtain m where m: "?c = Suc m" using pos by (cases ?c) auto
  have "lf_slots ?q = lf_tasks ?q ! (unat (lf_head ?q) mod ?n)
      # ring_list ((!) (lf_tasks ?q)) ?n (Suc (unat (lf_head ?q))) m"
    unfolding lf_slots_def m by (rule ring_list_Suc_front)
  also have "\<dots> = in_flight ?q' (CCleared h v)"
    using ring_ok_size(1-3) [OF r] m
    by (simp add: h v ring_ok_size(4) [OF r] ring_list_list_clear)
  finally have "lf_slots ?q = in_flight ?q' (CCleared h v)" .
  then show ?thesis by (intro spsc_invI) (use r' p' f h pos in auto)
qed

lemma spsc_inv_release:
  assumes "spsc_inv s" "consumer s = CCleared h v"
  shows "spsc_inv (s\<lparr>sq := (sq s)\<lparr>lf_head := h + 1\<rparr>, consumer := CIdle,
            consumed := consumed s @ [v]\<rparr>)"
proof -
  let ?q = "sq s" and ?n = "unat (lf_capacity (sq s))" and ?c = "live_count (sq s)"
  have r: "ring_ok ?q" and h: "h = lf_head ?q" and pos: "0 < ?c"
    and p: "producer_inv ?q (producers s 0)"
    and f: "map Some (produced s) = consumed s @ in_flight ?q (CCleared h v)"
    using assms by (auto simp: spsc_inv_def)
  let ?q' = "?q\<lparr>lf_head := h + 1\<rparr>"
  have l: "live_count ?q' = ?c - 1" using live_count_pred [OF pos] by (simp add: h)
  have lt: "?c < ?n" by (rule ring_ok_size(3) [OF r])
  have r': "ring_ok ?q'"
    using ring_ok_update [OF r, of "lf_tasks ?q" "lf_tail ?q" "h + 1"] l lt by simp
  have p': "producer_inv ?q' (producers s 0)"
    using p l by (cases "producers s 0") (auto simp: stale_head_def)
  have "unat (lf_head ?q + 1) mod ?n = Suc (unat (lf_head ?q)) mod ?n"
    using ring_ok_size(5) [OF r, of "lf_head ?q" 1] by simp
  then have "lf_slots ?q' = ring_list ((!) (lf_tasks ?q)) ?n (Suc (unat (lf_head ?q))) (?c - 1)"
    using l by (simp add: lf_slots_def h) (metis ring_list_mod)
  then show ?thesis by (intro spsc_invI) (use r' p' f in auto)
qed

lemma spsc_inv_consumer:
  assumes "spsc_inv s"
  shows "spsc_inv (consumer_step s)"
proof (cases "consumer s")
  case (CLoadedBoth h t)
  then have "stale_tail (sq s) t" "h = lf_head (sq s)" using assms by (auto simp: spsc_inv_def)
  then have "0 < live_count (sq s)" if "h AND lf_mask (sq s) \<noteq> t AND lf_mask (sq s)"
    using that by (auto simp: stale_tail_def unat_eq_0 intro!: Nat.gr0I)
  then show ?thesis
    using assms CLoadedBoth by (auto simp: consumer_step_def Let_def spsc_inv_def)
next
  case (CRead h v)
  then show ?thesis
    using spsc_inv_clear [OF assms CRead] by (simp add: consumer_step_def Let_def)
next
  case (CCleared h v)
  then show ?thesis
    using spsc_inv_release [OF assms CCleared] by (simp add: consumer_step_def Let_def)
qed (use assms in \<open>auto simp: consumer_step_def Let_def spsc_inv_def stale_tail_def\<close>)

lemma spsc_inv_step:
  "spsc_inv s \<Longrightarrow> single_producer a \<Longrightarrow> spsc_inv (spsc_step a s)"
  by (cases a) (auto intro: spsc_inv_producer spsc_inv_consumer)

lemma spsc_inv_run:
  "spsc_inv s \<Longrightarrow> list_all single_producer as \<Longrightarrow> spsc_inv (spsc_run as s)"
  by (induction as arbitrary: s) (auto intro: spsc_inv_step)

lemma spsc_inv_init:
  assumes "lf_wf q" "lf_contents q = []"
  shows "spsc_inv (spsc_init q)"
  using assms by (auto simp: spsc_inv_def spsc_init_def ring_ok_def lf_wf_def lf_contents_def)

lemma lf_capacity_producer_step:
  "lf_capacity (sq (spsc_step a s)) = lf_capacity (sq s)"
  by (cases a)
    (auto simp: producer_step_def consumer_step_def Let_def
      split: producer_pc.splits consumer_pc.splits)

lemma lf_capacity_run: "lf_capacity (sq (spsc_run as s)) = lf_capacity (sq s)"
  by (induction as arbitrary: s) (simp_all add: lf_capacity_producer_step)

lemma length_in_flight:
  assumes "consumer_inv q c" "ring_ok q"
  shows "length (in_flight q c) = live_count q"
  using assms by (cases c) (auto simp: lf_slots_def)

subsection \<open>Slots about to be accessed\<close>

text \<open>
  The slot the next step of producer 0, respectively of the consumer, writes or reads, if it
  accesses one.
\<close>

definition producer_slot :: "'a spsc \<Rightarrow> nat option" where
  "producer_slot s =
     (case producers s 0 of
        PLoadedBoth y head tail \<Rightarrow>
          if (tail + 1) AND lf_mask (sq s) = head AND lf_mask (sq s) then None
          else Some (unat (tail AND lf_mask (sq s)))
      | _ \<Rightarrow> None)"

definition consumer_slot :: "'a spsc \<Rightarrow> nat option" where
  "consumer_slot s =
     (case consumer s of
        CLoadedBoth head tail \<Rightarrow>
          if head AND lf_mask (sq s) = tail AND lf_mask (sq s) then None
          else Some (unat (head AND lf_mask (sq s)))
      | CRead head v \<Rightarrow> Some (unat (head AND lf_mask (sq s)))
      | _ \<Rightarrow> None)"

lemma spsc_inv_slots:
  assumes "spsc_inv s" "producer_slot s = Some i" "consumer_slot s = Some j"
  shows "i \<noteq> j"
proof -
  let ?q = "sq s"
  have r: "ring_ok ?q" and c: "consumer_inv ?q (consumer s)" and p: "producer_inv ?q (producers s 0)"
    using assms(1) by (auto simp: spsc_inv_def)
  have i: "i = unat (lf_tail ?q AND lf_mask ?q)"
    using assms(2) p by (auto simp: producer_slot_def split: producer_pc.splits if_splits)
  have "j = unat (lf_head ?q AND lf_mask ?q) \<and> 0 < live_count ?q"
    using assms(3) c
    by (auto simp: consumer_slot_def stale_tail_def unat_eq_0 split: consumer_pc.splits if_splits
        intro!: Nat.gr0I)
  then show ?thesis using ring_ok_slots_differ [OF r] i by auto
qed

subsection \<open>Properties\<close>

text \<open>C1. With one producer and one consumer, every interleaving of the atomic steps of
  \<open>queue_enqueue\<close> and \<open>queue_dequeue\<close> delivers the accepted tasks in order, each once and
  none as \<open>NULL\<close>; at most capacity - 1 accepted tasks are undelivered, and they are what the
  ring holds when the consumer is between calls.\<close>

theorem spsc_fifo:
  assumes "\<And>n. isp2 n \<longleftrightarrow> (\<exists>k. unat n = 2 ^ k)"
    and "\<And>n. n \<le> 2 ^ 31 \<Longrightarrow> \<exists>k. unat (np2 n) = 2 ^ k"
    and "capacity \<le> 2 ^ 31" "queue_create isp2 np2 m1 m2 capacity = Some q"
    and "list_all single_producer as" "s = spsc_run as (spsc_init q)"
  shows "consumed s = map Some (take (length (consumed s)) (produced s))
       \<and> length (produced s) \<le> length (consumed s) + lf_bound q
       \<and> (consumer s = CIdle \<longrightarrow> produced s = map the (consumed s) @ lf_contents (sq s))"
proof -
  have "lf_wf q \<and> lf_contents q = []"
    using queue_create_wf [of isp2 np2 capacity m1 m2 q] assms(1-4) by blast
  then have inv: "spsc_inv s"
    unfolding assms(6) by (intro spsc_inv_run spsc_inv_init assms(5)) auto
  have cap: "lf_capacity (sq s) = lf_capacity q"
    by (simp add: assms(6) lf_capacity_run) (simp add: spsc_init_def)
  have f: "map Some (produced s) = consumed s @ in_flight (sq s) (consumer s)"
    and r: "ring_ok (sq s)" and c: "consumer_inv (sq s) (consumer s)"
    using inv by (auto simp: spsc_inv_def)
  have "consumed s = take (length (consumed s)) (map Some (produced s))" by (simp add: f)
  moreover have "length (map Some (produced s)) = length (consumed s) + live_count (sq s)"
    using length_in_flight [OF c r] by (simp only: f length_append)
  moreover have "live_count (sq s) \<le> lf_bound q"
    using ring_ok_size(3) [OF r] by (simp add: cap lf_bound_def)
  moreover have "produced s = map the (consumed s) @ lf_contents (sq s)" if "consumer s = CIdle"
  proof -
    have "map the (map Some (produced s)) = map the (consumed s) @ lf_contents (sq s)"
      unfolding f using that by (simp add: lf_contents_def)
    then show ?thesis by (simp add: comp_def)
  qed
  ultimately show ?thesis by (simp add: take_map)
qed

text \<open>A queue of capacity 4 to run schedules on.\<close>

lemma queue_create_4:
  "queue_create pow2_test pow2_ceil True True 4 = Some \<lparr>lf_head = 0, lf_tail = 0, lf_capacity = 4,
     lf_mask = 3, lf_tasks = [None, None, None, None]\<rparr>"
proof -
  have "replicate 4 None = [None, None, None, None]" by (simp add: numeral_eq_Suc)
  then show ?thesis by (simp add: queue_create_def)
qed

definition spsc_schedule :: "nat act list" where
  "spsc_schedule = [Producer 0 7, Consumer, Producer 0 0, Producer 0 0, Consumer, Producer 0 0,
     Producer 0 8, Consumer, Consumer, Producer 0 0, Consumer, Consumer, Producer 0 0, Consumer,
     Producer 0 0, Consumer]"

theorem spsc_fifo_witness:
  "\<exists>q :: nat lfq. queue_create pow2_test pow2_ceil True True 4 = Some q
     \<and> (let s = spsc_run spsc_schedule (spsc_init q)
        in consumed s = [Some 7] \<and> produced s = [7, 8]
           \<and> consumed s = map Some (take (length (consumed s)) (produced s)))"
proof -
  obtain q :: "nat lfq" where q: "queue_create pow2_test pow2_ceil True True 4 = Some q"
    by (simp add: queue_create_def)
  have s: "list_all single_producer spsc_schedule" by (simp add: spsc_schedule_def)
  have "q = \<lparr>lf_head = 0, lf_tail = 0, lf_capacity = 4, lf_mask = 3,
             lf_tasks = [None, None, None, None]\<rparr>"
    using q by (simp add: queue_create_4)
  then have "consumed (spsc_run spsc_schedule (spsc_init q)) = [Some 7]
      \<and> produced (spsc_run spsc_schedule (spsc_init q)) = [7, 8]"
    by (simp add: spsc_schedule_def spsc_init_def producer_step_def consumer_step_def)
  then show ?thesis
    using q spsc_fifo [OF pow2_test_iff pow2_ceil_pow2 _ q s refl] by (simp add: Let_def)
qed

text \<open>With one producer and one consumer the slot accesses never race: in every reachable
  state the slot the producer is about to write is not the slot the consumer is about to read or
  to clear.\<close>

theorem spsc_race_free:
  assumes "\<And>n. isp2 n \<longleftrightarrow> (\<exists>k. unat n = 2 ^ k)"
    and "\<And>n. n \<le> 2 ^ 31 \<Longrightarrow> \<exists>k. unat (np2 n) = 2 ^ k"
    and "capacity \<le> 2 ^ 31" "queue_create isp2 np2 m1 m2 capacity = Some q"
    and "list_all single_producer as" "s = spsc_run as (spsc_init q)"
    and "producer_slot s = Some i" "consumer_slot s = Some j"
  shows "i \<noteq> j"
proof -
  have "lf_wf q \<and> lf_contents q = []"
    using queue_create_wf [of isp2 np2 capacity m1 m2 q] assms(1-4) by blast
  then have "spsc_inv s"
    unfolding assms(6) by (intro spsc_inv_run spsc_inv_init assms(5)) auto
  then show ?thesis using assms(7,8) by (rule spsc_inv_slots)
qed

theorem spsc_race_free_witness:
  "\<exists>q :: nat lfq. queue_create pow2_test pow2_ceil True True 4 = Some q
     \<and> (let s = spsc_run (take 12 spsc_schedule) (spsc_init q)
        in producer_slot s = Some 1 \<and> consumer_slot s = Some 0 \<and> (1::nat) \<noteq> 0)"
proof -
  obtain q :: "nat lfq" where q: "queue_create pow2_test pow2_ceil True True 4 = Some q"
    by (simp add: queue_create_def)
  have s: "list_all single_producer (take 12 spsc_schedule)" by (simp add: spsc_schedule_def)
  have "q = \<lparr>lf_head = 0, lf_tail = 0, lf_capacity = 4, lf_mask = 3,
             lf_tasks = [None, None, None, None]\<rparr>"
    using q by (simp add: queue_create_4)
  then have p: "producer_slot (spsc_run (take 12 spsc_schedule) (spsc_init q)) = Some 1"
    and c: "consumer_slot (spsc_run (take 12 spsc_schedule) (spsc_init q)) = Some 0"
    by (simp_all add: spsc_schedule_def spsc_init_def producer_step_def consumer_step_def
        producer_slot_def consumer_slot_def)
  have "(4::u32) \<le> 2 ^ 31" by simp
  from spsc_race_free [OF pow2_test_iff pow2_ceil_pow2 this q s refl p c]
  show ?thesis using q p c by (simp add: Let_def)
qed

text \<open>Two producers on the queue, which \<open>pool_submit_task\<close> callers on different threads
  become, can lose a task: both calls return true, yet one task is never delivered.\<close>

theorem two_producers_lose_task:
  "\<exists>q :: nat lfq. queue_create pow2_test pow2_ceil True True 4 = Some q
     \<and> (let s = spsc_run [Producer 0 7, Producer 1 8, Producer 0 0, Producer 1 0,
                          Producer 0 0, Producer 1 0, Producer 0 0, Producer 1 0] (spsc_init q)
        in produced s = [7, 8] \<and> lf_contents (sq s) = [8] \<and> consumed s = []
           \<and> producers s 0 = PIdle \<and> producers s 1 = PIdle)"
proof -
  obtain q :: "nat lfq" where q: "queue_create pow2_test pow2_ceil True True 4 = Some q"
    by (simp add: queue_create_def)
  have "q = \<lparr>lf_head = 0, lf_tail = 0, lf_capacity = 4, lf_mask = 3,
             lf_tasks = [None, None, None, None]\<rparr>"
    using q by (simp add: queue_create_4)
  then have "spsc_run [Producer 0 7, Producer 1 8, Producer 0 0, Producer 1 0,
        Producer 0 0, Producer 1 0, Producer 0 0, Producer 1 0] (spsc_init q)
    = \<lparr>sq = \<lparr>lf_head = 0, lf_tail = 1, lf_capacity = 4, lf_mask = 3,
               lf_tasks = [Some 8, None, None, None]\<rparr>,
       producers = (\<lambda>_. PIdle), consumer = CIdle, produced = [7, 8], consumed = []\<rparr>"
    by (simp add: spsc_init_def producer_step_def fun_eq_iff)
  then show ?thesis
    using q by (simp add: lf_contents_def lf_slots_def ring_list_def)
qed

end
