(* ===== verification/Task_Manager.thy ===== *)
theory Task_Manager
  imports Pool_Prelude
begin

text \<open>
  Tasks, their memory pool, results and futures:
  \<^verbatim>\<open>new_ProcessPool/src/core/task_manager.c\<close>. The heap maps the address of a pool node to
  the task in it; the free list is the list of node addresses its \<open>next\<close> pointers chain.
  Buffers owned by a task (input copy, output data, error message) are values, and \<open>blocks\<close>
  counts the live ones, so that leaks are visible. Each call is one step: the code holds the
  pool's or the task's mutex for it. Results of \<open>malloc\<close>, of the \<open>pthread\<close> initialisers and of
  the clock are arguments; a wait consumes a list of wake-ups.

  The fields \<open>result\<close>, \<open>ref_count\<close> and \<open>completion_cond\<close> of a task and \<open>input_data\<close>,
  \<open>input_size\<close> of a description are those this file uses (\<^verbatim>\<open>internal.h\<close> declares others).
  \<open>ref_count\<close> is an atomic \<open>int\<close>; it is an integer here, as 2^31 references are out of reach.
\<close>

datatype task_state =
    TASK_STATE_PENDING
  | TASK_STATE_RUNNING
  | TASK_STATE_COMPLETED
  | TASK_STATE_FAILED
  | TASK_STATE_TIMEOUT
  | TASK_STATE_CANCELLED

record task_result =
  r_error_code :: "32 word"
  r_error_message :: "string option"
  r_output_data :: "u8 list option"
  r_output_size :: u64

record 'h task_desc =
  d_handler :: "'h option"
  d_input_data :: "u8 list option"
  d_input_size :: u64

record 'h task =
  t_id :: u64
  t_desc :: "'h task_desc"
  t_input_data :: "u8 list option"
  t_input_size :: u64
  t_state :: task_state
  t_worker_id :: u32
  t_submit_ns :: u64
  t_start_ns :: u64
  t_end_ns :: u64
  t_result :: task_result
  t_ref_count :: int
  t_broadcasts :: nat

record 'h tm =
  next_task_id :: u64
  tm_heap :: "nat \<rightharpoonup> 'h task"
  free_list :: "nat list"
  total_allocated :: u64
  free_count :: u64
  max_pool_size :: u64
  blocks :: int

definition tm_init :: "'h tm" where
  "tm_init = \<lparr>next_task_id = 1, tm_heap = Map.empty, free_list = [], total_allocated = 0,
              free_count = 0, max_pool_size = 1000, blocks = 0\<rparr>"

definition put_task :: "nat \<Rightarrow> 'h task \<Rightarrow> 'h tm \<Rightarrow> 'h tm" where
  "put_task a t s = s\<lparr>tm_heap := (tm_heap s)(a \<mapsto> t)\<rparr>"

definition add_blocks :: "int \<Rightarrow> 'h tm \<Rightarrow> 'h tm" where
  "add_blocks k s = s\<lparr>blocks := blocks s + k\<rparr>"

text \<open>The number of buffers behind an optional pointer.\<close>

definition owned :: "'b option \<Rightarrow> int" where
  "owned p = (if p = None then 0 else 1)"

definition generate_task_id :: "'h tm \<Rightarrow> u64 \<times> 'h tm" where
  "generate_task_id s = (next_task_id s, s\<lparr>next_task_id := next_task_id s + 1\<rparr>)"

subsection \<open>The memory pool\<close>

definition zero_result :: task_result where
  "zero_result = \<lparr>r_error_code = 0, r_error_message = None, r_output_data = None,
                  r_output_size = 0\<rparr>"

definition zero_task :: "'h task" where
  "zero_task = \<lparr>t_id = 0, t_desc = \<lparr>d_handler = None, d_input_data = None, d_input_size = 0\<rparr>,
     t_input_data = None, t_input_size = 0, t_state = TASK_STATE_PENDING, t_worker_id = 0,
     t_submit_ns = 0, t_start_ns = 0, t_end_ns = 0, t_result = zero_result, t_ref_count = 0,
     t_broadcasts = 0\<rparr>"

definition task_pool_alloc :: "nat option \<Rightarrow> 'h tm \<Rightarrow> nat option \<times> 'h tm" where
  "task_pool_alloc mem s =
     (case free_list s of
        n # ns \<Rightarrow>
          (Some n, put_task n zero_task (s\<lparr>free_list := ns, free_count := free_count s - 1\<rparr>))
      | [] \<Rightarrow>
          (case mem of
             None \<Rightarrow> (None, s)
           | Some n \<Rightarrow>
               (Some n, put_task n zero_task (s\<lparr>total_allocated := total_allocated s + 1\<rparr>))))"

text \<open>Freeing a node that is on the free list already would make the list cyclic: a fault.\<close>

definition task_pool_free :: "nat \<Rightarrow> 'h tm \<Rightarrow> 'h tm outcome" where
  "task_pool_free n s =
     (if n \<in> set (free_list s) \<or> tm_heap s n = None then Fault
      else if free_count s < max_pool_size s
      then Done (s\<lparr>free_list := n # free_list s, free_count := free_count s + 1\<rparr>)
      else Done (s\<lparr>tm_heap := (tm_heap s)(n := None), total_allocated := total_allocated s - 1\<rparr>))"

definition task_pool_cleanup :: "'h tm \<Rightarrow> 'h tm" where
  "task_pool_cleanup s =
     s\<lparr>tm_heap := tm_heap s |` (- set (free_list s)), free_list := [], free_count := 0,
       total_allocated := 0\<rparr>"

subsection \<open>Creation and destruction\<close>

record create_env =
  node_mem :: "nat option"
  input_mem :: bool
  mutex_ok :: bool
  cond_ok :: bool
  clock :: u64

definition task_create ::
  "create_env \<Rightarrow> 'h task_desc option \<Rightarrow> 'h tm \<Rightarrow> (nat option \<times> 'h tm) outcome" where
  "task_create env desc s =
     (case desc of None \<Rightarrow> Done (None, s) | Some d \<Rightarrow>
      if d_handler d = None then Done (None, s)
      else case task_pool_alloc (node_mem env) s of
        (None, s1) \<Rightarrow> Done (None, s1)
      | (Some a, s1) \<Rightarrow>
         (case generate_task_id s1 of (tid, s2) \<Rightarrow>
          let t = zero_task\<lparr>t_id := tid, t_desc := d, t_state := TASK_STATE_PENDING,
                    t_worker_id := - 1, t_submit_ns := clock env, t_start_ns := 0,
                    t_end_ns := 0, t_ref_count := 1, t_result := zero_result\<rparr>;
              release = (\<lambda>s'. bind_outcome (task_pool_free a s') (\<lambda>s''. Done (None, s'')));
              sync = (\<lambda>t' s'. if \<not> mutex_ok env \<or> \<not> cond_ok env
                        then release (add_blocks (- owned (t_input_data t')) s')
                        else Done (Some a, s'))
          in case d_input_data d of
               Some input \<Rightarrow>
                 if d_input_size d > 0 then
                   if \<not> input_mem env then release (put_task a t s2)
                   else if unat (d_input_size d) > length input then Fault
                   else let t' = t\<lparr>t_input_data := Some (take (unat (d_input_size d)) input),
                                   t_input_size := d_input_size d\<rparr>
                        in sync t' (add_blocks 1 (put_task a t' s2))
                 else sync t (put_task a t s2)
             | None \<Rightarrow> sync t (put_task a t s2)))"

definition task_destroy :: "nat option \<Rightarrow> 'h tm \<Rightarrow> 'h tm outcome" where
  "task_destroy p s =
     (case p of None \<Rightarrow> Done s | Some a \<Rightarrow>
      case tm_heap s a of None \<Rightarrow> Fault | Some t \<Rightarrow>
      let t1 = t\<lparr>t_ref_count := t_ref_count t - 1\<rparr>
      in if t_ref_count t > 1 then Done (put_task a t1 s)
         else let r = t_result t;
                  freed = owned (t_input_data t) + owned (r_output_data r)
                          + owned (r_error_message r);
                  t2 = t1\<lparr>t_input_data := None,
                          t_result := r\<lparr>r_output_data := None, r_error_message := None\<rparr>\<rparr>
              in task_pool_free a (add_blocks (- freed) (put_task a t2 s)))"

definition task_ref :: "nat option \<Rightarrow> 'h tm \<Rightarrow> 'h tm outcome" where
  "task_ref p s =
     (case p of None \<Rightarrow> Done s | Some a \<Rightarrow>
      case tm_heap s a of None \<Rightarrow> Fault
      | Some t \<Rightarrow> Done (put_task a (t\<lparr>t_ref_count := t_ref_count t + 1\<rparr>) s))"

definition task_unref :: "nat option \<Rightarrow> 'h tm \<Rightarrow> 'h tm outcome" where
  "task_unref p s = (if p \<noteq> None then task_destroy p s else Done s)"

subsection \<open>State, cancellation and waiting\<close>

fun state_is_completed :: "task_state \<Rightarrow> bool" where
  "state_is_completed st =
     (st = TASK_STATE_COMPLETED \<or> st = TASK_STATE_FAILED \<or> st = TASK_STATE_CANCELLED)"

definition task_is_completed :: "nat option \<Rightarrow> 'h tm \<Rightarrow> bool outcome" where
  "task_is_completed p s =
     (case p of None \<Rightarrow> Done False | Some a \<Rightarrow>
      case tm_heap s a of None \<Rightarrow> Fault | Some t \<Rightarrow> Done (state_is_completed (t_state t)))"

definition task_is_running :: "nat option \<Rightarrow> 'h tm \<Rightarrow> bool outcome" where
  "task_is_running p s =
     (case p of None \<Rightarrow> Done False | Some a \<Rightarrow>
      case tm_heap s a of None \<Rightarrow> Fault | Some t \<Rightarrow> Done (t_state t = TASK_STATE_RUNNING))"

definition task_cancel :: "u64 \<Rightarrow> nat option \<Rightarrow> 'h tm \<Rightarrow> (pool_error \<times> 'h tm) outcome" where
  "task_cancel now p s =
     (case p of None \<Rightarrow> Done (POOL_ERROR_INVALID_PARAM, s) | Some a \<Rightarrow>
      case tm_heap s a of None \<Rightarrow> Fault | Some t \<Rightarrow>
      if t_state t = TASK_STATE_PENDING then
        Done (POOL_SUCCESS, put_task a (t\<lparr>t_state := TASK_STATE_CANCELLED, t_end_ns := now,
                                          t_broadcasts := t_broadcasts t + 1\<rparr>) s)
      else if t_state t = TASK_STATE_RUNNING then
        Done (POOL_SUCCESS, put_task a (t\<lparr>t_state := TASK_STATE_CANCELLED, t_end_ns := now,
                                          t_broadcasts := t_broadcasts t + 1\<rparr>) s)
      else Done (POOL_ERROR_INVALID_PARAM, s))"

text \<open>
  A wake-up is the value the wait returns and the state the other threads left the task in.
  The deadline is computed at the code's widths: the milliseconds in 32-bit words.
\<close>

type_synonym wakeup = "int \<times> task_state"

definition ETIMEDOUT :: int where "ETIMEDOUT = 110"

definition abs_deadline :: "int \<times> int \<Rightarrow> u32 \<Rightarrow> int \<times> int" where
  "abs_deadline now timeout_ms =
     (let sec = fst now + uint (timeout_ms div 1000);
          nsec = snd now + uint ((timeout_ms mod 1000) * 1000000)
      in if nsec \<ge> 1000000000 then (sec + 1, nsec - 1000000000) else (sec, nsec))"

fun wait_forever :: "task_state \<Rightarrow> wakeup list \<Rightarrow> pool_error outcome" where
  "wait_forever st [] = (if state_is_completed st then Done POOL_SUCCESS else Blocked)"
| "wait_forever st ((ret, st') # ws) =
     (if state_is_completed st then Done POOL_SUCCESS else wait_forever st' ws)"

fun wait_timed :: "task_state \<Rightarrow> wakeup list \<Rightarrow> pool_error outcome" where
  "wait_timed st [] = (if state_is_completed st then Done POOL_SUCCESS else Blocked)"
| "wait_timed st ((ret, st') # ws) =
     (if state_is_completed st then Done POOL_SUCCESS
      else if ret = ETIMEDOUT then Done POOL_ERROR_TIMEOUT
      else if ret \<noteq> 0 then Done POOL_ERROR_SYSTEM_CALL
      else wait_timed st' ws)"

text \<open>
  \<open>task_wait\<close> sees the state its task has when the mutex is taken and the wake-ups that
  follow; the timed branch hands its deadline to the wait, which decides on \<open>ETIMEDOUT\<close>:
  \<open>ws\<close> gives the wake-ups for a deadline (\<open>None\<close> for the untimed wait).
\<close>

definition task_wait ::
  "int \<times> int \<Rightarrow> ((int \<times> int) option \<Rightarrow> wakeup list) \<Rightarrow> task_state option \<Rightarrow> u32
     \<Rightarrow> pool_error outcome" where
  "task_wait now ws task timeout_ms =
     (case task of None \<Rightarrow> Done POOL_ERROR_INVALID_PARAM | Some st \<Rightarrow>
      if state_is_completed st then Done POOL_SUCCESS
      else if timeout_ms = 0 then wait_forever st (ws None)
      else wait_timed st (ws (Some (abs_deadline now timeout_ms))))"

subsection \<open>Results\<close>

definition task_set_result ::
  "bool \<Rightarrow> nat option \<Rightarrow> u8 list option \<Rightarrow> u64 \<Rightarrow> 'h tm \<Rightarrow> (pool_error \<times> 'h tm) outcome" where
  "task_set_result mem p output osize s =
     (case p of None \<Rightarrow> Done (POOL_ERROR_INVALID_PARAM, s) | Some a \<Rightarrow>
      case tm_heap s a of None \<Rightarrow> Fault | Some t \<Rightarrow>
      let r = t_result t;
          r1 = (if r_output_data r \<noteq> None then r\<lparr>r_output_data := None, r_output_size := 0\<rparr> else r);
          s1 = add_blocks (- owned (r_output_data r)) (put_task a (t\<lparr>t_result := r1\<rparr>) s)
      in case output of
           Some data \<Rightarrow>
             if osize > 0 then
               if \<not> mem then Done (POOL_ERROR_OUT_OF_MEMORY, s1)
               else if unat osize > length data then Fault
               else Done (POOL_SUCCESS, add_blocks 1 (put_task a
                      (t\<lparr>t_result := r1\<lparr>r_output_data := Some (take (unat osize) data),
                                        r_output_size := osize, r_error_code := 0\<rparr>\<rparr>) s1))
             else Done (POOL_SUCCESS, put_task a (t\<lparr>t_result := r1\<lparr>r_error_code := 0\<rparr>\<rparr>) s1)
         | None \<Rightarrow> Done (POOL_SUCCESS, put_task a (t\<lparr>t_result := r1\<lparr>r_error_code := 0\<rparr>\<rparr>) s1))"

definition task_set_error ::
  "bool \<Rightarrow> nat option \<Rightarrow> 32 word \<Rightarrow> string option \<Rightarrow> 'h tm \<Rightarrow> (pool_error \<times> 'h tm) outcome" where
  "task_set_error mem p code msg s =
     (case p of None \<Rightarrow> Done (POOL_ERROR_INVALID_PARAM, s) | Some a \<Rightarrow>
      case tm_heap s a of None \<Rightarrow> Fault | Some t \<Rightarrow>
      let r = t_result t;
          copy = (if mem then msg else None)
      in Done (POOL_SUCCESS, add_blocks (owned copy - owned (r_error_message r))
           (put_task a (t\<lparr>t_result := r\<lparr>r_error_message := copy, r_error_code := code\<rparr>\<rparr>) s)))"

text \<open>
  \<open>task_get_result\<close> fills the caller's structure with copies. When the second allocation
  fails the message pointer is \<open>NULL\<close>; when the first one fails the fields written so far stay.
\<close>

definition task_get_result ::
  "bool \<Rightarrow> bool \<Rightarrow> nat option \<Rightarrow> task_result option \<Rightarrow> 'h tm
     \<Rightarrow> (pool_error \<times> task_result option \<times> 'h tm) outcome" where
  "task_get_result mem1 mem2 p result s =
     (case (p, result) of (Some a, Some out) \<Rightarrow>
        (case tm_heap s a of None \<Rightarrow> Fault | Some t \<Rightarrow>
         if \<not> state_is_completed (t_state t) then Done (POOL_ERROR_INVALID_PARAM, result, s)
         else let r = t_result t; out1 = out\<lparr>r_error_code := r_error_code r\<rparr>;
                  copy_msg = (\<lambda>out2 s2.
                    let m = (if mem2 then r_error_message r else None)
                    in Done (POOL_SUCCESS, Some (out2\<lparr>r_error_message := m\<rparr>),
                             add_blocks (owned m) s2))
              in (case r_output_data r of
                    Some data \<Rightarrow>
                      if r_output_size r > 0 then
                        if \<not> mem1 then Done (POOL_ERROR_OUT_OF_MEMORY,
                                            Some (out1\<lparr>r_output_data := None\<rparr>), s)
                        else if unat (r_output_size r) > length data then Fault
                        else copy_msg (out1\<lparr>r_output_data := Some (take (unat (r_output_size r)) data),
                                            r_output_size := r_output_size r\<rparr>) (add_blocks 1 s)
                      else copy_msg (out1\<lparr>r_output_data := None, r_output_size := 0\<rparr>) s
                  | None \<Rightarrow> copy_msg (out1\<lparr>r_output_data := None, r_output_size := 0\<rparr>) s))
      | _ \<Rightarrow> Done (POOL_ERROR_INVALID_PARAM, result, s))"

definition task_result_cleanup :: "task_result option \<Rightarrow> 'h tm \<Rightarrow> task_result option \<times> 'h tm" where
  "task_result_cleanup result s =
     (case result of None \<Rightarrow> (None, s)
      | Some r \<Rightarrow> (Some zero_result,
                   add_blocks (- (owned (r_output_data r) + owned (r_error_message r))) s))"

subsection \<open>Futures\<close>

record task_future =
  f_task :: "nat option"
  f_ref_count :: int

definition future_create ::
  "bool \<Rightarrow> bool \<Rightarrow> nat option \<Rightarrow> 'h tm \<Rightarrow> (task_future option \<times> 'h tm) outcome" where
  "future_create mem mtx task s =
     (if task = None then Done (None, s)
      else if \<not> mem then Done (None, s)
      else bind_outcome (task_ref task s) (\<lambda>s1.
           if \<not> mtx then bind_outcome (task_unref task s1) (\<lambda>s2. Done (None, s2))
           else Done (Some \<lparr>f_task = task, f_ref_count = 1\<rparr>, s1)))"

text \<open>The future that is left, \<open>None\<close> when it was freed.\<close>

definition future_destroy ::
  "task_future option \<Rightarrow> 'h tm \<Rightarrow> (task_future option \<times> 'h tm) outcome" where
  "future_destroy future s =
     (case future of None \<Rightarrow> Done (None, s) | Some f \<Rightarrow>
      if f_ref_count f > 1 then Done (Some (f\<lparr>f_ref_count := f_ref_count f - 1\<rparr>), s)
      else bind_outcome (if f_task f \<noteq> None then task_unref (f_task f) s else Done s)
             (\<lambda>s1. Done (None, s1)))"

definition future_ref :: "task_future option \<Rightarrow> task_future option" where
  "future_ref = map_option (\<lambda>f. f\<lparr>f_ref_count := f_ref_count f + 1\<rparr>)"

definition future_unref ::
  "task_future option \<Rightarrow> 'h tm \<Rightarrow> (task_future option \<times> 'h tm) outcome" where
  "future_unref future s = (if future \<noteq> None then future_destroy future s else Done (None, s))"

definition future_cancel ::
  "u64 \<Rightarrow> task_future option \<Rightarrow> 'h tm \<Rightarrow> (pool_error \<times> 'h tm) outcome" where
  "future_cancel now future s =
     (case future of None \<Rightarrow> Done (POOL_ERROR_INVALID_PARAM, s) | Some f \<Rightarrow>
      if f_task f = None then Done (POOL_ERROR_INVALID_PARAM, s)
      else task_cancel now (f_task f) s)"

definition future_get_result ::
  "bool \<Rightarrow> bool \<Rightarrow> task_future option \<Rightarrow> task_result option \<Rightarrow> 'h tm
     \<Rightarrow> (pool_error \<times> task_result option \<times> 'h tm) outcome" where
  "future_get_result mem1 mem2 future result s =
     (case future of None \<Rightarrow> Done (POOL_ERROR_INVALID_PARAM, result, s) | Some f \<Rightarrow>
      if f_task f = None \<or> result = None then Done (POOL_ERROR_INVALID_PARAM, result, s)
      else task_get_result mem1 mem2 (f_task f) result s)"

definition future_is_ready :: "task_future option \<Rightarrow> 'h tm \<Rightarrow> bool outcome" where
  "future_is_ready future s =
     (case future of None \<Rightarrow> Done False | Some f \<Rightarrow>
      if f_task f = None then Done False else task_is_completed (f_task f) s)"

text \<open>
  A waiting future: \<open>None\<close> for a \<open>NULL\<close> pointer, \<open>Some None\<close> for a future without task, and
  otherwise the state its task has when the wait takes the mutex.
\<close>

definition future_wait ::
  "int \<times> int \<Rightarrow> ((int \<times> int) option \<Rightarrow> wakeup list) \<Rightarrow> task_state option option \<Rightarrow> u32
     \<Rightarrow> pool_error outcome" where
  "future_wait now ws future timeout_ms =
     (case future of
        Some (Some st) \<Rightarrow> task_wait now ws (Some st) timeout_ms
      | _ \<Rightarrow> Done POOL_ERROR_INVALID_PARAM)"

subsection \<open>Batches\<close>

record wait_item =
  w_clock_ns :: u64
  w_now :: "int \<times> int"
  w_future :: "task_state option option"
  w_wakeups :: "(int \<times> int) option \<Rightarrow> wakeup list"

definition remaining_timeout :: "u32 \<Rightarrow> u64 \<Rightarrow> u32" where
  "remaining_timeout timeout_ms elapsed_ns =
     ucast ((ucast timeout_ms * 1000000 - elapsed_ns) div 1000000)"

fun batch_wait_loop :: "u64 \<Rightarrow> u32 \<Rightarrow> wait_item list \<Rightarrow> pool_error outcome" where
  "batch_wait_loop start timeout_ms [] = Done POOL_SUCCESS"
| "batch_wait_loop start timeout_ms (w # ws) =
     (if w_future w = None then batch_wait_loop start timeout_ms ws
      else let elapsed_ns = w_clock_ns w - start;
               timeout_ns = ucast timeout_ms * 1000000 :: u64
           in if timeout_ms > 0 \<and> elapsed_ns \<ge> timeout_ns then Done POOL_ERROR_TIMEOUT
              else let remaining = (if timeout_ms > 0 then remaining_timeout timeout_ms elapsed_ns
                                    else timeout_ms)
                   in bind_outcome (future_wait (w_now w) (w_wakeups w) (w_future w) remaining)
                        (\<lambda>result. if result \<noteq> POOL_SUCCESS then Done result
                                  else batch_wait_loop start timeout_ms ws))"

definition task_batch_wait ::
  "u64 \<Rightarrow> wait_item list option \<Rightarrow> u32 \<Rightarrow> pool_error outcome" where
  "task_batch_wait start futures timeout_ms =
     (case futures of None \<Rightarrow> Done POOL_ERROR_INVALID_PARAM | Some ws \<Rightarrow>
      if ws = [] then Done POOL_ERROR_INVALID_PARAM else batch_wait_loop start timeout_ms ws)"

fun batch_cancel_loop ::
  "pool_error \<Rightarrow> (u64 \<times> task_future option) list \<Rightarrow> 'h tm \<Rightarrow> (pool_error \<times> 'h tm) outcome" where
  "batch_cancel_loop last_error [] s = Done (last_error, s)"
| "batch_cancel_loop last_error ((now, f) # fs) s =
     (if f = None then batch_cancel_loop last_error fs s
      else bind_outcome (future_cancel now f s) (\<lambda>(result, s1).
             batch_cancel_loop (if result \<noteq> POOL_SUCCESS then result else last_error) fs s1))"

definition task_batch_cancel ::
  "(u64 \<times> task_future option) list option \<Rightarrow> 'h tm \<Rightarrow> (pool_error \<times> 'h tm) outcome" where
  "task_batch_cancel futures s =
     (case futures of None \<Rightarrow> Done (POOL_ERROR_INVALID_PARAM, s) | Some fs \<Rightarrow>
      if fs = [] then Done (POOL_ERROR_INVALID_PARAM, s)
      else batch_cancel_loop POOL_SUCCESS fs s)"

subsection \<open>Timing\<close>

definition task_get_timing_info :: "'h task option \<Rightarrow> (u64 \<times> u64 \<times> u64) option" where
  "task_get_timing_info = map_option (\<lambda>t. (t_submit_ns t, t_start_ns t, t_end_ns t))"

definition task_get_queue_time_ns :: "'h task option \<Rightarrow> u64" where
  "task_get_queue_time_ns p =
     (case p of None \<Rightarrow> 0 | Some t \<Rightarrow>
      if t_start_ns t = 0 then 0 else t_start_ns t - t_submit_ns t)"

definition task_get_execution_time_ns :: "'h task option \<Rightarrow> u64" where
  "task_get_execution_time_ns p =
     (case p of None \<Rightarrow> 0 | Some t \<Rightarrow>
      if t_start_ns t = 0 \<or> t_end_ns t = 0 then 0 else t_end_ns t - t_start_ns t)"

definition task_get_total_time_ns :: "'h task option \<Rightarrow> u64" where
  "task_get_total_time_ns p =
     (case p of None \<Rightarrow> 0 | Some t \<Rightarrow>
      if t_end_ns t = 0 then 0 else t_end_ns t - t_submit_ns t)"

subsection \<open>The invariant of the pool\<close>

text \<open>Live tasks are those in the heap and not on the free list.\<close>

definition live :: "'h tm \<Rightarrow> nat set" where
  "live s = dom (tm_heap s) - set (free_list s)"

abbreviation task_at :: "'h tm \<Rightarrow> nat \<Rightarrow> 'h task" where
  "task_at s a \<equiv> the (tm_heap s a)"

definition task_blocks :: "'h task \<Rightarrow> int" where
  "task_blocks t = owned (t_input_data t) + owned (r_output_data (t_result t))
                   + owned (r_error_message (t_result t))"

definition tm_shape :: "'h tm \<Rightarrow> bool" where
  "tm_shape s \<longleftrightarrow> dom (tm_heap s) \<subseteq> {1..<2 ^ 64} \<and> distinct (free_list s)
     \<and> set (free_list s) \<subseteq> dom (tm_heap s)
     \<and> unat (free_count s) = length (free_list s) \<and> free_count s \<le> max_pool_size s
     \<and> unat (total_allocated s) = card (dom (tm_heap s))
     \<and> blocks s = (\<Sum>a\<in>live s. task_blocks (task_at s a))"

definition tm_ids :: "'h tm \<Rightarrow> bool" where
  "tm_ids s \<longleftrightarrow> inj_on (\<lambda>a. t_id (task_at s a)) (live s)
     \<and> (\<forall>a\<in>live s. t_id (task_at s a) < next_task_id s)"

definition tm_inv :: "'h tm \<Rightarrow> bool" where
  "tm_inv s \<longleftrightarrow> tm_shape s \<and> tm_ids s \<and> (\<forall>a\<in>live s. 1 \<le> t_ref_count (task_at s a))"

lemma tm_shape_finite: "tm_shape s \<Longrightarrow> finite (dom (tm_heap s))"
  by (auto simp: tm_shape_def intro: finite_subset)

lemma finite_live: "tm_shape s \<Longrightarrow> finite (live s)"
  by (simp add: live_def tm_shape_finite)

lemma live_lookup: "a \<in> live s \<Longrightarrow> tm_heap s a = Some (task_at s a)"
  by (auto simp: live_def)

lemma live_add_blocks [simp]: "live (add_blocks k s) = live s"
  by (simp add: live_def add_blocks_def)

lemma live_put [simp]: "a \<in> live s \<Longrightarrow> live (put_task a t s) = live s"
  by (auto simp: live_def put_task_def)

lemma put_task_simps [simp]:
  "tm_heap (put_task a t s) = (tm_heap s)(a \<mapsto> t)" "free_list (put_task a t s) = free_list s"
  "next_task_id (put_task a t s) = next_task_id s" "blocks (put_task a t s) = blocks s"
  "free_count (put_task a t s) = free_count s" "max_pool_size (put_task a t s) = max_pool_size s"
  "total_allocated (put_task a t s) = total_allocated s"
  by (simp_all add: put_task_def)

lemma add_blocks_simps [simp]:
  "tm_heap (add_blocks k s) = tm_heap s" "free_list (add_blocks k s) = free_list s"
  "next_task_id (add_blocks k s) = next_task_id s" "blocks (add_blocks k s) = blocks s + k"
  "free_count (add_blocks k s) = free_count s" "max_pool_size (add_blocks k s) = max_pool_size s"
  "total_allocated (add_blocks k s) = total_allocated s"
  by (simp_all add: add_blocks_def)

lemma owned_simps [simp]: "owned None = 0" "owned (Some x) = 1"
  by (simp_all add: owned_def)

lemma sum_fun_upd_live:
  fixes f :: "'b \<Rightarrow> int"
  assumes "finite A" "a \<in> A"
  shows "(\<Sum>x\<in>A. if x = a then k else f x) = (\<Sum>x\<in>A. f x) + k - f a"
proof -
  have "(\<Sum>x\<in>A. if x = a then k else f x) = k + (\<Sum>x\<in>A - {a}. if x = a then k else f x)"
    using assms by (subst sum.remove [of _ a]) auto
  also have "(\<Sum>x\<in>A - {a}. if x = a then k else f x) = (\<Sum>x\<in>A - {a}. f x)"
    by (rule sum.cong) auto
  also have "\<dots> = (\<Sum>x\<in>A. f x) - f a" using assms by (simp add: sum_diff1)
  finally show ?thesis by simp
qed

text \<open>Replacing a live task, with the blocks it gains or loses.\<close>

lemma tm_shape_put:
  assumes "tm_shape s" "a \<in> live s" "k = task_blocks t - task_blocks (task_at s a)"
  shows "tm_shape (add_blocks k (put_task a t s))"
proof -
  have d: "insert a (dom (tm_heap s)) = dom (tm_heap s)" using assms(2) by (auto simp: live_def)
  have "(\<Sum>x\<in>live s. task_blocks (if x = a then t else task_at s x))
      = (\<Sum>x\<in>live s. task_blocks (task_at s x)) + task_blocks t - task_blocks (task_at s a)"
    using sum_fun_upd_live [OF finite_live [OF assms(1)] assms(2), of "task_blocks t"
        "\<lambda>x. task_blocks (task_at s x)"] by (simp add: if_distrib)
  moreover have "(\<Sum>x\<in>live s. task_blocks (the (if x = a then Some t else tm_heap s x)))
      = (\<Sum>x\<in>live s. task_blocks (if x = a then t else task_at s x))"
    by (rule sum.cong) auto
  ultimately show ?thesis
    using assms d by (auto simp: tm_shape_def)
qed

text \<open>Freeing a task whose buffers have been released (and discounted).\<close>

lemma tm_shape_free:
  assumes "tm_shape (add_blocks (task_blocks (task_at s a)) s)" "a \<in> live s"
  shows "\<exists>s'. task_pool_free a s = Done s' \<and> tm_shape s' \<and> live s' = live s - {a}
       \<and> (\<forall>b\<in>live s'. tm_heap s' b = tm_heap s b) \<and> next_task_id s' = next_task_id s"
proof -
  have a: "a \<notin> set (free_list s)" "a \<in> dom (tm_heap s)" using assms(2) by (auto simp: live_def)
  have sum: "(\<Sum>b\<in>live s - {a}. task_blocks (task_at s b)) = blocks s"
    using assms finite_live [OF assms(1)] by (simp add: sum_diff1 tm_shape_def)
  have fin: "finite (dom (tm_heap s))" using tm_shape_finite [OF assms(1)] by simp
  show ?thesis
  proof (cases "free_count s < max_pool_size s")
    case True
    let ?s = "s\<lparr>free_list := a # free_list s, free_count := free_count s + 1\<rparr>"
    have "live ?s = live s - {a}" by (auto simp: live_def)
    moreover have "unat (free_count s + 1) = Suc (unat (free_count s))"
      using True by (rule unat_succ_lt)
    moreover from this have "free_count s + 1 \<le> max_pool_size s"
      using True by (simp add: word_le_nat_alt word_less_nat_alt)
    ultimately have "tm_shape ?s" using assms(1) a sum by (auto simp: tm_shape_def)
    with \<open>live ?s = _\<close> True a show ?thesis by (auto simp: task_pool_free_def)
  next
    case False
    let ?s = "s\<lparr>tm_heap := (tm_heap s)(a := None), total_allocated := total_allocated s - 1\<rparr>"
    have l: "live ?s = live s - {a}" by (auto simp: live_def)
    have "0 < card (dom (tm_heap s))"
      using a(2) fin by (auto simp: card_gt_0_iff)
    then have "total_allocated s \<noteq> 0" using assms(1) by (auto simp: tm_shape_def)
    then have "unat (total_allocated s - 1) = card (dom (tm_heap s)) - 1"
      using assms(1) by (simp add: tm_shape_def unat_minus_one)
    moreover have "card (dom (tm_heap s) - {a}) = card (dom (tm_heap s)) - 1"
      using a(2) by (rule card_Diff_singleton)
    moreover have "(\<Sum>b\<in>live ?s. task_blocks (task_at ?s b)) = blocks s"
      unfolding sum [symmetric] l by (rule sum.cong) auto
    ultimately have "tm_shape ?s"
      using assms(1) a by (auto simp: tm_shape_def)
    with l False a show ?thesis by (auto simp: task_pool_free_def)
  qed
qed

lemma task_blocks_zero [simp]: "task_blocks zero_task = 0"
  by (simp add: task_blocks_def zero_task_def zero_result_def)

lemma sum_blocks_insert:
  assumes "finite (live s)" "a \<notin> live s"
  shows "(\<Sum>x\<in>insert a (live s). task_blocks (the (if x = a then Some t else tm_heap s x)))
       = task_blocks t + (\<Sum>x\<in>live s. task_blocks (task_at s x))"
proof -
  have "(\<Sum>x\<in>live s. task_blocks (the (if x = a then Some t else tm_heap s x)))
      = (\<Sum>x\<in>live s. task_blocks (task_at s x))"
    by (rule sum.cong) (use assms in auto)
  then show ?thesis using assms by simp
qed

definition fresh_node :: "nat option \<Rightarrow> 'h tm \<Rightarrow> bool" where
  "fresh_node mem s \<longleftrightarrow>
     (case mem of None \<Rightarrow> True | Some n \<Rightarrow> n \<notin> dom (tm_heap s) \<and> 0 < n \<and> n < 2 ^ 64)"

lemma tm_shape_alloc:
  assumes "tm_shape s" "fresh_node mem s" "task_pool_alloc mem s = (r, s')"
  shows "(r = None \<and> s' = s) \<or> (\<exists>a. r = Some a \<and> a \<notin> live s \<and> tm_shape s'
           \<and> live s' = insert a (live s) \<and> tm_heap s' = (tm_heap s)(a \<mapsto> zero_task)
           \<and> next_task_id s' = next_task_id s)"
proof (cases "free_list s")
  case (Cons n ns)
  then have s': "s' = put_task n zero_task (s\<lparr>free_list := ns, free_count := free_count s - 1\<rparr>)"
    and r: "r = Some n"
    using assms(3) by (auto simp: task_pool_alloc_def)
  have n: "n \<in> dom (tm_heap s)" "n \<notin> set ns" "n \<notin> live s" "distinct ns" "set ns \<subseteq> dom (tm_heap s)"
    using assms(1) Cons by (auto simp: tm_shape_def live_def)
  have l: "live s' = insert n (live s)" using n by (auto simp: s' live_def Cons)
  have fc: "unat (free_count s) = Suc (length ns)" "free_count s \<le> max_pool_size s"
    using assms(1) Cons by (auto simp: tm_shape_def)
  then have "unat (free_count s - 1) = length ns"
    by (subst unat_minus_one) auto
  moreover from this fc have "free_count s - 1 \<le> max_pool_size s"
    by (simp add: word_le_nat_alt)
  moreover have "dom (tm_heap s') = dom (tm_heap s)" using n by (auto simp: s')
  moreover have "free_list s' = ns" "free_count s' = free_count s - 1" "blocks s' = blocks s"
    "max_pool_size s' = max_pool_size s" "total_allocated s' = total_allocated s"
    by (simp_all add: s')
  moreover have "blocks s = (\<Sum>x\<in>live s'. task_blocks (task_at s' x))"
    using sum_blocks_insert [OF finite_live [OF assms(1)] n(3), of zero_task] assms(1)
    by (simp add: l) (simp add: s' tm_shape_def)
  ultimately have "tm_shape s'"
    using assms(1) n by (simp add: tm_shape_def)
  then show ?thesis using l n r by (simp add: s')
next
  case Nil
  show ?thesis
  proof (cases mem)
    case None
    then show ?thesis using assms(3) Nil by (simp add: task_pool_alloc_def)
  next
    case (Some n)
    then have s': "s' = put_task n zero_task (s\<lparr>total_allocated := total_allocated s + 1\<rparr>)"
      and r: "r = Some n"
      using assms(3) Nil by (auto simp: task_pool_alloc_def)
    have n: "n \<notin> dom (tm_heap s)" "0 < n" "n < 2 ^ 64" using assms(2) Some by (auto simp: fresh_node_def)
    have l: "live s' = insert n (live s)" using n by (auto simp: s' live_def Nil)
    have nl: "n \<notin> live s" using n by (simp add: live_def)
    have sub: "insert n (dom (tm_heap s)) \<subseteq> {1..<2 ^ 64}"
      using n assms(1) by (auto simp: tm_shape_def)
    have "card (insert n (dom (tm_heap s))) \<le> card {1..<2 ^ 64 :: nat}"
      using sub by (intro card_mono) auto
    then have "unat (total_allocated s) + 1 < 2 ^ 64"
      using n tm_shape_finite [OF assms(1)] assms(1) by (simp add: tm_shape_def)
    then have "unat (total_allocated s + 1) = unat (total_allocated s) + 1"
      by (simp add: unat_word_ariths)
    moreover have "card (insert n (dom (tm_heap s))) = card (dom (tm_heap s)) + 1"
      using n(1) tm_shape_finite [OF assms(1)] by simp
    moreover have "blocks s = (\<Sum>x\<in>live s'. task_blocks (task_at s' x))"
      using sum_blocks_insert [OF finite_live [OF assms(1)] nl, of zero_task] assms(1)
      by (simp add: l) (simp add: s' tm_shape_def)
    ultimately have "tm_shape s'"
      using assms(1) n sub by (auto simp: tm_shape_def s')
    then show ?thesis using l nl r by (simp add: s')
  qed
qed

lemma add_blocks_add [simp]: "add_blocks j (add_blocks k s) = add_blocks (k + j) s"
  by (simp add: add_blocks_def)

lemma add_blocks_0 [simp]: "add_blocks 0 s = s"
  by (simp add: add_blocks_def)

lemma tm_shape_put_same:
  assumes "tm_shape s" "a \<in> live s" "task_blocks t = task_blocks (task_at s a)"
  shows "tm_shape (put_task a t s)"
  using tm_shape_put [OF assms(1,2), of 0 t] assms(3) by simp

lemma tm_shape_next_id [simp]: "tm_shape (s\<lparr>next_task_id := n\<rparr>) = tm_shape s"
  by (simp add: tm_shape_def live_def)

text \<open>A released node: back in the pool or returned to the system, all else untouched.\<close>

lemma task_release:
  assumes "tm_shape s" "a \<in> live s"
  shows "\<exists>s'. task_pool_free a (add_blocks (- task_blocks (task_at s a)) s) = Done s'
       \<and> tm_shape s' \<and> live s' = live s - {a}
       \<and> (\<forall>b\<in>live s'. tm_heap s' b = tm_heap s b) \<and> next_task_id s' = next_task_id s"
  using tm_shape_free [of "add_blocks (- task_blocks (task_at s a)) s" a] assms by simp

definition input_fits :: "'h task_desc option \<Rightarrow> bool" where
  "input_fits desc \<longleftrightarrow>
     (case desc of None \<Rightarrow> True | Some d \<Rightarrow>
      case d_input_data d of None \<Rightarrow> True | Some i \<Rightarrow> unat (d_input_size d) \<le> length i)"

text \<open>What \<open>task_create\<close> does: nothing visible, or one new live task with the next id.\<close>

definition created :: "create_env \<Rightarrow> 'h task_desc option \<Rightarrow> 'h tm \<Rightarrow> nat option \<Rightarrow> 'h tm \<Rightarrow> bool" where
  "created env desc s r s' \<longleftrightarrow> tm_shape s' \<and> (\<forall>b\<in>live s. tm_heap s' b = tm_heap s b)
     \<and> (case r of
          None \<Rightarrow> live s' = live s \<and> (next_task_id s' = next_task_id s \<or> next_task_id s' = next_task_id s + 1)
        | Some a \<Rightarrow> a \<notin> live s \<and> live s' = insert a (live s) \<and> next_task_id s' = next_task_id s + 1
            \<and> (\<exists>d. desc = Some d \<and> t_desc (task_at s' a) = d
                 \<and> t_input_data (task_at s' a) =
                     (if d_input_size d = 0 then None
                      else map_option (take (unat (d_input_size d))) (d_input_data d)))
            \<and> t_id (task_at s' a) = next_task_id s \<and> t_ref_count (task_at s' a) = 1
            \<and> t_state (task_at s' a) = TASK_STATE_PENDING)"

lemma created_success:
  assumes "tm_shape s1" "a \<notin> live s" "live s1 = insert a (live s)"
    "tm_heap s1 = (tm_heap s)(a \<mapsto> zero_task)" "next_task_id s1 = next_task_id s"
    "task_blocks t = k" "desc = Some (t_desc t)" "t_id t = next_task_id s" "t_ref_count t = 1"
    "t_state t = TASK_STATE_PENDING"
    "t_input_data t = (if d_input_size (t_desc t) = 0 then None
       else map_option (take (unat (d_input_size (t_desc t)))) (d_input_data (t_desc t)))"
  shows "created env desc s (Some a)
      (add_blocks k (put_task a t (s1\<lparr>next_task_id := next_task_id s1 + 1\<rparr>)))"
proof -
  let ?s2 = "s1\<lparr>next_task_id := next_task_id s1 + 1\<rparr>"
  have l: "live ?s2 = live s1" by (simp add: live_def)
  then have "tm_shape (add_blocks k (put_task a t ?s2))"
    using assms by (intro tm_shape_put) auto
  moreover have "live (put_task a t ?s2) = live s1" using assms(3) l by simp
  ultimately show ?thesis using assms by (auto simp: created_def)
qed

lemma created_failure:
  assumes "tm_shape s1" "a \<notin> live s" "live s1 = insert a (live s)"
    "tm_heap s1 = (tm_heap s)(a \<mapsto> zero_task)" "next_task_id s1 = next_task_id s"
    "task_blocks t = k"
  shows "\<exists>s'. task_pool_free a (put_task a t (s1\<lparr>next_task_id := next_task_id s1 + 1\<rparr>)) = Done s'
      \<and> created env desc s None s'"
proof -
  let ?s2 = "s1\<lparr>next_task_id := next_task_id s1 + 1\<rparr>"
  let ?s3 = "put_task a t ?s2"
  have l: "live ?s2 = live s1" by (simp add: live_def)
  then have "tm_shape (add_blocks k ?s3)"
    using assms by (intro tm_shape_put) auto
  moreover have l3: "live ?s3 = live s1" using assms(3) l by simp
  ultimately obtain s' where s': "task_pool_free a ?s3 = Done s'" "tm_shape s'"
    "live s' = live s1 - {a}" "\<forall>b\<in>live s'. tm_heap s' b = tm_heap ?s3 b"
    "next_task_id s' = next_task_id ?s3"
    using tm_shape_free [of ?s3 a] assms(3,6) by auto
  then have "created env desc s None s'"
    using assms by (auto simp: created_def)
  with s'(1) show ?thesis by blast
qed

lemma task_create_created:
  assumes "tm_shape s" "fresh_node (node_mem env) s" "input_fits desc"
  shows "\<exists>r s'. task_create env desc s = Done (r, s') \<and> created env desc s r s'"
proof (cases "desc = None \<or> (\<exists>d. desc = Some d \<and> d_handler d = None)")
  case True
  then have "task_create env desc s = Done (None, s)" by (auto simp: task_create_def)
  moreover have "created env desc s None s" using assms(1) by (simp add: created_def)
  ultimately show ?thesis by blast
next
  case False
  then obtain d where d: "desc = Some d" "d_handler d \<noteq> None" by auto
  obtain r s1 where al: "task_pool_alloc (node_mem env) s = (r, s1)" by (rule prod.exhaust)
  show ?thesis
  proof (cases r)
    case None
    then have "task_create env desc s = Done (None, s)"
      using tm_shape_alloc [OF assms(1,2) al] d al by (auto simp: task_create_def)
    moreover have "created env desc s None s" using assms(1) by (simp add: created_def)
    ultimately show ?thesis by blast
  next
    case (Some a)
    then have f: "tm_shape s1" "a \<notin> live s" "live s1 = insert a (live s)"
      "tm_heap s1 = (tm_heap s)(a \<mapsto> zero_task)" "next_task_id s1 = next_task_id s"
      using tm_shape_alloc [OF assms(1,2) al] by auto
    note c = created_success [OF f, of _ 0 desc env] created_success [OF f, of _ 1 desc env]
      created_failure [OF f refl, of _ env desc]
    let ?t = "zero_task\<lparr>t_id := next_task_id s, t_desc := d, t_state := TASK_STATE_PENDING,
                    t_worker_id := - 1, t_submit_ns := clock env, t_start_ns := 0,
                    t_end_ns := 0, t_ref_count := 1, t_result := zero_result\<rparr>"
    show ?thesis
    proof (cases "\<exists>i. d_input_data d = Some i \<and> 0 < d_input_size d")
      case True
      then obtain i where i: "d_input_data d = Some i" "0 < d_input_size d" by auto
      then have fit: "\<not> unat (d_input_size d) > length i"
        using assms(3) d by (simp add: input_fits_def)
      let ?u = "?t\<lparr>t_input_data := Some (take (unat (d_input_size d)) i),
                    t_input_size := d_input_size d\<rparr>"
      have "task_blocks ?u = 1" by (simp add: task_blocks_def zero_result_def)
      then show ?thesis
        using c(2) [of ?u] c(3) [of ?u] c(3) [of ?t] d al Some i fit f(5)
        by (auto simp: task_create_def generate_task_id_def Let_def)
    next
      case False
      then have inp: "d_input_size d = 0 \<or> d_input_data d = None"
        by (auto simp: word_gt_0)
      have "task_blocks ?t = 0" "t_desc ?t = d" "t_input_data ?t = None"
        by (simp_all add: task_blocks_def zero_task_def zero_result_def)
      then have ok: "created env desc s (Some a)
          (put_task a ?t (s1\<lparr>next_task_id := next_task_id s1 + 1\<rparr>))"
        using c(1) [of ?t] d inp by auto
      obtain s' where bad: "task_pool_free a
            (put_task a ?t (s1\<lparr>next_task_id := next_task_id s1 + 1\<rparr>)) = Done s'"
          "created env desc s None s'"
        using c(3) [of ?t] by auto
      have "task_create env desc s =
          (if \<not> mutex_ok env \<or> \<not> cond_ok env then Done (None, s')
           else Done (Some a, put_task a ?t (s1\<lparr>next_task_id := next_task_id s1 + 1\<rparr>)))"
        using d al Some inp f(5) bad(1) \<open>t_input_data ?t = None\<close>
        by (auto simp: task_create_def generate_task_id_def Let_def split: option.splits)
      then show ?thesis using ok bad(2) by auto
    qed
  qed
qed

subsection \<open>Calls that respect the contract of the interface\<close>

text \<open>
  The calls a client makes on tasks it holds. \<open>op_ok\<close> is the contract: the task is live, buffers
  are as long as announced, \<open>malloc\<close> returns memory that is not in use and the 2^64 - 1 ids are
  not exhausted.
\<close>

datatype 'h tm_op =
    OpCreate create_env "'h task_desc option"
  | OpRef nat
  | OpUnref nat
  | OpCancel u64 nat
  | OpSetResult bool nat "u8 list option" u64
  | OpSetError bool nat "32 word" "string option"

fun tm_exec :: "'h tm_op \<Rightarrow> 'h tm \<Rightarrow> 'h tm outcome" where
  "tm_exec (OpCreate env d) s = bind_outcome (task_create env d s) (\<lambda>(r, s'). Done s')"
| "tm_exec (OpRef a) s = task_ref (Some a) s"
| "tm_exec (OpUnref a) s = task_unref (Some a) s"
| "tm_exec (OpCancel now a) s = bind_outcome (task_cancel now (Some a) s) (\<lambda>(r, s'). Done s')"
| "tm_exec (OpSetResult m a out n) s =
     bind_outcome (task_set_result m (Some a) out n s) (\<lambda>(r, s'). Done s')"
| "tm_exec (OpSetError m a code msg) s =
     bind_outcome (task_set_error m (Some a) code msg s) (\<lambda>(r, s'). Done s')"

fun op_ok :: "'h tm_op \<Rightarrow> 'h tm \<Rightarrow> bool" where
  "op_ok (OpCreate env d) s \<longleftrightarrow>
     fresh_node (node_mem env) s \<and> input_fits d \<and> next_task_id s < - 1"
| "op_ok (OpRef a) s \<longleftrightarrow> a \<in> live s"
| "op_ok (OpUnref a) s \<longleftrightarrow> a \<in> live s"
| "op_ok (OpCancel now a) s \<longleftrightarrow> a \<in> live s"
| "op_ok (OpSetResult m a out n) s \<longleftrightarrow>
     a \<in> live s \<and> (case out of None \<Rightarrow> True | Some d \<Rightarrow> unat n \<le> length d)"
| "op_ok (OpSetError m a code msg) s \<longleftrightarrow> a \<in> live s"

inductive tm_reach :: "'h tm \<Rightarrow> bool" where
  init: "tm_reach tm_init"
| step: "tm_reach s \<Longrightarrow> op_ok op s \<Longrightarrow> tm_exec op s = Done s' \<Longrightarrow> tm_reach s'"

lemma tm_inv_put:
  assumes "tm_inv s" "a \<in> live s" "k = task_blocks t - task_blocks (task_at s a)"
    "t_id t = t_id (task_at s a)" "1 \<le> t_ref_count t"
  shows "tm_inv (add_blocks k (put_task a t s))"
proof -
  have "tm_shape (add_blocks k (put_task a t s))"
    using assms by (intro tm_shape_put) (auto simp: tm_inv_def)
  moreover have l: "live (add_blocks k (put_task a t s)) = live s" using assms(2) by simp
  moreover have "t_id (task_at (add_blocks k (put_task a t s)) b) = t_id (task_at s b)" for b
    using assms(4) by simp
  moreover have "1 \<le> t_ref_count (task_at (add_blocks k (put_task a t s)) b)" if "b \<in> live s" for b
    using assms(1,5) that by (simp add: tm_inv_def)
  ultimately show ?thesis
    using assms(1) by (simp only: tm_inv_def tm_ids_def add_blocks_simps put_task_simps) blast
qed

lemma tm_inv_remove:
  assumes "tm_inv s" "tm_shape s'" "live s' \<subseteq> live s" "next_task_id s' = next_task_id s"
    "\<And>b. b \<in> live s' \<Longrightarrow> tm_heap s' b = tm_heap s b"
  shows "tm_inv s'"
  using assms by (auto simp: tm_inv_def tm_ids_def inj_on_def subset_iff)

lemma tm_inv_init: "tm_inv tm_init"
  by (simp add: tm_inv_def tm_shape_def tm_ids_def tm_init_def live_def)

lemma tm_inv_created:
  assumes "tm_inv s" "created env d s r s'" "next_task_id s < - 1"
  shows "tm_inv s'"
proof -
  have n: "unat (next_task_id s + 1) = Suc (unat (next_task_id s))"
    using assms(3) by (rule unat_succ_lt)
  then have lt: "next_task_id s < next_task_id s + 1" by (simp add: word_less_nat_alt)
  have ids: "\<And>b. b \<in> live s \<Longrightarrow> t_id (task_at s b) < next_task_id s"
    using assms(1) by (auto simp: tm_inv_def tm_ids_def)
  then have ids2: "\<And>b. b \<in> live s \<Longrightarrow> t_id (task_at s b) < next_task_id s + 1"
    using lt by (blast intro: less_trans)
  have old: "\<And>b. b \<in> live s \<Longrightarrow> tm_heap s' b = tm_heap s b" and sh: "tm_shape s'"
    using assms(2) by (auto simp: created_def)
  show ?thesis
  proof (cases r)
    case None
    then have "live s' = live s" "next_task_id s' = next_task_id s \<or> next_task_id s' = next_task_id s + 1"
      using assms(2) by (auto simp: created_def)
    then show ?thesis
      using assms(1) sh old ids ids2 by (auto simp: tm_inv_def tm_ids_def inj_on_def)
  next
    case (Some a)
    then have "live s' = insert a (live s)" "next_task_id s' = next_task_id s + 1" "a \<notin> live s"
      "t_id (task_at s' a) = next_task_id s" "t_ref_count (task_at s' a) = 1"
      using assms(2) by (auto simp: created_def)
    note new = this
    have same: "t_id (task_at s' b) = t_id (task_at s b)" if "b \<in> live s" for b
      using old [OF that] by simp
    then have "inj_on (\<lambda>b. t_id (task_at s' b)) (live s)"
      using assms(1) by (auto simp: tm_inv_def tm_ids_def inj_on_def)
    moreover have "next_task_id s \<notin> (\<lambda>b. t_id (task_at s' b)) ` live s"
    proof
      assume "next_task_id s \<in> (\<lambda>b. t_id (task_at s' b)) ` live s"
      then obtain b where b: "b \<in> live s" "next_task_id s = t_id (task_at s' b)" by blast
      show False using ids [OF b(1)] unfolding same [OF b(1), symmetric] b(2) by simp
    qed
    ultimately have "inj_on (\<lambda>b. t_id (task_at s' b)) (live s')"
      by (simp only: new(1) inj_on_insert new(4)) blast
    moreover have "t_id (task_at s' b) < next_task_id s'" if "b \<in> live s'" for b
      using that new lt ids2 same by (cases "b = a") auto
    moreover have "1 \<le> t_ref_count (task_at s' b)" if "b \<in> live s'" for b
    proof (cases "b = a")
      case False
      then have b: "b \<in> live s" using that new by simp
      then show ?thesis using assms(1) old [OF b] by (simp add: tm_inv_def)
    qed (simp add: new)
    ultimately show ?thesis
      unfolding tm_inv_def tm_ids_def using sh by blast
  qed
qed

lemma tm_inv_unref:
  assumes "tm_inv s" "a \<in> live s"
  shows "\<exists>s'. task_unref (Some a) s = Done s' \<and> tm_inv s'
       \<and> live s' = (if t_ref_count (task_at s a) = 1 then live s - {a} else live s)
       \<and> (\<forall>b\<in>live s - {a}. tm_heap s' b = tm_heap s b)
       \<and> (t_ref_count (task_at s a) \<noteq> 1 \<longrightarrow> tm_heap s' a =
            Some ((task_at s a)\<lparr>t_ref_count := t_ref_count (task_at s a) - 1\<rparr>))"
proof -
  obtain t where h: "tm_heap s a = Some t" using live_lookup [OF assms(2)] by blast
  have r: "1 \<le> t_ref_count t" using assms h by (auto simp: tm_inv_def)
  have ta: "task_at s a = t" by (simp add: h)
  show ?thesis
  proof (cases "t_ref_count t = 1")
    case False
    let ?u = "t\<lparr>t_ref_count := t_ref_count t - 1\<rparr>"
    have "tm_inv (add_blocks 0 (put_task a ?u s))"
      using assms r False ta by (intro tm_inv_put) (auto simp: task_blocks_def)
    then show ?thesis using h r False assms(2) by (simp add: task_unref_def task_destroy_def Let_def)
  next
    case True
    let ?u = "t\<lparr>t_ref_count := t_ref_count t - 1, t_input_data := None,
      t_result := (t_result t)\<lparr>r_output_data := None, r_error_message := None\<rparr>\<rparr>"
    let ?s = "add_blocks (- task_blocks t) (put_task a ?u s)"
    have u: "task_blocks ?u = 0" by (simp add: task_blocks_def)
    then have "tm_shape ?s"
      using assms ta by (intro tm_shape_put) (auto simp: tm_inv_def)
    moreover have "live ?s = live s" using assms(2) by simp
    moreover have "task_blocks (task_at ?s a) = 0" using u by simp
    ultimately obtain s' where s': "task_pool_free a ?s = Done s'" "tm_shape s'"
      "live s' = live s - {a}" "\<forall>b\<in>live s'. tm_heap s' b = tm_heap ?s b"
      "next_task_id s' = next_task_id ?s"
      using tm_shape_free [of ?s a] assms(2) by auto
    have "tm_inv s'"
      using assms(1) s' by (intro tm_inv_remove [of s s']) auto
    moreover have "task_unref (Some a) s = Done s'"
      using h True s'(1) by (simp add: task_unref_def task_destroy_def Let_def task_blocks_def)
    ultimately show ?thesis using s' True ta by auto
  qed
qed

lemma tm_inv_exec:
  assumes "tm_inv s" "op_ok op s"
  shows "\<exists>s'. tm_exec op s = Done s' \<and> tm_inv s'"
proof (cases op)
  case (OpCreate env d)
  then obtain r s' where "task_create env d s = Done (r, s')" "created env d s r s'"
    using task_create_created [of s env d] assms by (auto simp: tm_inv_def)
  then show ?thesis using OpCreate assms tm_inv_created by auto
next
  case (OpRef a)
  then have a: "a \<in> live s" using assms(2) by simp
  then obtain t where t: "tm_heap s a = Some t" using live_lookup by blast
  have "tm_inv (add_blocks 0 (put_task a (t\<lparr>t_ref_count := t_ref_count t + 1\<rparr>) s))"
    using assms(1) a t by (intro tm_inv_put) (auto simp: task_blocks_def tm_inv_def)
  then show ?thesis using OpRef t by (simp add: task_ref_def)
next
  case (OpUnref a)
  then show ?thesis using tm_inv_unref [of s a] assms by auto
next
  case (OpCancel now a)
  then have a: "a \<in> live s" using assms(2) by simp
  then obtain t where t: "tm_heap s a = Some t" using live_lookup by blast
  have "tm_inv (add_blocks 0 (put_task a (t\<lparr>t_state := TASK_STATE_CANCELLED, t_end_ns := now,
            t_broadcasts := t_broadcasts t + 1\<rparr>) s))"
    using assms(1) a t by (intro tm_inv_put) (auto simp: task_blocks_def tm_inv_def)
  then show ?thesis using OpCancel t assms(1) by (simp add: task_cancel_def)
next
  case (OpSetError m a code msg)
  then have a: "a \<in> live s" using assms(2) by simp
  then obtain t where t: "tm_heap s a = Some t" using live_lookup by blast
  let ?c = "if m then msg else None"
  have "tm_inv (add_blocks (owned ?c - owned (r_error_message (t_result t)))
      (put_task a (t\<lparr>t_result := (t_result t)\<lparr>r_error_message := ?c, r_error_code := code\<rparr>\<rparr>) s))"
    using assms(1) a t by (intro tm_inv_put) (auto simp: task_blocks_def tm_inv_def)
  then show ?thesis using OpSetError t by (simp add: task_set_error_def Let_def)
next
  case (OpSetResult m a out n)
  then have a: "a \<in> live s" and fits: "case out of None \<Rightarrow> True | Some d \<Rightarrow> unat n \<le> length d"
    using assms(2) by auto
  then obtain t where t: "tm_heap s a = Some t" using live_lookup by blast
  have refs: "1 \<le> t_ref_count t" using assms(1) a t by (auto simp: tm_inv_def)
  let ?r = "t_result t"
  let ?r1 = "if r_output_data ?r \<noteq> None then ?r\<lparr>r_output_data := None, r_output_size := 0\<rparr> else ?r"
  let ?s1 = "add_blocks (- owned (r_output_data ?r)) (put_task a (t\<lparr>t_result := ?r1\<rparr>) s)"
  have inv1: "tm_inv ?s1"
    using assms(1) a t by (intro tm_inv_put) (auto simp: task_blocks_def tm_inv_def)
  have upd: "tm_inv (add_blocks (owned (r_output_data r2)) (put_task a (t\<lparr>t_result := r2\<rparr>) ?s1))"
    if "r_error_message r2 = r_error_message ?r" for r2
    by (rule tm_inv_put [OF inv1]) (use a t that refs in \<open>auto simp: task_blocks_def\<close>)
  have clear: "r_output_data (?r1\<lparr>r_error_code := 0\<rparr>) = None"
    "r_error_message (?r1\<lparr>r_error_code := 0\<rparr>) = r_error_message ?r"
    by (auto split: if_splits)
  have inv2: "tm_inv (put_task a (t\<lparr>t_result := ?r1\<lparr>r_error_code := 0\<rparr>\<rparr>) ?s1)"
    using upd [of "?r1\<lparr>r_error_code := 0\<rparr>", OF clear(2)] by (simp only: clear(1) owned_simps add_blocks_0)
  show ?thesis
  proof (cases "\<exists>d. out = Some d \<and> 0 < n")
    case True
    then obtain d where d: "out = Some d" "0 < n" by auto
    let ?r2 = "?r1\<lparr>r_output_data := Some (take (unat n) d), r_output_size := n, r_error_code := 0\<rparr>"
    have "tm_inv (add_blocks 1 (put_task a (t\<lparr>t_result := ?r2\<rparr>) ?s1))"
      using upd [of ?r2] by simp
    then show ?thesis
      using OpSetResult d t fits inv1 by (simp add: task_set_result_def Let_def)
  next
    case False
    then have "task_set_result m (Some a) out n s
        = Done (POOL_SUCCESS, put_task a (t\<lparr>t_result := ?r1\<lparr>r_error_code := 0\<rparr>\<rparr>) ?s1)"
      using t by (auto simp: task_set_result_def Let_def split: option.splits)
    then show ?thesis using OpSetResult inv2 by simp
  qed
qed

lemma tm_reach_inv: "tm_reach s \<Longrightarrow> tm_inv s"
proof (induction rule: tm_reach.induct)
  case init
  show ?case by (rule tm_inv_init)
next
  case (step s op s')
  then show ?case using tm_inv_exec [of s op] by auto
qed

fun unref_times :: "nat \<Rightarrow> nat \<Rightarrow> 'h tm \<Rightarrow> 'h tm outcome" where
  "unref_times 0 a s = Done s"
| "unref_times (Suc n) a s = bind_outcome (task_unref (Some a) s) (unref_times n a)"

lemma unref_times_live:
  assumes "tm_inv s" "a \<in> live s" "int n \<le> t_ref_count (task_at s a)"
  shows "\<exists>s'. unref_times n a s = Done s' \<and> tm_inv s'
       \<and> live s' = (if int n = t_ref_count (task_at s a) then live s - {a} else live s)"
  using assms
proof (induction n arbitrary: s)
  case 0
  have "1 \<le> t_ref_count (task_at s a)" using 0 by (auto simp: tm_inv_def)
  then show ?case using 0 by simp
next
  case (Suc n)
  obtain s1 where s1: "task_unref (Some a) s = Done s1" "tm_inv s1"
    "live s1 = (if t_ref_count (task_at s a) = 1 then live s - {a} else live s)"
    "t_ref_count (task_at s a) \<noteq> 1 \<longrightarrow> tm_heap s1 a =
       Some ((task_at s a)\<lparr>t_ref_count := t_ref_count (task_at s a) - 1\<rparr>)"
    using tm_inv_unref [OF Suc.prems(1,2)] by blast
  show ?case
  proof (cases "t_ref_count (task_at s a) = 1")
    case True
    then have "n = 0" using Suc.prems by simp
    then show ?thesis using s1 True by simp
  next
    case False
    then have "t_ref_count (task_at s1 a) = t_ref_count (task_at s a) - 1" "live s1 = live s"
      using s1 by auto
    then show ?thesis using Suc.IH [of s1] Suc.prems s1 by auto
  qed
qed

subsection \<open>Waiting\<close>

text \<open>The states a waiter observes, one per look at the state, and the results in between.\<close>

definition seen_states :: "task_state \<Rightarrow> wakeup list \<Rightarrow> task_state list" where
  "seen_states st ws = st # map snd ws"

lemma wait_timed_success_iff:
  "wait_timed st ws = Done POOL_SUCCESS \<longleftrightarrow>
     (\<exists>i<length (seen_states st ws). state_is_completed (seen_states st ws ! i)
        \<and> (\<forall>j<i. fst (ws ! j) = 0))"
proof (induction st ws rule: wait_timed.induct)
  case (1 st)
  then show ?case by (simp add: seen_states_def)
next
  case (2 st ret st' ws)
  have shift: "(\<exists>i<length (seen_states st ((ret, st') # ws)).
        state_is_completed (seen_states st ((ret, st') # ws) ! i)
          \<and> (\<forall>j<i. fst (((ret, st') # ws) ! j) = 0))
      \<longleftrightarrow> state_is_completed st
        \<or> ret = 0 \<and> (\<exists>i<length (seen_states st' ws). state_is_completed (seen_states st' ws ! i)
             \<and> (\<forall>j<i. fst (ws ! j) = 0))"
    (is "?L \<longleftrightarrow> ?R")
  proof
    assume ?L
    then obtain i where i: "i < length (seen_states st ((ret, st') # ws))"
      "state_is_completed (seen_states st ((ret, st') # ws) ! i)"
      "\<forall>j<i. fst (((ret, st') # ws) ! j) = 0" by blast
    show ?R
    proof (cases i)
      case 0
      then show ?thesis using i by (simp add: seen_states_def)
    next
      case (Suc k)
      then have "ret = 0" using i(3) by auto
      moreover have "\<forall>j<k. fst (ws ! j) = 0"
        using i(3) Suc by (metis Suc_mono nth_Cons_Suc)
      moreover have "k < length (seen_states st' ws)" "state_is_completed (seen_states st' ws ! k)"
        using i Suc by (simp_all add: seen_states_def)
      ultimately show ?thesis by blast
    qed
  next
    assume ?R
    then show ?L
    proof (elim disjE conjE exE)
      assume "state_is_completed st"
      then show ?L by (intro exI [of _ 0]) (simp add: seen_states_def)
    next
      fix i
      assume "ret = 0" "i < length (seen_states st' ws)" "state_is_completed (seen_states st' ws ! i)"
        "\<forall>j<i. fst (ws ! j) = 0"
      then show ?L
        by (intro exI [of _ "Suc i"]) (auto simp: seen_states_def less_Suc_eq_0_disj)
    qed
  qed
  show ?case
    unfolding shift using "2.IH" by (auto simp: ETIMEDOUT_def)
qed

lemma wait_forever_blocked_iff:
  "wait_forever st ws = Blocked \<longleftrightarrow> (\<forall>st'\<in>set (seen_states st ws). \<not> state_is_completed st')"
  by (induction st ws rule: wait_forever.induct) (auto simp: seen_states_def)

lemma wait_forever_success_or_blocked:
  "wait_forever st ws = Done POOL_SUCCESS \<or> wait_forever st ws = Blocked"
  by (induction st ws rule: wait_forever.induct) auto

text \<open>The deadline is normalised and exactly \<open>timeout_ms\<close> milliseconds away.\<close>

definition timespec_ns :: "int \<times> int \<Rightarrow> int" where
  "timespec_ns ts = fst ts * 1000000000 + snd ts"

lemma uint_ms_ns:
  fixes w :: u32
  shows "uint ((w mod 1000) * 1000000) = (uint w mod 1000) * 1000000"
proof -
  have "uint (w mod 1000) = uint w mod 1000" by (simp add: uint_mod)
  moreover have "0 \<le> uint w mod 1000" "uint w mod 1000 < 1000" by simp_all
  ultimately show ?thesis by (simp add: uint_mult_lem [THEN iffD1] uint_word_ariths)
qed

lemma abs_deadline_exact:
  assumes "0 \<le> snd now" "snd now < 1000000000"
  shows "0 \<le> snd (abs_deadline now timeout_ms) \<and> snd (abs_deadline now timeout_ms) < 1000000000
     \<and> timespec_ns (abs_deadline now timeout_ms)
         = timespec_ns now + uint timeout_ms * 1000000"
proof -
  have d: "uint (timeout_ms div 1000) = uint timeout_ms div 1000" by (simp add: uint_div)
  have "uint timeout_ms div 1000 * 1000 + uint timeout_ms mod 1000 = uint timeout_ms"
    by (rule div_mult_mod_eq)
  then have "uint timeout_ms div 1000 * 1000000000 + uint timeout_ms mod 1000 * 1000000
      = uint timeout_ms * 1000000" by linarith
  moreover have "0 \<le> uint timeout_ms mod 1000" "uint timeout_ms mod 1000 < 1000" by simp_all
  ultimately show ?thesis
    using assms unfolding abs_deadline_def Let_def timespec_ns_def uint_ms_ns d
    by (auto split: if_splits)
qed

subsection \<open>Properties\<close>

text \<open>A first call, for the examples below.\<close>

definition first_create :: "nat tm_op" where
  "first_create = OpCreate \<lparr>node_mem = Some 64, input_mem = True, mutex_ok = True, cond_ok = True,
     clock = 5\<rparr> (Some \<lparr>d_handler = Some 0, d_input_data = Some [1, 2], d_input_size = 2\<rparr>)"

lemma first_create_ok: "op_ok first_create tm_init"
proof -
  have "(1::u64) < - 1" by code_simp
  then show ?thesis by (simp add: first_create_def tm_init_def fresh_node_def input_fits_def)
qed

lemma first_create_live:
  obtains s1 t where "tm_exec first_create tm_init = Done s1" "tm_reach s1"
    "tm_heap s1 = [64 \<mapsto> t]" "t_ref_count t = 1" "free_list s1 = []" "free_count s1 = 0"
    "max_pool_size s1 = 1000" "live s1 = {64}"
proof -
  obtain s1 where s1: "tm_exec first_create tm_init = Done s1"
    using tm_inv_exec [OF tm_inv_init first_create_ok] by blast
  have "\<exists>t. tm_heap s1 = [64 \<mapsto> t] \<and> t_ref_count t = 1 \<and> free_list s1 = [] \<and> free_count s1 = 0
      \<and> max_pool_size s1 = 1000"
    using s1 by (auto simp: first_create_def task_create_def task_pool_alloc_def tm_init_def
        put_task_def add_blocks_def generate_task_id_def Let_def)
  then obtain t where t: "tm_heap s1 = [64 \<mapsto> t]" "t_ref_count t = 1" "free_list s1 = []"
    "free_count s1 = 0" "max_pool_size s1 = 1000" by blast
  have "live s1 = {64}" by (simp add: live_def t(1,3))
  with that [OF s1 tm_reach.step [OF tm_reach.init first_create_ok s1] t] show ?thesis by blast
qed



text \<open>When the clients have released every task, no buffer is left, every node of the heap
  is on the free list, and \<open>task_pool_cleanup\<close> returns them all.\<close>

theorem task_pool_no_leak:
  assumes "tm_reach s" "live s = {}"
  shows "blocks s = 0 \<and> dom (tm_heap s) = set (free_list s)
     \<and> tm_heap (task_pool_cleanup s) = Map.empty
     \<and> unat (total_allocated (task_pool_cleanup s)) = card (dom (tm_heap (task_pool_cleanup s)))"
proof -
  have i: "tm_inv s" by (rule tm_reach_inv [OF assms(1)])
  then have d: "dom (tm_heap s) = set (free_list s)"
    using assms(2) by (auto simp: tm_inv_def tm_shape_def live_def)
  have "tm_heap s |` (- set (free_list s)) = Map.empty"
    by (rule ext) (use d in \<open>auto simp: restrict_map_def\<close>)
  then show ?thesis using i d assms(2) by (simp add: tm_inv_def tm_shape_def task_pool_cleanup_def)
qed

theorem task_pool_no_leak_witness:
  "\<exists>s :: nat tm. tm_reach s \<and> live s = {} \<and> free_list s = [64] \<and> blocks s = 0
     \<and> tm_heap (task_pool_cleanup s) = Map.empty"
proof -
  obtain s1 t where s1: "tm_exec first_create tm_init = Done s1" "tm_reach s1"
      "tm_heap s1 = [64 \<mapsto> t]" "t_ref_count t = 1" "free_list s1 = []" "free_count s1 = 0"
      "max_pool_size s1 = 1000" "live s1 = {64}"
    by (rule first_create_live)
  then have ok2: "op_ok (OpUnref 64) s1" by simp
  have r1: "tm_reach s1" by (rule s1(2))
  obtain s2 where s2: "tm_exec (OpUnref 64) s1 = Done s2"
    using tm_inv_exec [OF tm_reach_inv [OF r1] ok2] by blast
  have r2: "tm_reach s2" using tm_reach.step [OF r1 ok2 s2] .
  have l2: "live s2 = {}" "free_list s2 = [64]"
    using s1(3-7) s2 by (auto simp: put_task_def add_blocks_def Let_def live_def task_unref_def
        task_destroy_def task_pool_free_def split: if_splits)
  then show ?thesis using task_pool_no_leak [OF r2 l2(1)] r2 by blast
qed

text \<open>A task is released by exactly the last \<open>task_unref\<close>: with \<open>k\<close> references, \<open>n \<le> k\<close>
  unrefs succeed and the task is live until \<open>n = k\<close>; other tasks stay live.\<close>

theorem task_refcount_last_frees:
  assumes "tm_reach s" "a \<in> live s" "int n \<le> t_ref_count (task_at s a)"
  shows "\<exists>s'. unref_times n a s = Done s'
       \<and> (a \<in> live s' \<longleftrightarrow> int n < t_ref_count (task_at s a)) \<and> live s' - {a} = live s - {a}"
  using unref_times_live [OF tm_reach_inv [OF assms(1)] assms(2,3)] assms(2,3) by auto

theorem task_refcount_last_frees_witness:
  "\<exists>s s' :: nat tm. tm_reach s \<and> 64 \<in> live s \<and> t_ref_count (task_at s 64) = 2
     \<and> unref_times 2 64 s = Done s' \<and> 64 \<notin> live s'"
proof -
  obtain s1 t where s1: "tm_exec first_create tm_init = Done s1" "tm_reach s1"
      "tm_heap s1 = [64 \<mapsto> t]" "t_ref_count t = 1" "free_list s1 = []" "free_count s1 = 0"
      "max_pool_size s1 = 1000" "live s1 = {64}"
    by (rule first_create_live)
  then have ok2: "op_ok (OpRef 64) s1" by simp
  have r1: "tm_reach s1" by (rule s1(2))
  obtain s2 where s2: "tm_exec (OpRef 64) s1 = Done s2"
    using tm_inv_exec [OF tm_reach_inv [OF r1] ok2] by blast
  have r2: "tm_reach s2" using tm_reach.step [OF r1 ok2 s2] .
  have l2: "64 \<in> live s2" "t_ref_count (task_at s2 64) = 2"
    using s2 s1(3-7) by (auto simp: task_ref_def put_task_def live_def)
  then have "int 2 \<le> t_ref_count (task_at s2 64)" by simp
  from task_refcount_last_frees [OF r2 l2(1) this] show ?thesis using r2 l2 by auto
qed

text \<open>When a creation succeeds.\<close>

lemma task_create_success_iff:
  assumes "task_create env desc s = Done (r, s')"
  shows "r \<noteq> None \<longleftrightarrow> (\<exists>d. desc = Some d \<and> d_handler d \<noteq> None
           \<and> (free_list s \<noteq> [] \<or> node_mem env \<noteq> None)
           \<and> (d_input_data d \<noteq> None \<and> 0 < d_input_size d \<longrightarrow> input_mem env)
           \<and> mutex_ok env \<and> cond_ok env)"
proof -
  have rel: "bind_outcome (task_pool_free a x) (\<lambda>s''. Done (None, s'')) = Done (r, s') \<Longrightarrow> r = None"
    for a x by (auto simp: bind_outcome_Done_iff)
  have al: "fst (task_pool_alloc (node_mem env) s) \<noteq> None
      \<longleftrightarrow> free_list s \<noteq> [] \<or> node_mem env \<noteq> None"
    by (auto simp: task_pool_alloc_def split: list.splits option.splits)
  obtain p s1 where p: "task_pool_alloc (node_mem env) s = (p, s1)" by (rule prod.exhaust)
  show ?thesis
    using assms al p
    by (auto simp: task_create_def generate_task_id_def Let_def split: option.splits if_splits
        dest!: rel)
qed

text \<open>C3. \<open>task_create\<close> succeeds exactly when the description has a handler and every
  allocation and initialisation succeeds; the new task has the next id, one reference, a
  private copy of the input and state PENDING, and nothing else changes. A failed call leaves no
  task and no buffer behind, at whatever step it fails.\<close>

theorem task_create_all_or_nothing:
  assumes "tm_reach s" "op_ok (OpCreate env desc) s"
  shows "\<exists>r s'. task_create env desc s = Done (r, s')
     \<and> (r \<noteq> None \<longleftrightarrow> (\<exists>d. desc = Some d \<and> d_handler d \<noteq> None
           \<and> (free_list s \<noteq> [] \<or> node_mem env \<noteq> None)
           \<and> (d_input_data d \<noteq> None \<and> 0 < d_input_size d \<longrightarrow> input_mem env)
           \<and> mutex_ok env \<and> cond_ok env))
     \<and> (\<forall>b\<in>live s. tm_heap s' b = tm_heap s b)
     \<and> (case r of
          None \<Rightarrow> live s' = live s \<and> blocks s' = blocks s
        | Some a \<Rightarrow> a \<notin> live s \<and> live s' = insert a (live s)
            \<and> t_id (task_at s' a) = next_task_id s \<and> t_ref_count (task_at s' a) = 1
            \<and> t_state (task_at s' a) = TASK_STATE_PENDING
            \<and> t_input_data (task_at s' a) =
                (if d_input_size (the desc) = 0 then None
                 else map_option (take (unat (d_input_size (the desc)))) (d_input_data (the desc))))"
proof -
  have i: "tm_shape s" using tm_reach_inv [OF assms(1)] by (simp add: tm_inv_def)
  have "fresh_node (node_mem env) s" "input_fits desc" using assms(2) by auto
  then obtain r s' where c: "task_create env desc s = Done (r, s')" "created env desc s r s'"
    using task_create_created [OF i] by blast
  have "blocks s' = blocks s" if "r = None"
  proof -
    have "live s' = live s" "tm_shape s'" and same: "\<forall>b\<in>live s. tm_heap s' b = tm_heap s b"
      using c(2) that by (auto simp: created_def)
    moreover have "(\<Sum>a\<in>live s. task_blocks (task_at s' a)) = (\<Sum>a\<in>live s. task_blocks (task_at s a))"
      by (rule sum.cong) (use same in auto)
    ultimately show ?thesis using i by (simp add: tm_shape_def)
  qed
  moreover have "r \<noteq> None \<longleftrightarrow> (\<exists>d. desc = Some d \<and> d_handler d \<noteq> None
           \<and> (free_list s \<noteq> [] \<or> node_mem env \<noteq> None)
           \<and> (d_input_data d \<noteq> None \<and> 0 < d_input_size d \<longrightarrow> input_mem env)
           \<and> mutex_ok env \<and> cond_ok env)"
    by (rule task_create_success_iff [OF c(1)])
  moreover have "\<forall>b\<in>live s. tm_heap s' b = tm_heap s b" using c(2) by (simp add: created_def)
  ultimately show ?thesis
    using c by (intro exI [of _ r] exI [of _ s']) (auto simp: created_def split: option.splits)
qed

theorem task_create_all_or_nothing_witness:
  "\<exists>r s'. task_create \<lparr>node_mem = Some 64, input_mem = True, mutex_ok = True, cond_ok = False,
       clock = 5\<rparr> (Some \<lparr>d_handler = Some (0::nat), d_input_data = Some [1, 2], d_input_size = 2\<rparr>)
       tm_init = Done (r, s') \<and> r = None \<and> live s' = {} \<and> blocks s' = 0"
proof -
  let ?env = "\<lparr>node_mem = Some 64, input_mem = True, mutex_ok = True, cond_ok = False, clock = 5\<rparr>"
  let ?d = "Some \<lparr>d_handler = Some (0::nat), d_input_data = Some [1, 2], d_input_size = 2\<rparr>"
  have "(1::u64) < - 1" by code_simp
  then have ok: "op_ok (OpCreate ?env ?d) tm_init"
    by (simp add: tm_init_def fresh_node_def input_fits_def)
  show ?thesis
    using task_create_all_or_nothing [OF tm_reach.init ok]
    by (auto simp: tm_init_def live_def split: option.splits)
qed

text \<open>Cancelling a pending or running task stamps its end, wakes the waiters once and is
  final: it counts as completed, every wait returns at once and a second cancel is refused.
  In every other state the call is refused and changes nothing.\<close>

theorem task_cancel_final:
  assumes "tm_heap s a = Some t"
  shows "if t_state t = TASK_STATE_PENDING \<or> t_state t = TASK_STATE_RUNNING
     then \<exists>s'. task_cancel now (Some a) s = Done (POOL_SUCCESS, s')
        \<and> t_end_ns (task_at s' a) = now \<and> t_broadcasts (task_at s' a) = t_broadcasts t + 1
        \<and> task_is_completed (Some a) s' = Done True
        \<and> task_cancel now' (Some a) s' = Done (POOL_ERROR_INVALID_PARAM, s')
        \<and> task_wait clk ws (Some (t_state (task_at s' a))) ms = Done POOL_SUCCESS
     else task_cancel now (Some a) s = Done (POOL_ERROR_INVALID_PARAM, s)"
  using assms by (auto simp: task_cancel_def task_is_completed_def task_wait_def put_task_def)

theorem task_cancel_final_witness:
  "\<exists>s' :: nat tm. task_cancel 9 (Some 64) (put_task 64 zero_task tm_init) = Done (POOL_SUCCESS, s')
     \<and> task_is_completed (Some 64) s' = Done True"
proof -
  have "tm_heap (put_task 64 zero_task tm_init) 64 = Some (zero_task :: nat task)" by simp
  from task_cancel_final [OF this, of 9 0 "(0, 0)" "\<lambda>_. []" 0] show ?thesis by (auto simp: zero_task_def)
qed

text \<open>A timed wait uses a normalised absolute deadline exactly \<open>timeout_ms\<close> milliseconds
  ahead, and returns success precisely when the task is seen completed before any wait returned
  a non-zero code.\<close>

theorem task_wait_timed_correct:
  assumes "0 < timeout_ms" "0 \<le> snd now" "snd now < 1000000000"
  shows "\<exists>deadline. 0 \<le> snd deadline \<and> snd deadline < 1000000000
     \<and> timespec_ns deadline = timespec_ns now + uint timeout_ms * 1000000
     \<and> (task_wait now ws (Some st) timeout_ms = Done POOL_SUCCESS \<longleftrightarrow>
          (\<exists>i<length (seen_states st (ws (Some deadline))).
             state_is_completed (seen_states st (ws (Some deadline)) ! i)
             \<and> (\<forall>j<i. fst (ws (Some deadline) ! j) = 0)))"
proof -
  let ?d = "abs_deadline now timeout_ms"
  have "task_wait now ws (Some st) timeout_ms = wait_timed st (ws (Some ?d))"
    using assms(1) by (cases "ws (Some ?d)") (auto simp: task_wait_def)
  then show ?thesis
    using abs_deadline_exact [OF assms(2,3), of timeout_ms] wait_timed_success_iff [of st "ws (Some ?d)"]
    by (intro exI [of _ ?d]) simp
qed

theorem task_wait_timed_correct_witness:
  "task_wait (5, 999999999) (\<lambda>_. [(0, TASK_STATE_RUNNING), (0, TASK_STATE_COMPLETED)])
     (Some TASK_STATE_PENDING) 1500 = Done POOL_SUCCESS"
proof -
  let ?ws = "[(0, TASK_STATE_RUNNING), (0, TASK_STATE_COMPLETED)] :: wakeup list"
  have "(0::u32) < 1500" "0 \<le> snd (5::int, 999999999::int)" "snd (5::int, 999999999::int) < 1000000000"
    by simp_all
  from task_wait_timed_correct [OF this, of "\<lambda>_. ?ws" TASK_STATE_PENDING]
  have iff: "task_wait (5, 999999999) (\<lambda>_. ?ws) (Some TASK_STATE_PENDING) 1500 = Done POOL_SUCCESS \<longleftrightarrow>
      (\<exists>i<length (seen_states TASK_STATE_PENDING ?ws).
         state_is_completed (seen_states TASK_STATE_PENDING ?ws ! i) \<and> (\<forall>j<i. fst (?ws ! j) = 0))"
    by (elim exE conjE)
  have "state_is_completed (seen_states TASK_STATE_PENDING ?ws ! 2)"
    "\<forall>j<2. fst (?ws ! j) = 0" "2 < length (seen_states TASK_STATE_PENDING ?ws)"
    by (auto simp: seen_states_def less_Suc_eq numeral_eq_Suc)
  then show ?thesis by (intro iff [THEN iffD2] exI [of _ 2] conjI)
qed

text \<open>\<open>task_get_result\<close> on a completed task hands out a copy of exactly the bytes the last
  \<open>task_set_result\<close> stored, error code 0 and the task's message, and
  \<open>task_result_cleanup\<close> gives back every buffer of the copy.\<close>

theorem task_result_roundtrip:
  assumes "tm_heap s a = Some t" "state_is_completed (t_state t)" "0 < osize"
    "unat osize \<le> length data"
  shows "\<exists>s1 out s2. task_set_result True (Some a) (Some data) osize s = Done (POOL_SUCCESS, s1)
     \<and> task_get_result True True (Some a) (Some r0) s1 = Done (POOL_SUCCESS, Some out, s2)
     \<and> r_output_data out = Some (take (unat osize) data) \<and> r_output_size out = osize
     \<and> r_error_code out = 0 \<and> r_error_message out = r_error_message (t_result t)
     \<and> task_result_cleanup (Some out) s2 = (Some zero_result, s1)"
proof -
  let ?r = "t_result t"
  let ?r1 = "if r_output_data ?r \<noteq> None then ?r\<lparr>r_output_data := None, r_output_size := 0\<rparr> else ?r"
  let ?r2 = "?r1\<lparr>r_output_data := Some (take (unat osize) data), r_output_size := osize,
                 r_error_code := 0\<rparr>"
  let ?s1 = "add_blocks 1 (put_task a (t\<lparr>t_result := ?r2\<rparr>)
      (add_blocks (- owned (r_output_data ?r)) (put_task a (t\<lparr>t_result := ?r1\<rparr>) s)))"
  let ?out = "r0\<lparr>r_error_code := 0, r_output_data := Some (take (unat osize) data),
                 r_output_size := osize, r_error_message := r_error_message ?r\<rparr>"
  have "task_set_result True (Some a) (Some data) osize s = Done (POOL_SUCCESS, ?s1)"
    using assms by (simp add: task_set_result_def Let_def)
  moreover have msg: "r_error_message ?r2 = r_error_message ?r" by simp
  have "tm_heap ?s1 a = Some (t\<lparr>t_result := ?r2\<rparr>)" by simp
  then have "task_get_result True True (Some a) (Some r0) ?s1
      = Done (POOL_SUCCESS, Some ?out, add_blocks (owned (r_error_message ?r)) (add_blocks 1 ?s1))"
    using assms(2-4) msg by (simp add: task_get_result_def Let_def)
  moreover have "task_result_cleanup (Some ?out)
      (add_blocks (owned (r_error_message ?r)) (add_blocks 1 ?s1)) = (Some zero_result, ?s1)"
    by (simp add: task_result_cleanup_def)
  ultimately show ?thesis
    by (intro exI [of _ ?s1] exI [of _ ?out]
        exI [of _ "add_blocks (owned (r_error_message ?r)) (add_blocks 1 ?s1)"]) simp
qed

theorem task_result_roundtrip_witness:
  "\<exists>s1 out s2. task_set_result True (Some 64) (Some [7, 8, 9]) 2
       (put_task 64 (zero_task\<lparr>t_state := TASK_STATE_COMPLETED\<rparr>) (tm_init :: nat tm))
       = Done (POOL_SUCCESS, s1)
     \<and> task_get_result True True (Some 64) (Some zero_result) s1 = Done (POOL_SUCCESS, Some out, s2)
     \<and> r_output_data out = Some [7, 8]"
proof -
  let ?t = "zero_task\<lparr>t_state := TASK_STATE_COMPLETED\<rparr> :: nat task"
  have h: "tm_heap (put_task 64 ?t tm_init) 64 = Some ?t" by simp
  have "state_is_completed (t_state ?t)" "(0::u64) < 2" "unat (2::u64) \<le> length [7, 8, 9::u8]"
    by simp_all
  from task_result_roundtrip [OF h this, of zero_result] show ?thesis by auto
qed

lemma future_wait_success:
  assumes "future_wait now ws f ms = Done POOL_SUCCESS"
  shows "\<exists>st dl. f = Some (Some st) \<and> (\<exists>st'\<in>set (seen_states st (ws dl)). state_is_completed st')"
proof -
  obtain st where f: "f = Some (Some st)" and tw: "task_wait now ws (Some st) ms = Done POOL_SUCCESS"
    using assms by (auto simp: future_wait_def split: option.splits)
  have "\<exists>dl. \<exists>st'\<in>set (seen_states st (ws dl)). state_is_completed st'"
  proof (cases "state_is_completed st")
    case True
    then show ?thesis by (auto simp: seen_states_def simp del: state_is_completed.simps)
  next
    case False
    show ?thesis
    proof (cases "ms = 0")
      case True
      then have "wait_forever st (ws None) \<noteq> Blocked"
        using tw False by (simp add: task_wait_def del: state_is_completed.simps)
      then show ?thesis unfolding wait_forever_blocked_iff by blast
    next
      case ms: False
      then have "wait_timed st (ws (Some (abs_deadline now ms))) = Done POOL_SUCCESS"
        using tw False by (simp add: task_wait_def del: state_is_completed.simps)
      then show ?thesis unfolding wait_timed_success_iff by (metis nth_mem)
    qed
  qed
  then show ?thesis using f by blast
qed

text \<open>\<open>task_batch_wait\<close> only reports success when every future that is not \<open>NULL\<close> has a
  task and that task was seen completed.\<close>

theorem task_batch_wait_complete:
  assumes "task_batch_wait start (Some items) timeout_ms = Done POOL_SUCCESS"
    "w \<in> set items" "w_future w \<noteq> None"
  shows "\<exists>st dl. w_future w = Some (Some st)
     \<and> (\<exists>st'\<in>set (seen_states st (w_wakeups w dl)). state_is_completed st')"
proof -
  have "batch_wait_loop start timeout_ms items = Done POOL_SUCCESS \<Longrightarrow> w \<in> set items \<Longrightarrow>
      \<exists>st dl. w_future w = Some (Some st)
        \<and> (\<exists>st'\<in>set (seen_states st (w_wakeups w dl)). state_is_completed st')"
  proof (induction items)
    case (Cons v vs)
    then show ?case
      using assms(3) future_wait_success [of "w_now v" "w_wakeups v" "w_future v"]
      by (auto simp: Let_def bind_outcome_Done_iff simp del: state_is_completed.simps
          split: if_splits)
  qed simp
  then show ?thesis using assms(1,2) by (auto simp: task_batch_wait_def split: if_splits)
qed

definition done_item :: wait_item where
  "done_item = \<lparr>w_clock_ns = 10, w_now = (0, 0), w_future = Some (Some TASK_STATE_FAILED),
     w_wakeups = (\<lambda>_. [])\<rparr>"

theorem task_batch_wait_complete_witness:
  "task_batch_wait 5 (Some [done_item]) 1 = Done POOL_SUCCESS
   \<and> (\<exists>st dl. w_future done_item = Some (Some st)
        \<and> (\<exists>st'\<in>set (seen_states st (w_wakeups done_item dl)). state_is_completed st'))"
proof -
  have b: "task_batch_wait 5 (Some [done_item]) 1 = Done POOL_SUCCESS"
    by (simp add: task_batch_wait_def done_item_def future_wait_def task_wait_def)
  show ?thesis using task_batch_wait_complete [OF b, of done_item] b by (simp add: done_item_def)
qed

text \<open>When less than a millisecond of the batch's time is left, the remaining timeout rounds
  down to 0, which \<open>task_wait\<close> takes for "wait for ever": the batch wait then never returns
  although its deadline has a value and the timed wait would have reported it.\<close>

theorem batch_wait_submillisecond_blocks:
  assumes "0 < timeout_ms" "w_clock_ns w - start < ucast timeout_ms * 1000000"
    "ucast timeout_ms * 1000000 - (w_clock_ns w - start) < 1000000"
    "w_future w = Some (Some st)"
    "\<forall>st'\<in>set (seen_states st (w_wakeups w None)). \<not> state_is_completed st'"
  shows "task_batch_wait start (Some (w # ws)) timeout_ms = Blocked"
proof -
  have "(ucast timeout_ms * 1000000 - (w_clock_ns w - start)) div 1000000 = (0::u64)"
    using assms(3) by (simp add: word_unat_eq_iff unat_div word_less_nat_alt)
  then have r: "remaining_timeout timeout_ms (w_clock_ns w - start) = 0"
    by (simp add: remaining_timeout_def)
  have "wait_forever st (w_wakeups w None) = Blocked"
    using assms(5) by (simp only: wait_forever_blocked_iff)
  moreover have "\<not> state_is_completed st" using assms(5) by (simp add: seen_states_def)
  ultimately have "task_wait (w_now w) (w_wakeups w) (Some st) 0 = Blocked"
    by (simp add: task_wait_def del: state_is_completed.simps)
  then show ?thesis
    using assms(1,2,4) r by (simp add: task_batch_wait_def future_wait_def Let_def not_le)
qed

theorem batch_wait_submillisecond_blocks_witness:
  "task_batch_wait 0 (Some [\<lparr>w_clock_ns = 4500000, w_now = (0, 0),
     w_future = Some (Some TASK_STATE_RUNNING),
     w_wakeups = (\<lambda>_. [(ETIMEDOUT, TASK_STATE_RUNNING)])\<rparr>]) 5 = Blocked"
  by (rule batch_wait_submillisecond_blocks [where st = TASK_STATE_RUNNING])
    (simp_all add: seen_states_def)

end
