(* ===== verification/Shared_Memory.thy ===== *)
theory Shared_Memory
  imports Bounded_Queue
begin

text \<open>
  The shared-memory message queue: \<^verbatim>\<open>new_ProcessPool/src/ipc/shared_memory.c\<close>. The bytes after
  the header are a function from offsets to bytes with a length; an access past the length is a
  fault, as is a division by a \<open>queue_size\<close> of 0. A slot starts at \<open>pos * MAX_TASK_DATA_SIZE\<close>,
  computed at 32 bits, with the message size in its first four bytes (little endian). The calls
  hold the mutex of the region, so each is one step; a call that waits on a condition
  variable gets the list of regions found at its wake-ups. \<open>SHM_MAGIC\<close>, \<open>SHM_VERSION\<close>,
  \<open>MAX_QUEUE_SIZE\<close> and the size of the header are used but defined nowhere: they are parameters.
\<close>

record shm =
  sm_magic :: u32
  sm_version :: u32
  sm_size :: u64
  sm_producer :: u32
  sm_consumer :: u32
  sm_queue_size :: u32
  sm_submitted :: u64
  sm_completed :: u64
  sm_failed :: u64
  sm_bytes :: nat
  sm_data :: "nat \<Rightarrow> u8"

subsection \<open>Bytes\<close>

definition write_bytes :: "(nat \<Rightarrow> u8) \<Rightarrow> nat \<Rightarrow> u8 list \<Rightarrow> nat \<Rightarrow> u8" where
  "write_bytes m off bs = (\<lambda>a. if off \<le> a \<and> a < off + length bs then bs ! (a - off) else m a)"

definition read_bytes :: "(nat \<Rightarrow> u8) \<Rightarrow> nat \<Rightarrow> nat \<Rightarrow> u8 list" where
  "read_bytes m off n = map (\<lambda>i. m (off + i)) [0..<n]"

subsection \<open>Creation and removal\<close>

text \<open>
  The kernel side: the names of shared-memory objects, the open descriptors and the mappings
  of this process. \<open>shm_open\<close> with \<open>O_EXCL\<close> fails with \<open>EEXIST\<close> on a known name.
\<close>

record shm_os =
  os_names :: "string set"
  os_fds :: nat
  os_maps :: nat

record shm_env =
  open_ok :: bool
  reopen_ok :: bool
  trunc_ok :: bool
  map_ok :: bool

definition shm_create ::
  "u32 \<Rightarrow> u32 \<Rightarrow> nat \<Rightarrow> shm_env \<Rightarrow> string option \<Rightarrow> u64 \<Rightarrow> shm_os \<Rightarrow> (shm option \<times> shm_os) outcome" where
  "shm_create magic version hdr env name sz os =
     (case name of None \<Rightarrow> Done (None, os) | Some nm \<Rightarrow>
      if sz = 0 then Done (None, os)
      else let (fd, os1) =
             (if nm \<in> os_names os
              then if reopen_ok env then (True, os\<lparr>os_fds := os_fds os + 1\<rparr>)
                   else (False, os\<lparr>os_names := os_names os - {nm}\<rparr>)
              else if open_ok env
                   then (True, os\<lparr>os_names := insert nm (os_names os), os_fds := os_fds os + 1\<rparr>)
                   else (False, os))
           in if \<not> fd then Done (None, os1)
              else if \<not> trunc_ok env \<or> \<not> map_ok env
              then Done (None, os1\<lparr>os_fds := os_fds os1 - 1, os_names := os_names os1 - {nm}\<rparr>)
              else let os2 = os1\<lparr>os_fds := os_fds os1 - 1, os_maps := os_maps os1 + 1\<rparr>
                   in if unat sz < hdr then Fault
                      else Done (Some \<lparr>sm_magic = magic, sm_version = version, sm_size = sz,
                             sm_producer = 0, sm_consumer = 0, sm_queue_size = 0,
                             sm_submitted = 0, sm_completed = 0, sm_failed = 0,
                             sm_bytes = unat sz - hdr, sm_data = (\<lambda>_. 0)\<rparr>, os2))"

text \<open>\<open>shm_open_existing\<close> sees the region another process left under the name.\<close>

definition shm_open_existing ::
  "u32 \<Rightarrow> u32 \<Rightarrow> shm_env \<Rightarrow> (string \<rightharpoonup> shm) \<Rightarrow> string option \<Rightarrow> u64 \<Rightarrow> shm_os
     \<Rightarrow> shm option \<times> shm_os" where
  "shm_open_existing magic version env regions name sz os =
     (case name of None \<Rightarrow> (None, os) | Some nm \<Rightarrow>
      if sz = 0 then (None, os)
      else case regions nm of
        None \<Rightarrow> (None, os)
      | Some shm \<Rightarrow>
          if \<not> open_ok env then (None, os)
          else let os1 = os\<lparr>os_fds := os_fds os + 1\<rparr>
               in if \<not> map_ok env then (None, os1\<lparr>os_fds := os_fds os1 - 1\<rparr>)
                  else let os2 = os1\<lparr>os_fds := os_fds os1 - 1, os_maps := os_maps os1 + 1\<rparr>
                       in if sm_magic shm \<noteq> magic \<or> sm_version shm \<noteq> version
                          then (None, os2\<lparr>os_maps := os_maps os2 - 1\<rparr>)
                          else (Some shm, os2))"

definition shm_destroy :: "shm option \<Rightarrow> string option \<Rightarrow> shm_os \<Rightarrow> shm_os" where
  "shm_destroy shm name os =
     (case (shm, name) of
        (Some _, Some nm) \<Rightarrow> os\<lparr>os_maps := os_maps os - 1, os_names := os_names os - {nm}\<rparr>
      | _ \<Rightarrow> os)"

subsection \<open>The ring\<close>

definition MAX_TASK_DATA_SIZE :: u32 where "MAX_TASK_DATA_SIZE = 64 * 1024"

definition shm_queue_next_pos :: "u32 \<Rightarrow> u32 \<Rightarrow> u32 outcome" where
  "shm_queue_next_pos pos n = (if n = 0 then Fault else Done ((pos + 1) mod n))"

definition shm_queue_is_full :: "shm \<Rightarrow> bool outcome" where
  "shm_queue_is_full s =
     bind_outcome (shm_queue_next_pos (sm_producer s) (sm_queue_size s))
       (\<lambda>next. Done (next = sm_consumer s))"

definition shm_queue_is_empty :: "shm \<Rightarrow> bool" where
  "shm_queue_is_empty s \<longleftrightarrow> sm_producer s = sm_consumer s"

definition shm_queue_size :: "shm \<Rightarrow> u32" where
  "shm_queue_size s =
     (if sm_producer s \<ge> sm_consumer s then sm_producer s - sm_consumer s
      else sm_queue_size s - sm_consumer s + sm_producer s)"

text \<open>Storing a message at the producer's slot, and fetching the one at the consumer's.\<close>

definition shm_store :: "u8 list \<Rightarrow> shm \<Rightarrow> shm outcome" where
  "shm_store data s =
     (let off = unat (sm_producer s * MAX_TASK_DATA_SIZE);
          m1 = write_bytes (sm_data s) off (enc32 (of_nat (length data)));
          m2 = write_bytes m1 (off + 4) data
      in if off + 4 + length data > sm_bytes s then Fault
         else bind_outcome (shm_queue_next_pos (sm_producer s) (sm_queue_size s)) (\<lambda>next.
              Done (s\<lparr>sm_data := m2, sm_producer := next, sm_submitted := sm_submitted s + 1\<rparr>)))"

text \<open>\<open>cap\<close> is the value of \<open>*data_size\<close>, the room in the caller's buffer.\<close>

definition shm_fetch :: "u64 \<Rightarrow> shm \<Rightarrow> (int \<times> u8 list option \<times> u64 \<times> shm) outcome" where
  "shm_fetch cap s =
     (let off = unat (sm_consumer s * MAX_TASK_DATA_SIZE)
      in if off + 4 > sm_bytes s then Fault
         else let stored_size = dec32 (read_bytes (sm_data s) off 4)
              in if ucast stored_size > cap then Done (- 1, None, ucast stored_size, s)
                 else if off + 4 + unat stored_size > sm_bytes s then Fault
                 else bind_outcome (shm_queue_next_pos (sm_consumer s) (sm_queue_size s)) (\<lambda>next.
                      Done (0, Some (read_bytes (sm_data s) (off + 4) (unat stored_size)),
                            ucast stored_size, s\<lparr>sm_consumer := next\<rparr>)))"

text \<open>
  A message is the byte list behind \<open>data\<close> and \<open>data_size\<close>; the arguments are refused when it
  is \<open>NULL\<close>, empty or longer than \<open>MAX_TASK_DATA_SIZE\<close>.
\<close>

definition shm_bad_args :: "shm option \<Rightarrow> u8 list option \<Rightarrow> bool" where
  "shm_bad_args shm data \<longleftrightarrow> shm = None \<or> data = None \<or> data = Some []
     \<or> length (the data) > unat MAX_TASK_DATA_SIZE"

fun wait_not_full :: "shm \<Rightarrow> shm list \<Rightarrow> shm outcome" where
  "wait_not_full s [] =
     bind_outcome (shm_queue_is_full s) (\<lambda>full. if full then Blocked else Done s)"
| "wait_not_full s (w # ws) =
     bind_outcome (shm_queue_is_full s) (\<lambda>full. if full then wait_not_full w ws else Done s)"

definition shm_queue_enqueue ::
  "shm list \<Rightarrow> shm option \<Rightarrow> u8 list option \<Rightarrow> (int \<times> shm option) outcome" where
  "shm_queue_enqueue wakes shm data =
     (if shm_bad_args shm data then Done (- 1, shm)
      else bind_outcome (wait_not_full (the shm) wakes) (\<lambda>s.
           bind_outcome (shm_store (the data) s) (\<lambda>s'. Done (0, Some s'))))"

text \<open>The wake-ups of a dequeue: the value of the wait and the region found.\<close>

fun wait_not_empty :: "bool \<Rightarrow> shm \<Rightarrow> (int \<times> shm) list \<Rightarrow> (bool \<times> shm) outcome" where
  "wait_not_empty timed s [] = (if shm_queue_is_empty s then Blocked else Done (True, s))"
| "wait_not_empty timed s ((ret, w) # ws) =
     (if \<not> shm_queue_is_empty s then Done (True, s)
      else if timed \<and> ret \<noteq> 0 then Done (False, w)
      else wait_not_empty timed w ws)"

definition shm_queue_dequeue ::
  "(int \<times> shm) list \<Rightarrow> shm option \<Rightarrow> u64 option \<Rightarrow> u32
     \<Rightarrow> (int \<times> u8 list option \<times> u64 option \<times> shm option) outcome" where
  "shm_queue_dequeue wakes shm cap timeout_ms =
     (case (shm, cap) of
        (Some s0, Some c) \<Rightarrow>
          bind_outcome (wait_not_empty (timeout_ms \<noteq> 0) s0 wakes) (\<lambda>(ok, s).
            if \<not> ok then Done (- 1, None, cap, Some s)
            else bind_outcome (shm_fetch c s) (\<lambda>(r, bs, n, s'). Done (r, bs, Some n, Some s')))
      | _ \<Rightarrow> Done (- 1, None, cap, shm))"

definition shm_queue_try_enqueue ::
  "bool \<Rightarrow> shm option \<Rightarrow> u8 list option \<Rightarrow> (int \<times> shm option) outcome" where
  "shm_queue_try_enqueue lock shm data =
     (if shm_bad_args shm data then Done (- 1, shm)
      else if \<not> lock then Done (- 1, shm)
      else bind_outcome (shm_queue_is_full (the shm)) (\<lambda>full.
           if full then Done (- 1, shm)
           else bind_outcome (shm_store (the data) (the shm)) (\<lambda>s'. Done (0, Some s'))))"

definition shm_queue_try_dequeue ::
  "bool \<Rightarrow> shm option \<Rightarrow> u64 option \<Rightarrow> (int \<times> u8 list option \<times> u64 option \<times> shm option) outcome" where
  "shm_queue_try_dequeue lock shm cap =
     (case (shm, cap) of
        (Some s, Some c) \<Rightarrow>
          if \<not> lock then Done (- 1, None, cap, shm)
          else if shm_queue_is_empty s then Done (- 1, None, cap, shm)
          else bind_outcome (shm_fetch c s) (\<lambda>(r, bs, n, s'). Done (r, bs, Some n, Some s'))
      | _ \<Rightarrow> Done (- 1, None, cap, shm))"

subsection \<open>Statistics, validation and repair\<close>

record shm_stats =
  ss_queue_size :: u32
  ss_current_size :: u32
  ss_is_full :: bool
  ss_is_empty :: bool
  ss_total_submitted :: u64
  ss_total_completed :: u64
  ss_total_failed :: u64

definition shm_get_stats :: "shm \<Rightarrow> shm_stats outcome" where
  "shm_get_stats s =
     bind_outcome (shm_queue_is_full s) (\<lambda>full.
       Done \<lparr>ss_queue_size = sm_queue_size s, ss_current_size = shm_queue_size s,
             ss_is_full = full, ss_is_empty = shm_queue_is_empty s,
             ss_total_submitted = sm_submitted s, ss_total_completed = sm_completed s,
             ss_total_failed = sm_failed s\<rparr>)"

definition shm_reset_stats :: "shm \<Rightarrow> shm" where
  "shm_reset_stats s = s\<lparr>sm_submitted := 0, sm_completed := 0, sm_failed := 0\<rparr>"

definition shm_validate :: "u32 \<Rightarrow> u32 \<Rightarrow> u32 \<Rightarrow> shm option \<Rightarrow> bool" where
  "shm_validate magic version max_queue_size shm =
     (case shm of None \<Rightarrow> False | Some s \<Rightarrow>
      if sm_magic s \<noteq> magic \<or> sm_version s \<noteq> version then False
      else if sm_queue_size s = 0 \<or> sm_queue_size s > max_queue_size then False
      else if sm_producer s \<ge> sm_queue_size s \<or> sm_consumer s \<ge> sm_queue_size s then False
      else True)"

definition shm_repair :: "u32 \<Rightarrow> u32 \<Rightarrow> shm option \<Rightarrow> int \<times> shm option" where
  "shm_repair magic version shm =
     (case shm of None \<Rightarrow> (- 1, None) | Some s \<Rightarrow>
      let (n1, s1) = (if sm_magic s \<noteq> magic then (1, s\<lparr>sm_magic := magic\<rparr>) else (0, s));
          (n2, s2) = (if sm_version s1 \<noteq> version then (n1 + 1, s1\<lparr>sm_version := version\<rparr>) else (n1, s1));
          producer_pos = sm_producer s2; consumer_pos = sm_consumer s2;
          (n3, s3) = (if producer_pos \<ge> sm_queue_size s2 then (n2 + 1, s2\<lparr>sm_producer := 0\<rparr>) else (n2, s2));
          (n4, s4) = (if consumer_pos \<ge> sm_queue_size s3 then (n3 + 1, s3\<lparr>sm_consumer := 0\<rparr>) else (n3, s3))
      in (n4, Some s4))"

subsection \<open>Byte lemmas\<close>

lemma length_read_bytes [simp]: "length (read_bytes m off n) = n"
  by (simp add: read_bytes_def)

lemma read_write_same: "read_bytes (write_bytes m off bs) off (length bs) = bs"
  by (rule nth_equalityI) (auto simp: read_bytes_def write_bytes_def)

lemma read_write_other:
  "b + n \<le> off \<or> off + length bs \<le> b \<Longrightarrow> read_bytes (write_bytes m off bs) b n = read_bytes m b n"
  by (auto simp: read_bytes_def write_bytes_def)

subsection \<open>Well-formed regions and their messages\<close>

text \<open>The message in slot \<open>i\<close>.\<close>

definition slot_size :: "(nat \<Rightarrow> u8) \<Rightarrow> nat \<Rightarrow> nat" where
  "slot_size m i = unat (dec32 (read_bytes m (i * 65536) 4))"

definition slot_msg :: "(nat \<Rightarrow> u8) \<Rightarrow> nat \<Rightarrow> u8 list" where
  "slot_msg m i = read_bytes m (i * 65536 + 4) (slot_size m i)"

text \<open>
  A region of \<open>n\<close> slots that fit in it, with both positions in range and every size field small
  enough to keep its message inside its slot.
\<close>

definition shm_wf :: "shm \<Rightarrow> bool" where
  "shm_wf s \<longleftrightarrow> 0 < unat (sm_queue_size s) \<and> unat (sm_queue_size s) \<le> 65536
     \<and> unat (sm_queue_size s) * 65536 \<le> sm_bytes s
     \<and> sm_producer s < sm_queue_size s \<and> sm_consumer s < sm_queue_size s
     \<and> (\<forall>i<unat (sm_queue_size s). slot_size (sm_data s) i \<le> 65532)"

definition shm_count :: "shm \<Rightarrow> nat" where
  "shm_count s = (unat (sm_producer s) + unat (sm_queue_size s) - unat (sm_consumer s))
                   mod unat (sm_queue_size s)"

definition shm_messages :: "shm \<Rightarrow> u8 list list" where
  "shm_messages s = ring_list (slot_msg (sm_data s)) (unat (sm_queue_size s))
                      (unat (sm_consumer s)) (shm_count s)"

definition shm_bound :: "shm \<Rightarrow> nat" where
  "shm_bound s = unat (sm_queue_size s) - 1"

lemma shm_wf_slot_offset:
  assumes "shm_wf s" "p < sm_queue_size s"
  shows "unat (p * MAX_TASK_DATA_SIZE) = unat p * 65536"
proof -
  have "unat p < 65536" using assms by (simp add: shm_wf_def word_less_nat_alt)
  then show ?thesis by (simp add: MAX_TASK_DATA_SIZE_def unat_word_ariths)
qed

lemma shm_wf_next:
  assumes "shm_wf s" "p < sm_queue_size s"
  shows "\<exists>q. shm_queue_next_pos p (sm_queue_size s) = Done q
       \<and> unat q = (unat p + 1) mod unat (sm_queue_size s) \<and> q < sm_queue_size s"
proof -
  have n: "sm_queue_size s \<noteq> 0" using assms by (auto simp: shm_wf_def)
  have "unat (p + 1) = Suc (unat p)" using assms(2) by (rule unat_succ_lt)
  then have u: "unat ((p + 1) mod sm_queue_size s) = (unat p + 1) mod unat (sm_queue_size s)"
    by (simp add: unat_mod)
  moreover have "(p + 1) mod sm_queue_size s < sm_queue_size s"
    using n u assms by (simp add: word_less_nat_alt shm_wf_def)
  ultimately show ?thesis using n by (simp add: shm_queue_next_pos_def)
qed

lemma shm_count_less: "shm_wf s \<Longrightarrow> shm_count s < unat (sm_queue_size s)"
  by (simp add: shm_count_def shm_wf_def)

lemma shm_producer_slot:
  assumes "shm_wf s"
  shows "(unat (sm_consumer s) + shm_count s) mod unat (sm_queue_size s) = unat (sm_producer s)"
proof -
  have "sm_producer s < sm_queue_size s" "sm_consumer s < sm_queue_size s"
    using assms by (auto simp: shm_wf_def)
  then have "unat (sm_producer s) < unat (sm_queue_size s)" "unat (sm_consumer s) < unat (sm_queue_size s)"
    by (simp_all add: word_less_nat_alt)
  then show ?thesis by (simp add: shm_count_def mod_add_right_eq)
qed

lemma ring_count_unique:
  assumes "(k::nat) < n" "c < n"
  shows "((c + k) mod n + n - c) mod n = k"
proof (cases "c + k < n")
  case False
  then have "(c + k) mod n = c + k - n" using assms by (simp add: mod_if)
  then show ?thesis using False assms by simp
qed (use assms in simp)

lemma shm_full_iff:
  assumes "shm_wf s"
  shows "shm_queue_is_full s = Done (shm_count s = shm_bound s)"
proof -
  let ?n = "unat (sm_queue_size s)"
  have p: "sm_producer s < sm_queue_size s" "sm_consumer s < sm_queue_size s"
    using assms by (auto simp: shm_wf_def)
  obtain q where q: "shm_queue_next_pos (sm_producer s) (sm_queue_size s) = Done q"
    "unat q = (unat (sm_producer s) + 1) mod ?n"
    using shm_wf_next [OF assms p(1)] by blast
  have c: "unat (sm_consumer s) mod ?n = unat (sm_consumer s)"
    using p(2) by (simp add: word_less_nat_alt)
  have "unat q = (unat (sm_consumer s) + (shm_count s + 1)) mod ?n"
    using shm_producer_slot [OF assms] q(2)
    by (metis add.assoc mod_add_left_eq)
  then have "q = sm_consumer s \<longleftrightarrow> (unat (sm_consumer s) + (shm_count s + 1)) mod ?n = unat (sm_consumer s) mod ?n"
    by (simp add: word_unat_eq_iff c)
  also have "\<dots> \<longleftrightarrow> shm_count s + 1 = ?n"
    using shm_count_less [OF assms] by (intro add_mod_eq_self_le) auto
  finally show ?thesis
    using shm_count_less [OF assms] q(1)
    by (auto simp: shm_queue_is_full_def shm_bound_def)
qed

lemma shm_empty_iff:
  assumes "shm_wf s"
  shows "shm_queue_is_empty s \<longleftrightarrow> shm_count s = 0"
proof -
  let ?n = "unat (sm_queue_size s)"
  have c: "unat (sm_consumer s) mod ?n = unat (sm_consumer s)"
    using assms by (simp add: shm_wf_def word_less_nat_alt)
  have "unat (sm_producer s) = (unat (sm_consumer s) + shm_count s) mod ?n"
    using shm_producer_slot [OF assms] by simp
  then have "shm_queue_is_empty s \<longleftrightarrow>
      (unat (sm_consumer s) + shm_count s) mod ?n = unat (sm_consumer s) mod ?n"
    by (auto simp: shm_queue_is_empty_def word_unat_eq_iff c)
  then show ?thesis using add_mod_eq_self_small [OF shm_count_less [OF assms]] by simp
qed

text \<open>Writing a message that fits its slot touches no other slot.\<close>

lemma slot_store:
  fixes m :: "nat \<Rightarrow> u8" and p i :: nat
  assumes "length d \<le> 65532"
    and "m' = write_bytes (write_bytes m (p * 65536) (enc32 (of_nat (length d)))) (p * 65536 + 4) d"
  shows "slot_msg m' p = d" "slot_size m' p = length d"
    "i \<noteq> p \<Longrightarrow> slot_size m' i = slot_size m i"
    "i \<noteq> p \<Longrightarrow> slot_size m i \<le> 65532 \<Longrightarrow> slot_msg m' i = slot_msg m i"
proof -
  have h: "read_bytes m' (p * 65536) 4 = enc32 (of_nat (length d))"
    using read_write_same [of m "p * 65536" "enc32 (of_nat (length d))"]
    unfolding assms(2) by (subst read_write_other) auto
  have "unat (of_nat (length d) :: u32) = length d"
    using assms(1) by (simp add: unat_of_nat)
  then show sz: "slot_size m' p = length d" by (simp add: slot_size_def h dec_enc32)
  show "slot_msg m' p = d"
    using read_write_same by (simp add: slot_msg_def sz) (simp add: assms(2))
  assume ip: "i \<noteq> p"
  have far: "i * 65536 + k \<le> p * 65536 \<or> p * 65536 + 65536 \<le> i * 65536" if "k \<le> 65536" for k
  proof (cases "i < p")
    case True
    then have "(i + 1) * 65536 \<le> p * 65536" by (intro mult_right_mono) auto
    then show ?thesis using that by simp
  next
    case False
    then have "(p + 1) * 65536 \<le> i * 65536" using ip by (intro mult_right_mono) auto
    then show ?thesis by simp
  qed
  have keep: "read_bytes m' b n = read_bytes m b n"
    if "b + n \<le> p * 65536 \<or> p * 65536 + 65536 \<le> b" for b n
    using that assms(1) unfolding assms(2) by (subst read_write_other | auto)+
  show sz': "slot_size m' i = slot_size m i"
    using far [of 4] by (simp add: slot_size_def keep)
  assume "slot_size m i \<le> 65532"
  then show "slot_msg m' i = slot_msg m i"
    unfolding slot_msg_def sz' using far [of "slot_size m i + 4"] by (intro keep) auto
qed

lemma shm_messages_cong:
  assumes "sm_queue_size s' = sm_queue_size s" "sm_consumer s' = sm_consumer s"
    "shm_count s' = c" "0 < unat (sm_queue_size s)"
    "\<And>i. i < unat (sm_queue_size s) \<Longrightarrow> slot_msg (sm_data s') i = f i"
  shows "shm_messages s' = ring_list f (unat (sm_queue_size s)) (unat (sm_consumer s)) c"
  unfolding shm_messages_def assms(1-3) by (rule ring_list_cong) (use assms in auto)

lemma shm_store_contents:
  assumes wf: "shm_wf s" and d: "length d \<le> 65532" and room: "shm_count s < shm_bound s"
  shows "\<exists>s'. shm_store d s = Done s' \<and> shm_wf s' \<and> shm_messages s' = shm_messages s @ [d]
       \<and> shm_bound s' = shm_bound s \<and> sm_submitted s' = sm_submitted s + 1"
proof -
  let ?n = "unat (sm_queue_size s)" and ?p = "unat (sm_producer s)" and ?c = "shm_count s"
  have p: "sm_producer s < sm_queue_size s" and c: "sm_consumer s < sm_queue_size s"
    using wf by (auto simp: shm_wf_def)
  note off = shm_wf_slot_offset [OF wf p]
  define m' where "m' = write_bytes (write_bytes (sm_data s) (?p * 65536) (enc32 (of_nat (length d))))
      (?p * 65536 + 4) d"
  note slot = slot_store [OF d m'_def]
  obtain q where q: "shm_queue_next_pos (sm_producer s) (sm_queue_size s) = Done q"
    "unat q = (?p + 1) mod ?n" "q < sm_queue_size s"
    using shm_wf_next [OF wf p] by blast
  let ?s = "s\<lparr>sm_data := m', sm_producer := q, sm_submitted := sm_submitted s + 1\<rparr>"
  have "(?p + 1) * 65536 \<le> ?n * 65536" using p by (simp add: word_less_nat_alt)
  then have "?p * 65536 + 4 + length d \<le> sm_bytes s" using wf d by (simp add: shm_wf_def)
  then have st: "shm_store d s = Done ?s"
    using q(1) by (simp add: shm_store_def off m'_def Let_def)
  have sizes: "slot_size m' i \<le> 65532" if "i < ?n" for i
    using slot(2,3) d wf that by (cases "i = ?p") (auto simp: shm_wf_def)
  then have wf': "shm_wf ?s" using wf q(3) by (simp add: shm_wf_def)
  have "unat q = (unat (sm_consumer s) + (?c + 1)) mod ?n"
    using shm_producer_slot [OF wf] q(2) by (metis add.assoc mod_add_left_eq)
  then have cnt: "shm_count ?s = Suc ?c"
    using ring_count_unique [of "Suc ?c" ?n "unat (sm_consumer s)"] room c
    by (simp add: shm_count_def shm_bound_def word_less_nat_alt)
  have "slot_msg m' i = ((slot_msg (sm_data s))(?p := d)) i" if "i < ?n" for i
    using slot(1,4) wf that by (cases "i = ?p") (auto simp: shm_wf_def)
  then have "shm_messages ?s = ring_list ((slot_msg (sm_data s))(?p := d)) ?n
      (unat (sm_consumer s)) (Suc ?c)"
    using wf cnt by (intro shm_messages_cong) (auto simp: shm_wf_def)
  also have "\<dots> = shm_messages s @ [d]"
    using ring_list_write [of ?c ?n "slot_msg (sm_data s)" "unat (sm_consumer s)" d]
      shm_producer_slot [OF wf] shm_count_less [OF wf]
    by (simp add: shm_messages_def)
  finally show ?thesis using st wf' by (auto simp: shm_bound_def)
qed

lemma shm_head_length:
  assumes wf: "shm_wf s" and m: "shm_messages s = d # ds"
  shows "length d \<le> 65532"
proof -
  have "shm_messages s \<noteq> []" using m by simp
  then obtain j where j: "shm_count s = Suc j" by (cases "shm_count s") (auto simp: shm_messages_def)
  have kn: "unat (sm_consumer s) < unat (sm_queue_size s)"
    using wf by (simp add: shm_wf_def word_less_nat_alt)
  then have "d = slot_msg (sm_data s) (unat (sm_consumer s))"
    using m by (simp add: shm_messages_def j ring_list_Suc_front)
  then show ?thesis using wf kn by (auto simp: shm_wf_def slot_msg_def)
qed

lemma shm_fetch_contents:
  assumes wf: "shm_wf s" and m: "shm_messages s = d # ds" and cap: "of_nat (length d) \<le> cap"
  shows "\<exists>s'. shm_fetch cap s = Done (0, Some d, of_nat (length d), s') \<and> shm_wf s'
       \<and> shm_messages s' = ds \<and> shm_bound s' = shm_bound s"
proof -
  let ?n = "unat (sm_queue_size s)" and ?k = "unat (sm_consumer s)" and ?c = "shm_count s"
  have c: "sm_consumer s < sm_queue_size s" using wf by (auto simp: shm_wf_def)
  then have kn: "?k < ?n" by (simp add: word_less_nat_alt)
  note off = shm_wf_slot_offset [OF wf c]
  obtain q where q: "shm_queue_next_pos (sm_consumer s) (sm_queue_size s) = Done q"
    "unat q = (?k + 1) mod ?n" "q < sm_queue_size s"
    using shm_wf_next [OF wf c] by blast
  have sz: "slot_size (sm_data s) ?k \<le> 65532" using wf kn by (auto simp: shm_wf_def)
  have "length (shm_messages s) = ?c" by (simp add: shm_messages_def)
  then obtain j where j: "?c = Suc j" using m by (cases ?c) auto
  have ms: "d = slot_msg (sm_data s) ?k" "ds = ring_list (slot_msg (sm_data s)) ?n (Suc ?k) j"
    using m kn by (simp_all add: shm_messages_def j ring_list_Suc_front)
  have in_region: "?k * 65536 + 65536 \<le> sm_bytes s"
  proof -
    have "(?k + 1) * 65536 \<le> ?n * 65536" using kn by (intro mult_right_mono) auto
    then show ?thesis using wf by (simp add: shm_wf_def)
  qed
  let ?w = "dec32 (read_bytes (sm_data s) (?k * 65536) 4)"
  have w: "unat ?w = slot_size (sm_data s) ?k" by (simp add: slot_size_def)
  then have uw: "unat (ucast ?w :: u64) = slot_size (sm_data s) ?k"
    by (simp add: unat_ucast_u64)
  have len: "length d = slot_size (sm_data s) ?k" by (simp add: ms(1) slot_msg_def)
  have uc: "(ucast ?w :: u64) = of_nat (length d)" using uw len by (metis eq_of_nat_unat)
  have le: "\<not> cap < ucast ?w" unfolding uc using cap by simp
  from uc have f: "shm_fetch cap s = Done (0, Some d, of_nat (length d), s\<lparr>sm_consumer := q\<rparr>)"
    using off le in_region sz q(1) w ms(1)
    by (simp add: shm_fetch_def Let_def slot_msg_def)
  let ?s = "s\<lparr>sm_consumer := q\<rparr>"
  have wf': "shm_wf ?s" using wf q(3) by (simp add: shm_wf_def)
  have "unat (sm_producer s) = (unat q + j) mod ?n"
    using shm_producer_slot [OF wf] q(2) j by (simp add: mod_add_left_eq)
  then have cnt: "shm_count ?s = j"
    using ring_count_unique [of j ?n "unat q"] shm_count_less [OF wf] j q(3)
    by (simp add: shm_count_def word_less_nat_alt)
  have "shm_messages ?s = ds"
    using cnt ring_list_mod [of "slot_msg (sm_data s)" ?n "Suc ?k" j]
    by (simp add: shm_messages_def ms(2) q(2))
  then show ?thesis using f wf' by (auto simp: shm_bound_def)
qed

subsection \<open>The message queue is a bounded FIFO\<close>

text \<open>The non-blocking calls with the lock free, in the shape of the queue contract.\<close>

definition shm_put :: "shm \<Rightarrow> u8 list \<Rightarrow> shm option" where
  "shm_put s d =
     (case shm_queue_try_enqueue True (Some s) (Some d) of
        Done (r, s') \<Rightarrow> if r = 0 then s' else None
      | _ \<Rightarrow> None)"

definition shm_take :: "shm \<Rightarrow> (u8 list \<times> shm) option" where
  "shm_take s =
     (case shm_queue_try_dequeue True (Some s) (Some 65536) of
        Done (r, Some d, n, Some s') \<Rightarrow> if r = 0 then Some (d, s') else None
      | _ \<Rightarrow> None)"

definition message_ok :: "u8 list \<Rightarrow> bool" where
  "message_ok d \<longleftrightarrow> d \<noteq> [] \<and> length d \<le> 65532"

lemma message_ok_args: "message_ok d \<Longrightarrow> \<not> shm_bad_args (Some s) (Some d)"
  by (simp add: message_ok_def shm_bad_args_def MAX_TASK_DATA_SIZE_def)

interpretation shmq: bounded_queue shm_put shm_take shm_messages shm_wf shm_bound message_ok
proof unfold_locales
  fix q :: shm and x assume wf: "shm_wf q"
  show "length (shm_messages q) \<le> shm_bound q"
    using shm_count_less [OF wf] by (simp add: shm_messages_def shm_bound_def)
  have l: "length (shm_messages q) = shm_count q" by (simp add: shm_messages_def)
  show "shm_put q x = None"
    if "length (shm_messages q) = shm_bound q"
    using that l shm_full_iff [OF wf] by (simp add: shm_put_def shm_queue_try_enqueue_def)
  show "\<exists>q'. shm_put q x = Some q' \<and> shm_wf q' \<and> shm_messages q' = shm_messages q @ [x]
      \<and> shm_bound q' = shm_bound q"
    if "length (shm_messages q) < shm_bound q" "message_ok x"
  proof -
    have "length x \<le> 65532" "shm_count q < shm_bound q" using that l by (auto simp: message_ok_def)
    then obtain q' where "shm_store x q = Done q'" "shm_wf q'" "shm_messages q' = shm_messages q @ [x]"
      "shm_bound q' = shm_bound q"
      using shm_store_contents [OF wf] by blast
    then show ?thesis
      using that l shm_full_iff [OF wf] message_ok_args [OF that(2)]
      by (simp add: shm_put_def shm_queue_try_enqueue_def)
  qed
  show "shm_take q = None" if "shm_messages q = []"
    using that shm_empty_iff [OF wf] by (simp add: shm_take_def shm_queue_try_dequeue_def shm_messages_def)
  show "\<exists>q'. shm_take q = Some (d, q') \<and> shm_wf q' \<and> shm_messages q' = ds \<and> shm_bound q' = shm_bound q"
    if msgs: "shm_messages q = d # ds" for d ds
  proof -
    have "length d \<le> 65532" by (rule shm_head_length [OF wf msgs])
    then have "of_nat (length d) \<le> (65536::u64)"
      by (simp add: word_le_nat_alt unat_of_nat)
    then obtain q' where "shm_fetch 65536 q = Done (0, Some d, of_nat (length d), q')" "shm_wf q'"
      "shm_messages q' = ds" "shm_bound q' = shm_bound q"
      using shm_fetch_contents [OF wf msgs] by blast
    moreover have "\<not> shm_queue_is_empty q"
      using msgs shm_empty_iff [OF wf] l by auto
    ultimately show ?thesis by (simp add: shm_take_def shm_queue_try_dequeue_def)
  qed
qed

text \<open>A region fresh from \<open>shm_create\<close> with the queue size \<open>worker_create\<close> stores in it.\<close>

lemma shm_create_fields:
  assumes "shm_create magic version hdr env name sz os = Done (Some s, os')"
  shows "sm_producer s = 0" "sm_consumer s = 0" "sm_data s = (\<lambda>_. 0)" "sm_queue_size s = 0"
    "sm_bytes s = unat sz - hdr" "hdr \<le> unat sz" "sm_magic s = magic" "sm_version s = version"
    "sm_submitted s = 0"
  using assms by (auto simp: shm_create_def Let_def split: option.splits if_splits prod.splits)

lemma slot_size_zero: "slot_size (\<lambda>_. 0) i = 0"
  by (simp add: slot_size_def read_bytes_def dec32_def)

lemma shm_create_wf:
  assumes "shm_create magic version hdr env name sz os = Done (Some s, os')"
    "0 < unat n" "unat n \<le> 65536" "hdr + unat n * 65536 \<le> unat sz"
  shows "shm_wf (s\<lparr>sm_queue_size := n\<rparr>) \<and> shm_messages (s\<lparr>sm_queue_size := n\<rparr>) = []
       \<and> shm_bound (s\<lparr>sm_queue_size := n\<rparr>) = unat n - 1"
  using shm_create_fields [OF assms(1)] assms(2-4)
  by (auto simp: shm_wf_def shm_messages_def shm_count_def shm_bound_def slot_size_zero
      word_less_nat_alt)

text \<open>The memory after a message of 65536 bytes in slot \<open>p\<close> and another in the next slot.\<close>

definition overlap_store :: "(nat \<Rightarrow> u8) \<Rightarrow> nat \<Rightarrow> u8 list \<Rightarrow> u8 list \<Rightarrow> nat \<Rightarrow> u8" where
  "overlap_store m p d d2 =
     write_bytes (write_bytes
       (write_bytes (write_bytes m (p * 65536) (enc32 65536)) (p * 65536 + 4) d)
       ((p + 1) * 65536) (enc32 (of_nat (length d2)))) ((p + 1) * 65536 + 4) d2"

lemma overlap_read:
  assumes "length d = 65536"
  shows "read_bytes (overlap_store m p d d2) (p * 65536) 4 = enc32 65536"
    and "read_bytes (overlap_store m p d d2) (p * 65536 + 4) 65536
       = take 65532 d @ enc32 (of_nat (length d2))"
proof -
  show "read_bytes (overlap_store m p d d2) (p * 65536) 4 = enc32 65536"
    using read_write_same [of m "p * 65536" "enc32 65536"]
    by (simp add: overlap_store_def read_write_other)
  show "read_bytes (overlap_store m p d d2) (p * 65536 + 4) 65536
       = take 65532 d @ enc32 (of_nat (length d2))"
    by (rule nth_equalityI)
      (use assms in \<open>auto simp: read_bytes_def overlap_store_def write_bytes_def nth_append\<close>)
qed

text \<open>The effect of a repair in one equation.\<close>

definition repaired :: "u32 \<Rightarrow> u32 \<Rightarrow> shm \<Rightarrow> shm" where
  "repaired magic version s =
     s\<lparr>sm_magic := magic, sm_version := version,
       sm_producer := (if sm_queue_size s \<le> sm_producer s then 0 else sm_producer s),
       sm_consumer := (if sm_queue_size s \<le> sm_consumer s then 0 else sm_consumer s)\<rparr>"

lemma shm_repair_eq:
  "shm_repair magic version (Some s) =
     ((if sm_magic s = magic then 0 else 1) + (if sm_version s = version then 0 else 1)
      + (if sm_queue_size s \<le> sm_producer s then 1 else 0)
      + (if sm_queue_size s \<le> sm_consumer s then 1 else 0), Some (repaired magic version s))"
  by (cases "sm_magic s = magic"; cases "sm_version s = version";
      cases "sm_queue_size s \<le> sm_producer s"; cases "sm_queue_size s \<le> sm_consumer s")
    (simp_all add: shm_repair_def repaired_def)

text \<open>A region of four slots, as \<open>worker_create\<close> leaves it.\<close>

definition region_4 :: shm where
  "region_4 = \<lparr>sm_magic = 7, sm_version = 1, sm_size = 262272, sm_producer = 0, sm_consumer = 0,
     sm_queue_size = 4, sm_submitted = 0, sm_completed = 0, sm_failed = 0, sm_bytes = 262144,
     sm_data = (\<lambda>_. 0)\<rparr>"

lemma region_4_create:
  "shm_create 7 1 128 \<lparr>open_ok = True, reopen_ok = True, trunc_ok = True, map_ok = True\<rparr>
     (Some ''w'') 262272 \<lparr>os_names = {}, os_fds = 3, os_maps = 0\<rparr>
   = Done (Some (region_4\<lparr>sm_queue_size := 0\<rparr>), \<lparr>os_names = {''w''}, os_fds = 3, os_maps = 1\<rparr>)"
  by (simp add: shm_create_def region_4_def)

lemma region_4_wf: "shm_wf region_4" "shm_messages region_4 = []"
  using shm_create_wf [OF region_4_create, of 4] by (simp_all add: region_4_def)

subsection \<open>Properties\<close>



text \<open>\<open>shm_create\<close> never leaks: it keeps no descriptor open on any path, on failure it
  leaves neither mapping nor object behind, and on success exactly one mapping and the object
  under its name.\<close>

theorem shm_create_no_leak:
  assumes "shm_create magic version hdr env (Some nm) sz os = Done (r, os')" "sz \<noteq> 0"
  shows "os_fds os' = os_fds os
     \<and> (r = None \<longrightarrow> os_maps os' = os_maps os \<and> os_names os' = os_names os - {nm})
     \<and> (r \<noteq> None \<longrightarrow> os_maps os' = os_maps os + 1 \<and> os_names os' = insert nm (os_names os))"
  using assms by (auto simp: shm_create_def Let_def split: if_splits)

theorem shm_create_no_leak_witness:
  "\<exists>os'. shm_create 1 1 64 \<lparr>open_ok = True, reopen_ok = True, trunc_ok = True, map_ok = False\<rparr>
      (Some ''w0'') 4096 \<lparr>os_names = {''w0'', ''w1''}, os_fds = 3, os_maps = 2\<rparr> = Done (None, os')
    \<and> os_fds os' = 3 \<and> os_maps os' = 2 \<and> os_names os' = {''w1''}"
proof -
  let ?env = "\<lparr>open_ok = True, reopen_ok = True, trunc_ok = True, map_ok = False\<rparr>"
  let ?os = "\<lparr>os_names = {''w0'', ''w1''}, os_fds = 3, os_maps = 2\<rparr>"
  obtain os' where c: "shm_create 1 1 64 ?env (Some ''w0'') 4096 ?os = Done (None, os')"
    by (simp add: shm_create_def)
  have "(4096::u64) \<noteq> 0" by simp
  from shm_create_no_leak [OF c this] c show ?thesis by auto
qed

text \<open>Messages of 65533 to 65536 bytes, which the argument check lets through, do not fit a
  slot with its size field: the next message overwrites their tail, so the consumer gets the
  first 65532 bytes followed by the next message's size field.\<close>

theorem shm_full_size_message_corrupted:
  assumes "shm_wf s" "shm_messages s = []" "unat (sm_producer s) + 2 < unat (sm_queue_size s)"
    "length d = 65536" "message_ok d2"
  shows "\<exists>s1 s2 s3. shm_queue_try_enqueue True (Some s) (Some d) = Done (0, Some s1)
     \<and> shm_queue_try_enqueue True (Some s1) (Some d2) = Done (0, Some s2)
     \<and> shm_queue_try_dequeue True (Some s2) (Some 65536)
         = Done (0, Some (take 65532 d @ enc32 (of_nat (length d2))), Some 65536, Some s3)"
proof -
  define q1 where "q1 = sm_producer s + 1"
  define q2 where "q2 = q1 + 1"
  let ?p = "unat (sm_producer s)" and ?n = "unat (sm_queue_size s)"
  let ?m2 = "overlap_store (sm_data s) ?p d d2"
  let ?s1 = "s\<lparr>sm_data := write_bytes (write_bytes (sm_data s) (?p * 65536) (enc32 65536))
        (?p * 65536 + 4) d, sm_producer := q1, sm_submitted := sm_submitted s + 1\<rparr>"
  let ?s2 = "s\<lparr>sm_data := ?m2, sm_producer := q2, sm_submitted := sm_submitted s + 1 + 1\<rparr>"
  have wf: "0 < ?n" "?n \<le> 65536" "?n * 65536 \<le> sm_bytes s" using assms(1) by (auto simp: shm_wf_def)
  have d2: "length d2 \<le> 65532" using assms(5) by (auto simp: message_ok_def)
  have "shm_count s = 0" using assms(2) by (simp add: shm_messages_def)
  then have same: "sm_consumer s = sm_producer s"
    using shm_empty_iff [OF assms(1)] by (simp add: shm_queue_is_empty_def)
  have u: "unat q1 = ?p + 1" "unat q2 = ?p + 2"
    using assms(3) unat_u32_less [of "sm_queue_size s"]
    by (simp_all add: q1_def q2_def unat_word_ariths)
  then have ne: "q1 \<noteq> sm_producer s" "q2 \<noteq> sm_producer s" by auto
  have nx: "shm_queue_next_pos (sm_producer s) (sm_queue_size s) = Done q1"
    "shm_queue_next_pos q1 (sm_queue_size s) = Done q2"
    using assms(3) wf u unfolding shm_queue_next_pos_def q2_def [symmetric] q1_def [symmetric]
    by (auto simp: word_unat_eq_iff unat_mod)
  have o: "unat (sm_producer s * MAX_TASK_DATA_SIZE) = ?p * 65536"
    "unat (q1 * MAX_TASK_DATA_SIZE) = (?p + 1) * 65536"
    using assms(3) wf u by (simp_all add: MAX_TASK_DATA_SIZE_def unat_word_ariths)
  have "(?p + 3) * 65536 \<le> ?n * 65536" using assms(3) by (intro mult_right_mono) auto
  then have fits: "(?p + 3) * 65536 \<le> sm_bytes s" using wf(3) by linarith
  have len: "of_nat (length d) = (65536 :: u32)" by (simp add: assms(4))
  have "\<not> shm_bad_args (Some s') (Some d)" for s'
    using assms(4) by (auto simp: shm_bad_args_def MAX_TASK_DATA_SIZE_def)
  then have 1: "shm_queue_try_enqueue True (Some s) (Some d) = Done (0, Some ?s1)"
    using nx ne o fits same assms(4)
    by (simp add: shm_queue_try_enqueue_def shm_queue_is_full_def shm_store_def len Let_def)
  have 2: "shm_queue_try_enqueue True (Some ?s1) (Some d2) = Done (0, Some ?s2)"
    using nx ne o fits same d2 message_ok_args [OF assms(5), of ?s1]
    by (simp add: shm_queue_try_enqueue_def shm_queue_is_full_def shm_store_def Let_def
        overlap_store_def)
  have "shm_queue_try_dequeue True (Some ?s2) (Some 65536)
      = Done (0, Some (take 65532 d @ enc32 (of_nat (length d2))), Some 65536,
              Some (?s2\<lparr>sm_consumer := q1\<rparr>))"
    using nx ne o fits same overlap_read [OF assms(4), of "sm_data s" ?p d2]
    by (simp add: shm_queue_try_dequeue_def shm_queue_is_empty_def shm_fetch_def Let_def dec_enc32)
  then show ?thesis using 1 2 by blast
qed

theorem shm_full_size_message_corrupted_witness:
  "\<exists>s1 s2 s3. shm_queue_try_enqueue True (Some region_4) (Some (replicate 65536 170)) = Done (0, Some s1)
     \<and> shm_queue_try_enqueue True (Some s1) (Some [1]) = Done (0, Some s2)
     \<and> shm_queue_try_dequeue True (Some s2) (Some 65536)
         = Done (0, Some (take 65532 (replicate 65536 170) @ enc32 (of_nat (length [1::u8]))),
                 Some 65536, Some s3)"
proof -
  have room: "unat (sm_producer region_4) + 2 < unat (sm_queue_size region_4)"
    by (simp add: region_4_def)
  have len: "length (replicate 65536 (170::u8)) = 65536" by (rule length_replicate)
  have ok: "message_ok [1]" by (simp add: message_ok_def)
  show ?thesis by (rule shm_full_size_message_corrupted [OF region_4_wf room len ok])
qed

text \<open>\<open>shm_repair\<close> restores whatever positions, magic or version were damaged: with a
  valid queue size the region passes \<open>shm_validate\<close> afterwards, a second repair has nothing to do,
  and a region that already passes is left alone.\<close>

theorem shm_repair_validates:
  assumes "0 < sm_queue_size s" "sm_queue_size s \<le> max_queue_size"
  shows "\<exists>k s'. shm_repair magic version (Some s) = (k, Some s')
     \<and> shm_validate magic version max_queue_size (Some s')
     \<and> shm_repair magic version (Some s') = (0, Some s')
     \<and> (k = 0 \<longleftrightarrow> shm_validate magic version max_queue_size (Some s))
     \<and> (k = 0 \<longrightarrow> s' = s)"
proof -
  let ?n = "sm_queue_size s"
  have n: "?n \<noteq> 0" "\<not> ?n \<le> 0" "\<not> max_queue_size < ?n" using assms by auto
  let ?s' = "repaired magic version s"
  have "shm_validate magic version max_queue_size (Some ?s')"
    using n by (simp add: shm_validate_def repaired_def)
  moreover have "shm_repair magic version (Some ?s') = (0, Some ?s')"
    using n by (simp add: shm_repair_eq) (simp add: repaired_def)
  moreover have "shm_validate magic version max_queue_size (Some s) \<longleftrightarrow>
      fst (shm_repair magic version (Some s)) = 0"
    using n by (simp add: shm_repair_eq shm_validate_def)
  moreover have "fst (shm_repair magic version (Some s)) = 0 \<longrightarrow> ?s' = s"
    by (simp add: shm_repair_eq repaired_def)
  ultimately show ?thesis by (auto simp: shm_repair_eq)
qed

theorem shm_repair_validates_witness:
  "\<exists>k s'. shm_repair 7 1 (Some (region_4\<lparr>sm_producer := 9\<rparr>)) = (k, Some s')
     \<and> shm_validate 7 1 1024 (Some s')"
  using shm_repair_validates [of "region_4\<lparr>sm_producer := 9\<rparr>" 1024 7 1]
  by (auto simp: region_4_def)

end
