(* ===== verification/Eventfd.thy ===== *)
theory Eventfd
  imports Pool_Prelude
begin

text \<open>
  Event descriptors and the primitives built on them:
  \<^verbatim>\<open>new_ProcessPool/src/ipc/eventfd_utils.c\<close>. The kernel's part is \<open>sys_read\<close>,
  \<open>sys_write\<close> and \<open>sys_fcntl\<close> on a table of counters, as \<^verbatim>\<open>eventfd(2)\<close> documents them: a read
  of a zero counter and a write that would exceed 2^64 - 2 give \<open>EAGAIN\<close> on a non-blocking
  descriptor and block otherwise. A call that blocks is \<open>Blocked\<close>. Return codes are the code's
  integers; a value delivered through a pointer is an option.
\<close>

record efd =
  e_count :: u64
  e_semaphore :: bool
  e_nonblock :: bool

type_synonym fds = "int \<rightharpoonup> efd"

subsection \<open>The kernel\<close>

datatype 'v sysret = SysOk 'v | SysAgain | SysError

definition sys_eventfd :: "int option \<Rightarrow> bool \<Rightarrow> bool \<Rightarrow> fds \<Rightarrow> int \<times> fds" where
  "sys_eventfd fd semaphore nonblock t =
     (case fd of None \<Rightarrow> (- 1, t)
      | Some n \<Rightarrow> (n, t(n \<mapsto> \<lparr>e_count = 0, e_semaphore = semaphore, e_nonblock = nonblock\<rparr>)))"

definition sys_read :: "int \<Rightarrow> fds \<Rightarrow> (u64 sysret \<times> fds) outcome" where
  "sys_read fd t =
     (case t fd of None \<Rightarrow> Done (SysError, t) | Some e \<Rightarrow>
      if e_count e = 0 then (if e_nonblock e then Done (SysAgain, t) else Blocked)
      else if e_semaphore e then Done (SysOk 1, t(fd \<mapsto> e\<lparr>e_count := e_count e - 1\<rparr>))
      else Done (SysOk (e_count e), t(fd \<mapsto> e\<lparr>e_count := 0\<rparr>)))"

definition sys_write :: "int \<Rightarrow> u64 \<Rightarrow> fds \<Rightarrow> (unit sysret \<times> fds) outcome" where
  "sys_write fd v t =
     (case t fd of None \<Rightarrow> Done (SysError, t) | Some e \<Rightarrow>
      if v = - 1 then Done (SysError, t)
      else if unat (e_count e) + unat v > 2 ^ 64 - 2
      then (if e_nonblock e then Done (SysAgain, t) else Blocked)
      else Done (SysOk (), t(fd \<mapsto> e\<lparr>e_count := e_count e + v\<rparr>)))"

definition O_RDWR :: "32 word" where "O_RDWR = 2"
definition O_NONBLOCK :: "32 word" where "O_NONBLOCK = 2048"

text \<open>\<open>fcntl\<close> with \<open>F_GETFL\<close> (\<open>- 1\<close> on a bad descriptor) and with \<open>F_SETFL\<close>.\<close>

definition sys_getfl :: "int \<Rightarrow> fds \<Rightarrow> 32 word" where
  "sys_getfl fd t =
     (case t fd of None \<Rightarrow> - 1 | Some e \<Rightarrow> if e_nonblock e then O_RDWR OR O_NONBLOCK else O_RDWR)"

definition sys_setfl :: "int \<Rightarrow> 32 word \<Rightarrow> fds \<Rightarrow> int \<times> fds" where
  "sys_setfl fd flags t =
     (case t fd of None \<Rightarrow> (- 1, t)
      | Some e \<Rightarrow> (0, t(fd \<mapsto> e\<lparr>e_nonblock := flags AND O_NONBLOCK \<noteq> 0\<rparr>)))"

subsection \<open>Creation, reading and writing\<close>

text \<open>The argument \<open>fd\<close> is the descriptor the kernel hands out, \<open>None\<close> when it fails.\<close>

definition create_eventfd :: "int option \<Rightarrow> fds \<Rightarrow> int \<times> fds" where
  "create_eventfd fd t = sys_eventfd fd False True t"

definition create_eventfd_blocking :: "int option \<Rightarrow> fds \<Rightarrow> int \<times> fds" where
  "create_eventfd_blocking fd t = sys_eventfd fd False False t"

definition create_eventfd_semaphore :: "int option \<Rightarrow> fds \<Rightarrow> int \<times> fds" where
  "create_eventfd_semaphore fd t = sys_eventfd fd True True t"

definition close_eventfd :: "int \<Rightarrow> fds \<Rightarrow> fds" where
  "close_eventfd fd t = (if fd \<ge> 0 then t(fd := None) else t)"

definition eventfd_write_value :: "int \<Rightarrow> u64 \<Rightarrow> fds \<Rightarrow> (int \<times> fds) outcome" where
  "eventfd_write_value fd v t =
     (if fd < 0 \<or> v = 0 then Done (- 1, t)
      else bind_outcome (sys_write fd v t) (\<lambda>(r, t').
        case r of SysOk _ \<Rightarrow> Done (0, t') | SysAgain \<Rightarrow> Done (- 2, t') | SysError \<Rightarrow> Done (- 1, t')))"

definition eventfd_read_value :: "int \<Rightarrow> bool \<Rightarrow> fds \<Rightarrow> (int \<times> u64 option \<times> fds) outcome" where
  "eventfd_read_value fd ptr t =
     (if fd < 0 \<or> \<not> ptr then Done (- 1, None, t)
      else bind_outcome (sys_read fd t) (\<lambda>(r, t').
        case r of SysOk v \<Rightarrow> Done (0, Some v, t') | SysAgain \<Rightarrow> Done (- 2, None, t')
        | SysError \<Rightarrow> Done (- 1, None, t')))"

definition eventfd_signal :: "int \<Rightarrow> fds \<Rightarrow> (int \<times> fds) outcome" where
  "eventfd_signal fd t = eventfd_write_value fd 1 t"

definition eventfd_wait :: "int \<Rightarrow> fds \<Rightarrow> (int \<times> fds) outcome" where
  "eventfd_wait fd t = bind_outcome (eventfd_read_value fd True t) (\<lambda>(r, v, t'). Done (r, t'))"

definition eventfd_try_wait :: "int \<Rightarrow> fds \<Rightarrow> (int \<times> fds) outcome" where
  "eventfd_try_wait fd t =
     bind_outcome (eventfd_read_value fd True t) (\<lambda>(r, v, t'). Done (if r = - 2 then 0 else r, t'))"

definition eventfd_signal_multiple :: "int \<Rightarrow> u64 \<Rightarrow> fds \<Rightarrow> (int \<times> fds) outcome" where
  "eventfd_signal_multiple fd n t = (if n = 0 then Done (0, t) else eventfd_write_value fd n t)"

text \<open>Each successful read lowers the counter, so draining ends.\<close>

definition counter :: "int \<Rightarrow> fds \<Rightarrow> nat" where
  "counter fd t = (case t fd of None \<Rightarrow> 0 | Some e \<Rightarrow> unat (e_count e))"

lemma eventfd_read_decreases:
  assumes "eventfd_read_value fd ptr t = Done (0, v, t')"
  shows "counter fd t' < counter fd t"
  using assms
  by (auto simp: eventfd_read_value_def sys_read_def counter_def bind_outcome_Done_iff
      measure_unat unat_gt_0 split: if_splits option.splits sysret.splits)

function drain_loop :: "int \<Rightarrow> u64 \<Rightarrow> fds \<Rightarrow> (u64 \<times> fds) outcome" where
  "drain_loop fd acc t =
     (case eventfd_read_value fd True t of
        Done (r, v, t') \<Rightarrow> if r = 0 then drain_loop fd (acc + the v) t' else Done (acc, t')
      | Blocked \<Rightarrow> Blocked
      | Fault \<Rightarrow> Fault)"
  by pat_completeness auto
termination
  by (relation "measure (\<lambda>(fd, acc, t). counter fd t)") (auto dest: eventfd_read_decreases)

declare drain_loop.simps [simp del]

definition eventfd_drain :: "int \<Rightarrow> fds \<Rightarrow> (int \<times> u64 option \<times> fds) outcome" where
  "eventfd_drain fd t =
     (if fd < 0 then Done (- 1, None, t)
      else bind_outcome (drain_loop fd 0 t) (\<lambda>(n, t').
        Done (if n > 0 then 0 else - 1, Some n, t')))"

subsection \<open>Queries\<close>

definition eventfd_is_signaled :: "int \<Rightarrow> fds \<Rightarrow> (bool \<times> fds) outcome" where
  "eventfd_is_signaled fd t =
     (if fd < 0 then Done (False, t)
      else bind_outcome (eventfd_read_value fd True t) (\<lambda>(r, v, t').
        if r = 0 then bind_outcome (eventfd_write_value fd (the v) t') (\<lambda>(_, t''). Done (True, t''))
        else Done (False, t')))"

definition eventfd_get_value :: "int \<Rightarrow> bool \<Rightarrow> fds \<Rightarrow> (int \<times> u64 option \<times> fds) outcome" where
  "eventfd_get_value fd ptr t =
     (if fd < 0 \<or> \<not> ptr then Done (- 1, None, t)
      else bind_outcome (eventfd_read_value fd ptr t) (\<lambda>(r, v, t').
        if r = 0 then bind_outcome (eventfd_write_value fd (the v) t') (\<lambda>(_, t''). Done (0, v, t''))
        else if r = - 2 then Done (0, Some 0, t')
        else Done (r, v, t')))"

definition eventfd_set_nonblocking :: "int \<Rightarrow> bool \<Rightarrow> fds \<Rightarrow> int \<times> fds" where
  "eventfd_set_nonblocking fd nonblocking t =
     (if fd < 0 then (- 1, t)
      else let flags = sys_getfl fd t
           in if flags = - 1 then (- 1, t)
              else sys_setfl fd (if nonblocking then flags OR O_NONBLOCK else flags AND NOT O_NONBLOCK) t)"

definition eventfd_is_nonblocking :: "int \<Rightarrow> fds \<Rightarrow> bool" where
  "eventfd_is_nonblocking fd t \<longleftrightarrow>
     \<not> fd < 0 \<and> sys_getfl fd t \<noteq> - 1 \<and> sys_getfl fd t AND O_NONBLOCK \<noteq> 0"

definition eventfd_get_flags :: "int \<Rightarrow> fds \<Rightarrow> 32 word" where
  "eventfd_get_flags fd t = (if fd < 0 then - 1 else sys_getfl fd t)"

definition eventfd_validate :: "int \<Rightarrow> fds \<Rightarrow> (int \<times> fds) outcome" where
  "eventfd_validate fd t =
     (if fd < 0 then Done (- 1, t)
      else let flags = sys_getfl fd t
           in if flags = - 1 then Done (- 1, t)
              else let was_blocking = (flags AND O_NONBLOCK = 0);
                       t1 = (if was_blocking then snd (eventfd_set_nonblocking fd True t) else t)
                   in bind_outcome (eventfd_read_value fd True t1) (\<lambda>(r, v, t2).
                      bind_outcome (if r = 0 then eventfd_write_value fd (the v) t2 else Done (0, t2))
                        (\<lambda>(_, t3).
                          let t4 = (if was_blocking then snd (eventfd_set_nonblocking fd False t3) else t3)
                          in Done (if r = 0 \<or> r = - 2 then 0 else - 1, t4))))"

subsection \<open>A mutex\<close>

record eventfd_mutex =
  em_efd :: int
  em_initialized :: bool

definition eventfd_mutex_init ::
  "int option \<Rightarrow> eventfd_mutex option \<Rightarrow> fds \<Rightarrow> (int \<times> eventfd_mutex option \<times> fds) outcome" where
  "eventfd_mutex_init fd mutex t =
     (case mutex of None \<Rightarrow> Done (- 1, None, t) | Some m \<Rightarrow>
      case create_eventfd_blocking fd t of (efd, t1) \<Rightarrow>
      if efd = - 1 then Done (- 1, Some (m\<lparr>em_efd := efd\<rparr>), t1)
      else bind_outcome (eventfd_signal efd t1) (\<lambda>(r, t2).
        if r \<noteq> 0 then Done (- 1, Some (m\<lparr>em_efd := efd\<rparr>), close_eventfd efd t2)
        else Done (0, Some (m\<lparr>em_efd := efd, em_initialized := True\<rparr>), t2)))"

definition eventfd_mutex_destroy :: "eventfd_mutex option \<Rightarrow> fds \<Rightarrow> eventfd_mutex option \<times> fds" where
  "eventfd_mutex_destroy mutex t =
     (case mutex of None \<Rightarrow> (None, t) | Some m \<Rightarrow>
      if em_initialized m then (Some (m\<lparr>em_initialized := False\<rparr>), close_eventfd (em_efd m) t)
      else (Some m, t))"

definition eventfd_mutex_lock :: "eventfd_mutex option \<Rightarrow> fds \<Rightarrow> (int \<times> fds) outcome" where
  "eventfd_mutex_lock mutex t =
     (case mutex of None \<Rightarrow> Done (- 1, t) | Some m \<Rightarrow>
      if \<not> em_initialized m then Done (- 1, t)
      else bind_outcome (eventfd_read_value (em_efd m) True t) (\<lambda>(r, v, t'). Done (r, t')))"

definition eventfd_mutex_trylock :: "eventfd_mutex option \<Rightarrow> fds \<Rightarrow> (int \<times> fds) outcome" where
  "eventfd_mutex_trylock mutex t =
     (case mutex of None \<Rightarrow> Done (- 1, t) | Some m \<Rightarrow>
      if \<not> em_initialized m then Done (- 1, t)
      else bind_outcome (eventfd_read_value (em_efd m) True t) (\<lambda>(r, v, t').
        if r = - 2 then Done (- 2, t') else Done (r, t')))"

definition eventfd_mutex_unlock :: "eventfd_mutex option \<Rightarrow> fds \<Rightarrow> (int \<times> fds) outcome" where
  "eventfd_mutex_unlock mutex t =
     (case mutex of None \<Rightarrow> Done (- 1, t) | Some m \<Rightarrow>
      if \<not> em_initialized m then Done (- 1, t) else eventfd_signal (em_efd m) t)"

subsection \<open>A semaphore\<close>

record eventfd_semaphore =
  es_efd :: int
  es_initial_count :: u32
  es_initialized :: bool

definition eventfd_semaphore_init ::
  "int option \<Rightarrow> eventfd_semaphore option \<Rightarrow> u32 \<Rightarrow> fds
     \<Rightarrow> (int \<times> eventfd_semaphore option \<times> fds) outcome" where
  "eventfd_semaphore_init fd sem initial_count t =
     (case sem of None \<Rightarrow> Done (- 1, None, t) | Some s \<Rightarrow>
      if initial_count = 0 then Done (- 1, sem, t)
      else case create_eventfd_semaphore fd t of (efd, t1) \<Rightarrow>
      if efd = - 1 then Done (- 1, Some (s\<lparr>es_efd := efd\<rparr>), t1)
      else bind_outcome (eventfd_write_value efd (ucast initial_count) t1) (\<lambda>(r, t2).
        if r \<noteq> 0 then Done (- 1, Some (s\<lparr>es_efd := efd\<rparr>), close_eventfd efd t2)
        else Done (0, Some (s\<lparr>es_efd := efd, es_initial_count := initial_count,
                              es_initialized := True\<rparr>), t2)))"

definition eventfd_semaphore_destroy ::
  "eventfd_semaphore option \<Rightarrow> fds \<Rightarrow> eventfd_semaphore option \<times> fds" where
  "eventfd_semaphore_destroy sem t =
     (case sem of None \<Rightarrow> (None, t) | Some s \<Rightarrow>
      if es_initialized s then (Some (s\<lparr>es_initialized := False\<rparr>), close_eventfd (es_efd s) t)
      else (Some s, t))"

definition eventfd_semaphore_wait :: "eventfd_semaphore option \<Rightarrow> fds \<Rightarrow> (int \<times> fds) outcome" where
  "eventfd_semaphore_wait sem t =
     (case sem of None \<Rightarrow> Done (- 1, t) | Some s \<Rightarrow>
      if \<not> es_initialized s then Done (- 1, t)
      else bind_outcome (eventfd_read_value (es_efd s) True t) (\<lambda>(r, v, t'). Done (r, t')))"

definition eventfd_semaphore_trywait ::
  "eventfd_semaphore option \<Rightarrow> fds \<Rightarrow> (int \<times> fds) outcome" where
  "eventfd_semaphore_trywait sem t =
     (case sem of None \<Rightarrow> Done (- 1, t) | Some s \<Rightarrow>
      if \<not> es_initialized s then Done (- 1, t)
      else bind_outcome (eventfd_read_value (es_efd s) True t) (\<lambda>(r, v, t').
        if r = - 2 then Done (- 2, t') else Done (r, t')))"

definition eventfd_semaphore_post :: "eventfd_semaphore option \<Rightarrow> fds \<Rightarrow> (int \<times> fds) outcome" where
  "eventfd_semaphore_post sem t =
     (case sem of None \<Rightarrow> Done (- 1, t) | Some s \<Rightarrow>
      if \<not> es_initialized s then Done (- 1, t) else eventfd_signal (es_efd s) t)"

definition eventfd_semaphore_post_multiple ::
  "eventfd_semaphore option \<Rightarrow> u32 \<Rightarrow> fds \<Rightarrow> (int \<times> fds) outcome" where
  "eventfd_semaphore_post_multiple sem n t =
     (case sem of None \<Rightarrow> Done (- 1, t) | Some s \<Rightarrow>
      if \<not> es_initialized s \<or> n = 0 then Done (- 1, t)
      else eventfd_write_value (es_efd s) (ucast n) t)"

subsection \<open>A notifier\<close>

record eventfd_notifier =
  en_efd :: int
  en_event_count :: u64
  en_initialized :: bool

definition eventfd_notifier_init ::
  "int option \<Rightarrow> eventfd_notifier option \<Rightarrow> fds \<Rightarrow> int \<times> eventfd_notifier option \<times> fds" where
  "eventfd_notifier_init fd notifier t =
     (case notifier of None \<Rightarrow> (- 1, None, t) | Some n \<Rightarrow>
      case create_eventfd fd t of (efd, t1) \<Rightarrow>
      if efd = - 1 then (- 1, Some (n\<lparr>en_efd := efd\<rparr>), t1)
      else (0, Some (n\<lparr>en_efd := efd, en_event_count := 0, en_initialized := True\<rparr>), t1))"

definition eventfd_notifier_destroy ::
  "eventfd_notifier option \<Rightarrow> fds \<Rightarrow> eventfd_notifier option \<times> fds" where
  "eventfd_notifier_destroy notifier t =
     (case notifier of None \<Rightarrow> (None, t) | Some n \<Rightarrow>
      if en_initialized n then (Some (n\<lparr>en_initialized := False\<rparr>), close_eventfd (en_efd n) t)
      else (Some n, t))"

definition eventfd_notifier_notify ::
  "eventfd_notifier \<Rightarrow> fds \<Rightarrow> (int \<times> eventfd_notifier \<times> fds) outcome" where
  "eventfd_notifier_notify n t =
     (if \<not> en_initialized n then Done (- 1, n, t)
      else bind_outcome (eventfd_signal (en_efd n) t) (\<lambda>(r, t').
        Done (r, n\<lparr>en_event_count := en_event_count n + 1\<rparr>, t')))"

definition eventfd_notifier_notify_multiple ::
  "eventfd_notifier \<Rightarrow> u32 \<Rightarrow> fds \<Rightarrow> (int \<times> eventfd_notifier \<times> fds) outcome" where
  "eventfd_notifier_notify_multiple n k t =
     (if \<not> en_initialized n \<or> k = 0 then Done (- 1, n, t)
      else bind_outcome (eventfd_write_value (en_efd n) (ucast k) t) (\<lambda>(r, t').
        Done (r, n\<lparr>en_event_count := en_event_count n + ucast k\<rparr>, t')))"

text \<open>The waits return the code and the value stored through \<open>events_received\<close>, if any.\<close>

definition eventfd_notifier_wait ::
  "eventfd_notifier \<Rightarrow> fds \<Rightarrow> (int \<times> u64 option \<times> fds) outcome" where
  "eventfd_notifier_wait n t =
     (if \<not> en_initialized n then Done (- 1, None, t)
      else bind_outcome (eventfd_read_value (en_efd n) True t) (\<lambda>(r, v, t').
        Done (r, if r = 0 then v else None, t')))"

definition eventfd_notifier_try_wait ::
  "eventfd_notifier \<Rightarrow> fds \<Rightarrow> (int \<times> u64 option \<times> fds) outcome" where
  "eventfd_notifier_try_wait n t =
     (if \<not> en_initialized n then Done (- 1, None, t)
      else bind_outcome (eventfd_read_value (en_efd n) True t) (\<lambda>(r, v, t').
        Done (r, if r = 0 then v else if r = - 2 then Some 0 else None, t')))"

definition eventfd_notifier_get_total_events :: "eventfd_notifier \<Rightarrow> u64" where
  "eventfd_notifier_get_total_events n = (if \<not> en_initialized n then 0 else en_event_count n)"

definition eventfd_notifier_reset_counter :: "eventfd_notifier \<Rightarrow> eventfd_notifier" where
  "eventfd_notifier_reset_counter n = (if en_initialized n then n\<lparr>en_event_count := 0\<rparr> else n)"

subsection \<open>The benchmark\<close>

fun bench_write :: "nat \<Rightarrow> int \<Rightarrow> fds \<Rightarrow> (int \<times> fds) outcome" where
  "bench_write 0 fd t = Done (0, t)"
| "bench_write (Suc n) fd t = bind_outcome (eventfd_signal fd t) (\<lambda>(r, t').
     if r \<noteq> 0 then Done (- 1, close_eventfd fd t') else bench_write n fd t')"

fun bench_read :: "nat \<Rightarrow> int \<Rightarrow> fds \<Rightarrow> (int \<times> fds) outcome" where
  "bench_read 0 fd t = Done (0, close_eventfd fd t)"
| "bench_read (Suc n) fd t = bind_outcome (eventfd_read_value fd True t) (\<lambda>(r, v, t').
     if r \<noteq> 0 then Done (- 1, close_eventfd fd t') else bench_read n fd t')"

definition eventfd_benchmark :: "int option \<Rightarrow> nat \<Rightarrow> fds \<Rightarrow> (int \<times> fds) outcome" where
  "eventfd_benchmark fd n t =
     (case create_eventfd fd t of (efd, t1) \<Rightarrow>
      if efd = - 1 then Done (- 1, t1)
      else bind_outcome (bench_write n efd t1) (\<lambda>(r, t2).
        if r \<noteq> 0 then Done (r, t2) else bench_read n efd t2))"

subsection \<open>Reads and writes of one counter\<close>

lemma read_pos:
  assumes "t fd = Some e" "0 \<le> fd" "e_count e \<noteq> 0"
  shows "eventfd_read_value fd True t =
     (if e_semaphore e then Done (0, Some 1, t(fd \<mapsto> e\<lparr>e_count := e_count e - 1\<rparr>))
      else Done (0, Some (e_count e), t(fd \<mapsto> e\<lparr>e_count := 0\<rparr>)))"
  using assms by (simp add: eventfd_read_value_def sys_read_def)

lemma read_zero:
  assumes "t fd = Some e" "0 \<le> fd" "e_count e = 0"
  shows "eventfd_read_value fd True t = (if e_nonblock e then Done (- 2, None, t) else Blocked)"
  using assms by (simp add: eventfd_read_value_def sys_read_def)

lemma write_room:
  assumes "t fd = Some e" "0 \<le> fd" "v \<noteq> 0" "unat (e_count e) + unat v \<le> 2 ^ 64 - 2"
  shows "eventfd_write_value fd v t = Done (0, t(fd \<mapsto> e\<lparr>e_count := e_count e + v\<rparr>))"
proof -
  have "unat v \<noteq> unat (- 1 :: u64)" using assms(4) by (simp add: unat_max_u64)
  then have "v \<noteq> - 1" by auto
  then show ?thesis using assms by (simp add: eventfd_write_value_def sys_write_def)
qed

lemma unat_add_room:
  fixes a b :: u64
  assumes "unat a + unat b \<le> 2 ^ 64 - 2"
  shows "unat (a + b) = unat a + unat b"
  using assms by (simp add: unat_word_ariths)

subsection \<open>Mutual exclusion\<close>

text \<open>
  Any number of threads on one mutex, each call one step; the set holds the threads between
  their successful lock and their unlock.
\<close>

inductive mutex_reach :: "eventfd_mutex \<Rightarrow> fds \<Rightarrow> nat set \<Rightarrow> bool" where
  init: "eventfd_mutex_init (Some fd) (Some m0) t0 = Done (0, Some m, t) \<Longrightarrow> 0 \<le> fd \<Longrightarrow>
           mutex_reach m t {}"
| lock: "mutex_reach m t H \<Longrightarrow> i \<notin> H \<Longrightarrow> eventfd_mutex_lock (Some m) t = Done (0, t') \<Longrightarrow>
           mutex_reach m t' (insert i H)"
| trylock: "mutex_reach m t H \<Longrightarrow> i \<notin> H \<Longrightarrow> eventfd_mutex_trylock (Some m) t = Done (0, t') \<Longrightarrow>
           mutex_reach m t' (insert i H)"
| unlock: "mutex_reach m t H \<Longrightarrow> i \<in> H \<Longrightarrow> eventfd_mutex_unlock (Some m) t = Done (r, t') \<Longrightarrow>
           mutex_reach m t' (H - {i})"

definition mutex_inv :: "eventfd_mutex \<Rightarrow> fds \<Rightarrow> nat set \<Rightarrow> bool" where
  "mutex_inv m t H \<longleftrightarrow> em_initialized m \<and> 0 \<le> em_efd m \<and> finite H
     \<and> (\<exists>e. t (em_efd m) = Some e \<and> \<not> e_semaphore e \<and> \<not> e_nonblock e
          \<and> unat (e_count e) + card H = 1)"

lemma mutex_inv_locked:
  assumes "mutex_inv m t H" "H \<noteq> {}"
  shows "eventfd_mutex_lock (Some m) t = Blocked" "eventfd_mutex_trylock (Some m) t = Blocked"
proof -
  obtain e where e: "t (em_efd m) = Some e" "\<not> e_nonblock e" "unat (e_count e) + card H = 1"
    using assms(1) by (auto simp: mutex_inv_def)
  have "0 < card H" using assms by (auto simp: mutex_inv_def card_gt_0_iff)
  then have "unat (e_count e) = 0" using e(3) by linarith
  then have z: "e_count e = 0" by (simp only: unat_eq_0)
  show "eventfd_mutex_lock (Some m) t = Blocked" "eventfd_mutex_trylock (Some m) t = Blocked"
    using assms(1) read_zero [of t "em_efd m", OF e(1) _ z] e(2)
    by (simp_all add: mutex_inv_def eventfd_mutex_lock_def eventfd_mutex_trylock_def)
qed

lemma mutex_inv_free:
  assumes "mutex_inv m t {}"
  shows "\<exists>t'. eventfd_mutex_lock (Some m) t = Done (0, t') \<and> eventfd_mutex_trylock (Some m) t = Done (0, t')
       \<and> mutex_inv m t' {i}"
proof -
  obtain e where e: "t (em_efd m) = Some e" "\<not> e_nonblock e" "\<not> e_semaphore e" "unat (e_count e) = 1"
    using assms by (auto simp: mutex_inv_def)
  then have nz: "e_count e \<noteq> 0" by auto
  let ?t = "t(em_efd m \<mapsto> e\<lparr>e_count := 0\<rparr>)"
  have "mutex_inv m ?t {i}" using assms e by (simp add: mutex_inv_def)
  then show ?thesis
    using assms read_pos [of t "em_efd m", OF e(1) _ nz] e(3)
    by (simp add: mutex_inv_def eventfd_mutex_lock_def eventfd_mutex_trylock_def)
qed

lemma mutex_reach_inv: "mutex_reach m t H \<Longrightarrow> mutex_inv m t H"
proof (induction rule: mutex_reach.induct)
  case (init fd m0 t0 m t)
  then show ?case
    by (auto simp: eventfd_mutex_init_def create_eventfd_blocking_def sys_eventfd_def
        eventfd_signal_def eventfd_write_value_def sys_write_def mutex_inv_def split: if_splits)
next
  case (lock m t H i t')
  then have "H = {}" using mutex_inv_locked(1) by (metis outcome.distinct(1))
  then show ?case using mutex_inv_free [of m t i] lock by auto
next
  case (trylock m t H i t')
  then have "H = {}" using mutex_inv_locked(2) by (metis outcome.distinct(1))
  then show ?case using mutex_inv_free [of m t i] trylock by auto
next
  case (unlock m t H i r t')
  obtain e where e: "t (em_efd m) = Some e" "\<not> e_nonblock e" "\<not> e_semaphore e"
      "unat (e_count e) + card H = 1"
    using unlock.IH by (auto simp: mutex_inv_def)
  have fin: "finite H" "0 \<le> em_efd m" "em_initialized m" using unlock.IH by (auto simp: mutex_inv_def)
  then have c: "0 < card H" using unlock.hyps(2) by (auto simp: card_gt_0_iff)
  then have z: "unat (e_count e) = 0" "card H = 1" using e(4) by linarith+
  have room: "unat (e_count e) + unat (1::u64) \<le> 2 ^ 64 - 2" using z by simp
  have "t' = t(em_efd m \<mapsto> e\<lparr>e_count := e_count e + 1\<rparr>)"
    using unlock.hyps(3) write_room [of t "em_efd m", OF e(1) fin(2) _ room] fin(3)
    by (auto simp: eventfd_mutex_unlock_def eventfd_signal_def)
  moreover have "unat (e_count e + 1) = 1" using unat_add_room [OF room] z by simp
  moreover have "card (H - {i}) = 0" using z(2) unlock.hyps(2) by (simp add: card_Diff_singleton)
  ultimately show ?case using e fin by (simp add: mutex_inv_def)
qed

subsection \<open>Semaphores\<close>

datatype sem_op = SemWait | SemTryWait | SemPost | SemPostMultiple u32

text \<open>A run counts the units acquired and the units posted.\<close>

fun sem_run :: "eventfd_semaphore \<Rightarrow> sem_op list \<Rightarrow> fds \<Rightarrow> (nat \<times> nat \<times> fds) outcome" where
  "sem_run s [] t = Done (0, 0, t)"
| "sem_run s (SemWait # ops) t =
     bind_outcome (eventfd_semaphore_wait (Some s) t) (\<lambda>(r, t1).
     bind_outcome (sem_run s ops t1) (\<lambda>(a, p, t2). Done (if r = 0 then a + 1 else a, p, t2)))"
| "sem_run s (SemTryWait # ops) t =
     bind_outcome (eventfd_semaphore_trywait (Some s) t) (\<lambda>(r, t1).
     bind_outcome (sem_run s ops t1) (\<lambda>(a, p, t2). Done (if r = 0 then a + 1 else a, p, t2)))"
| "sem_run s (SemPost # ops) t =
     bind_outcome (eventfd_semaphore_post (Some s) t) (\<lambda>(r, t1).
     bind_outcome (sem_run s ops t1) (\<lambda>(a, p, t2). Done (a, if r = 0 then p + 1 else p, t2)))"
| "sem_run s (SemPostMultiple n # ops) t =
     bind_outcome (eventfd_semaphore_post_multiple (Some s) n t) (\<lambda>(r, t1).
     bind_outcome (sem_run s ops t1) (\<lambda>(a, p, t2). Done (a, if r = 0 then p + unat n else p, t2)))"

definition sem_inv :: "eventfd_semaphore \<Rightarrow> fds \<Rightarrow> bool" where
  "sem_inv s t \<longleftrightarrow> es_initialized s \<and> 0 \<le> es_efd s
     \<and> (\<exists>e. t (es_efd s) = Some e \<and> e_semaphore e \<and> e_nonblock e)"

lemma sem_wait_step:
  assumes "sem_inv s t"
  shows "\<exists>r t1. eventfd_semaphore_wait (Some s) t = Done (r, t1) \<and> sem_inv s t1
     \<and> eventfd_semaphore_trywait (Some s) t = Done (r, t1)
     \<and> (r = 0 \<or> r = - 2)
     \<and> counter (es_efd s) t = counter (es_efd s) t1 + (if r = 0 then 1 else 0)"
proof -
  obtain e where e: "t (es_efd s) = Some e" "e_semaphore e" "e_nonblock e"
    and s: "es_initialized s" "0 \<le> es_efd s"
    using assms by (auto simp: sem_inv_def)
  show ?thesis
  proof (cases "e_count e = 0")
    case True
    then show ?thesis
      using read_zero [of t "es_efd s", OF e(1) s(2) True] e s assms
      by (simp add: eventfd_semaphore_wait_def eventfd_semaphore_trywait_def)
  next
    case False
    then have "unat (e_count e) = unat (e_count e - 1) + 1"
      by (simp add: unat_minus_one unat_gt_0)
    then show ?thesis
      using read_pos [of t "es_efd s", OF e(1) s(2) False] e s
      by (simp add: eventfd_semaphore_wait_def eventfd_semaphore_trywait_def sem_inv_def counter_def)
  qed
qed

lemma sem_write_step:
  assumes "sem_inv s t" "v \<noteq> 0" "v \<noteq> - 1"
  shows "\<exists>r t1. eventfd_write_value (es_efd s) v t = Done (r, t1) \<and> sem_inv s t1
     \<and> counter (es_efd s) t1 = counter (es_efd s) t + (if r = 0 then unat v else 0)"
proof -
  obtain e where e: "t (es_efd s) = Some e" "e_semaphore e" "e_nonblock e"
    and s: "es_initialized s" "0 \<le> es_efd s"
    using assms by (auto simp: sem_inv_def)
  show ?thesis
  proof (cases "unat (e_count e) + unat v \<le> 2 ^ 64 - 2")
    case True
    then show ?thesis
      using write_room [of t "es_efd s", OF e(1) s(2) assms(2) True] unat_add_room [OF True] e s
      by (simp add: sem_inv_def counter_def)
  next
    case False
    then show ?thesis
      using e s assms by (simp add: eventfd_write_value_def sys_write_def)
  qed
qed

lemma sem_run_counts:
  "sem_inv s t \<Longrightarrow> \<exists>a p t'. sem_run s ops t = Done (a, p, t') \<and> sem_inv s t'
     \<and> counter (es_efd s) t + p = counter (es_efd s) t' + a"
proof (induction ops arbitrary: t)
  case (Cons op ops)
  show ?case
  proof (cases op)
    case SemWait
    obtain r t1 where "eventfd_semaphore_wait (Some s) t = Done (r, t1)" "sem_inv s t1"
      "counter (es_efd s) t = counter (es_efd s) t1 + (if r = 0 then 1 else 0)"
      using sem_wait_step [OF Cons.prems] by blast
    then show ?thesis using SemWait Cons.IH [of t1] by (cases "r = 0") auto
  next
    case SemTryWait
    obtain r t1 where "eventfd_semaphore_trywait (Some s) t = Done (r, t1)" "sem_inv s t1"
      "counter (es_efd s) t = counter (es_efd s) t1 + (if r = 0 then 1 else 0)"
      using sem_wait_step [OF Cons.prems] by blast
    then show ?thesis using SemTryWait Cons.IH [of t1] by (cases "r = 0") auto
  next
    case SemPost
    have "(1::u64) \<noteq> - 1" by code_simp
    then obtain r t1 where "eventfd_semaphore_post (Some s) t = Done (r, t1)" "sem_inv s t1"
      "counter (es_efd s) t1 = counter (es_efd s) t + (if r = 0 then 1 else 0)"
      using sem_write_step [OF Cons.prems, of 1] Cons.prems
      by (auto simp: eventfd_semaphore_post_def sem_inv_def eventfd_signal_def)
    then show ?thesis using SemPost Cons.IH [of t1] by (cases "r = 0") auto
  next
    case (SemPostMultiple n)
    show ?thesis
    proof (cases "n = 0")
      case True
      then show ?thesis
        using SemPostMultiple Cons.IH [OF Cons.prems] by (auto simp: eventfd_semaphore_post_multiple_def)
    next
      case False
      have u: "unat (ucast n :: u64) = unat n" by (rule unat_ucast_u64)
      then have "unat (ucast n :: u64) \<noteq> unat (- 1 :: u64)"
        using unat_u32_less [of n] by (simp add: unat_max_u64)
      then have "(ucast n :: u64) \<noteq> - 1" by metis
      moreover have "(ucast n :: u64) \<noteq> 0" using False u by (metis unat_eq_0)
      ultimately obtain r t1 where "eventfd_semaphore_post_multiple (Some s) n t = Done (r, t1)"
        "sem_inv s t1" "counter (es_efd s) t1 = counter (es_efd s) t + (if r = 0 then unat n else 0)"
        using sem_write_step [OF Cons.prems, of "ucast n"] Cons.prems False u
        by (auto simp: eventfd_semaphore_post_multiple_def sem_inv_def)
      then show ?thesis using SemPostMultiple Cons.IH [of t1] by (cases "r = 0") auto
    qed
  qed
qed simp

text \<open>Draining, query and benchmark lemmas.\<close>

lemma drain_loop_nonblocking:
  assumes "t fd = Some e" "0 \<le> fd" "e_nonblock e"
  shows "drain_loop fd acc t = Done (acc + e_count e, t(fd \<mapsto> e\<lparr>e_count := 0\<rparr>))"
  using assms
proof (induction fd acc t arbitrary: e rule: drain_loop.induct)
  case (1 fd acc t)
  show ?case
  proof (cases "e_count e = 0")
    case True
    have "t(fd \<mapsto> e\<lparr>e_count := 0\<rparr>) = t" using True 1(2) by (intro ext) (auto simp flip: True)
    then show ?thesis
      using read_zero [of t fd e, OF "1.prems"(1,2) True] "1.prems"(3) True
      by (subst drain_loop.simps) simp
  next
    case False
    show ?thesis
    proof (cases "e_semaphore e")
      case True
      let ?e = "e\<lparr>e_count := e_count e - 1\<rparr>"
      have rd: "eventfd_read_value fd True t = Done (0, Some 1, t(fd \<mapsto> ?e))"
        using read_pos [of t fd e, OF "1.prems"(1,2) False] True by simp
      have "drain_loop fd (acc + the (Some 1)) (t(fd \<mapsto> ?e))
          = Done (acc + the (Some 1) + e_count ?e, (t(fd \<mapsto> ?e))(fd \<mapsto> ?e\<lparr>e_count := 0\<rparr>))"
        by (rule "1.IH" [OF rd refl refl refl]) (use "1.prems" in simp_all)
      then show ?thesis using rd by (subst drain_loop.simps) simp
    next
      case False
      let ?e = "e\<lparr>e_count := 0\<rparr>"
      have rd: "eventfd_read_value fd True t = Done (0, Some (e_count e), t(fd \<mapsto> ?e))"
        using read_pos [of t fd e, OF "1.prems"(1,2) \<open>e_count e \<noteq> 0\<close>] False by simp
      have "drain_loop fd (acc + the (Some (e_count e))) (t(fd \<mapsto> ?e))
          = Done (acc + the (Some (e_count e)) + e_count ?e, (t(fd \<mapsto> ?e))(fd \<mapsto> ?e\<lparr>e_count := 0\<rparr>))"
        by (rule "1.IH" [OF rd refl refl refl]) (use "1.prems" in simp_all)
      then show ?thesis using rd by (subst drain_loop.simps) simp
    qed
  qed
qed

lemma write_back:
  assumes "t fd = Some e" "0 \<le> fd" "e_count e \<noteq> 0" "unat (e_count e) \<le> 2 ^ 64 - 2"
  shows "eventfd_write_value fd (e_count e) (t(fd \<mapsto> e\<lparr>e_count := 0\<rparr>)) = Done (0, t)"
proof -
  have "eventfd_write_value fd (e_count e) (t(fd \<mapsto> e\<lparr>e_count := 0\<rparr>))
      = Done (0, t(fd \<mapsto> e\<lparr>e_count := 0\<rparr>, fd \<mapsto> e\<lparr>e_count := 0\<rparr>\<lparr>e_count := 0 + e_count e\<rparr>))"
    using write_room [of "t(fd \<mapsto> e\<lparr>e_count := 0\<rparr>)" fd "e\<lparr>e_count := 0\<rparr>" "e_count e"] assms by simp
  also have "t(fd \<mapsto> e\<lparr>e_count := 0\<rparr>, fd \<mapsto> e\<lparr>e_count := 0\<rparr>\<lparr>e_count := 0 + e_count e\<rparr>) = t"
    using assms(1) by (intro ext) auto
  finally show ?thesis .
qed

lemma read_count:
  assumes "t fd = Some e" "0 \<le> fd" "\<not> e_semaphore e" "e_nonblock e \<or> e_count e \<noteq> 0"
  shows "eventfd_read_value fd True t =
     (if e_count e = 0 then Done (- 2, None, t)
      else Done (0, Some (e_count e), t(fd \<mapsto> e\<lparr>e_count := 0\<rparr>)))"
  using read_zero [of t fd e, OF assms(1,2)] read_pos [of t fd e, OF assms(1,2)] assms(3,4) by auto

lemma getfl_some:
  assumes "t fd = Some e"
  shows "sys_getfl fd t \<noteq> - 1" "sys_getfl fd t AND O_NONBLOCK = 0 \<longleftrightarrow> \<not> e_nonblock e"
  using assms by (simp_all add: sys_getfl_def O_RDWR_def O_NONBLOCK_def)

lemma set_nonblocking_some:
  assumes "t fd = Some e" "0 \<le> fd"
  shows "eventfd_set_nonblocking fd b t = (0, t(fd \<mapsto> e\<lparr>e_nonblock := b\<rparr>))"
proof -
  have "(if b then sys_getfl fd t OR O_NONBLOCK else sys_getfl fd t AND NOT O_NONBLOCK) AND O_NONBLOCK \<noteq> 0
      \<longleftrightarrow> b"
    using assms(1) by (simp add: sys_getfl_def O_RDWR_def O_NONBLOCK_def)
  then show ?thesis
    using assms getfl_some(1) [of t fd e, OF assms(1)]
    by (simp add: eventfd_set_nonblocking_def sys_setfl_def Let_def)
qed

lemma bench_write_counts:
  assumes "t fd = Some e" "0 \<le> fd" "unat (e_count e) + n \<le> 2 ^ 64 - 2"
  shows "bench_write n fd t = Done (0, t(fd \<mapsto> e\<lparr>e_count := e_count e + of_nat n\<rparr>))"
  using assms
proof (induction n arbitrary: t e)
  case 0
  then show ?case by (simp add: fun_upd_idem)
next
  case (Suc n)
  let ?e = "e\<lparr>e_count := e_count e + 1\<rparr>"
  have room: "unat (e_count e) + unat (1::u64) \<le> 2 ^ 64 - 2" using Suc.prems(3) by simp
  have w: "eventfd_signal fd t = Done (0, t(fd \<mapsto> ?e))"
    using write_room [of t fd e, OF Suc.prems(1,2) _ room] by (simp add: eventfd_signal_def)
  have "unat (e_count ?e) + n \<le> 2 ^ 64 - 2"
    using unat_add_room [OF room] Suc.prems(3) by simp
  then have "bench_write n fd (t(fd \<mapsto> ?e))
      = Done (0, (t(fd \<mapsto> ?e))(fd \<mapsto> ?e\<lparr>e_count := e_count ?e + of_nat n\<rparr>))"
    by (intro Suc.IH) (use Suc.prems(2) in simp_all)
  then show ?case using w by (auto simp: algebra_simps fun_upd_def)
qed

subsection \<open>Properties\<close>

text \<open>An eventfd mutex excludes: in every reachable state at most one thread is inside; a free
  mutex can be taken at once. While it is held, \<open>eventfd_mutex_lock\<close> waits, and so does
  \<open>eventfd_mutex_trylock\<close>, whose descriptor is a blocking one: the promised -2 never comes.\<close>

theorem eventfd_mutex_exclusion:
  assumes "mutex_reach m t H"
  shows "card H \<le> 1
     \<and> (H = {} \<longrightarrow> (\<exists>t'. eventfd_mutex_lock (Some m) t = Done (0, t') \<and> mutex_reach m t' {i}))
     \<and> (H \<noteq> {} \<longrightarrow> eventfd_mutex_lock (Some m) t = Blocked
                   \<and> eventfd_mutex_trylock (Some m) t = Blocked)"
proof -
  have inv: "mutex_inv m t H" by (rule mutex_reach_inv [OF assms])
  have "mutex_reach m t' {i}" if "H = {}" "eventfd_mutex_lock (Some m) t = Done (0, t')" for t'
    using mutex_reach.lock [of m t H i t'] assms that by simp
  then show ?thesis
    using inv mutex_inv_free [of m t i] mutex_inv_locked [OF inv] by (auto simp: mutex_inv_def)
qed

theorem eventfd_mutex_exclusion_witness:
  "\<exists>m t t'. mutex_reach m t {} \<and> eventfd_mutex_lock (Some m) t = Done (0, t')
     \<and> eventfd_mutex_trylock (Some m) t' = Blocked"
proof -
  let ?m0 = "\<lparr>em_efd = 0, em_initialized = False\<rparr>"
  obtain m t where "eventfd_mutex_init (Some 5) (Some ?m0) Map.empty = Done (0, Some m, t)"
    by (simp add: eventfd_mutex_init_def create_eventfd_blocking_def sys_eventfd_def
        eventfd_signal_def eventfd_write_value_def sys_write_def)
  then have r: "mutex_reach m t {}" by (rule mutex_reach.init) simp
  then obtain t' where l: "eventfd_mutex_lock (Some m) t = Done (0, t')" "mutex_reach m t' {1}"
    using eventfd_mutex_exclusion [OF r, of 1] by auto
  then show ?thesis using r eventfd_mutex_exclusion [OF l(2)] by auto
qed

text \<open>A semaphore conserves its units over every sequence of waits and posts: what was
  initially there plus what was posted is what is left plus what was acquired, so no wait succeeds
  without a unit. No call blocks: a wait without units returns -2 instead of waiting.\<close>

theorem eventfd_semaphore_conservation:
  assumes "eventfd_semaphore_init (Some fd) (Some s0) n t0 = Done (0, Some s, t)" "0 \<le> fd"
  shows "\<exists>acquired posted t'. sem_run s ops t = Done (acquired, posted, t')
     \<and> unat n + posted = counter fd t' + acquired
     \<and> (counter fd t' = 0 \<longrightarrow> eventfd_semaphore_wait (Some s) t' = Done (- 2, t'))"
proof -
  have i: "sem_inv s t" "es_efd s = fd" "counter fd t = unat n"
    using assms
    by (auto simp: eventfd_semaphore_init_def create_eventfd_semaphore_def sys_eventfd_def
        eventfd_write_value_def sys_write_def sem_inv_def counter_def unat_ucast_u64 split: if_splits)
  obtain a p t' where r: "sem_run s ops t = Done (a, p, t')" "sem_inv s t'"
    "counter fd t + p = counter fd t' + a"
    using sem_run_counts [OF i(1), of ops] i(2) by auto
  have "eventfd_semaphore_wait (Some s) t' = Done (- 2, t')" if "counter fd t' = 0"
  proof -
    obtain e where e: "t' fd = Some e" "e_nonblock e" "es_initialized s" "0 \<le> fd"
      using r(2) i(2) by (auto simp: sem_inv_def)
    moreover have "e_count e = 0" using that e(1) by (simp add: counter_def unat_eq_0)
    ultimately show ?thesis
      using read_zero [of t' fd e] i(2) by (simp add: eventfd_semaphore_wait_def)
  qed
  then show ?thesis using r i by auto
qed

theorem eventfd_semaphore_conservation_witness:
  "\<exists>s t acquired posted t'.
     eventfd_semaphore_init (Some 5) (Some \<lparr>es_efd = 0, es_initial_count = 0, es_initialized = False\<rparr>)
       1 Map.empty = Done (0, Some s, t)
     \<and> sem_run s [SemWait, SemWait, SemPost] t = Done (acquired, posted, t')
     \<and> 1 + posted = counter 5 t' + acquired"
proof -
  let ?s0 = "\<lparr>es_efd = 0, es_initial_count = 0, es_initialized = False\<rparr>"
  obtain s t where c: "eventfd_semaphore_init (Some 5) (Some ?s0) 1 Map.empty = Done (0, Some s, t)"
    by (simp add: eventfd_semaphore_init_def create_eventfd_semaphore_def sys_eventfd_def
        eventfd_write_value_def sys_write_def)
  have "(0::int) \<le> 5" by simp
  from eventfd_semaphore_conservation [OF c this, of "[SemWait, SemWait, SemPost]"] c
  obtain a p t' where "sem_run s [SemWait, SemWait, SemPost] t = Done (a, p, t')"
    "1 + p = counter 5 t' + a" unfolding unat_1 by blast
  then show ?thesis using c by blast
qed

text \<open>Asking does not change the answer: on a plain counter that can be read without
  waiting, \<open>eventfd_is_signaled\<close>, \<open>eventfd_get_value\<close> and \<open>eventfd_validate\<close> report the
  count and leave every descriptor exactly as it was.\<close>

theorem eventfd_queries_restore:
  assumes "t fd = Some e" "0 \<le> fd" "\<not> e_semaphore e" "unat (e_count e) \<le> 2 ^ 64 - 2"
    "e_nonblock e \<or> e_count e \<noteq> 0"
  shows "eventfd_is_signaled fd t = Done (e_count e \<noteq> 0, t)
     \<and> eventfd_get_value fd True t = Done (0, Some (e_count e), t)
     \<and> eventfd_validate fd t = Done (0, t)"
proof -
  note rd = read_count [of t fd e, OF assms(1,2,3,5)]
  have wb: "eventfd_write_value fd (e_count e) (t(fd \<mapsto> e\<lparr>e_count := 0\<rparr>)) = Done (0, t)"
    if "e_count e \<noteq> 0" using write_back [of t fd e, OF assms(1,2) that assms(4)] .
  have 1: "eventfd_is_signaled fd t = Done (e_count e \<noteq> 0, t)"
    "eventfd_get_value fd True t = Done (0, Some (e_count e), t)"
    using assms(2) rd wb by (auto simp: eventfd_is_signaled_def eventfd_get_value_def)
  have "eventfd_validate fd t = Done (0, t)"
  proof (cases "e_nonblock e")
    case True
    then show ?thesis
      using assms(2) rd wb getfl_some [of t fd e, OF assms(1)]
      by (auto simp: eventfd_validate_def Let_def)
  next
    case False
    then have nz: "e_count e \<noteq> 0" using assms(5) by simp
    let ?e = "e\<lparr>e_nonblock := True\<rparr>" let ?t = "t(fd \<mapsto> ?e)"
    have s1: "eventfd_set_nonblocking fd True t = (0, ?t)"
      using set_nonblocking_some [of t fd e, OF assms(1,2)] .
    have rd1: "eventfd_read_value fd True ?t = Done (0, Some (e_count e), ?t(fd \<mapsto> ?e\<lparr>e_count := 0\<rparr>))"
      using read_count [of ?t fd ?e] assms nz by simp
    have wb1: "eventfd_write_value fd (e_count e) (?t(fd \<mapsto> ?e\<lparr>e_count := 0\<rparr>)) = Done (0, ?t)"
      using write_back [of ?t fd ?e] assms nz by simp
    have s2: "eventfd_set_nonblocking fd False ?t = (0, t)"
      using set_nonblocking_some [of ?t fd ?e False] assms False
      by (auto simp: fun_upd_idem_iff)
    show ?thesis
      unfolding eventfd_validate_def Let_def
      using assms(2) False getfl_some [of t fd e, OF assms(1)] s1 rd1 wb1 s2 by simp
  qed
  then show ?thesis using 1 by simp
qed

theorem eventfd_queries_restore_witness:
  "eventfd_get_value 5 True [5 \<mapsto> \<lparr>e_count = 3, e_semaphore = False, e_nonblock = False\<rparr>]
     = Done (0, Some 3, [5 \<mapsto> \<lparr>e_count = 3, e_semaphore = False, e_nonblock = False\<rparr>])"
  using eventfd_queries_restore
    [of "[5 \<mapsto> \<lparr>e_count = 3, e_semaphore = False, e_nonblock = False\<rparr>]" 5] by simp

text \<open>Draining a non-blocking descriptor ends, reports the whole count, semaphore or not, and
  leaves zero; it fails exactly when there was nothing to drain.\<close>

theorem eventfd_drain_total:
  assumes "t fd = Some e" "0 \<le> fd" "e_nonblock e"
  shows "eventfd_drain fd t = Done (if e_count e = 0 then - 1 else 0, Some (e_count e),
           t(fd \<mapsto> e\<lparr>e_count := 0\<rparr>))"
  using drain_loop_nonblocking [of t fd e 0, OF assms] assms(2)
  by (simp add: eventfd_drain_def word_gt_0)

theorem eventfd_drain_total_witness:
  "eventfd_drain 5 [5 \<mapsto> \<lparr>e_count = 3, e_semaphore = True, e_nonblock = True\<rparr>]
     = Done (0, Some 3, [5 \<mapsto> \<lparr>e_count = 0, e_semaphore = True, e_nonblock = True\<rparr>])"
  using eventfd_drain_total [of "[5 \<mapsto> \<lparr>e_count = 3, e_semaphore = True, e_nonblock = True\<rparr>]" 5]
  by simp

text \<open>The benchmark fails for every count of operations from 2 on: the first read takes all
  the signals at once and the second one finds none.\<close>

theorem eventfd_benchmark_fails:
  assumes "2 \<le> n" "n \<le> 2 ^ 64 - 2" "0 \<le> fd" "t fd = None"
  shows "eventfd_benchmark (Some fd) n t = Done (- 1, t)"
proof -
  let ?e = "\<lparr>e_count = 0, e_semaphore = False, e_nonblock = True\<rparr>"
  let ?t = "t(fd \<mapsto> ?e)" and ?u = "t(fd \<mapsto> ?e\<lparr>e_count := of_nat n\<rparr>)"
  have w: "bench_write n fd ?t = Done (0, ?u)"
    using bench_write_counts [of ?t fd ?e n] assms by simp
  have "unat (of_nat n :: u64) = n" using assms(2) by (simp add: unat_of_nat)
  then have nz: "(of_nat n :: u64) \<noteq> 0" using assms(1) by auto
  have r1: "eventfd_read_value fd True ?u = Done (0, Some (of_nat n), ?t)"
    using read_pos [of ?u fd "?e\<lparr>e_count := of_nat n\<rparr>"] assms(3) nz by simp
  have r2: "eventfd_read_value fd True ?t = Done (- 2, None, ?t)"
    using read_zero [of ?t fd ?e] assms(3) by simp
  define k where "k = n - 2"
  then have n: "n = Suc (Suc k)" using assms(1) by simp
  have "close_eventfd fd ?t = t"
    by (rule ext) (use assms(3,4) in \<open>simp add: close_eventfd_def\<close>)
  then have "bench_read n fd ?u = Done (- 1, t)" using r1 r2 by (simp add: n)
  then show ?thesis
    using w assms(3) by (simp add: eventfd_benchmark_def create_eventfd_def sys_eventfd_def)
qed

theorem eventfd_benchmark_fails_witness:
  "eventfd_benchmark (Some 5) 1000 Map.empty = Done (- 1, Map.empty)"
  by (rule eventfd_benchmark_fails) simp_all

end
