(* ===== verification/Worker.thy ===== *)
theory Worker
  imports Task_Manager Shared_Memory Eventfd
begin

text \<open>
  Worker processes: \<^verbatim>\<open>new_ProcessPool/src/core/worker.c\<close>. A worker structure lives in
  private memory of the master; \<open>fork\<close> gives the child a copy. The operating system is the table
  of event descriptors, the shared-memory objects and the state of each process. Clock readings,
  the results of \<open>epoll_wait\<close>, \<open>fork\<close> and \<open>pthread_create\<close> and the exit of a process are
  arguments. Log output, thread names, process groups and priorities are not modelled.
\<close>

datatype worker_state =
    WORKER_INTERNAL_CREATED
  | WORKER_INTERNAL_STARTING
  | WORKER_INTERNAL_RUNNING
  | WORKER_INTERNAL_STOPPING
  | WORKER_INTERNAL_STOPPED
  | WORKER_INTERNAL_ERROR

definition WORKER_CMD_SHUTDOWN :: u64 where "WORKER_CMD_SHUTDOWN = 1"
definition WORKER_CMD_PAUSE :: u64 where "WORKER_CMD_PAUSE = 2"
definition WORKER_CMD_RESUME :: u64 where "WORKER_CMD_RESUME = 3"
definition WORKER_CMD_PING :: u64 where "WORKER_CMD_PING = 4"

record worker =
  wk_id :: u32
  wk_pid :: int
  wk_state :: worker_state
  wk_task_fd :: int
  wk_result_fd :: int
  wk_control_fd :: int
  wk_shm :: "shm option"
  wk_shm_size :: u64
  wk_shm_name :: string
  wk_tasks_processed :: u64
  wk_heartbeat :: u64
  wk_current_task :: u32
  wk_monitor_thread :: bool
  wk_monitor_running :: bool

text \<open>\<open>memset(worker, 0, sizeof(worker_internal_t))\<close>: note the descriptors 0.\<close>

definition zero_worker :: worker where
  "zero_worker = \<lparr>wk_id = 0, wk_pid = 0, wk_state = WORKER_INTERNAL_CREATED, wk_task_fd = 0,
     wk_result_fd = 0, wk_control_fd = 0, wk_shm = None, wk_shm_size = 0, wk_shm_name = [],
     wk_tasks_processed = 0, wk_heartbeat = 0, wk_current_task = 0, wk_monitor_thread = False,
     wk_monitor_running = False\<rparr>"

datatype process = Alive | Zombie | Gone

record os =
  os_efds :: fds
  os_shm :: shm_os
  os_procs :: "int \<Rightarrow> process"

subsection \<open>Running a task\<close>

text \<open>
  A handler maps the input to its return code and output; \<open>None\<close> is the null output pointer.
\<close>

type_synonym handler = "u8 list option \<Rightarrow> u64 \<Rightarrow> int \<times> u8 list option \<times> u64"

definition default_task_handler :: "bool \<Rightarrow> handler" where
  "default_task_handler mem input n =
     (case input of None \<Rightarrow> (- 1, None, 0)
      | Some bs \<Rightarrow> if n = 0 then (- 1, None, 0)
                  else if \<not> mem then (- 1, None, 0)
                  else (0, Some (take (unat n) bs), n))"

record run_env =
  re_start_ns :: u64
  re_end_ns :: u64
  re_beat_ns :: u64
  re_handler_mem :: bool
  re_result_mem :: bool

definition worker_process_task ::
  "run_env \<Rightarrow> handler option \<Rightarrow> worker option \<Rightarrow> nat option \<Rightarrow> handler tm
     \<Rightarrow> (int \<times> worker option \<times> handler tm) outcome" where
  "worker_process_task env default_handler wk task s =
     (case (wk, task) of (Some w, Some a) \<Rightarrow>
       (case tm_heap s a of None \<Rightarrow> Fault | Some t \<Rightarrow>
        let t1 = t\<lparr>t_state := TASK_STATE_RUNNING, t_worker_id := wk_id w, t_start_ns := re_start_ns env\<rparr>;
            handler = (case d_handler (t_desc t) of Some h \<Rightarrow> h | None \<Rightarrow>
                       case default_handler of Some h \<Rightarrow> h
                       | None \<Rightarrow> default_task_handler (re_handler_mem env));
            (result, output, n) = handler (t_input_data t1) (t_input_size t1);
            s1 = put_task a (t1\<lparr>t_end_ns := re_end_ns env\<rparr>) s
        in bind_outcome
             (if result = 0
              then bind_outcome (task_set_result (re_result_mem env) (Some a) output n s1) (\<lambda>(e, s2).
                   case tm_heap s2 a of None \<Rightarrow> Fault
                   | Some t2 \<Rightarrow> Done (put_task a (t2\<lparr>t_state := TASK_STATE_COMPLETED\<rparr>) s2))
              else bind_outcome (task_set_error (re_result_mem env) (Some a) (of_int result)
                                   (Some ''Task execution failed'') s1) (\<lambda>(e, s2).
                   case tm_heap s2 a of None \<Rightarrow> Fault
                   | Some t2 \<Rightarrow> Done (put_task a (t2\<lparr>t_state := TASK_STATE_FAILED\<rparr>) s2)))
             (\<lambda>s3. Done (result, Some (w\<lparr>wk_tasks_processed := wk_tasks_processed w + 1,
                                        wk_heartbeat := re_beat_ns env\<rparr>), s3)))
      | _ \<Rightarrow> Done (- 1, wk, s))"

subsection \<open>The worker's main loop\<close>

text \<open>
  What \<open>epoll_wait\<close> returns: interrupted, an error, or the ready descriptors (none on the one
  second timeout) with the clock at that time.
\<close>

datatype ep_result = EpIntr | EpFail | EpReady u64 "int list"

definition handle_command :: "u64 \<Rightarrow> u64 \<Rightarrow> bool \<times> worker \<Rightarrow> bool \<times> worker" where
  "handle_command now cmd rw =
     (if cmd = WORKER_CMD_SHUTDOWN then (False, snd rw)
      else if cmd = WORKER_CMD_PAUSE then rw
      else if cmd = WORKER_CMD_RESUME then rw
      else if cmd = WORKER_CMD_PING then (fst rw, (snd rw)\<lparr>wk_heartbeat := now\<rparr>)
      else rw)"

fun handle_ready :: "u64 \<Rightarrow> int list \<Rightarrow> bool \<times> worker \<Rightarrow> fds \<Rightarrow> ((bool \<times> worker) \<times> fds) outcome" where
  "handle_ready now [] rw t = Done (rw, t)"
| "handle_ready now (fd # fds) rw t =
     (if fd = wk_task_fd (snd rw)
      then bind_outcome (sys_read fd t) (\<lambda>(r, t'). handle_ready now fds rw t')
      else if fd = wk_control_fd (snd rw)
      then bind_outcome (sys_read fd t) (\<lambda>(r, t').
             case r of SysOk cmd \<Rightarrow> handle_ready now fds (handle_command now cmd rw) t'
             | _ \<Rightarrow> handle_ready now fds rw t')
      else handle_ready now fds rw t)"

fun worker_loop :: "ep_result list \<Rightarrow> bool \<times> worker \<Rightarrow> fds \<Rightarrow> (worker \<times> fds) outcome" where
  "worker_loop [] rw t =
     (if fst rw \<and> wk_state (snd rw) = WORKER_INTERNAL_RUNNING then Blocked else Done (snd rw, t))"
| "worker_loop (e # es) rw t =
     (if fst rw \<and> wk_state (snd rw) = WORKER_INTERNAL_RUNNING
      then (case e of
              EpIntr \<Rightarrow> worker_loop es rw t
            | EpFail \<Rightarrow> Done (snd rw, t)
            | EpReady now fds \<Rightarrow>
                if fds = [] then worker_loop es (fst rw, (snd rw)\<lparr>wk_heartbeat := now\<rparr>) t
                else bind_outcome (handle_ready now fds rw t) (\<lambda>(rw', t'). worker_loop es rw' t'))
      else Done (snd rw, t))"

record loop_env =
  le_signals :: bool
  le_epoll :: bool
  le_add_task :: bool
  le_add_control :: bool

definition worker_main_loop ::
  "loop_env \<Rightarrow> ep_result list \<Rightarrow> worker option \<Rightarrow> fds \<Rightarrow> (worker option \<times> fds) outcome" where
  "worker_main_loop env es wk t =
     (case wk of None \<Rightarrow> Done (None, t) | Some w \<Rightarrow>
      if \<not> le_signals env \<or> \<not> le_epoll env then Done (wk, t)
      else if \<not> le_add_task env \<or> \<not> le_add_control env then Done (wk, t)
      else bind_outcome (worker_loop es (True, w) t) (\<lambda>(w', t'). Done (Some w', t')))"

subsection \<open>Creating and starting\<close>

record worker_config =
  cf_max_workers :: u32
  cf_queue_size :: u32
  cf_pool_name :: string

record wcreate_env =
  we_task_fd :: "int option"
  we_result_fd :: "int option"
  we_control_fd :: "int option"
  we_shm :: shm_env
  we_now :: u64

text \<open>\<open>snprintf\<close> into 64 bytes keeps 63 characters.\<close>

definition worker_shm_name :: "string \<Rightarrow> u32 \<Rightarrow> string" where
  "worker_shm_name pool i = take 63 (''/pool_'' @ pool @ ''_worker_'' @ decimal (unat i))"

text \<open>
  \<open>queue_size * MAX_TASK_DATA_SIZE\<close> is a product of a 32-bit unsigned and an \<open>int\<close>, taken at 32
  bits before it is added to the size of the header.
\<close>

definition worker_shm_size :: "nat \<Rightarrow> u32 \<Rightarrow> u64" where
  "worker_shm_size hdr queue_size = of_nat hdr + ucast (queue_size * MAX_TASK_DATA_SIZE)"

definition worker_create ::
  "u32 \<Rightarrow> u32 \<Rightarrow> nat \<Rightarrow> wcreate_env \<Rightarrow> worker_config \<Rightarrow> u32 \<Rightarrow> worker list \<Rightarrow> os
     \<Rightarrow> (pool_error \<times> worker list \<times> os) outcome" where
  "worker_create magic version hdr env config i workers os =
     (if i \<ge> cf_max_workers config then Done (POOL_ERROR_INVALID_PARAM, workers, os)
      else if unat i \<ge> length workers then Fault
      else let w0 = zero_worker\<lparr>wk_id := i, wk_state := WORKER_INTERNAL_CREATED\<rparr>;
               store = (\<lambda>w. workers[unat i := w]);
               (fd1, t1) = create_eventfd (we_task_fd env) (os_efds os);
               w1 = w0\<lparr>wk_task_fd := fd1\<rparr>
           in if fd1 = - 1 then Done (POOL_ERROR_SYSTEM_CALL, store w1, os\<lparr>os_efds := t1\<rparr>)
              else let (fd2, t2) = create_eventfd (we_result_fd env) t1;
                       w2 = w1\<lparr>wk_result_fd := fd2\<rparr>
              in if fd2 = - 1
                 then Done (POOL_ERROR_SYSTEM_CALL, store w2, os\<lparr>os_efds := t2(fd1 := None)\<rparr>)
                 else let (fd3, t3) = create_eventfd (we_control_fd env) t2;
                          w3 = w2\<lparr>wk_control_fd := fd3\<rparr>
                 in if fd3 = - 1
                    then Done (POOL_ERROR_SYSTEM_CALL, store w3,
                               os\<lparr>os_efds := t3(fd2 := None, fd1 := None)\<rparr>)
                    else let nm = worker_shm_name (cf_pool_name config) i;
                             sz = worker_shm_size hdr (cf_queue_size config)
                    in bind_outcome (shm_create magic version hdr (we_shm env) (Some nm) sz (os_shm os))
                         (\<lambda>(shm, so). case shm of
                            None \<Rightarrow> Done (POOL_ERROR_SYSTEM_CALL,
                                 store (w3\<lparr>wk_shm_name := nm, wk_shm_size := sz\<rparr>),
                                 os\<lparr>os_efds := t3(fd3 := None, fd2 := None, fd1 := None), os_shm := so\<rparr>)
                          | Some m \<Rightarrow> Done (POOL_SUCCESS,
                                 store (w3\<lparr>wk_shm_name := nm, wk_shm_size := sz,
                                   wk_shm := Some (m\<lparr>sm_producer := 0, sm_consumer := 0,
                                      sm_queue_size := cf_queue_size config, sm_submitted := 0,
                                      sm_completed := 0, sm_failed := 0\<rparr>),
                                   wk_tasks_processed := 0, wk_heartbeat := we_now env,
                                   wk_current_task := 0\<rparr>),
                                 os\<lparr>os_efds := t3, os_shm := so\<rparr>)))"

text \<open>
  \<open>worker_start\<close> returns the master's worker and, after a successful fork, the copy the child
  goes on with (in \<open>worker_main_loop\<close>, then \<open>_exit\<close>).
\<close>

definition worker_start ::
  "int option \<Rightarrow> bool \<Rightarrow> worker \<Rightarrow> os \<Rightarrow> pool_error \<times> worker \<times> worker option \<times> os" where
  "worker_start pid thread_ok w os =
     (if wk_state w \<noteq> WORKER_INTERNAL_CREATED then (POOL_ERROR_INVALID_PARAM, w, None, os)
      else let w1 = w\<lparr>wk_state := WORKER_INTERNAL_STARTING\<rparr>
           in case pid of
                None \<Rightarrow> (POOL_ERROR_SYSTEM_CALL, w1\<lparr>wk_state := WORKER_INTERNAL_ERROR\<rparr>, None, os)
              | Some p \<Rightarrow>
                  (POOL_SUCCESS,
                   w1\<lparr>wk_pid := p, wk_state := WORKER_INTERNAL_RUNNING, wk_monitor_running := True,
                      wk_monitor_thread := (if thread_ok then True else wk_monitor_thread w1)\<rparr>,
                   Some w1, os\<lparr>os_procs := (os_procs os)(p := Alive)\<rparr>))"

subsection \<open>Stopping and destroying\<close>

text \<open>
  Each round of the wait loop reads the clock and polls the process, which may have exited by
  then (the boolean). A process that has exited is a zombie until it is waited for, and
  \<open>kill(pid, 0)\<close> succeeds on zombies too.
\<close>

fun stop_wait :: "u64 \<Rightarrow> u64 \<Rightarrow> (u64 \<times> bool) list \<Rightarrow> process \<Rightarrow> process outcome" where
  "stop_wait start timeout_ns [] p = Blocked"
| "stop_wait start timeout_ns ((now, exited) # rs) p =
     (if \<not> now - start < timeout_ns then Done p
      else let p1 = (if exited \<and> p = Alive then Zombie else p)
           in case p1 of Zombie \<Rightarrow> Done Gone | Gone \<Rightarrow> Done Gone
              | Alive \<Rightarrow> stop_wait start timeout_ns rs p1)"

definition worker_stop ::
  "u64 \<Rightarrow> (u64 \<times> bool) list \<Rightarrow> u32 \<Rightarrow> worker \<Rightarrow> os \<Rightarrow> (pool_error \<times> worker \<times> os) outcome" where
  "worker_stop start rounds timeout_ms w os =
     (if wk_pid w \<le> 0 then Done (POOL_ERROR_INVALID_PARAM, w, os)
      else if wk_state w \<noteq> WORKER_INTERNAL_RUNNING then Done (POOL_ERROR_INVALID_PARAM, w, os)
      else let w1 = w\<lparr>wk_state := WORKER_INTERNAL_STOPPING\<rparr>
           in bind_outcome (sys_write (wk_control_fd w) WORKER_CMD_SHUTDOWN (os_efds os)) (\<lambda>(r, t1).
              bind_outcome (stop_wait start (ucast timeout_ms * 1000000) rounds (os_procs os (wk_pid w)))
                (\<lambda>p. let p' = (if p \<noteq> Gone then Gone else p)
                     in Done (POOL_SUCCESS,
                          w1\<lparr>wk_monitor_running := False, wk_monitor_thread := False,
                             wk_state := WORKER_INTERNAL_STOPPED\<rparr>,
                          os\<lparr>os_efds := t1, os_procs := (os_procs os)(wk_pid w := p')\<rparr>))))"

definition worker_destroy ::
  "u64 \<Rightarrow> (u64 \<times> bool) list \<Rightarrow> worker \<Rightarrow> os \<Rightarrow> (worker \<times> os) outcome" where
  "worker_destroy start rounds w os =
     bind_outcome
       (if wk_state w = WORKER_INTERNAL_RUNNING
        then bind_outcome (worker_stop start rounds 5000 w os) (\<lambda>(r, w1, os1). Done (w1, os1))
        else Done (w, os))
       (\<lambda>(w1, os1).
          let t = close_eventfd (wk_control_fd w1) (close_eventfd (wk_result_fd w1)
                    (close_eventfd (wk_task_fd w1) (os_efds os1)));
              so = (case wk_shm w1 of None \<Rightarrow> os_shm os1
                    | Some m \<Rightarrow> shm_destroy (Some m) (Some (wk_shm_name w1)) (os_shm os1))
          in Done (zero_worker, os1\<lparr>os_efds := t, os_shm := so\<rparr>))"

subsection \<open>Liveness, sending and monitoring\<close>

definition heartbeat_timeout_ns :: u64 where "heartbeat_timeout_ns = 5 * 2 * 1000000000"

definition worker_is_alive :: "u64 \<Rightarrow> worker option \<Rightarrow> (int \<Rightarrow> process) \<Rightarrow> bool" where
  "worker_is_alive now wk procs =
     (case wk of None \<Rightarrow> False | Some w \<Rightarrow>
      if wk_pid w \<le> 0 then False
      else if procs (wk_pid w) = Gone then False
      else now - wk_heartbeat w < heartbeat_timeout_ns)"

definition worker_send_task ::
  "u64 \<Rightarrow> worker option \<Rightarrow> bool \<Rightarrow> os \<Rightarrow> (pool_error \<times> os) outcome" where
  "worker_send_task now wk task os =
     (if wk = None \<or> \<not> task then Done (POOL_ERROR_INVALID_PARAM, os)
      else if \<not> worker_is_alive now wk (os_procs os) then Done (POOL_ERROR_WORKER_DEAD, os)
      else bind_outcome (sys_write (wk_task_fd (the wk)) 1 (os_efds os)) (\<lambda>(r, t).
           case r of SysOk _ \<Rightarrow> Done (POOL_SUCCESS, os\<lparr>os_efds := t\<rparr>)
           | _ \<Rightarrow> Done (POOL_ERROR_SYSTEM_CALL, os\<lparr>os_efds := t\<rparr>)))"

definition worker_get_result :: "worker option \<Rightarrow> bool \<Rightarrow> pool_error" where
  "worker_get_result wk task = (if wk = None \<or> \<not> task then POOL_ERROR_INVALID_PARAM else POOL_SUCCESS)"

text \<open>
  One round of the monitor thread per element: the running flag and the clock it reads and the
  processes at that time.
\<close>

fun worker_monitor_thread ::
  "(bool \<times> u64 \<times> (int \<Rightarrow> process)) list \<Rightarrow> worker \<Rightarrow> fds \<Rightarrow> (worker \<times> fds) outcome" where
  "worker_monitor_thread [] w t = Blocked"
| "worker_monitor_thread ((running, now, procs) # rs) w t =
     (if \<not> running then Done (w, t)
      else if \<not> worker_is_alive now (Some w) procs
      then Done (w\<lparr>wk_state := WORKER_INTERNAL_ERROR\<rparr>, t)
      else bind_outcome (sys_write (wk_control_fd w) WORKER_CMD_PING t) (\<lambda>(r, t').
           worker_monitor_thread rs w t'))"

subsection \<open>Creation\<close>

text \<open>The kernel hands out three different unused descriptors.\<close>

definition fresh_fds :: "wcreate_env \<Rightarrow> fds \<Rightarrow> bool" where
  "fresh_fds env t \<longleftrightarrow>
     (\<forall>fd\<in>{we_task_fd env, we_result_fd env, we_control_fd env}.
        case fd of None \<Rightarrow> True | Some n \<Rightarrow> 0 \<le> n \<and> t n = None)
     \<and> distinct (map the (filter (\<lambda>fd. fd \<noteq> None) [we_task_fd env, we_result_fd env, we_control_fd env]))"

definition new_efd :: efd where
  "new_efd = \<lparr>e_count = 0, e_semaphore = False, e_nonblock = True\<rparr>"

lemma create_eventfd_eq:
  "create_eventfd fd t = (case fd of None \<Rightarrow> (- 1, t) | Some n \<Rightarrow> (n, t(n \<mapsto> new_efd)))"
  by (simp add: create_eventfd_def sys_eventfd_def new_efd_def split: option.splits)

lemma worker_shm_size_ge:
  assumes "hdr \<le> 2 ^ 32"
  shows "unat (worker_shm_size hdr q) = hdr + unat (q * MAX_TASK_DATA_SIZE)"
proof -
  have h: "unat (of_nat hdr :: u64) = hdr" using assms by (simp add: unat_of_nat)
  have "hdr + unat (q * MAX_TASK_DATA_SIZE) < 2 ^ 64"
    using assms unat_u32_less [of "q * MAX_TASK_DATA_SIZE"] by simp
  then show ?thesis
    by (simp add: worker_shm_size_def unat_word_ariths h unat_ucast_u64)
qed

lemma worker_shm_create:
  assumes "hdr \<le> 2 ^ 32" "0 < hdr"
  shows "\<exists>r so'. shm_create magic version hdr env (Some nm) (worker_shm_size hdr q) so = Done (r, so')
     \<and> os_fds so' = os_fds so
     \<and> (r = None \<longrightarrow> os_maps so' = os_maps so \<and> nm \<notin> os_names so')
     \<and> (r \<noteq> None \<longrightarrow> os_maps so' = os_maps so + 1 \<and> nm \<in> os_names so')"
proof -
  have u: "unat (worker_shm_size hdr q) = hdr + unat (q * MAX_TASK_DATA_SIZE)"
    by (rule worker_shm_size_ge [OF assms(1)])
  then have nz: "worker_shm_size hdr q \<noteq> 0" using assms(2) by (metis add_is_0 not_gr_zero unat_0)
  have "\<not> unat (worker_shm_size hdr q) < hdr" using u by simp
  then show ?thesis using nz by (simp add: shm_create_def Let_def)
qed

text \<open>The region a created worker gets holds the configured number of slots.\<close>

lemma worker_region_wf:
  assumes "shm_create magic version hdr env (Some nm) (worker_shm_size hdr q) so = Done (Some m, so')"
    "hdr \<le> 2 ^ 32" "0 < unat q" "unat q < 65536"
  shows "shm_wf (m\<lparr>sm_producer := 0, sm_consumer := 0, sm_queue_size := q, sm_submitted := 0,
                  sm_completed := 0, sm_failed := 0\<rparr>)"
proof -
  have "unat q * 65536 < 2 ^ 32" using assms(4) by simp
  then have "unat (q * MAX_TASK_DATA_SIZE) = unat q * 65536"
    by (simp add: MAX_TASK_DATA_SIZE_def unat_word_ariths)
  then have "hdr + unat q * 65536 \<le> unat (worker_shm_size hdr q)"
    using worker_shm_size_ge [OF assms(2)] by simp
  then have "shm_wf (m\<lparr>sm_queue_size := q\<rparr>)"
    using shm_create_wf [OF assms(1,3)] assms(4) by simp
  then show ?thesis by (auto simp: shm_wf_def word_less_nat_alt)
qed

definition created_worker ::
  "wcreate_env \<Rightarrow> worker_config \<Rightarrow> u32 \<Rightarrow> os \<Rightarrow> worker \<Rightarrow> os \<Rightarrow> bool" where
  "created_worker env config i os w os' \<longleftrightarrow>
     (\<exists>a b c m. we_task_fd env = Some a \<and> we_result_fd env = Some b \<and> we_control_fd env = Some c
        \<and> os_efds os' = (os_efds os)(a \<mapsto> new_efd, b \<mapsto> new_efd, c \<mapsto> new_efd)
        \<and> wk_task_fd w = a \<and> wk_result_fd w = b \<and> wk_control_fd w = c
        \<and> wk_id w = i \<and> wk_state w = WORKER_INTERNAL_CREATED \<and> wk_pid w = 0
        \<and> wk_shm w = Some m \<and> (cf_queue_size config \<noteq> 0 \<longrightarrow> cf_queue_size config < 65536 \<longrightarrow> shm_wf m)
        \<and> os_maps (os_shm os') = os_maps (os_shm os) + 1)"

lemma worker_create_cases:
  assumes "i < cf_max_workers config" "unat i < length ws" "hdr \<le> 2 ^ 32" "0 < hdr"
    "fresh_fds env (os_efds os)"
  shows "\<exists>e w os'. worker_create magic version hdr env config i ws os = Done (e, ws[unat i := w], os')
     \<and> wk_pid w = 0 \<and> os_procs os' = os_procs os \<and> os_fds (os_shm os') = os_fds (os_shm os)
     \<and> (e = POOL_SUCCESS \<and> created_worker env config i os w os'
        \<or> e = POOL_ERROR_SYSTEM_CALL \<and> os_efds os' = os_efds os
          \<and> os_maps (os_shm os') = os_maps (os_shm os))"
proof -
  have i: "\<not> cf_max_workers config \<le> i" "\<not> length ws \<le> unat i" using assms by auto
  show ?thesis
  proof (cases "we_task_fd env")
    case None
    then show ?thesis using i by (auto simp: worker_create_def create_eventfd_eq zero_worker_def)
  next
    case (Some a)
    note ta = this
    have a: "0 \<le> a" "os_efds os a = None" using assms(5) Some by (auto simp: fresh_fds_def)
    show ?thesis
    proof (cases "we_result_fd env")
      case None
      then show ?thesis using i ta a by (auto simp: worker_create_def create_eventfd_eq fun_upd_idem zero_worker_def)
    next
      case (Some b)
      note tb = this
      have b: "0 \<le> b" "os_efds os b = None" "a \<noteq> b"
        using assms(5) ta tb by (auto simp: fresh_fds_def split: if_splits)
      show ?thesis
      proof (cases "we_control_fd env")
        case None
        have "(os_efds os)(a := None, b := None) = os_efds os" using a b by auto
        then show ?thesis
          using i ta tb None a b
          by (auto simp: worker_create_def create_eventfd_eq fun_upd_idem fun_upd_twist zero_worker_def)
      next
        case (Some c)
        have c: "0 \<le> c" "os_efds os c = None" "a \<noteq> c" "b \<noteq> c"
          using assms(5) ta tb Some by (auto simp: fresh_fds_def split: if_splits)
        let ?t3 = "(os_efds os)(a \<mapsto> new_efd, b \<mapsto> new_efd, c \<mapsto> new_efd)"
        have undo: "?t3(c := None, b := None, a := None) = os_efds os"
          by (rule ext) (use a b c in auto)
        obtain r so' where s: "shm_create magic version hdr (we_shm env)
              (Some (worker_shm_name (cf_pool_name config) i))
              (worker_shm_size hdr (cf_queue_size config)) (os_shm os) = Done (r, so')"
            "os_fds so' = os_fds (os_shm os)"
            "r = None \<longrightarrow> os_maps so' = os_maps (os_shm os)"
            "r \<noteq> None \<longrightarrow> os_maps so' = os_maps (os_shm os) + 1"
          using worker_shm_create [OF assms(3,4)] by blast
        have fds: "a \<noteq> - 1" "b \<noteq> - 1" "c \<noteq> - 1" using a b c by auto
        show ?thesis
        proof (cases r)
          case None
          let ?w = "zero_worker\<lparr>wk_id := i, wk_state := WORKER_INTERNAL_CREATED, wk_task_fd := a,
              wk_result_fd := b, wk_control_fd := c,
              wk_shm_name := worker_shm_name (cf_pool_name config) i,
              wk_shm_size := worker_shm_size hdr (cf_queue_size config)\<rparr>"
          have "worker_create magic version hdr env config i ws os = Done (POOL_ERROR_SYSTEM_CALL, ws[unat i := ?w],
              os\<lparr>os_efds := ?t3(c := None, b := None, a := None), os_shm := so'\<rparr>)"
            using i ta tb \<open>we_control_fd env = Some c\<close> fds s(1) None
            by (simp add: worker_create_def create_eventfd_eq)
          then show ?thesis using s(2,3) None undo
            by (intro exI [of _ POOL_ERROR_SYSTEM_CALL] exI [of _ ?w]
                exI [of _ "os\<lparr>os_efds := ?t3(c := None, b := None, a := None), os_shm := so'\<rparr>"])
              (simp add: zero_worker_def)
        next
          case (Some m)
          let ?m = "m\<lparr>sm_producer := 0, sm_consumer := 0, sm_queue_size := cf_queue_size config,
              sm_submitted := 0, sm_completed := 0, sm_failed := 0\<rparr>"
          let ?w = "zero_worker\<lparr>wk_id := i, wk_state := WORKER_INTERNAL_CREATED, wk_task_fd := a,
              wk_result_fd := b, wk_control_fd := c,
              wk_shm_name := worker_shm_name (cf_pool_name config) i,
              wk_shm_size := worker_shm_size hdr (cf_queue_size config), wk_shm := Some ?m,
              wk_tasks_processed := 0, wk_heartbeat := we_now env, wk_current_task := 0\<rparr>"
          let ?os = "os\<lparr>os_efds := ?t3, os_shm := so'\<rparr>"
          have wf: "shm_wf ?m" if "cf_queue_size config \<noteq> 0" "cf_queue_size config < 65536"
          proof -
            have "0 < unat (cf_queue_size config)" "unat (cf_queue_size config) < 65536"
              using that by (simp_all add: unat_gt_0 word_less_nat_alt)
            then show ?thesis by (rule worker_region_wf [OF s(1) [unfolded Some] assms(3)])
          qed
          have "worker_create magic version hdr env config i ws os
              = Done (POOL_SUCCESS, ws[unat i := ?w], ?os)"
            using i ta tb \<open>we_control_fd env = Some c\<close> fds s(1) Some
            by (simp add: worker_create_def create_eventfd_eq)
          moreover have "created_worker env config i os ?w ?os"
            unfolding created_worker_def
            by (rule exI [of _ a], rule exI [of _ b], rule exI [of _ c], rule exI [of _ ?m])
              (use ta tb \<open>we_control_fd env = Some c\<close> s(4) Some wf in \<open>simp add: zero_worker_def\<close>)
          ultimately show ?thesis using s(2)
            by (intro exI [of _ POOL_SUCCESS] exI [of _ ?w] exI [of _ ?os]) (simp add: zero_worker_def)
        qed
      qed
    qed
  qed
qed

subsection \<open>Stopping\<close>

lemma stop_wait_returns:
  assumes "(now, ex) \<in> set rs" "\<not> now - start < timeout_ns"
  shows "\<exists>p'. stop_wait start timeout_ns rs p = Done p'"
  using assms
proof (induction rs arbitrary: p)
  case (Cons r rs)
  obtain n x where r: "r = (n, x)" by (rule prod.exhaust)
  show ?case
  proof (cases "(now, ex) \<in> set rs")
    case True
    then show ?thesis using Cons r by (auto simp: Let_def split: process.splits)
  next
    case False
    then show ?thesis using Cons.prems r by auto
  qed
qed simp

lemma sys_write_returns:
  assumes "t fd = Some e" "e_nonblock e"
  shows "\<exists>r t'. sys_write fd v t = Done (r, t')"
  using assms by (auto simp: sys_write_def split: option.splits)

subsection \<open>Properties\<close>


definition idle_os :: os where
  "idle_os = \<lparr>os_efds = Map.empty, os_shm = \<lparr>os_names = {}, os_fds = 0, os_maps = 0\<rparr>,
     os_procs = (\<lambda>_. Gone)\<rparr>"

definition small_config :: worker_config where
  "small_config = \<lparr>cf_max_workers = 2, cf_queue_size = 4, cf_pool_name = ''p''\<rparr>"



definition busy_worker :: worker where
  "busy_worker = zero_worker\<lparr>wk_pid := 42, wk_state := WORKER_INTERNAL_RUNNING, wk_task_fd := 3,
     wk_result_fd := 4, wk_control_fd := 5, wk_monitor_running := True, wk_monitor_thread := True\<rparr>"

definition busy_os :: os where
  "busy_os = idle_os\<lparr>os_efds := [3 \<mapsto> new_efd, 4 \<mapsto> new_efd, 5 \<mapsto> new_efd],
     os_procs := (\<lambda>p. if p = 42 then Alive else Gone)\<rparr>"


text \<open>A started worker never runs: the child's copy of the worker keeps the state STARTING, as
  only the master's copy becomes RUNNING after the fork, so the child's main loop ends before its
  first \<open>epoll_wait\<close>, whatever happens, and the process exits at once.\<close>

theorem worker_child_never_runs:
  assumes "worker_start pid thread_ok w os = (POOL_SUCCESS, w', Some child, os')"
  shows "wk_state w' = WORKER_INTERNAL_RUNNING
     \<and> worker_main_loop env es (Some child) t = Done (Some child, t)"
proof -
  have "wk_state child = WORKER_INTERNAL_STARTING" "wk_state w' = WORKER_INTERNAL_RUNNING"
    using assms by (auto simp: worker_start_def Let_def split: if_splits option.splits)
  then show ?thesis by (cases es) (simp_all add: worker_main_loop_def)
qed

theorem worker_child_never_runs_witness:
  "\<exists>w' child os'. worker_start (Some 42) True zero_worker idle_os = (POOL_SUCCESS, w', Some child, os')
     \<and> worker_main_loop \<lparr>le_signals = True, le_epoll = True, le_add_task = True, le_add_control = True\<rparr>
         [EpReady 5 [3]] (Some child) (os_efds idle_os) = Done (Some child, os_efds idle_os)"
proof -
  obtain w' child os' where s: "worker_start (Some 42) True zero_worker idle_os
      = (POOL_SUCCESS, w', Some child, os')"
    by (simp add: worker_start_def zero_worker_def)
  show ?thesis using s worker_child_never_runs [OF s] by blast
qed

text \<open>Commands travel through a counter that adds them up: a shutdown sent while a ping is
  unread arrives as command 5, which the worker does not know; it goes on running, while the
  same shutdown alone would have ended the loop.\<close>

theorem worker_shutdown_lost_after_ping:
  assumes "wk_state w = WORKER_INTERNAL_RUNNING" "wk_task_fd w \<noteq> wk_control_fd w"
    "t (wk_control_fd w) = Some new_efd"
  shows "\<exists>t1 t2 t3. sys_write (wk_control_fd w) WORKER_CMD_PING t = Done (SysOk (), t1)
     \<and> sys_write (wk_control_fd w) WORKER_CMD_SHUTDOWN t1 = Done (SysOk (), t2)
     \<and> worker_loop [EpReady now [wk_control_fd w]] (True, w) t2 = Blocked
     \<and> sys_write (wk_control_fd w) WORKER_CMD_SHUTDOWN t = Done (SysOk (), t3)
     \<and> worker_loop [EpReady now [wk_control_fd w]] (True, w) t3 = Done (w, t)"
proof -
  let ?c = "wk_control_fd w"
  have "t(?c \<mapsto> new_efd) = t" using assms(3) by auto
  moreover have "new_efd\<lparr>e_count := 0\<rparr> = new_efd" by (simp add: new_efd_def)
  moreover have "(1::u64) \<noteq> - 1" "(4::u64) \<noteq> - 1" by code_simp+
  ultimately show ?thesis
    using assms
    by (auto simp: sys_write_def sys_read_def new_efd_def handle_command_def
        WORKER_CMD_PING_def WORKER_CMD_SHUTDOWN_def WORKER_CMD_PAUSE_def WORKER_CMD_RESUME_def)
qed

theorem worker_shutdown_lost_after_ping_witness:
  "\<exists>t1 t2. sys_write 5 WORKER_CMD_PING [5 \<mapsto> new_efd] = Done (SysOk (), t1)
     \<and> sys_write 5 WORKER_CMD_SHUTDOWN t1 = Done (SysOk (), t2)
     \<and> worker_loop [EpReady 9 [5]] (True, busy_worker) t2 = Blocked"
proof -
  have "wk_state busy_worker = WORKER_INTERNAL_RUNNING" "wk_task_fd busy_worker \<noteq> wk_control_fd busy_worker"
    "[5 \<mapsto> new_efd] (wk_control_fd busy_worker) = Some new_efd"
    by (simp_all add: busy_worker_def)
  from worker_shutdown_lost_after_ping [of busy_worker "[5 \<mapsto> new_efd]", OF this, of 9] show ?thesis by (auto simp: busy_worker_def)
qed

text \<open>The master's monitor declares a healthy worker dead: the heartbeat it compares against is
  the one \<open>worker_create\<close> stored, since the child beats its own copy, so ten seconds after creation
  a worker whose process is alive is marked ERROR. \<open>worker_destroy\<close> then forgets it without
  stopping the process.\<close>

theorem worker_monitor_false_alarm:
  assumes "0 < wk_pid w" "os_procs os (wk_pid w) = Alive"
    "\<not> now - wk_heartbeat w < heartbeat_timeout_ns"
  shows "\<exists>w'. worker_monitor_thread ((True, now, os_procs os) # rs) w t = Done (w', t)
     \<and> wk_state w' = WORKER_INTERNAL_ERROR
     \<and> (\<exists>os'. worker_destroy start rounds w' os = Done (zero_worker, os')
           \<and> os_procs os' (wk_pid w) = Alive)"
  using assms by (simp add: worker_is_alive_def worker_destroy_def Let_def)

theorem worker_monitor_false_alarm_witness:
  "\<exists>w'. worker_monitor_thread [(True, 10000000000, os_procs busy_os)] busy_worker (os_efds busy_os)
       = Done (w', os_efds busy_os) \<and> wk_state w' = WORKER_INTERNAL_ERROR"
proof -
  have "0 < wk_pid busy_worker" "os_procs busy_os (wk_pid busy_worker) = Alive"
    "\<not> (10000000000 :: u64) - wk_heartbeat busy_worker < heartbeat_timeout_ns"
    by (simp_all add: busy_worker_def busy_os_def zero_worker_def heartbeat_timeout_ns_def)
  from worker_monitor_false_alarm [OF this] show ?thesis by blast
qed

text \<open>Running a task chooses its own handler, else the pool's, else the echo; on return code 0
  the output bytes are the task's result and its state COMPLETED, otherwise the code and message are
  stored and the state is FAILED. Whatever the state was before, cancelled included, it is
  overwritten, and the condition the waiters sleep on is never signalled.\<close>

theorem worker_process_task_outcome:
  assumes "tm_heap s a = Some t"
    "(case d_handler (t_desc t) of Some h \<Rightarrow> h
      | None \<Rightarrow> case dflt of Some h \<Rightarrow> h | None \<Rightarrow> default_task_handler (re_handler_mem env))
        (t_input_data t) (t_input_size t) = (r, out, n)"
    "re_result_mem env" "case out of None \<Rightarrow> True | Some bs \<Rightarrow> unat n \<le> length bs"
  shows "\<exists>w' s' t'. worker_process_task env dflt (Some w) (Some a) s = Done (r, Some w', s')
     \<and> tm_heap s' a = Some t'
     \<and> t_state t' = (if r = 0 then TASK_STATE_COMPLETED else TASK_STATE_FAILED)
     \<and> (if r = 0 then r_output_data (t_result t')
                       = (if n = 0 then None else map_option (take (unat n)) out)
                    \<and> r_error_code (t_result t') = 0
        else r_error_code (t_result t') = of_int r
             \<and> r_error_message (t_result t') = Some ''Task execution failed'')
     \<and> t_start_ns t' = re_start_ns env \<and> t_end_ns t' = re_end_ns env
     \<and> t_broadcasts t' = t_broadcasts t
     \<and> wk_tasks_processed w' = wk_tasks_processed w + 1"
proof (cases "r = 0")
  case True
  show ?thesis
  proof (cases "\<exists>bs. out = Some bs \<and> 0 < n")
    case True
    then obtain bs where "out = Some bs" "0 < n" by blast
    moreover from this have "n \<noteq> 0" by auto
    ultimately show ?thesis
      using assms \<open>r = 0\<close> by (simp add: worker_process_task_def task_set_result_def Let_def)
  next
    case False
    then have "out = None \<or> n = 0" by (cases out) (auto simp: word_gt_0)
    then show ?thesis
      using assms \<open>r = 0\<close>
      by (auto simp: worker_process_task_def task_set_result_def Let_def split: option.splits)
  qed
next
  case False
  then show ?thesis
    using assms by (simp add: worker_process_task_def task_set_error_def Let_def)
qed

theorem worker_process_task_outcome_witness:
  "\<exists>w' s' t'. worker_process_task \<lparr>re_start_ns = 1, re_end_ns = 2, re_beat_ns = 3, re_handler_mem = True,
       re_result_mem = True\<rparr> None (Some busy_worker) (Some 64)
       (put_task 64 (zero_task\<lparr>t_state := TASK_STATE_CANCELLED, t_input_data := Some [7, 8],
                               t_input_size := 2\<rparr>) tm_init) = Done (0, Some w', s')
     \<and> tm_heap s' 64 = Some t' \<and> t_state t' = TASK_STATE_COMPLETED
     \<and> r_output_data (t_result t') = Some [7, 8]"
proof -
  let ?t = "zero_task\<lparr>t_state := TASK_STATE_CANCELLED, t_input_data := Some [7, 8], t_input_size := 2\<rparr>
      :: handler task"
  let ?env = "\<lparr>re_start_ns = 1, re_end_ns = 2, re_beat_ns = 3, re_handler_mem = True,
       re_result_mem = True\<rparr>"
  have h: "tm_heap (put_task 64 ?t tm_init) 64 = Some ?t" by simp
  have "(case d_handler (t_desc ?t) of Some h \<Rightarrow> h
      | None \<Rightarrow> case None of Some h \<Rightarrow> h | None \<Rightarrow> default_task_handler (re_handler_mem ?env))
        (t_input_data ?t) (t_input_size ?t) = (0, Some [7, 8], 2)"
    by (simp add: zero_task_def default_task_handler_def)
  from worker_process_task_outcome [OF h this, of busy_worker] show ?thesis by auto
qed

end
