(* ===== verification/Pool_Manager.thy ===== *)
theory Pool_Manager
  imports Complex_Main Worker Lockfree_Queue
begin

text \<open>
  The process pool: \<^verbatim>\<open>new_ProcessPool/src/core/pool_manager.c\<close>. The pool structure composes
  the workers and the task queue; the operating system is that of \<open>Worker\<close>. For every
  system or library call that can fail there is an argument with its outcome; \<open>memory_pool_init\<close> and
  \<open>stats_update\<close> are declared but defined nowhere and are parameters. The calls hold
  \<open>pool_mutex\<close>. Log output is not modelled.
\<close>

datatype pool_state =
    POOL_STATE_CREATED
  | POOL_STATE_STARTING
  | POOL_STATE_RUNNING
  | POOL_STATE_STOPPING
  | POOL_STATE_STOPPED

definition MAX_WORKERS :: u32 where "MAX_WORKERS = 128"
definition DEFAULT_QUEUE_SIZE :: u32 where "DEFAULT_QUEUE_SIZE = 4096"

record 'h pool_config =
  pc_min_workers :: u32
  pc_max_workers :: u32
  pc_queue_size :: u32
  pc_worker_idle_timeout :: u32
  pc_task_timeout :: u32
  pc_enable_auto_scaling :: bool
  pc_enable_metrics :: bool
  pc_enable_tracing :: bool
  pc_pool_name :: "string option"
  pc_default_handler :: "'h option"
  pc_user_context :: "nat option"

record pool_stats =
  ps_active_workers :: u32
  ps_idle_workers :: u32
  ps_pending_tasks :: u32
  ps_running_tasks :: u32
  ps_total_submitted :: u64
  ps_total_completed :: u64
  ps_total_failed :: u64
  ps_avg_task_time_ns :: u64
  ps_max_task_time_ns :: u64
  ps_cpu_usage :: real
  ps_memory_usage :: u64
  ps_uptime_seconds :: u64

definition zero_stats :: pool_stats where
  "zero_stats = \<lparr>ps_active_workers = 0, ps_idle_workers = 0, ps_pending_tasks = 0,
     ps_running_tasks = 0, ps_total_submitted = 0, ps_total_completed = 0, ps_total_failed = 0,
     ps_avg_task_time_ns = 0, ps_max_task_time_ns = 0, ps_cpu_usage = 0, ps_memory_usage = 0,
     ps_uptime_seconds = 0\<rparr>"

text \<open>What a pool holds; the resources come and go in the order of the code.\<close>

datatype resource =
    PoolMutex | QueueMutex | TaskMutex | StatsMutex | ShutdownCond | TaskQueue | WorkerArray
  | MemoryPool | EventLoop

record 'h pool =
  p_config :: "'h pool_config"
  p_name :: string
  p_state :: pool_state
  p_next_task_id :: u32
  p_workers :: "worker list"
  p_active :: u32
  p_target :: u32
  p_queue :: "nat lfq option"
  p_event_thread :: bool
  p_event_loop_running :: bool
  p_stats :: pool_stats
  p_metrics :: bool
  p_tracing :: bool
  p_log_level :: int
  p_held :: "resource list"

subsection \<open>Configuration\<close>

definition init_default_config :: "'h pool_config" where
  "init_default_config = \<lparr>pc_min_workers = 2, pc_max_workers = 8,
     pc_queue_size = DEFAULT_QUEUE_SIZE, pc_worker_idle_timeout = 300, pc_task_timeout = 30,
     pc_enable_auto_scaling = True, pc_enable_metrics = True, pc_enable_tracing = False,
     pc_pool_name = Some ''default_pool'', pc_default_handler = None, pc_user_context = None\<rparr>"

definition validate_config :: "(u32 \<Rightarrow> bool) \<Rightarrow> 'h pool_config option \<Rightarrow> bool" where
  "validate_config isp2 config =
     (case config of None \<Rightarrow> False | Some c \<Rightarrow>
      if pc_min_workers c = 0 \<or> pc_min_workers c > MAX_WORKERS then False
      else if pc_max_workers c < pc_min_workers c \<or> pc_max_workers c > MAX_WORKERS then False
      else if pc_queue_size c = 0 \<or> \<not> isp2 (pc_queue_size c) then False
      else True)"

subsection \<open>Resources\<close>

record init_env =
  ie_pool_mutex :: bool
  ie_queue_mutex :: bool
  ie_task_mutex :: bool
  ie_stats_mutex :: bool
  ie_cond :: bool
  ie_queue_mem :: bool
  ie_tasks_mem :: bool
  ie_workers_mem :: bool
  ie_memory_pool :: pool_error
  ie_event_loop :: pool_error

definition drop_resources :: "resource list \<Rightarrow> resource list \<Rightarrow> resource list" where
  "drop_resources rs held = fold remove1 rs held"

definition init_pool_resources ::
  "(u32 \<Rightarrow> bool) \<Rightarrow> (u32 \<Rightarrow> u32) \<Rightarrow> init_env \<Rightarrow> 'h pool \<Rightarrow> pool_error \<times> 'h pool" where
  "init_pool_resources isp2 np2 env pool =
     (let take' = (\<lambda>r p. p\<lparr>p_held := p_held p @ [r]\<rparr>);
          fail = (\<lambda>e rs p. (e, p\<lparr>p_held := drop_resources rs (p_held p)\<rparr>))
      in if \<not> ie_pool_mutex env then (POOL_ERROR_SYSTEM_CALL, pool)
         else let p1 = take' PoolMutex pool
         in if \<not> ie_queue_mutex env then fail POOL_ERROR_SYSTEM_CALL [PoolMutex] p1
         else let p2 = take' QueueMutex p1
         in if \<not> ie_task_mutex env then fail POOL_ERROR_SYSTEM_CALL [QueueMutex, PoolMutex] p2
         else let p3 = take' TaskMutex p2
         in if \<not> ie_stats_mutex env
            then fail POOL_ERROR_SYSTEM_CALL [TaskMutex, QueueMutex, PoolMutex] p3
         else let p4 = take' StatsMutex p3
         in if \<not> ie_cond env
            then fail POOL_ERROR_SYSTEM_CALL [StatsMutex, TaskMutex, QueueMutex, PoolMutex] p4
         else let p5 = take' ShutdownCond p4;
                  q = queue_create isp2 np2 (ie_queue_mem env) (ie_tasks_mem env)
                        (pc_queue_size (p_config pool));
                  p5q = p5\<lparr>p_queue := q\<rparr>
         in if q = None
            then fail POOL_ERROR_NO_MEMORY
                   [ShutdownCond, StatsMutex, TaskMutex, QueueMutex, PoolMutex] p5q
         else let p6 = take' TaskQueue p5q
         in if \<not> ie_workers_mem env
            then fail POOL_ERROR_NO_MEMORY
                   [TaskQueue, ShutdownCond, StatsMutex, TaskMutex, QueueMutex, PoolMutex] p6
         else let p7 = (take' WorkerArray p6)\<lparr>p_workers :=
                          replicate (unat (pc_max_workers (p_config pool))) zero_worker\<rparr>
         in if ie_memory_pool env \<noteq> POOL_SUCCESS
            then fail (ie_memory_pool env) [WorkerArray, TaskQueue, ShutdownCond, StatsMutex,
                   TaskMutex, QueueMutex, PoolMutex] p7
         else let p8 = take' MemoryPool p7
         in if ie_event_loop env \<noteq> POOL_SUCCESS
            then fail (ie_event_loop env) [MemoryPool, WorkerArray, TaskQueue, ShutdownCond,
                   StatsMutex, TaskMutex, QueueMutex, PoolMutex] p8
         else (POOL_SUCCESS, take' EventLoop p8))"

definition cleanup_pool_resources :: "'h pool \<Rightarrow> 'h pool" where
  "cleanup_pool_resources p =
     (let p1 = p\<lparr>p_held := drop_resources [EventLoop, MemoryPool] (p_held p)\<rparr>;
          p2 = (if WorkerArray \<in> set (p_held p1)
                then p1\<lparr>p_workers := [], p_held := drop_resources [WorkerArray] (p_held p1)\<rparr> else p1);
          p3 = (if p_queue p2 \<noteq> None
                then p2\<lparr>p_queue := None, p_held := drop_resources [TaskQueue] (p_held p2)\<rparr> else p2)
      in p3\<lparr>p_held := drop_resources [ShutdownCond, StatsMutex, TaskMutex, QueueMutex, PoolMutex]
                        (p_held p3)\<rparr>)"

subsection \<open>Creation\<close>

record create_pool_env =
  ce_alloc :: bool
  ce_init :: init_env
  ce_time_ns :: u64
  ce_log_level :: int

definition new_pool :: "create_pool_env \<Rightarrow> 'h pool_config \<Rightarrow> 'h pool" where
  "new_pool env c =
     (let nm = (case pc_pool_name c of None \<Rightarrow> [] | Some s \<Rightarrow> take 63 s)
      in \<lparr>p_config = (if pc_pool_name c = None then c else c\<lparr>pc_pool_name := Some nm\<rparr>),
          p_name = nm, p_state = POOL_STATE_CREATED, p_next_task_id = 1, p_workers = [],
          p_active = 0, p_target = pc_min_workers c, p_queue = None, p_event_thread = False,
          p_event_loop_running = False,
          p_stats = zero_stats\<lparr>ps_uptime_seconds := ce_time_ns env div 1000000000\<rparr>,
          p_metrics = pc_enable_metrics c, p_tracing = pc_enable_tracing c,
          p_log_level = ce_log_level env, p_held = []\<rparr>)"

definition pool_create ::
  "(u32 \<Rightarrow> bool) \<Rightarrow> (u32 \<Rightarrow> u32) \<Rightarrow> create_pool_env \<Rightarrow> 'h pool_config option \<Rightarrow> 'h pool option" where
  "pool_create isp2 np2 env config =
     (case (case config of None \<Rightarrow> Some init_default_config
            | Some c \<Rightarrow> if \<not> validate_config isp2 config then None else Some c) of
        None \<Rightarrow> None
      | Some c \<Rightarrow>
          if \<not> ce_alloc env then None
          else case init_pool_resources isp2 np2 (ce_init env) (new_pool env c) of
                 (err, pool) \<Rightarrow> if err \<noteq> POOL_SUCCESS then None else Some pool)"

subsection \<open>Starting\<close>

text \<open>The outcomes of the calls made for the worker in each slot.\<close>

record slot_env =
  se_create :: wcreate_env
  se_pid :: "int option"
  se_thread :: bool
  se_stop_ns :: u64
  se_rounds :: "(u64 \<times> bool) list"

record shm_consts =
  sc_magic :: u32
  sc_version :: u32
  sc_header :: nat

definition worker_config_of :: "'h pool_config \<Rightarrow> worker_config" where
  "worker_config_of c = \<lparr>cf_max_workers = pc_max_workers c, cf_queue_size = pc_queue_size c,
     cf_pool_name = (case pc_pool_name c of None \<Rightarrow> ''(null)'' | Some s \<Rightarrow> s)\<rparr>"

text \<open>One turn of the loops that create and start workers.\<close>

definition start_one ::
  "shm_consts \<Rightarrow> slot_env \<Rightarrow> nat \<Rightarrow> 'h pool \<Rightarrow> os \<Rightarrow> (pool_error \<times> 'h pool \<times> os) outcome" where
  "start_one sc env i p os =
     bind_outcome (worker_create (sc_magic sc) (sc_version sc) (sc_header sc) (se_create env)
         (worker_config_of (p_config p)) (of_nat i) (p_workers p) os) (\<lambda>(e, ws, os1).
       if e \<noteq> POOL_SUCCESS then Done (e, p\<lparr>p_workers := ws\<rparr>, os1)
       else case worker_start (se_pid env) (se_thread env) (ws ! i) os1 of (e2, w, child, os2) \<Rightarrow>
         if e2 \<noteq> POOL_SUCCESS
         then bind_outcome (worker_destroy (se_stop_ns env) (se_rounds env) w os2) (\<lambda>(w', os3).
                Done (e2, p\<lparr>p_workers := ws[i := w']\<rparr>, os3))
         else Done (POOL_SUCCESS, p\<lparr>p_workers := ws[i := w], p_active := p_active p + 1\<rparr>, os2))"

fun start_workers ::
  "shm_consts \<Rightarrow> (nat \<Rightarrow> slot_env) \<Rightarrow> nat list \<Rightarrow> 'h pool \<Rightarrow> os
     \<Rightarrow> (pool_error \<times> 'h pool \<times> os) outcome" where
  "start_workers sc env [] p os = Done (POOL_SUCCESS, p, os)"
| "start_workers sc env (i # is) p os =
     bind_outcome (start_one sc (env i) i p os) (\<lambda>(e, p1, os1).
       if e \<noteq> POOL_SUCCESS then Done (e, p1, os1) else start_workers sc env is p1 os1)"

text \<open>One turn of the loops that stop and destroy the workers that have a process.\<close>

definition stop_one :: "u32 \<Rightarrow> slot_env \<Rightarrow> nat \<Rightarrow> 'h pool \<Rightarrow> os \<Rightarrow> ('h pool \<times> os) outcome" where
  "stop_one timeout_ms env i p os =
     bind_outcome (worker_stop (se_stop_ns env) (se_rounds env) timeout_ms (p_workers p ! i) os)
       (\<lambda>(e, w, os1).
     bind_outcome (worker_destroy (se_stop_ns env) (se_rounds env) w os1) (\<lambda>(w', os2).
       Done (p\<lparr>p_workers := (p_workers p)[i := w']\<rparr>, os2)))"

text \<open>The timeout of a worker is an expression of the source that may divide by zero.\<close>

fun stop_workers ::
  "u32 outcome \<Rightarrow> (nat \<Rightarrow> slot_env) \<Rightarrow> nat list \<Rightarrow> 'h pool \<Rightarrow> os \<Rightarrow> ('h pool \<times> os) outcome" where
  "stop_workers timeout env [] p os = Done (p, os)"
| "stop_workers timeout env (i # is) p os =
     (if wk_pid (p_workers p ! i) > 0
      then bind_outcome timeout (\<lambda>ms. bind_outcome (stop_one ms (env i) i p os) (\<lambda>(p1, os1).
             stop_workers timeout env is p1 os1))
      else stop_workers timeout env is p os)"

definition all_slots :: "'h pool \<Rightarrow> nat list" where
  "all_slots p = [0..<unat (pc_max_workers (p_config p))]"

definition pool_start ::
  "shm_consts \<Rightarrow> (nat \<Rightarrow> slot_env) \<Rightarrow> bool \<Rightarrow> 'h pool \<Rightarrow> os \<Rightarrow> (pool_error \<times> 'h pool \<times> os) outcome" where
  "pool_start sc env thread_ok p os =
     (if p_state p \<noteq> POOL_STATE_CREATED then Done (POOL_ERROR_INVALID_PARAM, p, os)
      else let p1 = p\<lparr>p_state := POOL_STATE_STARTING, p_event_loop_running := True\<rparr>
           in if \<not> thread_ok
              then Done (POOL_ERROR_SYSTEM_CALL, p1\<lparr>p_state := POOL_STATE_CREATED\<rparr>, os)
              else bind_outcome (start_workers sc env [0..<unat (pc_min_workers (p_config p))]
                                   (p1\<lparr>p_event_thread := True\<rparr>) os) (\<lambda>(err, p2, os2).
                   if err = POOL_SUCCESS
                   then Done (POOL_SUCCESS, p2\<lparr>p_state := POOL_STATE_RUNNING\<rparr>, os2)
                   else bind_outcome (stop_workers (Done 5000) env (all_slots p)
                                        (p2\<lparr>p_state := POOL_STATE_STOPPING\<rparr>) os2) (\<lambda>(p3, os3).
                        Done (err, p3\<lparr>p_active := 0, p_state := POOL_STATE_CREATED\<rparr>, os3))))"

subsection \<open>Stopping and destroying\<close>

text \<open>The observations of the wait loop: \<open>running_tasks\<close>, then the clock.\<close>

fun wait_tasks :: "u64 \<Rightarrow> u64 \<Rightarrow> (u32 \<times> u64) list \<Rightarrow> u32 outcome" where
  "wait_tasks start timeout_ns [] = Blocked"
| "wait_tasks start timeout_ns ((running, now) # obs) =
     (if running = 0 then Done running
      else if now - start \<ge> timeout_ns then Done running
      else wait_tasks start timeout_ns obs)"

definition pool_stop ::
  "(nat \<Rightarrow> slot_env) \<Rightarrow> u64 \<Rightarrow> (u32 \<times> u64) list \<Rightarrow> u32 \<Rightarrow> 'h pool \<Rightarrow> os
     \<Rightarrow> (pool_error \<times> 'h pool \<times> os) outcome" where
  "pool_stop env start obs timeout_ms p os =
     (if p_state p \<noteq> POOL_STATE_RUNNING then Done (POOL_ERROR_INVALID_PARAM, p, os)
      else let p1 = p\<lparr>p_state := POOL_STATE_STOPPING, p_event_loop_running := False\<rparr>
           in bind_outcome (wait_tasks start (ucast timeout_ms * 1000000) obs) (\<lambda>running.
              let p2 = p1\<lparr>p_stats := (p_stats p1)\<lparr>ps_running_tasks := running\<rparr>\<rparr>;
                  active_workers = p_active p2;
                  share = (if active_workers = 0 then Fault else Done (timeout_ms div active_workers))
              in bind_outcome (stop_workers share env (all_slots p) p2 os) (\<lambda>(p3, os3).
                 Done (POOL_SUCCESS, p3\<lparr>p_active := 0, p_event_thread := False,
                                        p_state := POOL_STATE_STOPPED\<rparr>, os3))))"

text \<open>\<open>pool_destroy\<close> leaves the resources it could not release (none) and the system.\<close>

definition pool_destroy ::
  "(nat \<Rightarrow> slot_env) \<Rightarrow> u64 \<Rightarrow> (u32 \<times> u64) list \<Rightarrow> 'h pool \<Rightarrow> os \<Rightarrow> (resource list \<times> os) outcome" where
  "pool_destroy env start obs p os =
     bind_outcome (if p_state p = POOL_STATE_RUNNING
                   then bind_outcome (pool_stop env start obs 10000 p os) (\<lambda>(e, p1, os1). Done (p1, os1))
                   else Done (p, os))
       (\<lambda>(p1, os1). Done (p_held (cleanup_pool_resources p1), os1))"

subsection \<open>Statistics, resizing, strings\<close>

definition pool_get_stats ::
  "('h pool \<Rightarrow> 'h pool) \<Rightarrow> 'h pool option \<Rightarrow> bool \<Rightarrow> pool_error \<times> pool_stats option \<times> 'h pool option" where
  "pool_get_stats stats_update pool stats =
     (case pool of None \<Rightarrow> (POOL_ERROR_INVALID_PARAM, None, None) | Some p \<Rightarrow>
      if \<not> stats then (POOL_ERROR_INVALID_PARAM, None, pool)
      else let p1 = stats_update p in (POOL_SUCCESS, Some (p_stats p1), Some p1))"

fun shrink_workers ::
  "(nat \<Rightarrow> slot_env) \<Rightarrow> nat list \<Rightarrow> 'h pool \<Rightarrow> os \<Rightarrow> ('h pool \<times> os) outcome" where
  "shrink_workers env [] p os = Done (p, os)"
| "shrink_workers env (i # is) p os =
     (if wk_pid (p_workers p ! i) > 0
      then bind_outcome (stop_one 5000 (env i) i p os) (\<lambda>(p1, os1).
             shrink_workers env is (p1\<lparr>p_active := p_active p1 - 1\<rparr>) os1)
      else shrink_workers env is p os)"

definition pool_resize ::
  "shm_consts \<Rightarrow> (nat \<Rightarrow> slot_env) \<Rightarrow> u32 \<Rightarrow> 'h pool \<Rightarrow> os \<Rightarrow> (pool_error \<times> 'h pool \<times> os) outcome" where
  "pool_resize sc env target p os =
     (if target < pc_min_workers (p_config p) \<or> target > pc_max_workers (p_config p)
      then Done (POOL_ERROR_INVALID_PARAM, p, os)
      else let current = p_active p; p1 = p\<lparr>p_target := target\<rparr>
           in if target > current
              then start_workers sc env [unat current..<unat target] p1 os
              else if target < current
              then bind_outcome (shrink_workers env [unat target..<unat current] p1 os) (\<lambda>(p2, os2).
                     Done (POOL_SUCCESS, p2, os2))
              else Done (POOL_SUCCESS, p1, os))"

fun pool_error_string :: "pool_error \<Rightarrow> string" where
  "pool_error_string POOL_SUCCESS = ''Success''"
| "pool_error_string POOL_ERROR_INVALID_PARAM = ''Invalid parameter''"
| "pool_error_string POOL_ERROR_NO_MEMORY = ''Out of memory''"
| "pool_error_string POOL_ERROR_SYSTEM_CALL = ''System call failed''"
| "pool_error_string POOL_ERROR_TIMEOUT = ''Operation timeout''"
| "pool_error_string POOL_ERROR_QUEUE_FULL = ''Task queue full''"
| "pool_error_string POOL_ERROR_WORKER_DEAD = ''Worker process died''"
| "pool_error_string POOL_ERROR_SHUTDOWN = ''Pool is shutting down''"
| "pool_error_string _ = ''Unknown error''"

definition pool_get_version :: string where
  "pool_get_version = take 31 (decimal 2 @ ''.'' @ decimal 0 @ ''.'' @ decimal 0)"

subsection \<open>Invariants of the worker slots\<close>

text \<open>
  Every slot is empty or holds a running worker; descriptors never block; every process that is
  not foreign (in \<open>P\<close>) and still there belongs to a slot.
\<close>

definition slots_ok :: "worker list \<Rightarrow> bool" where
  "slots_ok ws \<longleftrightarrow>
     (\<forall>w\<in>set ws. wk_pid w = 0 \<or> 0 < wk_pid w \<and> wk_state w = WORKER_INTERNAL_RUNNING)"

definition efds_ok :: "os \<Rightarrow> bool" where
  "efds_ok os \<longleftrightarrow> (\<forall>fd e. os_efds os fd = Some e \<longrightarrow> e_nonblock e)"

definition tracked :: "int set \<Rightarrow> worker list \<Rightarrow> os \<Rightarrow> bool" where
  "tracked P ws os \<longleftrightarrow>
     (\<forall>q. os_procs os q \<noteq> Gone \<longrightarrow> q \<in> P \<or> (\<exists>w\<in>set ws. 0 < wk_pid w \<and> wk_pid w = q))"

definition rounds_reach :: "slot_env \<Rightarrow> u32 \<Rightarrow> bool" where
  "rounds_reach env ms \<longleftrightarrow>
     (\<exists>(now, ex)\<in>set (se_rounds env). \<not> now - se_stop_ns env < ucast ms * 1000000)"

lemma efds_ok_write:
  assumes "efds_ok os"
  shows "\<exists>r t'. sys_write fd v (os_efds os) = Done (r, t') \<and> efds_ok (os\<lparr>os_efds := t'\<rparr>)"
proof (cases "os_efds os fd")
  case (Some e)
  then have "e_nonblock e" using assms by (auto simp: efds_ok_def)
  then show ?thesis using Some assms by (auto simp: sys_write_def efds_ok_def)
qed (use assms in \<open>auto simp: sys_write_def\<close>)

lemma efds_ok_close: "efds_ok (os\<lparr>os_efds := t\<rparr>) \<Longrightarrow> efds_ok (os\<lparr>os_efds := close_eventfd fd t\<rparr>)"
  by (auto simp: efds_ok_def close_eventfd_def)

lemma slots_ok_update: "slots_ok ws \<Longrightarrow> slots_ok [w] \<Longrightarrow> slots_ok (ws[i := w])"
  using set_update_subset_insert [of ws i w] by (auto simp: slots_ok_def)

lemma slots_ok_zero [simp]: "slots_ok [zero_worker]"
  by (simp add: slots_ok_def zero_worker_def)

lemma tracked_empty_slot:
  assumes "tracked P ws os" "i < length ws" "wk_pid w = wk_pid (ws ! i)"
  shows "tracked P (ws[i := w]) os"
proof -
  have "\<exists>v\<in>set (ws[i := w]). 0 < wk_pid v \<and> wk_pid v = q"
    if "v \<in> set ws" "0 < wk_pid v" "wk_pid v = q" for v q
  proof -
    obtain j where j: "j < length ws" "ws ! j = v" using \<open>v \<in> set ws\<close> by (auto simp: in_set_conv_nth)
    have "ws[i := w] ! j \<in> set (ws[i := w])" by (rule nth_mem) (use j in simp)
    moreover have "wk_pid (ws[i := w] ! j) = q"
      using assms(2,3) that(2,3) j by (cases "j = i") simp_all
    ultimately show ?thesis using that(2,3) by auto
  qed
  then show ?thesis using assms(1) unfolding tracked_def by metis
qed

lemma stop_one_correct:
  assumes "slots_ok (p_workers p)" "efds_ok os" "tracked P (p_workers p) os"
    "i < length (p_workers p)" "0 < wk_pid (p_workers p ! i)" "rounds_reach env ms"
  shows "\<exists>os'. stop_one ms env i p os = Done (p\<lparr>p_workers := (p_workers p)[i := zero_worker]\<rparr>, os')
     \<and> efds_ok os' \<and> tracked P ((p_workers p)[i := zero_worker]) os'
     \<and> os_procs os' = (os_procs os)(wk_pid (p_workers p ! i) := Gone)"
proof -
  let ?w = "p_workers p ! i"
  have run: "wk_state ?w = WORKER_INTERNAL_RUNNING"
    using assms(1,5) nth_mem [OF assms(4)] unfolding slots_ok_def by fastforce
  obtain r t1 where wr: "sys_write (wk_control_fd ?w) WORKER_CMD_SHUTDOWN (os_efds os) = Done (r, t1)"
    "efds_ok (os\<lparr>os_efds := t1\<rparr>)"
    using efds_ok_write [OF assms(2)] by blast
  obtain pr where sw: "stop_wait (se_stop_ns env) (ucast ms * 1000000) (se_rounds env)
      (os_procs os (wk_pid ?w)) = Done pr"
    using assms(6) stop_wait_returns unfolding rounds_reach_def by blast
  let ?procs = "(os_procs os)(wk_pid ?w := Gone)"
  let ?t = "close_eventfd (wk_control_fd ?w) (close_eventfd (wk_result_fd ?w)
      (close_eventfd (wk_task_fd ?w) t1))"
  let ?so = "case wk_shm ?w of None \<Rightarrow> os_shm os
      | Some m \<Rightarrow> shm_destroy (Some m) (Some (wk_shm_name ?w)) (os_shm os)"
  let ?os = "os\<lparr>os_efds := ?t, os_shm := ?so, os_procs := ?procs\<rparr>"
  have st: "worker_stop (se_stop_ns env) (se_rounds env) ms ?w os
      = Done (POOL_SUCCESS, ?w\<lparr>wk_monitor_running := False, wk_monitor_thread := False,
           wk_state := WORKER_INTERNAL_STOPPED\<rparr>, os\<lparr>os_efds := t1, os_procs := ?procs\<rparr>)"
    using assms(5) run wr sw by (cases pr) (simp_all add: worker_stop_def)
  then have "stop_one ms env i p os = Done (p\<lparr>p_workers := (p_workers p)[i := zero_worker]\<rparr>, ?os)"
    by (simp add: stop_one_def worker_destroy_def Let_def split: option.split)
  moreover have "efds_ok (os\<lparr>os_efds := ?t\<rparr>)" by (intro efds_ok_close wr(2))
  then have "efds_ok ?os" by (simp add: efds_ok_def)
  moreover have "tracked P ((p_workers p)[i := zero_worker]) ?os"
    unfolding tracked_def
  proof (intro allI impI)
    fix q assume "os_procs ?os q \<noteq> Gone"
    then have q: "q \<noteq> wk_pid ?w" "os_procs os q \<noteq> Gone" by (auto split: if_splits)
    then consider "q \<in> P" | w where "w \<in> set (p_workers p)" "0 < wk_pid w" "wk_pid w = q"
      using assms(3) by (auto simp: tracked_def)
    then show "q \<in> P \<or> (\<exists>w\<in>set ((p_workers p)[i := zero_worker]). 0 < wk_pid w \<and> wk_pid w = q)"
    proof cases
      case (2 w)
      then obtain j where j: "j < length (p_workers p)" "p_workers p ! j = w"
        by (auto simp: in_set_conv_nth)
      then have "j \<noteq> i" using q(1) 2(3) by auto
      then have "w \<in> set ((p_workers p)[i := zero_worker])"
        using j by (metis length_list_update nth_list_update_neq nth_mem)
      then show ?thesis using 2 by blast
    qed simp
  qed
  ultimately show ?thesis by (intro exI [of _ ?os]) simp
qed

lemma stop_workers_correct:
  assumes "slots_ok (p_workers p)" "efds_ok os" "tracked P (p_workers p) os"
    "\<forall>i\<in>set js. i < length (p_workers p) \<and> rounds_reach (env i) ms"
    "\<exists>i\<in>set js. 0 < wk_pid (p_workers p ! i) \<Longrightarrow> share = Done ms"
  shows "\<exists>ws os'. stop_workers share env js p os = Done (p\<lparr>p_workers := ws\<rparr>, os')
     \<and> length ws = length (p_workers p) \<and> slots_ok ws \<and> efds_ok os' \<and> tracked P ws os'
     \<and> (\<forall>i\<in>set js. wk_pid (ws ! i) = 0)
     \<and> (\<forall>i<length ws. wk_pid (ws ! i) \<noteq> 0 \<longrightarrow> ws ! i = p_workers p ! i)
     \<and> (\<forall>q. os_procs os q = Gone \<longrightarrow> os_procs os' q = Gone)"
  using assms
proof (induction js arbitrary: p os)
  case Nil
  then show ?case by (intro exI [of _ "p_workers p"] exI [of _ os]) simp
next
  case (Cons i js)
  have i: "i < length (p_workers p)" "rounds_reach (env i) ms" using Cons.prems(4) by auto
  show ?case
  proof (cases "0 < wk_pid (p_workers p ! i)")
    case True
    let ?p = "p\<lparr>p_workers := (p_workers p)[i := zero_worker]\<rparr>"
    obtain os1 where s: "stop_one ms (env i) i p os = Done (?p, os1)" "efds_ok os1"
      "tracked P (p_workers ?p) os1" "os_procs os1 = (os_procs os)(wk_pid (p_workers p ! i) := Gone)"
      using stop_one_correct [OF Cons.prems(1-3) i(1) True i(2)] by auto
    have share: "share = Done ms" using True Cons.prems(5) by auto
    have "slots_ok (p_workers ?p)" using Cons.prems(1) by (simp add: slots_ok_update)
    then obtain ws os' where r: "stop_workers share env js ?p os1 = Done (?p\<lparr>p_workers := ws\<rparr>, os')"
      "length ws = length (p_workers ?p)" "slots_ok ws" "efds_ok os'" "tracked P ws os'"
      "\<forall>j\<in>set js. wk_pid (ws ! j) = 0"
      "\<forall>j<length ws. wk_pid (ws ! j) \<noteq> 0 \<longrightarrow> ws ! j = p_workers ?p ! j"
      "\<forall>q. os_procs os1 q = Gone \<longrightarrow> os_procs os' q = Gone"
      using Cons.IH [of ?p os1] s Cons.prems(4) share by auto
    have "wk_pid (ws ! i) = 0"
    proof (rule ccontr)
      assume n: "wk_pid (ws ! i) \<noteq> 0"
      have "ws ! i = zero_worker" using r(7) [rule_format, of i] n r(2) i(1) by simp
      with n show False by (simp add: zero_worker_def)
    qed
    moreover have "ws ! j = p_workers p ! j" if "j < length ws" "wk_pid (ws ! j) \<noteq> 0" for j
      using that r(2,7) calculation by (cases "j = i") auto
    ultimately show ?thesis using True s r share by (intro exI [of _ ws] exI [of _ os']) auto
  next
    case False
    then have z: "wk_pid (p_workers p ! i) = 0"
      using Cons.prems(1) nth_mem [OF i(1)] by (auto simp: slots_ok_def)
    obtain ws os' where r: "stop_workers share env js p os = Done (p\<lparr>p_workers := ws\<rparr>, os')"
      "length ws = length (p_workers p)" "slots_ok ws" "efds_ok os'" "tracked P ws os'"
      "\<forall>j\<in>set js. wk_pid (ws ! j) = 0"
      "\<forall>j<length ws. wk_pid (ws ! j) \<noteq> 0 \<longrightarrow> ws ! j = p_workers p ! j"
      "\<forall>q. os_procs os q = Gone \<longrightarrow> os_procs os' q = Gone"
      using Cons.IH [of p os] Cons.prems by auto
    have "wk_pid (ws ! i) = 0" using r(2,7) i(1) z by metis
    then show ?thesis using False r by (intro exI [of _ ws] exI [of _ os']) auto
  qed
qed

text \<open>Starting: the descriptors the kernel hands out are free and distinct between slots.\<close>

definition slot_fds :: "slot_env \<Rightarrow> int set" where
  "slot_fds env = {n. Some n \<in> {we_task_fd (se_create env), we_result_fd (se_create env),
                                we_control_fd (se_create env)}}"

definition fresh_slots :: "(nat \<Rightarrow> slot_env) \<Rightarrow> nat list \<Rightarrow> fds \<Rightarrow> bool" where
  "fresh_slots env js t \<longleftrightarrow>
     (\<forall>j\<in>set js. fresh_fds (se_create (env j)) t \<and> (\<forall>q. se_pid (env j) = Some q \<longrightarrow> 0 < q))
     \<and> (\<forall>i\<in>set js. \<forall>j\<in>set js. i \<noteq> j \<longrightarrow> slot_fds (env i) \<inter> slot_fds (env j) = {})"

lemma fresh_fds_iff:
  "fresh_fds env t \<longleftrightarrow>
     (\<forall>n. Some n \<in> {we_task_fd env, we_result_fd env, we_control_fd env} \<longrightarrow> 0 \<le> n \<and> t n = None)
     \<and> distinct (map the (filter (\<lambda>fd. fd \<noteq> None) [we_task_fd env, we_result_fd env, we_control_fd env]))"
  unfolding fresh_fds_def by (intro conj_cong refl) (auto split: option.splits)

lemma fresh_fds_mono:
  assumes "fresh_fds env t" "dom t' \<subseteq> dom t \<union> A"
    "{n. Some n \<in> {we_task_fd env, we_result_fd env, we_control_fd env}} \<inter> A = {}"
  shows "fresh_fds env t'"
  using assms unfolding fresh_fds_iff by (auto simp only: dom_def)

definition started_slot ::
  "int set \<Rightarrow> slot_env \<Rightarrow> nat \<Rightarrow> 'h pool \<Rightarrow> os \<Rightarrow> pool_error \<Rightarrow> worker \<Rightarrow> os \<Rightarrow> bool" where
  "started_slot P env i p os e w os' \<longleftrightarrow>
     slots_ok ((p_workers p)[i := w]) \<and> efds_ok os' \<and> tracked P ((p_workers p)[i := w]) os'
     \<and> dom (os_efds os') \<subseteq> dom (os_efds os) \<union> slot_fds env
     \<and> (if e = POOL_SUCCESS
        then 0 < wk_pid w \<and> os_procs os' = (os_procs os)(wk_pid w := Alive)
        else wk_pid w = 0 \<and> os_procs os' = os_procs os)"

lemma tracked_add:
  assumes "tracked P ws os" "i < length ws" "wk_pid (ws ! i) = 0" "0 < wk_pid w"
    "os_procs os' = (os_procs os)(wk_pid w := Alive)"
  shows "tracked P (ws[i := w]) os'"
  unfolding tracked_def
proof (intro allI impI)
  fix q assume q: "os_procs os' q \<noteq> Gone"
  have wi: "w \<in> set (ws[i := w])" using assms(2) by (rule set_update_memI)
  show "q \<in> P \<or> (\<exists>v\<in>set (ws[i := w]). 0 < wk_pid v \<and> wk_pid v = q)"
  proof (cases "q = wk_pid w")
    case False
    then have "os_procs os q \<noteq> Gone" using q assms(5) by simp
    then consider "q \<in> P" | v where "v \<in> set ws" "0 < wk_pid v" "wk_pid v = q"
      using assms(1) unfolding tracked_def by blast
    then show ?thesis
    proof cases
      case (2 v)
      obtain j where j: "j < length ws" "ws ! j = v" using 2(1) by (auto simp: in_set_conv_nth)
      have "j \<noteq> i" using j 2(2) assms(3) by auto
      have "ws[i := w] ! j \<in> set (ws[i := w])" by (rule nth_mem) (use j in simp)
      then have "v \<in> set (ws[i := w])" using j \<open>j \<noteq> i\<close> by simp
      then show ?thesis using 2 by blast
    qed simp
  qed (use wi assms(4) in blast)
qed

lemma tracked_procs: "tracked P ws os \<Longrightarrow> os_procs os' = os_procs os \<Longrightarrow> tracked P ws os'"
  by (simp add: tracked_def)

lemma start_one_correct:
  assumes ok: "slots_ok (p_workers p)" "efds_ok os" "tracked P (p_workers p) os"
    and i: "i < length (p_workers p)" "i < unat (pc_max_workers (p_config p))"
    and empty: "wk_pid (p_workers p ! i) = 0" and hdr: "0 < sc_header sc" "sc_header sc \<le> 2 ^ 32"
    and fresh: "fresh_fds (se_create env) (os_efds os)" "\<And>q. se_pid env = Some q \<Longrightarrow> 0 < q"
  shows "\<exists>e w os'. start_one sc env i p os = Done (e, p\<lparr>p_workers := (p_workers p)[i := w],
        p_active := (if e = POOL_SUCCESS then p_active p + 1 else p_active p)\<rparr>, os')
     \<and> started_slot P env i p os e w os'"
proof -
  let ?c = "worker_config_of (p_config p)" and ?i = "of_nat i :: u32"
  have lt: "i < 2 ^ 32" using i(2) unat_u32_less [of "pc_max_workers (p_config p)"] by simp
  then have ui: "unat ?i = i" by (simp add: unat_of_nat)
  have "?i < cf_max_workers ?c" using i(2) ui by (simp add: word_less_nat_alt worker_config_of_def)
  moreover have "unat ?i < length (p_workers p)" using ui i(1) by simp
  ultimately obtain e w os1 where c:
    "worker_create (sc_magic sc) (sc_version sc) (sc_header sc) (se_create env) ?c ?i (p_workers p) os
       = Done (e, (p_workers p)[i := w], os1)" "wk_pid w = 0" "os_procs os1 = os_procs os"
    "e = POOL_SUCCESS \<and> created_worker (se_create env) ?c ?i os w os1
     \<or> e = POOL_ERROR_SYSTEM_CALL \<and> os_efds os1 = os_efds os"
    using worker_create_cases [of ?i ?c "p_workers p" "sc_header sc" "se_create env" os
        "sc_magic sc" "sc_version sc"] hdr fresh(1) ui by auto
  let ?ws = "(p_workers p)[i := w]"
  have z: "slots_ok [w]" using c(2) by (simp add: slots_ok_def)
  have tr: "tracked P ?ws os" using tracked_empty_slot [OF ok(3) i(1)] c(2) empty by simp
  show ?thesis
  proof (cases "e = POOL_SUCCESS")
    case False
    then have "os_efds os1 = os_efds os" using c(4) by auto
    moreover have "start_one sc env i p os = Done (e, p\<lparr>p_workers := ?ws\<rparr>, os1)"
      using c(1) False by (simp add: start_one_def)
    ultimately show ?thesis using ok z c False tracked_procs [OF tr c(3)] slots_ok_update [OF ok(1) z]
      by (intro exI [of _ e] exI [of _ w] exI [of _ os1]) (simp add: started_slot_def efds_ok_def)
  next
    case True
    then have cw: "created_worker (se_create env) ?c ?i os w os1" using c(4) by simp
    have st: "wk_state w = WORKER_INTERNAL_CREATED" using cw by (auto simp: created_worker_def)
    have ef: "efds_ok os1" using cw ok(2) by (auto simp: created_worker_def efds_ok_def new_efd_def)
    have dm: "dom (os_efds os1) \<subseteq> dom (os_efds os) \<union> slot_fds env"
      using cw by (auto simp: created_worker_def slot_fds_def)
    have wi: "?ws ! i = w" using i(1) by simp
    show ?thesis
    proof (cases "se_pid env")
      case None
      let ?t = "close_eventfd (wk_control_fd w) (close_eventfd (wk_result_fd w)
          (close_eventfd (wk_task_fd w) (os_efds os1)))"
      let ?so = "case wk_shm w of None \<Rightarrow> os_shm os1
          | Some m \<Rightarrow> shm_destroy (Some m) (Some (wk_shm_name w)) (os_shm os1)"
      let ?os = "os1\<lparr>os_efds := ?t, os_shm := ?so\<rparr>"
      have "start_one sc env i p os = Done (POOL_ERROR_SYSTEM_CALL,
          p\<lparr>p_workers := (p_workers p)[i := zero_worker]\<rparr>, ?os)"
        using c(1) True st None wi
        by (simp add: start_one_def worker_start_def worker_destroy_def Let_def split: option.split)
      moreover have "efds_ok (os1\<lparr>os_efds := ?t\<rparr>)"
        by (intro efds_ok_close) (use ef in \<open>simp add: efds_ok_def\<close>)
      then have "efds_ok ?os" by (simp add: efds_ok_def)
      moreover have "dom ?t \<subseteq> dom (os_efds os1)" by (auto simp: close_eventfd_def split: if_splits)
      moreover have "tracked P ((p_workers p)[i := zero_worker]) ?os"
        using tracked_empty_slot [OF ok(3) i(1), of zero_worker] empty c(3)
        by (simp add: zero_worker_def tracked_def)
      ultimately show ?thesis using c(3) dm slots_ok_update [OF ok(1) slots_ok_zero]
        by (intro exI [of _ POOL_ERROR_SYSTEM_CALL] exI [of _ zero_worker] exI [of _ ?os])
          (auto simp: started_slot_def zero_worker_def)
    next
      case (Some q)
      let ?w = "w\<lparr>wk_pid := q, wk_state := WORKER_INTERNAL_RUNNING, wk_monitor_running := True,
          wk_monitor_thread := (if se_thread env then True else wk_monitor_thread w)\<rparr>"
      let ?os = "os1\<lparr>os_procs := (os_procs os1)(q := Alive)\<rparr>"
      have q: "0 < q" using fresh(2) Some by simp
      have "start_one sc env i p os = Done (POOL_SUCCESS,
          p\<lparr>p_workers := (p_workers p)[i := ?w], p_active := p_active p + 1\<rparr>, ?os)"
        using c(1) True st Some wi by (simp add: start_one_def worker_start_def)
      moreover have "tracked P ((p_workers p)[i := ?w]) ?os"
        by (rule tracked_add [OF ok(3) i(1) empty]) (use q c(3) in simp_all)
      moreover have "slots_ok [?w]" using q by (simp add: slots_ok_def)
      ultimately show ?thesis using ef dm q c(3) slots_ok_update [OF ok(1), of ?w i]
        by (intro exI [of _ POOL_SUCCESS] exI [of _ ?w] exI [of _ ?os])
          (simp add: started_slot_def efds_ok_def)
    qed
  qed
qed

lemma fresh_slots_Cons:
  assumes "fresh_slots env (i # js) t" "i \<notin> set js" "dom t' \<subseteq> dom t \<union> slot_fds (env i)"
  shows "fresh_slots env js t'"
  unfolding fresh_slots_def
proof (intro conjI ballI)
  fix j assume j: "j \<in> set js"
  then have "slot_fds (env j) \<inter> slot_fds (env i) = {}" using assms(1,2)
    unfolding fresh_slots_def by (metis list.set_intros)
  then show "fresh_fds (se_create (env j)) t'"
    using fresh_fds_mono [OF _ assms(3)] assms(1) j unfolding fresh_slots_def slot_fds_def by simp
qed (use assms(1) in \<open>auto simp: fresh_slots_def\<close>)

definition startable :: "shm_consts \<Rightarrow> (nat \<Rightarrow> slot_env) \<Rightarrow> nat list \<Rightarrow> 'h pool \<Rightarrow> os \<Rightarrow> bool" where
  "startable sc env js p os \<longleftrightarrow>
     0 < sc_header sc \<and> sc_header sc \<le> 2 ^ 32 \<and> distinct js \<and> fresh_slots env js (os_efds os)
     \<and> (\<forall>j\<in>set js. j < length (p_workers p) \<and> j < unat (pc_max_workers (p_config p))
          \<and> wk_pid (p_workers p ! j) = 0)"

lemma start_workers_correct:
  assumes "slots_ok (p_workers p)" "efds_ok os" "tracked P (p_workers p) os" "startable sc env js p os"
  shows "\<exists>e ws n os'. start_workers sc env js p os = Done (e, p\<lparr>p_workers := ws, p_active := n\<rparr>, os')
     \<and> length ws = length (p_workers p) \<and> slots_ok ws \<and> efds_ok os' \<and> tracked P ws os'
     \<and> (\<forall>j. j \<notin> set js \<longrightarrow> ws ! j = p_workers p ! j)
     \<and> (\<forall>q. os_procs os q = Alive \<longrightarrow> os_procs os' q = Alive)
     \<and> (e = POOL_SUCCESS \<longrightarrow> n = p_active p + of_nat (length js)
          \<and> (\<forall>j\<in>set js. 0 < wk_pid (ws ! j) \<and> os_procs os' (wk_pid (ws ! j)) = Alive))"
  using assms
proof (induction js arbitrary: p os)
  case Nil
  then show ?case
    by (intro exI [of _ POOL_SUCCESS] exI [of _ "p_workers p"] exI [of _ "p_active p"] exI [of _ os]) simp
next
  case (Cons i js)
  note st = Cons.prems(4) [unfolded startable_def]
  have i: "i < length (p_workers p)" "i < unat (pc_max_workers (p_config p))"
    "wk_pid (p_workers p ! i) = 0" "i \<notin> set js" using st by simp_all
  have fr: "fresh_fds (se_create (env i)) (os_efds os)" "\<And>q. se_pid (env i) = Some q \<Longrightarrow> 0 < q"
    using st unfolding fresh_slots_def by simp_all
  obtain e w os1 where s: "start_one sc (env i) i p os = Done (e, p\<lparr>p_workers := (p_workers p)[i := w],
        p_active := (if e = POOL_SUCCESS then p_active p + 1 else p_active p)\<rparr>, os1)"
      "started_slot P (env i) i p os e w os1"
    using start_one_correct [OF Cons.prems(1-3) i(1-3) _ _ fr] st by blast
  show ?case
  proof (cases "e = POOL_SUCCESS")
    case False
    then show ?thesis using s i
      by (intro exI [of _ e] exI [of _ "(p_workers p)[i := w]"] exI [of _ "p_active p"] exI [of _ os1])
        (auto simp: started_slot_def)
  next
    case True
    let ?p = "p\<lparr>p_workers := (p_workers p)[i := w], p_active := p_active p + 1\<rparr>"
    have inv: "slots_ok (p_workers ?p)" "efds_ok os1" "tracked P (p_workers ?p) os1"
      using s(2) by (simp_all add: started_slot_def)
    have "fresh_slots env js (os_efds os1)"
      by (rule fresh_slots_Cons [OF _ i(4)]) (use st s(2) in \<open>auto simp: started_slot_def\<close>)
    moreover have "wk_pid ((p_workers p)[i := w] ! j) = 0" if "j \<in> set js" for j
      using that st i(4) by (cases "j = i") auto
    ultimately have "startable sc env js ?p os1" using st by (simp add: startable_def)
    then obtain e' ws n os' where r: "start_workers sc env js ?p os1
        = Done (e', ?p\<lparr>p_workers := ws, p_active := n\<rparr>, os')"
      "length ws = length (p_workers ?p)" "slots_ok ws" "efds_ok os'" "tracked P ws os'"
      "\<forall>j. j \<notin> set js \<longrightarrow> ws ! j = p_workers ?p ! j"
      "\<forall>q. os_procs os1 q = Alive \<longrightarrow> os_procs os' q = Alive"
      "e' = POOL_SUCCESS \<longrightarrow> n = p_active ?p + of_nat (length js)
         \<and> (\<forall>j\<in>set js. 0 < wk_pid (ws ! j) \<and> os_procs os' (wk_pid (ws ! j)) = Alive)"
      using Cons.IH [OF inv] by blast
    have "ws ! i = w" using r(6) i by simp
    moreover have "0 < wk_pid w" "os_procs os1 = (os_procs os)(wk_pid w := Alive)"
      using s(2) True by (simp_all add: started_slot_def)
    then have "0 < wk_pid w" "os_procs os' (wk_pid w) = Alive"
      "\<forall>q. os_procs os q = Alive \<longrightarrow> os_procs os' q = Alive" using r(7) by simp_all
    moreover have "ws ! j = p_workers p ! j" if "j \<notin> set (i # js)" for j using r(6) that by simp
    ultimately show ?thesis using s(1) True r
      by (intro exI [of _ e'] exI [of _ ws] exI [of _ n] exI [of _ os']) (auto simp: add_ac)
  qed
qed

subsection \<open>The pool\<close>

definition all_resources :: "resource list" where
  "all_resources = [PoolMutex, QueueMutex, TaskMutex, StatsMutex, ShutdownCond, TaskQueue,
     WorkerArray, MemoryPool, EventLoop]"

text \<open>A pool whose slots are as many as its configuration says.\<close>

definition pool_wf :: "int set \<Rightarrow> 'h pool \<Rightarrow> os \<Rightarrow> bool" where
  "pool_wf P p os \<longleftrightarrow>
     length (p_workers p) = unat (pc_max_workers (p_config p)) \<and> slots_ok (p_workers p)
     \<and> efds_ok os \<and> tracked P (p_workers p) os"

lemma wait_tasks_returns:
  "\<exists>(r, now)\<in>set obs. r = 0 \<or> limit \<le> now - start \<Longrightarrow> \<exists>r. wait_tasks start limit obs = Done r"
  by (induction obs) fastforce+

lemma tracked_all_empty:
  "tracked P ws os \<Longrightarrow> \<forall>i<length ws. wk_pid (ws ! i) = 0 \<Longrightarrow> q \<notin> P \<Longrightarrow> os_procs os q = Gone"
  unfolding tracked_def by (metis in_set_conv_nth less_irrefl)

text \<open>C37. Whatever fails, \<open>init_pool_resources\<close> releases what it took; after a success
  \<open>cleanup_pool_resources\<close> releases everything.\<close>

theorem init_pool_resources_all_or_nothing:
  assumes "p_held p = []" "init_pool_resources isp2 np2 env p = (e, p')"
  shows "if e = POOL_SUCCESS then p_held p' = all_resources \<and> p_queue p' \<noteq> None
           \<and> length (p_workers p') = unat (pc_max_workers (p_config p)) \<and> slots_ok (p_workers p')
           \<and> p_held (cleanup_pool_resources p') = []
         else p_held p' = []"
  using assms by (auto simp: init_pool_resources_def Let_def drop_resources_def all_resources_def
      cleanup_pool_resources_def slots_ok_def zero_worker_def split: if_splits)



text \<open>\<open>pool_resize\<close> does not look at the state: on a pool that was not started it creates worker
  processes, and destroying that pool, which stops workers only when it runs, leaves every one
  of them alive.\<close>

theorem pool_resize_before_start_leaks:
  assumes "pool_wf P p os" "p_state p = POOL_STATE_CREATED" "p_active p = 0"
    and st: "startable sc env [0..<unat target] p os"
    and "pool_resize sc env target p os = Done (POOL_SUCCESS, p', os')"
  shows "p_active p' = target \<and> p_state p' = POOL_STATE_CREATED
     \<and> (\<forall>j<unat target. 0 < wk_pid (p_workers p' ! j)
          \<and> (\<exists>held. pool_destroy env2 start obs p' os' = Done (held, os'))
          \<and> os_procs os' (wk_pid (p_workers p' ! j)) = Alive)"
proof -
  let ?p = "p\<lparr>p_target := target\<rparr>"
  have wf: "slots_ok (p_workers ?p)" "efds_ok os" "tracked P (p_workers ?p) os"
    "startable sc env [0..<unat target] ?p os" using assms(1) st by (simp_all add: pool_wf_def startable_def)
  obtain e ws n os1 where s: "start_workers sc env [0..<unat target] ?p os
      = Done (e, ?p\<lparr>p_workers := ws, p_active := n\<rparr>, os1)"
    "e = POOL_SUCCESS \<longrightarrow> n = p_active ?p + of_nat (length [0..<unat target])
       \<and> (\<forall>j\<in>set [0..<unat target]. 0 < wk_pid (ws ! j) \<and> os_procs os1 (wk_pid (ws ! j)) = Alive)"
    using start_workers_correct [OF wf] by blast
  show ?thesis
  proof (cases "target = 0")
    case True
    then show ?thesis using assms(2,3,5) by (auto simp: pool_resize_def Let_def split: if_splits)
  next
    case False
    then have "target > p_active p" using assms(3) by (simp add: word_gt_0)
    then have "p' = ?p\<lparr>p_workers := ws, p_active := n\<rparr>" "os' = os1" "e = POOL_SUCCESS"
      using assms(3,5) s(1) by (auto simp: pool_resize_def Let_def split: if_splits)
    then show ?thesis using s(2) assms(2,3) by (simp add: pool_destroy_def)
  qed
qed

subsection \<open>Concrete pools\<close>

definition one_config :: "nat pool_config" where
  "one_config = init_default_config\<lparr>pc_min_workers := 1, pc_max_workers := 1, pc_queue_size := 4\<rparr>"

definition one_pool :: "nat pool" where
  "one_pool = (new_pool \<lparr>ce_alloc = True, ce_init = \<lparr>ie_pool_mutex = True, ie_queue_mutex = True,
       ie_task_mutex = True, ie_stats_mutex = True, ie_cond = True, ie_queue_mem = True,
       ie_tasks_mem = True, ie_workers_mem = True, ie_memory_pool = POOL_SUCCESS,
       ie_event_loop = POOL_SUCCESS\<rparr>, ce_time_ns = 0, ce_log_level = 1\<rparr> one_config)
     \<lparr>p_workers := [zero_worker]\<rparr>"

definition one_slot :: slot_env where
  "one_slot = \<lparr>se_create = \<lparr>we_task_fd = Some 3, we_result_fd = Some 4, we_control_fd = Some 5,
       we_shm = \<lparr>open_ok = True, reopen_ok = True, trunc_ok = True, map_ok = True\<rparr>, we_now = 0\<rparr>,
     se_pid = Some 100, se_thread = True, se_stop_ns = 0, se_rounds = [(10000000000, False)]\<rparr>"

definition one_consts :: shm_consts where
  "one_consts = \<lparr>sc_magic = 7, sc_version = 1, sc_header = 128\<rparr>"

lemma one_pool_simps [simp]:
  "p_state one_pool = POOL_STATE_CREATED" "p_active one_pool = 0"
  "p_workers one_pool = [zero_worker]" "pc_min_workers (p_config one_pool) = 1"
  "pc_max_workers (p_config one_pool) = 1" "pc_queue_size (p_config one_pool) = 4"
  by (simp_all add: one_pool_def new_pool_def one_config_def init_default_config_def Let_def)

lemma one_pool_wf: "pool_wf {} one_pool idle_os"
  by (simp add: pool_wf_def slots_ok_def zero_worker_def efds_ok_def tracked_def idle_os_def)

lemma one_pool_startable: "startable one_consts (\<lambda>_. one_slot) [0..<1] one_pool idle_os"
  by (simp add: startable_def one_consts_def fresh_slots_def fresh_fds_def one_slot_def idle_os_def
      zero_worker_def)

lemma one_slot_reaches: "rounds_reach one_slot 5000"
proof -
  have "\<not> (10000000000::u64) - 0 < ucast (5000::u32) * 1000000" by code_simp
  then show ?thesis by (simp add: rounds_reach_def one_slot_def)
qed

lemma one_pool_resize:
  "\<exists>p' os'. pool_resize one_consts (\<lambda>_. one_slot) 1 one_pool idle_os = Done (POOL_SUCCESS, p', os')"
proof -
  have "\<not> unat (128 + ucast (4 * MAX_TASK_DATA_SIZE) :: u64) < 128"
    "128 + ucast (4 * MAX_TASK_DATA_SIZE) \<noteq> (0::u64)"
    by (simp_all add: MAX_TASK_DATA_SIZE_def)
  then show ?thesis
    by (simp add: pool_resize_def one_consts_def Let_def start_one_def worker_create_def one_slot_def
      create_eventfd_eq shm_create_def worker_config_of_def idle_os_def worker_shm_size_def
      worker_start_def new_efd_def zero_worker_def)
qed

theorem init_pool_resources_all_or_nothing_witness:
  "p_held (snd (init_pool_resources pow2_test id \<lparr>ie_pool_mutex = True, ie_queue_mutex = True,
     ie_task_mutex = True, ie_stats_mutex = True, ie_cond = True, ie_queue_mem = True,
     ie_tasks_mem = True, ie_workers_mem = True, ie_memory_pool = POOL_ERROR_NO_MEMORY,
     ie_event_loop = POOL_SUCCESS\<rparr> one_pool)) = []
   \<and> p_held one_pool = []"
proof -
  let ?e = "\<lparr>ie_pool_mutex = True, ie_queue_mutex = True, ie_task_mutex = True,
     ie_stats_mutex = True, ie_cond = True, ie_queue_mem = True, ie_tasks_mem = True,
     ie_workers_mem = True, ie_memory_pool = POOL_ERROR_NO_MEMORY, ie_event_loop = POOL_SUCCESS\<rparr>"
  have h: "p_held one_pool = []" by (simp add: one_pool_def new_pool_def Let_def)
  have "fst (init_pool_resources pow2_test id ?e one_pool) = POOL_ERROR_NO_MEMORY"
    by (simp add: init_pool_resources_def Let_def queue_create_def)
  then show ?thesis
    using init_pool_resources_all_or_nothing [OF h, of pow2_test id ?e] h
    by (metis pool_error.distinct(3) prod.collapse)
qed



theorem pool_resize_before_start_leaks_witness:
  "\<exists>p' os' q. pool_resize one_consts (\<lambda>_. one_slot) 1 one_pool idle_os = Done (POOL_SUCCESS, p', os')
     \<and> os_procs os' q = Alive \<and> (\<exists>held. pool_destroy (\<lambda>_. one_slot) 0 [] p' os' = Done (held, os'))"
proof -
  have st: "startable one_consts (\<lambda>_. one_slot) [0..<unat (1::u32)] one_pool idle_os"
    using one_pool_startable by simp
  obtain p' os' where r:
    "pool_resize one_consts (\<lambda>_. one_slot) 1 one_pool idle_os = Done (POOL_SUCCESS, p', os')"
    using one_pool_resize by blast
  have "0 < unat (1::u32)" by simp
  then show ?thesis
    using pool_resize_before_start_leaks [OF one_pool_wf one_pool_simps(1,2) st r] r by blast
qed

end
