(* ===== verification/Thread_Pool.thy ===== *)
theory Thread_Pool
  imports Bounded_Queue
begin

text \<open>
  The object-style C thread pool: \<^verbatim>\<open>new_CPP_ThreadPool/BO_threadPool/threadpool.c\<close>. The
  functions come first, then the interleavings of the worker threads with the callers of
  \<open>threadpool_add\<close> and \<open>threadpool_destroy\<close>. A critical section is one step, except that the
  unlock of a thread that is leaving is a step of its own; the reads of \<open>thread_count\<close> in
  \<open>threadpool_destroy\<close>, made without the lock, are steps of their own too. Every C \<open>int\<close> of the
  pool stays within -1 and 65536 (\<open>tp_ok\<close>), so they are integers.
\<close>

datatype threadpool_error =
    THREADPOOL_SUCCESS
  | THREADPOOL_INVALID
  | THREADPOOL_LOCK_FAILURE
  | THREADPOOL_QUEUE_FULL
  | THREADPOOL_SHUTDOWN
  | THREADPOOL_THREAD_FAILURE

record ('f, 'a) task_t =
  tk_function :: 'f
  tk_arg :: 'a

text \<open>\<open>threads\<close> holds the handles of the threads made so far; a slot of the freshly allocated
  \<open>task_queue\<close> is \<open>None\<close>.\<close>

record ('f, 'a) threadpool =
  tp_threads :: "nat list"
  tp_task_queue :: "('f, 'a) task_t option list"
  tp_thread_count :: int
  tp_queue_size :: int
  tp_queue_front :: int
  tp_queue_rear :: int
  tp_queue_count :: int
  tp_shutdown :: bool

subsection \<open>Creating\<close>

record tp_create_env =
  tc_pool_mem :: bool
  tc_threads_mem :: bool
  tc_queue_mem :: bool
  tc_sync_init :: bool
  tc_thread_create :: "nat \<Rightarrow> bool"

text \<open>The loop that creates the threads, with the number still to make; \<open>False\<close>: one failed.\<close>

fun create_threads :: "(nat \<Rightarrow> bool) \<Rightarrow> nat \<Rightarrow> nat \<Rightarrow> ('f, 'a) threadpool \<Rightarrow> ('f, 'a) threadpool \<times> bool" where
  "create_threads ok i 0 p = (p, True)"
| "create_threads ok i (Suc k) p =
     (if \<not> ok i then (p, False)
      else create_threads ok (Suc i) k
             (p\<lparr>tp_threads := tp_threads p @ [i], tp_thread_count := tp_thread_count p + 1\<rparr>))"

text \<open>\<open>CreateAborted p\<close>: the call destroys \<open>p\<close>, whose threads run already, and returns null.\<close>

datatype 'p create_result = CreateNull | CreateAborted 'p | Created 'p

definition threadpool_create :: "tp_create_env \<Rightarrow> int \<Rightarrow> int \<Rightarrow> ('f, 'a) threadpool create_result" where
  "threadpool_create env thread_count queue_size =
     (if thread_count \<le> 0 \<or> thread_count > 1000 \<or> queue_size \<le> 0 \<or> queue_size > 65536 then CreateNull
      else if \<not> tc_pool_mem env then CreateNull
      else if \<not> tc_threads_mem env then CreateNull
      else if \<not> tc_queue_mem env then CreateNull
      else if \<not> tc_sync_init env then CreateNull
      else let p = \<lparr>tp_threads = [], tp_task_queue = replicate (nat queue_size) None,
                    tp_thread_count = 0, tp_queue_size = queue_size, tp_queue_front = 0,
                    tp_queue_rear = 0, tp_queue_count = 0, tp_shutdown = False\<rparr>
           in case create_threads (tc_thread_create env) 0 (nat thread_count) p of (p', ok) \<Rightarrow>
                if ok then Created p' else CreateAborted p')"

subsection \<open>Adding, counting\<close>

text \<open>The body of the critical section; the boolean tells that \<open>notify\<close> was signalled.\<close>

definition add_section ::
  "bool \<Rightarrow> 'f \<Rightarrow> 'a \<Rightarrow> ('f, 'a) threadpool \<Rightarrow> threadpool_error \<times> ('f, 'a) threadpool \<times> bool" where
  "add_section signal_ok f arg p =
     (if tp_shutdown p then (THREADPOOL_SHUTDOWN, p, False)
      else if tp_queue_count p = tp_queue_size p then (THREADPOOL_QUEUE_FULL, p, False)
      else let next = (tp_queue_rear p + 1) mod tp_queue_size p;
               p' = p\<lparr>tp_task_queue := (tp_task_queue p)[nat (tp_queue_rear p) :=
                        Some \<lparr>tk_function = f, tk_arg = arg\<rparr>],
                      tp_queue_rear := next, tp_queue_count := tp_queue_count p + 1\<rparr>
           in if \<not> signal_ok then (THREADPOOL_LOCK_FAILURE, p', False)
              else (THREADPOOL_SUCCESS, p', True))"

definition threadpool_add ::
  "bool \<Rightarrow> bool \<Rightarrow> bool \<Rightarrow> ('f, 'a) threadpool option \<Rightarrow> 'f option \<Rightarrow> 'a
     \<Rightarrow> threadpool_error \<times> ('f, 'a) threadpool option \<times> bool" where
  "threadpool_add lock_ok signal_ok unlock_ok pool function arg =
     (case pool of None \<Rightarrow> (THREADPOOL_INVALID, None, False)
      | Some p \<Rightarrow>
          case function of None \<Rightarrow> (THREADPOOL_INVALID, pool, False)
          | Some f \<Rightarrow>
              if \<not> lock_ok then (THREADPOOL_LOCK_FAILURE, pool, False)
              else case add_section signal_ok f arg p of (err, p', signalled) \<Rightarrow>
                     (if \<not> unlock_ok then THREADPOOL_LOCK_FAILURE else err, Some p', signalled))"

definition threadpool_thread_count :: "('f, 'a) threadpool option \<Rightarrow> int" where
  "threadpool_thread_count pool = (case pool of None \<Rightarrow> - 1 | Some p \<Rightarrow> tp_thread_count p)"

definition threadpool_queue_count :: "('f, 'a) threadpool option \<Rightarrow> int" where
  "threadpool_queue_count pool = (case pool of None \<Rightarrow> - 1 | Some p \<Rightarrow> tp_queue_count p)"

subsection \<open>The worker thread\<close>

datatype ('f, 'a) thread_pc =
    TAbsent
  | TLock
  | TWaiting
  | TRunning "('f, 'a) task_t option"
  | TExiting
  | TExited

definition take_task :: "('f, 'a) threadpool \<Rightarrow> ('f, 'a) task_t option \<times> ('f, 'a) threadpool" where
  "take_task p =
     (tp_task_queue p ! nat (tp_queue_front p),
      p\<lparr>tp_queue_front := (tp_queue_front p + 1) mod tp_queue_size p,
        tp_queue_count := tp_queue_count p - 1\<rparr>)"

text \<open>What a thread does from the moment it has the lock (at the top of the loop or after a wait)
  until it gives it up, or, when it leaves, until it is about to.\<close>

definition thread_section :: "('f, 'a) threadpool \<Rightarrow> ('f, 'a) threadpool \<times> ('f, 'a) thread_pc" where
  "thread_section p =
     (if tp_queue_count p = 0 \<and> \<not> tp_shutdown p then (p, TWaiting)
      else if tp_shutdown p then (p\<lparr>tp_thread_count := tp_thread_count p - 1\<rparr>, TExiting)
      else case take_task p of (t, p') \<Rightarrow> (p', TRunning t))"

subsection \<open>Interleavings\<close>

datatype lock_owner = Free | OfThread nat | OfClient

datatype destroy_pc = DNone | DJoin int | DReturned threadpool_error

record ('f, 'a) tp_world =
  w_pool :: "('f, 'a) threadpool option"
  w_pc :: "nat \<Rightarrow> ('f, 'a) thread_pc"
  w_lock :: lock_owner
  w_destroy :: destroy_pc
  w_joined :: "nat list"
  w_accepted :: "('f, 'a) task_t list"
  w_started :: "('f, 'a) task_t option list"

inductive thread_step :: "nat \<Rightarrow> ('f, 'a) tp_world \<Rightarrow> ('f, 'a) tp_world \<Rightarrow> bool" where
  ts_section:
    "w_pool w = Some p \<Longrightarrow> w_pc w i = TLock \<Longrightarrow> w_lock w = Free \<Longrightarrow> thread_section p = (p', pc)
       \<Longrightarrow> thread_step i w (w\<lparr>w_pool := Some p', w_pc := (w_pc w)(i := pc),
             w_lock := (if pc = TExiting then OfThread i else Free),
             w_started := w_started w @ (case pc of TRunning t \<Rightarrow> [t] | _ \<Rightarrow> [])\<rparr>)"
| ts_ran: "w_pc w i = TRunning t \<Longrightarrow> thread_step i w (w\<lparr>w_pc := (w_pc w)(i := TLock)\<rparr>)"
| ts_unlock:
    "w_pc w i = TExiting \<Longrightarrow> w_lock w = OfThread i
       \<Longrightarrow> thread_step i w (w\<lparr>w_pc := (w_pc w)(i := TExited), w_lock := Free\<rparr>)"

definition wake_all :: "(nat \<Rightarrow> ('f, 'a) thread_pc) \<Rightarrow> nat \<Rightarrow> ('f, 'a) thread_pc" where
  "wake_all pcs = (\<lambda>i. if pcs i = TWaiting then TLock else pcs i)"

text \<open>The signal of \<open>threadpool_add\<close> wakes one waiting thread, if there is one; a wait may also
  end by itself. \<open>cs_free_kept\<close> is the call of \<open>threadpool_free\<close> that returns
  \<open>THREADPOOL_INVALID\<close>, which its caller ignores.\<close>

inductive client_step :: "('f, 'a) tp_world \<Rightarrow> ('f, 'a) tp_world \<Rightarrow> bool" where
  cs_add:
    "w_pool w = Some p \<Longrightarrow> w_lock w = Free
       \<Longrightarrow> threadpool_add True True True (Some p) (Some f) a = (err, Some p', signalled)
       \<Longrightarrow> (if signalled \<and> (\<exists>j. w_pc w j = TWaiting)
           then \<exists>j. w_pc w j = TWaiting \<and> pcs = (w_pc w)(j := TLock) else pcs = w_pc w)
       \<Longrightarrow> client_step w (w\<lparr>w_pool := Some p', w_pc := pcs, w_accepted := w_accepted w
             @ (if err = THREADPOOL_SUCCESS then [\<lparr>tk_function = f, tk_arg = a\<rparr>] else [])\<rparr>)"
| cs_spurious: "w_pc w i = TWaiting \<Longrightarrow> client_step w (w\<lparr>w_pc := (w_pc w)(i := TLock)\<rparr>)"
| cs_destroy:
    "w_pool w = Some p \<Longrightarrow> w_lock w = Free \<Longrightarrow> \<not> tp_shutdown p
       \<Longrightarrow> client_step w (w\<lparr>w_pool := Some (p\<lparr>tp_shutdown := True\<rparr>), w_pc := wake_all (w_pc w),
             w_destroy := DJoin 0\<rparr>)"
| cs_destroy_again:
    "w_pool w = Some p \<Longrightarrow> w_lock w = Free \<Longrightarrow> tp_shutdown p
       \<Longrightarrow> client_step w (w\<lparr>w_lock := OfClient\<rparr>)"
| cs_join:
    "w_pool w = Some p \<Longrightarrow> w_destroy w = DJoin i \<Longrightarrow> i < tp_thread_count p
       \<Longrightarrow> w_pc w (tp_threads p ! nat i) = TExited
       \<Longrightarrow> client_step w (w\<lparr>w_destroy := DJoin (i + 1), w_joined := w_joined w @ [tp_threads p ! nat i]\<rparr>)"
| cs_free_kept:
    "w_pool w = Some p \<Longrightarrow> w_destroy w = DJoin i \<Longrightarrow> \<not> i < tp_thread_count p
       \<Longrightarrow> tp_thread_count p > 0 \<Longrightarrow> client_step w (w\<lparr>w_destroy := DReturned THREADPOOL_SUCCESS\<rparr>)"
| cs_free:
    "w_pool w = Some p \<Longrightarrow> w_destroy w = DJoin i \<Longrightarrow> \<not> i < tp_thread_count p
       \<Longrightarrow> \<not> tp_thread_count p > 0 \<Longrightarrow> w_lock w = Free
       \<Longrightarrow> client_step w (w\<lparr>w_pool := None, w_destroy := DReturned THREADPOOL_SUCCESS\<rparr>)"

definition tp_step :: "('f, 'a) tp_world \<Rightarrow> ('f, 'a) tp_world \<Rightarrow> bool" where
  "tp_step w w' \<longleftrightarrow> client_step w w' \<or> (\<exists>i. thread_step i w w')"

definition tp_start :: "('f, 'a) threadpool \<Rightarrow> ('f, 'a) tp_world" where
  "tp_start p = \<lparr>w_pool = Some p, w_pc = (\<lambda>i. if i < length (tp_threads p) then TLock else TAbsent),
     w_lock = Free, w_destroy = DNone, w_joined = [], w_accepted = [], w_started = []\<rparr>"

definition tp_reach :: "('f, 'a) threadpool \<Rightarrow> ('f, 'a) tp_world \<Rightarrow> bool" where
  "tp_reach p w \<longleftrightarrow> tp_step\<^sup>*\<^sup>* (tp_start p) w"

subsection \<open>The ring of tasks\<close>

definition tp_ring :: "('f, 'a) threadpool \<Rightarrow> ('f, 'a) task_t option list" where
  "tp_ring p = int_ring (tp_task_queue p) (tp_queue_size p) (tp_queue_front p) (tp_queue_count p)"

definition tp_ok :: "nat \<Rightarrow> ('f, 'a) threadpool \<Rightarrow> bool" where
  "tp_ok n p \<longleftrightarrow> 0 < tp_queue_size p \<and> tp_queue_size p \<le> 65536
     \<and> length (tp_task_queue p) = nat (tp_queue_size p)
     \<and> 0 \<le> tp_queue_front p \<and> tp_queue_front p < tp_queue_size p
     \<and> 0 \<le> tp_queue_count p \<and> tp_queue_count p \<le> tp_queue_size p
     \<and> tp_queue_rear p = (tp_queue_front p + tp_queue_count p) mod tp_queue_size p
     \<and> tp_threads p = [0..<n]"

lemma length_tp_ring [simp]: "length (tp_ring p) = nat (tp_queue_count p)"
  by (simp add: tp_ring_def)

lemma tp_ring_eq_Nil: "tp_ok n p \<Longrightarrow> tp_ring p = [] \<longleftrightarrow> tp_queue_count p = 0"
  by (simp add: tp_ring_def tp_ok_def int_ring_eq_Nil)

lemma tp_ring_cong:
  "tp_task_queue p' = tp_task_queue p \<Longrightarrow> tp_queue_size p' = tp_queue_size p
     \<Longrightarrow> tp_queue_front p' = tp_queue_front p \<Longrightarrow> tp_queue_count p' = tp_queue_count p
     \<Longrightarrow> tp_ring p' = tp_ring p"
  by (simp add: tp_ring_def)

lemma add_section_room:
  assumes "tp_ok n p" "\<not> tp_shutdown p" "tp_queue_count p < tp_queue_size p"
  shows "\<exists>p'. add_section True f a p = (THREADPOOL_SUCCESS, p', True) \<and> tp_ok n p'
     \<and> tp_ring p' = tp_ring p @ [Some \<lparr>tk_function = f, tk_arg = a\<rparr>]
     \<and> tp_thread_count p' = tp_thread_count p \<and> \<not> tp_shutdown p'
     \<and> tp_queue_count p' = tp_queue_count p + 1 \<and> tp_queue_size p' = tp_queue_size p"
proof -
  let ?t = "Some \<lparr>tk_function = f, tk_arg = a\<rparr>"
  let ?p = "p\<lparr>tp_task_queue := (tp_task_queue p)[nat (tp_queue_rear p) := ?t],
      tp_queue_rear := (tp_queue_rear p + 1) mod tp_queue_size p,
      tp_queue_count := tp_queue_count p + 1\<rparr>"
  note ok = assms(1) [unfolded tp_ok_def]
  have put: "tp_ring ?p = tp_ring p @ [?t]"
    "(tp_queue_rear p + 1) mod tp_queue_size p = (tp_queue_front p + (tp_queue_count p + 1)) mod tp_queue_size p"
    using int_ring_put [of "tp_queue_size p" "tp_task_queue p" "tp_queue_front p" "tp_queue_count p"]
      ok assms(3) by (simp_all add: tp_ring_def)
  have "tp_ok n ?p" using ok assms(3) put(2) by (simp add: tp_ok_def)
  then show ?thesis using put(1) assms(2,3) by (intro exI [of _ ?p]) (simp add: add_section_def Let_def)
qed

lemma add_section_rejects:
  "tp_shutdown p \<Longrightarrow> add_section s f a p = (THREADPOOL_SHUTDOWN, p, False)"
  "\<not> tp_shutdown p \<Longrightarrow> tp_queue_count p = tp_queue_size p
     \<Longrightarrow> add_section s f a p = (THREADPOOL_QUEUE_FULL, p, False)"
  by (simp_all add: add_section_def)

lemma take_task_ring:
  assumes "tp_ok n p" "tp_queue_count p \<noteq> 0"
  shows "\<exists>t p'. take_task p = (t, p') \<and> tp_ok n p' \<and> tp_ring p = t # tp_ring p'
     \<and> tp_thread_count p' = tp_thread_count p \<and> tp_shutdown p' = tp_shutdown p
     \<and> tp_queue_size p' = tp_queue_size p"
proof -
  note ok = assms(1) [unfolded tp_ok_def]
  let ?p = "p\<lparr>tp_queue_front := (tp_queue_front p + 1) mod tp_queue_size p,
      tp_queue_count := tp_queue_count p - 1\<rparr>"
  have take: "tp_ring p = tp_task_queue p ! nat (tp_queue_front p) # tp_ring ?p"
    "(tp_queue_front p + tp_queue_count p) mod tp_queue_size p
      = ((tp_queue_front p + 1) mod tp_queue_size p + (tp_queue_count p - 1)) mod tp_queue_size p"
    using int_ring_take [of "tp_queue_front p" "tp_queue_size p" "tp_queue_count p"] ok assms(2)
    by (simp_all add: tp_ring_def)
  have "tp_ok n ?p" using ok assms(2) take(2) by (simp add: tp_ok_def)
  then show ?thesis using take(1)
    by (intro exI [of _ "tp_task_queue p ! nat (tp_queue_front p)"] exI [of _ ?p]) (simp add: take_task_def)
qed

text \<open>Without the threads the pool is a bounded queue: adding and taking tasks meet the contract
  of \<open>bounded_queue\<close>.\<close>

definition tp_put :: "('f, 'a) threadpool \<Rightarrow> ('f, 'a) task_t \<Rightarrow> ('f, 'a) threadpool option" where
  "tp_put p t = (case threadpool_add True True True (Some p) (Some (tk_function t)) (tk_arg t) of
     (err, p', s) \<Rightarrow> if err = THREADPOOL_SUCCESS then p' else None)"

definition tp_get :: "('f, 'a) threadpool \<Rightarrow> (('f, 'a) task_t \<times> ('f, 'a) threadpool) option" where
  "tp_get p = (case thread_section p of
     (p', TRunning (Some t)) \<Rightarrow> Some (t, p') | _ \<Rightarrow> None)"

definition tp_wf :: "('f, 'a) threadpool \<Rightarrow> bool" where
  "tp_wf p \<longleftrightarrow> tp_ok (length (tp_threads p)) p \<and> \<not> tp_shutdown p \<and> None \<notin> set (tp_ring p)"

lemma tp_ok_threads: "tp_ok n p \<Longrightarrow> length (tp_threads p) = n"
  by (simp add: tp_ok_def)

interpretation tpq: bounded_queue tp_put tp_get "\<lambda>p. map the (tp_ring p)" tp_wf
    "\<lambda>p. nat (tp_queue_size p)" "\<lambda>_. True"
proof (unfold_locales, goal_cases)
  case (1 q)
  then show ?case by (simp add: tp_wf_def tp_ok_def nat_mono)
next
  case (2 q x)
  then have "tp_queue_count q = tp_queue_size q" by (simp add: tp_wf_def tp_ok_def eq_nat_nat_iff)
  then show ?case using 2(1) by (simp add: tp_put_def threadpool_add_def add_section_rejects tp_wf_def)
next
  case (3 q x)
  then have "tp_queue_count q < tp_queue_size q" by (simp add: tp_wf_def tp_ok_def)
  then obtain q' where "add_section True (tk_function x) (tk_arg x) q = (THREADPOOL_SUCCESS, q', True)"
    "tp_ok (length (tp_threads q)) q'" "tp_ring q' = tp_ring q @ [Some x]" "\<not> tp_shutdown q'"
    "tp_queue_size q' = tp_queue_size q"
    using add_section_room [of "length (tp_threads q)" q "tk_function x" "tk_arg x"] 3(1)
    by (auto simp: tp_wf_def)
  then show ?case using 3(1)
    by (intro exI [of _ q']) (auto simp: tp_put_def threadpool_add_def tp_wf_def tp_ok_threads)
next
  case (4 q)
  then have "tp_queue_count q = 0" using tp_ring_eq_Nil [of "length (tp_threads q)" q] by (simp add: tp_wf_def)
  then show ?case using 4 by (simp add: tp_get_def thread_section_def tp_wf_def)
next
  case (5 q x xs)
  then have c: "tp_queue_count q \<noteq> 0"
    using tp_ring_eq_Nil [of "length (tp_threads q)" q] by (auto simp: tp_wf_def)
  then obtain t q' where q': "take_task q = (t, q')" "tp_ok (length (tp_threads q)) q'"
    "tp_ring q = t # tp_ring q'" "tp_shutdown q' = tp_shutdown q" "tp_queue_size q' = tp_queue_size q"
    using take_task_ring [of "length (tp_threads q)" q] 5(1) by (auto simp: tp_wf_def)
  then have "t = Some x" using 5 by (cases t) (auto simp: tp_wf_def)
  then show ?case using 5 q' c
    by (intro exI [of _ q']) (auto simp: tp_get_def thread_section_def tp_wf_def tp_ok_threads)
qed

subsection \<open>The invariant of the interleavings\<close>

definition pc_live :: "('f, 'a) thread_pc \<Rightarrow> bool" where
  "pc_live pc \<longleftrightarrow> pc \<noteq> TExiting \<and> pc \<noteq> TExited"

definition live :: "nat \<Rightarrow> (nat \<Rightarrow> ('f, 'a) thread_pc) \<Rightarrow> nat set" where
  "live n pcs = {i. i < n \<and> pc_live (pcs i)}"

text \<open>\<open>thread_count\<close> counts the threads that have not left, a thread leaves only after the
  shutdown, nobody waits after it, and not every thread waits while a task is pending. The tasks
  accepted are those started, in order, followed by the ring.\<close>

definition all_waiting :: "nat \<Rightarrow> (nat \<Rightarrow> ('f, 'a) thread_pc) \<Rightarrow> bool" where
  "all_waiting n pcs \<longleftrightarrow> (\<forall>i<n. pcs i = TWaiting)"

lemma all_waiting_upd [simp]: "i < n \<Longrightarrow> pc \<noteq> TWaiting \<Longrightarrow> \<not> all_waiting n (pcs(i := pc))"
  unfolding all_waiting_def by (metis fun_upd_same)

definition tp_pool_inv :: "nat \<Rightarrow> ('f, 'a) threadpool \<Rightarrow> ('f, 'a) tp_world \<Rightarrow> bool" where
  "tp_pool_inv n p w \<longleftrightarrow> tp_ok n p
     \<and> tp_thread_count p = int (card (live n (w_pc w)))
     \<and> (if tp_shutdown p then \<forall>i. w_pc w i \<noteq> TWaiting
        else (\<forall>i. pc_live (w_pc w i)) \<and> w_destroy w = DNone)
     \<and> (all_waiting n (w_pc w) \<longrightarrow> tp_queue_count p = 0)
     \<and> map Some (w_accepted w) = w_started w @ tp_ring p"

definition tp_inv :: "nat \<Rightarrow> ('f, 'a) tp_world \<Rightarrow> bool" where
  "tp_inv n w \<longleftrightarrow> 0 < n \<and> (\<forall>i. w_pc w i = TAbsent \<longleftrightarrow> n \<le> i)
     \<and> (\<forall>i. w_pc w i = TExiting \<longleftrightarrow> w_lock w = OfThread i)
     \<and> (case w_pool w of
          None \<Rightarrow> (\<forall>i<n. w_pc w i = TExited)
            \<and> (\<exists>rest. map Some (w_accepted w) = w_started w @ rest)
        | Some p \<Rightarrow> tp_pool_inv n p w)"

lemma finite_live_threads [simp]: "finite (live n pcs)"
  by (simp add: live_def)

lemma live_same: "pc_live (pcs i) \<Longrightarrow> pc_live pc \<Longrightarrow> live n (pcs(i := pc)) = live n pcs"
  by (auto simp: live_def)

lemma live_gone: "pc_live (pcs i) \<Longrightarrow> \<not> pc_live pc \<Longrightarrow> live n (pcs(i := pc)) = live n pcs - {i}"
  by (auto simp: live_def)

lemma live_dead: "\<not> pc_live (pcs i) \<Longrightarrow> \<not> pc_live pc \<Longrightarrow> live n (pcs(i := pc)) = live n pcs"
  by (auto simp: live_def)

lemma live_wake_all [simp]: "live n (wake_all pcs) = live n pcs"
  by (auto simp: live_def wake_all_def pc_live_def)

lemma pc_live_simps [simp]:
  "pc_live TAbsent" "pc_live TLock" "pc_live TWaiting" "pc_live (TRunning t)"
  "\<not> pc_live TExiting" "\<not> pc_live TExited"
  by (simp_all add: pc_live_def)

lemma tp_invD:
  assumes "tp_inv n w"
  shows "0 < n" "w_pc w i = TAbsent \<longleftrightarrow> n \<le> i" "w_pc w i = TExiting \<longleftrightarrow> w_lock w = OfThread i"
    "w_pool w = Some p \<Longrightarrow> tp_pool_inv n p w"
    "w_pool w = None \<Longrightarrow> i < n \<Longrightarrow> w_pc w i = TExited"
  using assms by (auto simp: tp_inv_def)

lemma tp_inv_lt: "tp_inv n w \<Longrightarrow> w_pc w i \<noteq> TAbsent \<Longrightarrow> i < n"
  using tp_invD(2) [of n w i] by simp

lemma tp_inv_pool:
  assumes "tp_inv n w" "w_pc w i \<noteq> TAbsent" "w_pc w i \<noteq> TExited"
  obtains p where "w_pool w = Some p" "tp_pool_inv n p w"
  using tp_invD(4,5) [OF assms(1)] tp_inv_lt [OF assms(1,2)] assms(3) by (cases "w_pool w") auto

lemma tp_inv_SomeI:
  assumes "0 < n" "\<And>i. w_pc w i = TAbsent \<longleftrightarrow> n \<le> i" "w_pool w = Some p" "tp_pool_inv n p w"
    "\<And>i. w_pc w i = TExiting \<longleftrightarrow> w_lock w = OfThread i"
  shows "tp_inv n w"
  using assms by (simp add: tp_inv_def)

text \<open>A step of thread \<open>i\<close> from one live state to another.\<close>

lemma tp_inv_move:
  assumes inv: "tp_inv n w" and i: "w_pc w i \<noteq> TAbsent" "pc_live (w_pc w i)" "pc_live pc" "pc \<noteq> TAbsent"
    and w': "w_pool w' = Some p'" "tp_pool_inv n p' w'" "w_pc w' = (w_pc w)(i := pc)" "w_lock w' = w_lock w"
  shows "tp_inv n w'"
proof (rule tp_inv_SomeI [OF tp_invD(1) [OF inv] _ w'(1,2)])
  have "i < n" using tp_inv_lt [OF inv i(1)] .
  show "w_pc w' j = TAbsent \<longleftrightarrow> n \<le> j" for j
    using tp_invD(2) [OF inv, of j] \<open>i < n\<close> i(4) w'(3) by auto
  show "w_pc w' j = TExiting \<longleftrightarrow> w_lock w' = OfThread j" for j
    using tp_invD(3) [OF inv, of j] i(2,3) w'(3,4) by (auto simp: pc_live_def)
qed

lemma tp_inv_start:
  assumes "tp_ok n p" "0 < n" "tp_thread_count p = int n" "\<not> tp_shutdown p" "tp_queue_count p = 0"
  shows "tp_inv n (tp_start p)"
proof (rule tp_inv_SomeI [where p = p])
  have "live n (w_pc (tp_start p)) = {..<n}"
    using assms(1) by (auto simp: live_def tp_start_def tp_ok_threads)
  moreover have "tp_ring p = []" using assms(1,5) by (simp add: tp_ring_eq_Nil)
  ultimately show "tp_pool_inv n p (tp_start p)" using assms by (simp add: tp_pool_inv_def tp_start_def)
qed (use assms in \<open>auto simp: tp_start_def tp_ok_threads\<close>)

lemma tp_inv_leave:
  assumes "tp_inv n w" "w_pool w = Some p" "w_pc w i = TLock" "w_lock w = Free" "tp_shutdown p"
  shows "tp_inv n (w\<lparr>w_pool := Some (p\<lparr>tp_thread_count := tp_thread_count p - 1\<rparr>),
     w_pc := (w_pc w)(i := TExiting), w_lock := OfThread i\<rparr>)" (is "tp_inv n ?w")
proof (rule tp_inv_SomeI [OF tp_invD(1) [OF assms(1)]])
  let ?p = "p\<lparr>tp_thread_count := tp_thread_count p - 1\<rparr>"
  have i: "i < n" using tp_inv_lt [OF assms(1), of i] assms(3) by simp
  have inv: "tp_pool_inv n p w" by (rule tp_invD(4) [OF assms(1,2)])
  show "w_pc ?w j = TAbsent \<longleftrightarrow> n \<le> j" for j using tp_invD(2) [OF assms(1), of j] i by simp
  show "w_pc ?w j = TExiting \<longleftrightarrow> w_lock ?w = OfThread j" for j
    using tp_invD(3) [OF assms(1), of j] assms(4) by simp
  have "i \<in> live n (w_pc w)" using i assms(3) by (simp add: live_def)
  then have "int (card (live n (w_pc w) - {i})) = int (card (live n (w_pc w))) - 1"
    using card_Suc_Diff1 [OF finite_live_threads] by fastforce
  moreover have "tp_ring ?p = tp_ring p" "tp_ok n ?p = tp_ok n p" by (simp_all add: tp_ring_def tp_ok_def)
  ultimately show "tp_pool_inv n ?p ?w"
    using inv assms(3,5) i by (auto simp: tp_pool_inv_def live_gone)
qed simp

lemma tp_inv_section:
  assumes "tp_inv n w" "w_pool w = Some p" "w_pc w i = TLock" "w_lock w = Free" "thread_section p = (p', pc)"
  shows "tp_inv n (w\<lparr>w_pool := Some p', w_pc := (w_pc w)(i := pc),
     w_lock := (if pc = TExiting then OfThread i else Free),
     w_started := w_started w @ (case pc of TRunning t \<Rightarrow> [t] | _ \<Rightarrow> [])\<rparr>)" (is "tp_inv n ?w")
proof -
  have i: "i < n" using tp_inv_lt [OF assms(1), of i] assms(3) by simp
  have inv: "tp_pool_inv n p w" by (rule tp_invD(4) [OF assms(1,2)])
  have move: "tp_inv n ?w" if "tp_pool_inv n p' ?w" "pc_live pc" "pc \<noteq> TAbsent"
    by (rule tp_inv_move [OF assms(1), of i pc _ p']) (use that assms in \<open>auto simp: pc_live_def\<close>)
  consider (wait) "tp_queue_count p = 0" "\<not> tp_shutdown p"
    | (leave) "tp_shutdown p" | (run) "tp_queue_count p \<noteq> 0" "\<not> tp_shutdown p" by blast
  then show ?thesis
  proof cases
    case wait
    then have p: "p' = p" "pc = TWaiting" using assms(5) by (auto simp: thread_section_def)
    then have "tp_pool_inv n p' ?w" using wait inv assms(3) by (simp add: tp_pool_inv_def live_same)
    then show ?thesis using move p by simp
  next
    case leave
    then have "p' = p\<lparr>tp_thread_count := tp_thread_count p - 1\<rparr>" "pc = TExiting"
      using assms(5) by (auto simp: thread_section_def)
    then show ?thesis using tp_inv_leave [OF assms(1-4) leave] by simp
  next
    case run
    obtain t q where t: "take_task p = (t, q)" "tp_ok n q" "tp_ring p = t # tp_ring q"
      "tp_thread_count q = tp_thread_count p" "tp_shutdown q = tp_shutdown p"
      using take_task_ring [of n p] inv run by (auto simp: tp_pool_inv_def)
    then have p: "p' = q" "pc = TRunning t" using run assms(5) by (auto simp: thread_section_def)
    then have "tp_pool_inv n p' ?w" using t p run inv assms(3) i by (simp add: tp_pool_inv_def live_same)
    then show ?thesis using move p by simp
  qed
qed

lemma tp_pool_inv_to_lock:
  assumes "tp_pool_inv n p w" "i < n" "pc_live (w_pc w i)"
  shows "tp_pool_inv n p (w\<lparr>w_pc := (w_pc w)(i := TLock)\<rparr>)"
  using assms by (simp add: tp_pool_inv_def live_same)

lemma tp_inv_to_lock:
  assumes "tp_inv n w" "w_pc w i \<noteq> TAbsent" "pc_live (w_pc w i)"
  shows "tp_inv n (w\<lparr>w_pc := (w_pc w)(i := TLock)\<rparr>)"
proof -
  obtain p where p: "w_pool w = Some p" "tp_pool_inv n p w"
    using tp_inv_pool [OF assms(1,2)] assms(3) by (auto simp: pc_live_def)
  show ?thesis
    by (rule tp_inv_move [OF assms, of TLock _ p])
      (use p tp_pool_inv_to_lock [OF p(2) tp_inv_lt [OF assms(1,2)] assms(3)] in simp_all)
qed

lemma tp_inv_unlock:
  assumes "tp_inv n w" "w_pc w i = TExiting" "w_lock w = OfThread i"
  shows "tp_inv n (w\<lparr>w_pc := (w_pc w)(i := TExited), w_lock := Free\<rparr>)" (is "tp_inv n ?w")
proof -
  obtain p where p: "w_pool w = Some p" "tp_pool_inv n p w"
    using tp_inv_pool [OF assms(1), of i] assms(2) by auto
  have i: "i < n" using tp_inv_lt [OF assms(1), of i] assms(2) by simp
  show ?thesis
  proof (rule tp_inv_SomeI [OF tp_invD(1) [OF assms(1)], where p = p])
    show "w_pc ?w j = TAbsent \<longleftrightarrow> n \<le> j" for j using tp_invD(2) [OF assms(1), of j] i by simp
    show "w_pc ?w j = TExiting \<longleftrightarrow> w_lock ?w = OfThread j" for j
      using tp_invD(3) [OF assms(1), of j] assms(2,3) by simp
    have "tp_shutdown p"
    proof (rule ccontr)
      assume "\<not> tp_shutdown p"
      then have "pc_live (w_pc w i)" using p(2) by (simp add: tp_pool_inv_def)
      then show False using assms(2) by simp
    qed
    then show "tp_pool_inv n p ?w" using p(2) assms(2) i by (simp add: tp_pool_inv_def live_dead)
  qed (use p in simp)
qed

lemma threadpool_add_ok [simp]:
  "threadpool_add True True True (Some p) (Some f) a = (err, Some p', s)
     \<longleftrightarrow> add_section True f a p = (err, p', s)"
  by (auto simp: threadpool_add_def split: prod.splits)

lemma tp_inv_add:
  assumes inv: "tp_inv n w" and p: "w_pool w = Some p" "w_lock w = Free"
    and add: "add_section True f a p = (err, p', signalled)"
    and pcs: "if signalled \<and> (\<exists>j. w_pc w j = TWaiting)
           then \<exists>j. w_pc w j = TWaiting \<and> pcs = (w_pc w)(j := TLock) else pcs = w_pc w"
  shows "tp_inv n (w\<lparr>w_pool := Some p', w_pc := pcs, w_accepted := w_accepted w
             @ (if err = THREADPOOL_SUCCESS then [\<lparr>tk_function = f, tk_arg = a\<rparr>] else [])\<rparr>)"
    (is "tp_inv n ?w")
proof -
  have pinv: "tp_pool_inv n p w" by (rule tp_invD(4) [OF inv p(1)])
  show ?thesis
  proof (cases "tp_shutdown p \<or> tp_queue_count p = tp_queue_size p")
    case True
    then have "p' = p" "err \<noteq> THREADPOOL_SUCCESS" "\<not> signalled"
      using add by (auto simp: add_section_def split: if_splits)
    then have "?w = w" using pcs p by simp
    then show ?thesis using inv by simp
  next
    case False
    then have "tp_queue_count p < tp_queue_size p" using pinv by (simp add: tp_pool_inv_def tp_ok_def)
    then have q: "err = THREADPOOL_SUCCESS" "signalled" "tp_ok n p'"
      "tp_ring p' = tp_ring p @ [Some \<lparr>tk_function = f, tk_arg = a\<rparr>]"
      "tp_thread_count p' = tp_thread_count p" "\<not> tp_shutdown p'"
      using add_section_room [of n p f a] add pinv False by (auto simp: tp_pool_inv_def)
    show ?thesis
    proof (cases "\<exists>j. w_pc w j = TWaiting")
      case True
      then obtain j where j: "w_pc w j = TWaiting" "pcs = (w_pc w)(j := TLock)" using pcs q(2) by auto
      have lt: "j < n" using tp_inv_lt [OF inv, of j] j(1) by simp
      have "tp_pool_inv n p' ?w" using q j lt pinv False by (simp add: tp_pool_inv_def live_same)
      then show ?thesis by (intro tp_inv_move [OF inv, of j TLock ?w p']) (use j in simp_all)
    next
      case False
      then have pc: "pcs = w_pc w" using pcs by auto
      have "\<not> all_waiting n (w_pc w)" using tp_invD(1) [OF inv] False by (auto simp: all_waiting_def)
      then have "tp_pool_inv n p' ?w" using q pc pinv \<open>\<not> (tp_shutdown p \<or> _)\<close> by (simp add: tp_pool_inv_def)
      then show ?thesis
        by (intro tp_inv_SomeI [OF tp_invD(1) [OF inv], where p = p'])
          (use pc tp_invD(2,3) [OF inv] in simp_all)
    qed
  qed
qed

lemma tp_inv_destroy:
  assumes "tp_inv n w" "w_pool w = Some p" "w_lock w = Free" "\<not> tp_shutdown p"
  shows "tp_inv n (w\<lparr>w_pool := Some (p\<lparr>tp_shutdown := True\<rparr>), w_pc := wake_all (w_pc w),
             w_destroy := DJoin 0\<rparr>)" (is "tp_inv n ?w")
proof (rule tp_inv_SomeI [OF tp_invD(1) [OF assms(1)]])
  show "w_pc ?w i = TAbsent \<longleftrightarrow> n \<le> i" for i
    using tp_invD(2) [OF assms(1), of i] by (auto simp: wake_all_def)
  show "w_pc ?w i = TExiting \<longleftrightarrow> w_lock ?w = OfThread i" for i
    using tp_invD(3) [OF assms(1), of i] by (auto simp: wake_all_def)
  have "tp_ok n (p\<lparr>tp_shutdown := True\<rparr>) = tp_ok n p" "tp_ring (p\<lparr>tp_shutdown := True\<rparr>) = tp_ring p"
    by (simp_all add: tp_ok_def tp_ring_def)
  moreover have "\<not> all_waiting n (wake_all (w_pc w))"
    using tp_invD(1) [OF assms(1)] by (auto simp: all_waiting_def wake_all_def split: if_splits)
  moreover have "wake_all (w_pc w) i \<noteq> TWaiting" for i by (simp add: wake_all_def)
  ultimately show "tp_pool_inv n (p\<lparr>tp_shutdown := True\<rparr>) ?w"
    using tp_invD(4) [OF assms(1,2)] by (simp add: tp_pool_inv_def)
qed simp

lemma tp_inv_shutdown:
  assumes "tp_inv n w" "w_pool w = Some p" "w_destroy w \<noteq> DNone"
  shows "tp_shutdown p"
  using tp_invD(4) [OF assms(1,2)] assms(3) by (auto simp: tp_pool_inv_def split: if_splits)

lemma tp_inv_free:
  assumes "tp_inv n w" "w_pool w = Some p" "\<not> tp_thread_count p > 0" "w_lock w = Free"
  shows "\<forall>i<n. w_pc w i = TExited"
proof (intro allI impI)
  fix i assume "i < n"
  have inv: "tp_pool_inv n p w" by (rule tp_invD(4) [OF assms(1,2)])
  then have "live n (w_pc w) = {}" using assms(3) by (simp add: tp_pool_inv_def)
  then have "\<not> pc_live (w_pc w i)" using \<open>i < n\<close> by (auto simp: live_def)
  moreover have "w_pc w i \<noteq> TExiting" using tp_invD(3) [OF assms(1), of i] assms(4) by simp
  ultimately show "w_pc w i = TExited" by (auto simp: pc_live_def)
qed

lemma tp_inv_client: "client_step w w' \<Longrightarrow> tp_inv n w \<Longrightarrow> tp_inv n w'"
proof (induction rule: client_step.induct)
  case (cs_add w p f a err p' signalled pcs)
  then show ?case by (intro tp_inv_add [where p = p]) simp_all
next
  case (cs_spurious w i)
  then show ?case by (intro tp_inv_to_lock) simp_all
next
  case (cs_destroy w p)
  then show ?case by (intro tp_inv_destroy)
next
  case (cs_destroy_again w p)
  show ?case
    by (rule tp_inv_SomeI [OF tp_invD(1) [OF cs_destroy_again.prems], where p = p])
      (use cs_destroy_again tp_invD(2-4) [OF cs_destroy_again.prems] in
        \<open>simp_all add: tp_pool_inv_def\<close>)
next
  case (cs_join w p i)
  have "tp_shutdown p" by (rule tp_inv_shutdown [OF cs_join.prems cs_join.hyps(1)]) (simp add: cs_join.hyps)
  then show ?case using cs_join.prems cs_join.hyps(1) by (simp add: tp_inv_def tp_pool_inv_def)
next
  case (cs_free_kept w p i)
  have "tp_shutdown p"
    by (rule tp_inv_shutdown [OF cs_free_kept.prems cs_free_kept.hyps(1)]) (simp add: cs_free_kept.hyps)
  then show ?case using cs_free_kept.prems cs_free_kept.hyps(1) by (simp add: tp_inv_def tp_pool_inv_def)
next
  case (cs_free w p i)
  have "\<forall>i<n. w_pc w i = TExited" by (rule tp_inv_free [OF cs_free.prems]) (use cs_free in auto)
  moreover have "map Some (w_accepted w) = w_started w @ tp_ring p"
    using tp_invD(4) [OF cs_free.prems cs_free.hyps(1)] by (simp add: tp_pool_inv_def)
  ultimately show ?case using cs_free.prems by (auto simp: tp_inv_def)
qed

lemma tp_inv_thread: "thread_step i w w' \<Longrightarrow> tp_inv n w \<Longrightarrow> tp_inv n w'"
proof (induction rule: thread_step.induct)
  case (ts_section w p i p' pc)
  then show ?case by (intro tp_inv_section)
next
  case (ts_ran w i t)
  then show ?case by (intro tp_inv_to_lock) simp_all
next
  case (ts_unlock w i)
  then show ?case by (intro tp_inv_unlock)
qed

lemma tp_inv_step: "tp_step w w' \<Longrightarrow> tp_inv n w \<Longrightarrow> tp_inv n w'"
  by (auto simp: tp_step_def intro: tp_inv_client tp_inv_thread)

text \<open>What \<open>threadpool_create\<close> makes, also when it gives up, starts in the invariant.\<close>

lemma create_threads_result:
  "create_threads ok i k p = (p', b) \<Longrightarrow> tp_threads p = [0..<i] \<Longrightarrow> tp_thread_count p = int i \<Longrightarrow>
     \<exists>m\<le>k. (b \<longrightarrow> m = k) \<and> p' = p\<lparr>tp_threads := [0..<i + m], tp_thread_count := int (i + m)\<rparr>"
proof (induction ok i k p rule: create_threads.induct)
  case (1 ok i p)
  then show ?case by auto
next
  case (2 ok i k p)
  show ?case
  proof (cases "ok i")
    case False
    then show ?thesis using 2 by (intro exI [of _ 0]) auto
  next
    case True
    then obtain m where "m \<le> k" "b \<longrightarrow> m = k"
      "p' = p\<lparr>tp_threads := [0..<Suc i + m], tp_thread_count := int (Suc i + m)\<rparr>"
      using 2 by (auto simp: upt_Suc)
    then show ?thesis using True by (intro exI [of _ "Suc m"]) auto
  qed
qed

lemma created_pool_ok:
  assumes "threadpool_create env n q \<in> {Created p, CreateAborted p}"
  shows "\<exists>m. tp_ok m p \<and> tp_thread_count p = int m \<and> \<not> tp_shutdown p \<and> tp_queue_count p = 0
     \<and> m \<le> nat n \<and> (threadpool_create env n q = Created p \<longrightarrow> m = nat n \<and> 0 < n \<and> n \<le> 1000)"
proof -
  let ?p = "\<lparr>tp_threads = [], tp_task_queue = replicate (nat q) None, tp_thread_count = 0,
     tp_queue_size = q, tp_queue_front = 0, tp_queue_rear = 0, tp_queue_count = 0, tp_shutdown = False\<rparr>"
  obtain b where b: "create_threads (tc_thread_create env) 0 (nat n) ?p = (p, b)"
    and n: "0 < n" "n \<le> 1000" "0 < q" "q \<le> 65536" "threadpool_create env n q = Created p \<longrightarrow> b"
    using assms by (auto simp: threadpool_create_def Let_def split: if_splits prod.splits)
  have "\<exists>m\<le>nat n. (b \<longrightarrow> m = nat n)
      \<and> p = ?p\<lparr>tp_threads := [0..<0 + m], tp_thread_count := int (0 + m)\<rparr>"
    by (rule create_threads_result [OF b]) simp_all
  then obtain m where m: "m \<le> nat n" "b \<longrightarrow> m = nat n"
    "p = ?p\<lparr>tp_threads := [0..<m], tp_thread_count := int m\<rparr>" by auto
  have "tp_ok m p" using n unfolding m(3) by (simp add: tp_ok_def)
  moreover have "tp_thread_count p = int m" "\<not> tp_shutdown p" "tp_queue_count p = 0"
    unfolding m(3) by simp_all
  ultimately show ?thesis using m(1,2) n by blast
qed

lemma tp_inv_reach:
  assumes "threadpool_create env n q = Created p" "tp_reach p w"
  shows "tp_inv (nat n) w"
  using assms(2) unfolding tp_reach_def
proof (induction rule: rtranclp_induct)
  case base
  show ?case using created_pool_ok [of env n q p] assms(1) by (auto intro: tp_inv_start)
next
  case (step w w')
  then show ?case by (blast intro: tp_inv_step)
qed

subsection \<open>Progress\<close>

text \<open>What a thread can still do after the shutdown, as a bound on its steps.\<close>

fun pc_weight :: "('f, 'a) thread_pc \<Rightarrow> nat" where
  "pc_weight (TRunning t) = 3"
| "pc_weight TLock = 2"
| "pc_weight TExiting = 1"
| "pc_weight _ = 0"

definition steps_left :: "nat \<Rightarrow> ('f, 'a) tp_world \<Rightarrow> nat" where
  "steps_left n w = (\<Sum>i<n. pc_weight (w_pc w i))"

lemma steps_left_move:
  assumes "i < n" "w_pc w' = (w_pc w)(i := pc)" "pc_weight pc < pc_weight (w_pc w i)"
  shows "steps_left n w' < steps_left n w"
  unfolding steps_left_def assms(2)
  by (rule sum_strict_mono_ex1) (use assms in \<open>auto intro!: bexI [of _ i]\<close>)

lemma thread_moves:
  assumes inv: "tp_inv n w" and "w_lock w \<noteq> OfClient" and i: "i < n" "w_pc w i \<noteq> TWaiting" "w_pc w i \<noteq> TExited"
  shows "\<exists>j w'. thread_step j w w'"
proof (cases "w_lock w")
  case (OfThread j)
  then have "w_pc w j = TExiting" using tp_invD(3) [OF inv, of j] by simp
  then show ?thesis using OfThread by (blast intro: ts_unlock)
next
  case Free
  have "w_pc w i \<noteq> TAbsent" "w_pc w i \<noteq> TExiting"
    using tp_invD(2,3) [OF inv, of i] i(1) Free by simp_all
  moreover obtain p where p: "w_pool w = Some p" using tp_inv_pool [OF inv calculation(1) i(3)] by blast
  ultimately show ?thesis
  proof (cases "w_pc w i")
    case TLock
    obtain p' pc where "thread_section p = (p', pc)" by (cases "thread_section p")
    then show ?thesis using ts_section [OF p TLock Free] by blast
  qed (use i in \<open>auto intro: ts_ran\<close>)
qed (use assms in simp)

subsection \<open>The properties of the pool\<close>

text \<open>C4. Every accepted task is started at most once, in the order of acceptance, and until the pool
  is freed those not yet started are exactly the contents of its ring.\<close>

theorem threadpool_fifo_once:
  assumes "threadpool_create env n q = Created p" "tp_reach p w"
  shows "\<exists>pending. map Some (w_accepted w) = w_started w @ pending
     \<and> (\<forall>p'. w_pool w = Some p' \<longrightarrow> pending = tp_ring p' \<and> length pending \<le> nat (tp_queue_size p'))"
proof (cases "w_pool w")
  case None
  then show ?thesis using tp_inv_reach [OF assms] by (auto simp: tp_inv_def)
next
  case (Some p')
  have "tp_pool_inv (nat n) p' w" by (rule tp_invD(4) [OF tp_inv_reach [OF assms] Some])
  then show ?thesis using Some by (auto simp: tp_pool_inv_def tp_ok_def nat_mono)
qed

text \<open>C5. The pool is freed only when every thread has left, so that no thread touches it again.\<close>

theorem threadpool_freed_after_exit:
  assumes "threadpool_create env n q = Created p" "tp_reach p w" "w_pool w = None"
  shows "(\<forall>i. w_pc w i = (if i < nat n then TExited else TAbsent)) \<and> \<not> (\<exists>i w'. thread_step i w w')"
proof -
  note inv = tp_inv_reach [OF assms(1,2)]
  have pc: "w_pc w i = (if i < nat n then TExited else TAbsent)" for i
    using tp_invD(2,5) [OF inv, of i] assms(3) by auto
  then have "\<not> thread_step i w w'" for i w' by (auto elim!: thread_step.cases split: if_splits)
  then show ?thesis using pc by blast
qed


text \<open>C7. After the shutdown every step of a thread brings it closer to its end and no other step
  takes it back, so all threads leave after at most three steps each.\<close>

theorem threadpool_shutdown_terminates:
  assumes "threadpool_create env n q = Created p" "tp_reach p w"
    and "w_pool w = Some p'" "tp_shutdown p'"
  shows "(\<forall>i w'. thread_step i w w' \<longrightarrow> steps_left (nat n) w' < steps_left (nat n) w)
     \<and> (\<forall>w'. client_step w w' \<longrightarrow> steps_left (nat n) w' = steps_left (nat n) w)
     \<and> (steps_left (nat n) w = 0 \<longleftrightarrow> (\<forall>i<nat n. w_pc w i = TExited))"
proof (intro conjI allI impI)
  note inv = tp_inv_reach [OF assms(1,2)]
  note pinv = tp_invD(4) [OF inv assms(3)]
  have nowait: "w_pc w i \<noteq> TWaiting" for i using pinv assms(4) by (simp add: tp_pool_inv_def)
  show "steps_left (nat n) w' < steps_left (nat n) w" if s: "thread_step i w w'" for i w'
  proof -
    have "w_pc w i \<noteq> TAbsent" using s by (auto elim!: thread_step.cases)
    then have lt: "i < nat n" by (rule tp_inv_lt [OF inv])
    show ?thesis using s
    proof cases
      case (ts_section p2 p3 pc)
      then have "pc = TExiting" using assms(3,4) by (auto simp: thread_section_def)
      then show ?thesis using ts_section by (intro steps_left_move [OF lt, where pc = TExiting]) simp_all
    next
      case (ts_ran t)
      then show ?thesis by (intro steps_left_move [OF lt, where pc = TLock]) simp_all
    next
      case ts_unlock
      then show ?thesis by (intro steps_left_move [OF lt, where pc = TExited]) simp_all
    qed
  qed
  show "steps_left (nat n) w' = steps_left (nat n) w" if "client_step w w'" for w'
    using that nowait assms(3,4) by cases (auto simp: steps_left_def split: if_splits)
  have "pc_weight (w_pc w i) = 0 \<longleftrightarrow> w_pc w i = TExited" if "i < nat n" for i
    using that nowait [of i] tp_invD(2) [OF inv, of i] by (cases "w_pc w i") auto
  then show "steps_left (nat n) w = 0 \<longleftrightarrow> (\<forall>i<nat n. w_pc w i = TExited)"
    by (auto simp: steps_left_def)
qed

definition closed :: "('f, 'a) tp_world \<Rightarrow> bool" where
  "closed w \<longleftrightarrow> (case w_pool w of None \<Rightarrow> True | Some p \<Rightarrow> tp_shutdown p)"

lemma closed_step:
  assumes "tp_step w w'" "closed w"
  shows "closed w' \<and> w_started w' = w_started w \<and> w_accepted w' = w_accepted w"
  using assms unfolding tp_step_def
proof (elim disjE exE)
  assume "client_step w w'"
  then show ?thesis using assms(2)
    by cases (auto simp: closed_def add_section_rejects split: option.splits)
next
  fix i assume "thread_step i w w'"
  then show ?thesis using assms(2)
    by cases (auto simp: closed_def thread_section_def split: option.splits)
qed

text \<open>After the shutdown no task is started any more: what is pending is dropped.\<close>

theorem threadpool_shutdown_drops_tasks:
  assumes "w_pool w = Some p" "tp_shutdown p" "tp_step\<^sup>*\<^sup>* w w'"
  shows "w_started w' = w_started w \<and> w_accepted w' = w_accepted w"
proof -
  have "closed w" using assms(1,2) by (simp add: closed_def)
  from assms(3) this have "closed w' \<and> w_started w' = w_started w \<and> w_accepted w' = w_accepted w"
    by (induction rule: rtranclp_induct) (auto dest: closed_step)
  then show ?thesis by simp
qed

text \<open>A second \<open>threadpool_destroy\<close> returns with the lock, and from then on no lock is granted:
  no task is accepted or started, no thread leaves and the pool is never freed.\<close>

theorem threadpool_destroy_twice_blocks:
  assumes "client_step w0 w" "w_lock w0 = Free" "w_lock w = OfClient" "tp_step\<^sup>*\<^sup>* w w'"
  shows "w_lock w' = OfClient \<and> w_accepted w' = w_accepted w \<and> w_started w' = w_started w
     \<and> w_pool w' = w_pool w \<and> (\<forall>i. w_pc w i = TLock \<longrightarrow> w_pc w' i = TLock)"
  using assms(4)
proof (induction rule: rtranclp_induct)
  case (step u v)
  have "w_lock v = OfClient \<and> w_accepted v = w_accepted u \<and> w_started v = w_started u
     \<and> w_pool v = w_pool u \<and> (\<forall>i. w_pc u i = TLock \<longrightarrow> w_pc v i = TLock)"
    using step(2) unfolding tp_step_def
  proof (elim disjE exE)
    assume "client_step u v"
    then show ?thesis using step.IH by cases auto
  next
    fix i assume "thread_step i u v"
    then show ?thesis using step.IH by cases auto
  qed
  then show ?case using step.IH by simp
qed (use assms(3) in simp)

subsection \<open>A pool of two threads\<close>

definition two_env :: tp_create_env where
  "two_env = \<lparr>tc_pool_mem = True, tc_threads_mem = True, tc_queue_mem = True, tc_sync_init = True,
     tc_thread_create = (\<lambda>_. True)\<rparr>"

definition two_pool :: "(nat, nat) threadpool" where
  "two_pool = \<lparr>tp_threads = [0, 1], tp_task_queue = [None], tp_thread_count = 2, tp_queue_size = 1,
     tp_queue_front = 0, tp_queue_rear = 0, tp_queue_count = 0, tp_shutdown = False\<rparr>"

definition two_down :: "(nat, nat) threadpool" where "two_down = two_pool\<lparr>tp_shutdown := True\<rparr>"

definition two_down_world :: "(nat, nat) tp_world" where
  "two_down_world = (tp_start two_pool)\<lparr>w_pool := Some two_down, w_destroy := DJoin 0\<rparr>"

lemma two_created: "threadpool_create two_env 2 1 = Created two_pool"
  by (simp add: threadpool_create_def two_env_def two_pool_def numeral_2_eq_2)

lemma tp_reach_start: "tp_reach p (tp_start p)"
  by (simp add: tp_reach_def)

lemma tp_reach_step: "tp_reach p w \<Longrightarrow> tp_step w w' \<Longrightarrow> tp_reach p w'"
  by (simp add: tp_reach_def)

lemma two_down_reach: "tp_reach two_pool two_down_world"
proof (rule tp_reach_step [OF tp_reach_start])
  have "wake_all (w_pc (tp_start two_pool)) = w_pc (tp_start two_pool)"
    by (auto simp: wake_all_def tp_start_def)
  then show "tp_step (tp_start two_pool) two_down_world"
    using cs_destroy [of "tp_start two_pool" two_pool]
    by (simp add: tp_step_def two_down_world_def two_down_def tp_start_def two_pool_def)
qed

lemma two_down_leave:
  "thread_step 0 two_down_world (two_down_world\<lparr>w_pool := Some (two_down\<lparr>tp_thread_count := 1\<rparr>),
     w_pc := (w_pc two_down_world)(0 := TExiting), w_lock := OfThread 0\<rparr>)"
  using ts_section [of two_down_world two_down 0 "two_down\<lparr>tp_thread_count := 1\<rparr>" TExiting]
  by (simp add: two_down_world_def tp_start_def two_pool_def two_down_def thread_section_def)

text \<open>The loop that joins the threads is bounded by a count the leaving threads decrease: with two
  threads it can end after one join; the pool is then not freed, the other thread still runs, and
  the call reports success.\<close>

theorem threadpool_destroy_may_leak:
  "\<exists>w. threadpool_create two_env 2 1 = Created two_pool \<and> tp_reach two_pool w
     \<and> w_destroy w = DReturned THREADPOOL_SUCCESS \<and> w_pool w \<noteq> None \<and> w_joined w = [0] \<and> w_pc w 1 = TLock"
proof -
  let ?w0 = two_down_world
  let ?p = "two_down\<lparr>tp_thread_count := 1\<rparr>"
  let ?w1 = "?w0\<lparr>w_pool := Some ?p, w_pc := (w_pc ?w0)(0 := TExiting), w_lock := OfThread 0\<rparr>"
  let ?w2 = "?w1\<lparr>w_pc := (w_pc ?w1)(0 := TExited), w_lock := Free\<rparr>"
  let ?w3 = "?w2\<lparr>w_destroy := DJoin 1, w_joined := w_joined ?w2 @ [0]\<rparr>"
  let ?w4 = "?w3\<lparr>w_destroy := DReturned THREADPOOL_SUCCESS\<rparr>"
  have "thread_step 0 ?w0 ?w1" by (rule two_down_leave)
  moreover have "thread_step 0 ?w1 ?w2" by (rule ts_unlock) simp_all
  moreover have "client_step ?w2 ?w3"
    using cs_join [of ?w2 ?p 0] by (simp add: two_down_world_def two_down_def two_pool_def)
  moreover have "client_step ?w3 ?w4" by (rule cs_free_kept [of _ ?p 1]) (simp_all add: two_down_def two_pool_def)
  ultimately have "tp_reach two_pool ?w4"
    using two_down_reach by (meson tp_reach_step tp_step_def)
  then show ?thesis using two_created
    by (intro exI [of _ ?w4]) (simp add: two_down_world_def tp_start_def two_pool_def)
qed

theorem threadpool_fifo_once_witness:
  "\<exists>pending. map Some (w_accepted two_down_world) = w_started two_down_world @ pending
     \<and> pending = tp_ring two_down"
  using threadpool_fifo_once [OF two_created two_down_reach]
  by (auto simp: two_down_world_def)


theorem threadpool_shutdown_terminates_witness:
  "\<exists>w. thread_step 0 two_down_world w \<and> steps_left 2 w < steps_left 2 two_down_world"
  using threadpool_shutdown_terminates [OF two_created two_down_reach, of two_down] two_down_leave
  by (auto simp: two_down_world_def two_down_def)

theorem threadpool_shutdown_drops_tasks_witness:
  "\<exists>w. tp_step two_down_world w \<and> w_pc w 0 = TExiting \<and> w_started w = []"
proof -
  let ?w = "two_down_world\<lparr>w_pool := Some (two_down\<lparr>tp_thread_count := 1\<rparr>),
     w_pc := (w_pc two_down_world)(0 := TExiting), w_lock := OfThread 0\<rparr>"
  have s: "tp_step two_down_world ?w" using two_down_leave by (auto simp: tp_step_def)
  have d: "w_pool two_down_world = Some two_down" "tp_shutdown two_down"
    by (simp_all add: two_down_world_def two_down_def)
  have "w_started ?w = w_started two_down_world"
    using threadpool_shutdown_drops_tasks [OF d r_into_rtranclp, OF s] by blast
  then show ?thesis using s by (intro exI [of _ ?w]) (simp add: two_down_world_def tp_start_def)
qed

theorem threadpool_destroy_twice_blocks_witness:
  "\<exists>w. client_step two_down_world w \<and> {u. tp_step\<^sup>*\<^sup>* w u} \<subseteq> {u. w_lock u = OfClient}"
proof -
  let ?w = "two_down_world\<lparr>w_lock := OfClient\<rparr>"
  have "client_step two_down_world ?w"
    by (rule cs_destroy_again [of _ two_down]) (simp_all add: two_down_world_def tp_start_def two_down_def)
  moreover have "w_lock two_down_world = Free" by (simp add: two_down_world_def tp_start_def)
  ultimately show ?thesis using threadpool_destroy_twice_blocks [of two_down_world ?w] by auto
qed

theorem threadpool_freed_after_exit_witness:
  "\<exists>w. tp_reach two_pool w \<and> w_pool w = None \<and> w_pc w 0 = TExited \<and> \<not> (\<exists>i w'. thread_step i w w')"
proof -
  let ?w0 = two_down_world
  let ?p = "two_down\<lparr>tp_thread_count := 1\<rparr>" and ?q = "two_down\<lparr>tp_thread_count := 0\<rparr>"
  let ?w1 = "?w0\<lparr>w_pool := Some ?p, w_pc := (w_pc ?w0)(0 := TExiting), w_lock := OfThread 0\<rparr>"
  let ?w2 = "?w1\<lparr>w_pc := (w_pc ?w1)(0 := TExited), w_lock := Free\<rparr>"
  let ?w3 = "?w2\<lparr>w_pool := Some ?q, w_pc := (w_pc ?w2)(1 := TExiting), w_lock := OfThread 1\<rparr>"
  let ?w4 = "?w3\<lparr>w_pc := (w_pc ?w3)(1 := TExited), w_lock := Free\<rparr>"
  let ?w5 = "?w4\<lparr>w_pool := None, w_destroy := DReturned THREADPOOL_SUCCESS\<rparr>"
  have "thread_step 0 ?w0 ?w1" by (rule two_down_leave)
  moreover have "thread_step 0 ?w1 ?w2" by (rule ts_unlock) simp_all
  moreover have "thread_step 1 ?w2 ?w3"
    using ts_section [of ?w2 ?p 1 ?q TExiting]
    by (simp add: two_down_world_def tp_start_def two_pool_def two_down_def thread_section_def)
  moreover have "thread_step 1 ?w3 ?w4" by (rule ts_unlock) simp_all
  moreover have "client_step ?w4 ?w5"
    by (rule cs_free [of _ ?q 0]) (simp_all add: two_down_world_def)
  ultimately have r: "tp_reach two_pool ?w5"
    using two_down_reach by (meson tp_reach_step tp_step_def)
  then show ?thesis using threadpool_freed_after_exit [OF two_created r]
    by (intro exI [of _ ?w5]) simp
qed

end
