(* ===== verification/Pipe_Io.thy ===== *)
theory Pipe_Io
  imports Bounded_Queue
begin

text \<open>
  Pipes and records of the older process pool: \<^verbatim>\<open>ProcessPool/utils.c\<close> (lines 31-137) and the
  structures of \<^verbatim>\<open>ProcessPool/process_pool.h\<close>. The kernel keeps the open descriptors of the
  master and the bytes in each pipe; \<open>pipe\<close> takes the lowest free descriptors, as POSIX
  documents. Each \<open>read\<close> or \<open>write\<close> gets its outcome from a list; an exhausted list is a call
  that has not returned yet (\<open>Blocked\<close>).
\<close>

subsection \<open>Records\<close>

definition PP_MAX_WORKERS :: int where "PP_MAX_WORKERS = 32"
definition MAX_TASK_QUEUE :: int where "MAX_TASK_QUEUE = 1024"
definition MAX_TASK_DATA :: int where "MAX_TASK_DATA = 1024"

record pp_task =
  pt_task_id :: u32
  pt_data :: "u8 list"
  pt_data_len :: u32

record pp_result =
  pr_task_id :: u32
  pr_result_code :: u32
  pr_result_data :: "u8 list"
  pr_result_len :: u32

text \<open>The structures as they are written to a pipe: \<open>int\<close>s of four bytes and no padding.\<close>

definition enc_task :: "pp_task \<Rightarrow> u8 list" where
  "enc_task t = enc32 (pt_task_id t) @ pt_data t @ enc32 (pt_data_len t)"

definition dec_task :: "u8 list \<Rightarrow> pp_task" where
  "dec_task bs = \<lparr>pt_task_id = dec32 (take 4 bs), pt_data = take 1024 (drop 4 bs),
     pt_data_len = dec32 (drop 1028 bs)\<rparr>"

definition enc_result :: "pp_result \<Rightarrow> u8 list" where
  "enc_result r = enc32 (pr_task_id r) @ enc32 (pr_result_code r) @ pr_result_data r
     @ enc32 (pr_result_len r)"

definition dec_result :: "u8 list \<Rightarrow> pp_result" where
  "dec_result bs = \<lparr>pr_task_id = dec32 (take 4 bs), pr_result_code = dec32 (take 4 (drop 4 bs)),
     pr_result_data = take 1024 (drop 8 bs), pr_result_len = dec32 (drop 1032 bs)\<rparr>"

definition sizeof_task :: nat where "sizeof_task = 1032"
definition sizeof_result :: nat where "sizeof_result = 1036"

subsection \<open>Reading and writing\<close>

text \<open>\<open>RGot n\<close>: the kernel hands over at most \<open>n\<close> of the bytes there are; nothing at all is end
  of file. \<open>WPut n\<close>: it takes at most \<open>n\<close> bytes.\<close>

datatype read_res = RGot nat | RIntr | RAgain | RError
datatype write_res = WPut nat | WIntr | WAgain | WError

text \<open>The return value, the bytes in the buffer and what stays in the pipe.\<close>

fun safe_read ::
  "nat \<Rightarrow> u8 list \<Rightarrow> u8 list \<Rightarrow> read_res list \<Rightarrow> (int \<times> u8 list \<times> u8 list) outcome" where
  "safe_read count got pipe rs =
     (if count \<le> length got then Done (int (length got), got, pipe)
      else case rs of [] \<Rightarrow> Blocked
        | RIntr # rs' \<Rightarrow> safe_read count got pipe rs'
        | RAgain # rs' \<Rightarrow> Done (int (length got), got, pipe)
        | RError # rs' \<Rightarrow> Done (- 1, got, pipe)
        | RGot n # rs' \<Rightarrow>
            (let bs = take (min n (count - length got)) pipe
             in if bs = [] then Done (int (length got), got, pipe)
                else safe_read count (got @ bs) (drop (length bs) pipe) rs'))"

text \<open>The return value and the bytes that went into the pipe.\<close>

fun safe_write :: "u8 list \<Rightarrow> nat \<Rightarrow> write_res list \<Rightarrow> (int \<times> u8 list) outcome" where
  "safe_write data put ws =
     (if length data \<le> put then Done (int put, data)
      else case ws of [] \<Rightarrow> Blocked
        | WIntr # ws' \<Rightarrow> safe_write data put ws'
        | WAgain # ws' \<Rightarrow> Done (int put, take put data)
        | WError # ws' \<Rightarrow> Done (- 1, take put data)
        | WPut n # ws' \<Rightarrow> safe_write data (put + min n (length data - put)) ws')"

declare safe_read.simps [simp del] safe_write.simps [simp del]

subsection \<open>Descriptors\<close>

datatype open_file = ReadEnd nat | WriteEnd nat | OtherFile

record kernel =
  k_fds :: "int \<rightharpoonup> open_file"
  k_limit :: nat
  k_next_pipe :: nat
  k_nonblock :: "open_file set"
  k_pipe :: "nat \<Rightarrow> u8 list"

definition low_fd :: "nat \<Rightarrow> (int \<rightharpoonup> open_file) \<Rightarrow> int option" where
  "low_fd limit t = find (\<lambda>fd. t fd = None) (map int [0..<limit])"

definition sys_pipe :: "'z kernel_scheme \<Rightarrow> ((int \<times> int) \<times> 'z kernel_scheme) option" where
  "sys_pipe k =
     (case low_fd (k_limit k) (k_fds k) of None \<Rightarrow> None
      | Some r \<Rightarrow>
          (let t1 = (k_fds k)(r \<mapsto> ReadEnd (k_next_pipe k))
           in case low_fd (k_limit k) t1 of None \<Rightarrow> None
              | Some w \<Rightarrow> Some ((r, w), k\<lparr>k_fds := t1(w \<mapsto> WriteEnd (k_next_pipe k)),
                  k_next_pipe := k_next_pipe k + 1, k_pipe := (k_pipe k)(k_next_pipe k := [])\<rparr>)))"

definition sys_close :: "int \<Rightarrow> 'z kernel_scheme \<Rightarrow> 'z kernel_scheme" where
  "sys_close fd k = k\<lparr>k_fds := (k_fds k)(fd := None)\<rparr>"

definition set_nonblocking :: "bool \<Rightarrow> bool \<Rightarrow> int \<Rightarrow> 'z kernel_scheme \<Rightarrow> int \<times> 'z kernel_scheme" where
  "set_nonblocking getfl_ok setfl_ok fd k =
     (case k_fds k fd of None \<Rightarrow> (- 1, k)
      | Some f \<Rightarrow> if \<not> getfl_ok then (- 1, k)
                  else if \<not> setfl_ok then (- 1, k)
                  else (0, k\<lparr>k_nonblock := insert f (k_nonblock k)\<rparr>))"

record pipe_env =
  pe_pipe :: bool
  pe_getfl :: bool
  pe_setfl :: bool

text \<open>The array \<open>pipefd\<close> keeps its old values when \<open>pipe\<close> fails and the closed ones when
  \<open>set_nonblocking\<close> does.\<close>

definition create_pipe_pair ::
  "pipe_env \<Rightarrow> int \<times> int \<Rightarrow> 'z kernel_scheme \<Rightarrow> int \<times> (int \<times> int) \<times> 'z kernel_scheme" where
  "create_pipe_pair env pipefd k =
     (case (if pe_pipe env then sys_pipe k else None) of None \<Rightarrow> (- 1, pipefd, k)
      | Some ((r, w), k1) \<Rightarrow>
          (case set_nonblocking (pe_getfl env) (pe_setfl env) r k1 of (rc, k2) \<Rightarrow>
             if rc = - 1 then (- 1, (r, w), sys_close w (sys_close r k2)) else (0, (r, w), k2)))"

definition close_pipe_pair :: "int \<times> int \<Rightarrow> 'z kernel_scheme \<Rightarrow> (int \<times> int) \<times> 'z kernel_scheme" where
  "close_pipe_pair pipefd k =
     (case pipefd of (a, b) \<Rightarrow>
        let k1 = (if a \<noteq> - 1 then sys_close a k else k)
        in ((- 1, - 1), if b \<noteq> - 1 then sys_close b k1 else k1))"

subsection \<open>Facts\<close>

lemma dec_enc_task: "length (pt_data t) = 1024 \<Longrightarrow> dec_task (enc_task t) = t"
  by (simp add: dec_task_def enc_task_def dec_enc32)

lemma dec_enc_result: "length (pr_result_data r) = 1024 \<Longrightarrow> dec_result (enc_result r) = r"
  by (simp add: dec_result_def enc_result_def dec_enc32)

lemma length_enc_task [simp]: "length (enc_task t) = 8 + length (pt_data t)"
  by (simp add: enc_task_def)

lemma length_enc_result [simp]: "length (enc_result r) = 12 + length (pr_result_data r)"
  by (simp add: enc_result_def)

lemma low_fd_Some: "low_fd n t = Some fd \<Longrightarrow> 0 \<le> fd \<and> fd < int n \<and> t fd = None"
  by (auto simp: low_fd_def find_Some_iff)

lemma sys_pipe_Some:
  assumes "sys_pipe k = Some ((r, w), k')"
  shows "0 \<le> r \<and> 0 \<le> w \<and> r \<noteq> w \<and> k_fds k r = None \<and> k_fds k w = None
     \<and> k' = k\<lparr>k_fds := (k_fds k)(r \<mapsto> ReadEnd (k_next_pipe k), w \<mapsto> WriteEnd (k_next_pipe k)),
         k_next_pipe := k_next_pipe k + 1, k_pipe := (k_pipe k)(k_next_pipe k := [])\<rparr>"
  using assms by (auto simp: sys_pipe_def Let_def split: option.splits dest!: low_fd_Some split: if_splits)

text \<open>A pipe that could not be set up leaves every descriptor as it was.\<close>

lemma create_pipe_pair_cases:
  "(\<exists>k'. create_pipe_pair env fds k = (- 1, fds, k))
   \<or> (\<exists>r w k1. sys_pipe k = Some ((r, w), k1)
        \<and> (create_pipe_pair env fds k = (- 1, (r, w), k1\<lparr>k_fds := k_fds k\<rparr>)
           \<or> create_pipe_pair env fds k = (0, (r, w), k1\<lparr>k_nonblock := insert (ReadEnd (k_next_pipe k)) (k_nonblock k)\<rparr>)))"
proof (cases "if pe_pipe env then sys_pipe k else None")
  case None
  then show ?thesis by (simp add: create_pipe_pair_def)
next
  case (Some x)
  then obtain r w k1 where p: "sys_pipe k = Some ((r, w), k1)" "pe_pipe env"
    by (cases x) (auto split: if_splits)
  note f = sys_pipe_Some [OF p(1)]
  have "k_fds (sys_close w (sys_close r k1)) = k_fds k"
    using f by (auto simp: sys_close_def)
  then have "sys_close w (sys_close r k1) = k1\<lparr>k_fds := k_fds k\<rparr>" by (simp add: sys_close_def)
  then show ?thesis using p f
    by (auto simp: create_pipe_pair_def set_nonblocking_def)
qed

text \<open>Equations of the loops by the next call's outcome.\<close>

lemma safe_read_simps:
  "count \<le> length got \<Longrightarrow> safe_read count got pipe rs = Done (int (length got), got, pipe)"
  "length got < count \<Longrightarrow> safe_read count got pipe [] = Blocked"
  "length got < count \<Longrightarrow> safe_read count got pipe (RIntr # rs) = safe_read count got pipe rs"
  "length got < count \<Longrightarrow> safe_read count got pipe (RAgain # rs) = Done (int (length got), got, pipe)"
  "length got < count \<Longrightarrow> safe_read count got pipe (RError # rs) = Done (- 1, got, pipe)"
  "length got < count \<Longrightarrow> safe_read count got pipe (RGot n # rs)
     = (let bs = take (min n (count - length got)) pipe
        in if bs = [] then Done (int (length got), got, pipe)
           else safe_read count (got @ bs) (drop (length bs) pipe) rs)"
  by (subst safe_read.simps, simp)+

lemma safe_write_simps:
  "length data \<le> n \<Longrightarrow> safe_write data n ws = Done (int n, data)"
  "n < length data \<Longrightarrow> safe_write data n [] = Blocked"
  "n < length data \<Longrightarrow> safe_write data n (WIntr # ws) = safe_write data n ws"
  "n < length data \<Longrightarrow> safe_write data n (WAgain # ws) = Done (int n, take n data)"
  "n < length data \<Longrightarrow> safe_write data n (WError # ws) = Done (- 1, take n data)"
  "n < length data \<Longrightarrow> safe_write data n (WPut m # ws) = safe_write data (n + min m (length data - n)) ws"
  by (subst safe_write.simps, simp)+

lemma take_drop_length_take: "take k xs @ drop (length (take k xs)) xs = xs"
  by (cases "k \<le> length xs") (simp_all add: min_absorb1 min_absorb2)

text \<open>What is read is a prefix of what was there and the rest stays, in every case.\<close>

lemma safe_read_result:
  "safe_read count got pipe rs = Done (n, bs, rest) \<Longrightarrow> length got \<le> count \<Longrightarrow>
     bs @ rest = got @ pipe \<and> length got \<le> length bs \<and> length bs \<le> count
     \<and> (n = int (length bs) \<or> n = - 1)"
proof (induction rs arbitrary: got pipe)
  case Nil
  then show ?case by (cases "count \<le> length got") (auto simp: safe_read_simps)
next
  case (Cons r rs)
  show ?case
  proof (cases "count \<le> length got")
    case True
    then show ?thesis using Cons.prems by (auto simp: safe_read_simps)
  next
    case False
    then have lt: "length got < count" by simp
    show ?thesis
    proof (cases r)
      case (RGot m)
      let ?bs = "take (min m (count - length got)) pipe"
      show ?thesis
      proof (cases "?bs = []")
        case True
        then show ?thesis using Cons.prems lt RGot by (auto simp: safe_read_simps Let_def)
      next
        case ne: False
        define g p where "g = got @ ?bs" and "p = drop (length ?bs) pipe"
        have "safe_read count g p rs = Done (n, bs, rest)"
          using Cons.prems(1) unfolding RGot safe_read_simps(6) [OF lt] Let_def if_not_P [OF ne] g_def p_def .
        moreover have "length g \<le> count" using lt by (simp add: g_def)
        ultimately have "bs @ rest = g @ p \<and> length g \<le> length bs \<and> length bs \<le> count
            \<and> (n = int (length bs) \<or> n = - 1)" by (rule Cons.IH)
        moreover have "g @ p = got @ pipe"
          by (simp only: g_def p_def append_assoc take_drop_length_take)
        moreover have "length got \<le> length g" by (simp add: g_def)
        ultimately show ?thesis by simp
      qed
    qed (use Cons lt in \<open>auto simp: safe_read_simps\<close>)
  qed
qed

text \<open>However the kernel slices the bytes and whatever interrupts, enough calls fill the buffer.\<close>

definition read_progress :: "read_res list \<Rightarrow> nat" where
  "read_progress rs = sum_list (map (\<lambda>r. case r of RGot n \<Rightarrow> n | _ \<Rightarrow> 0) rs)"

lemma safe_read_full:
  assumes "set rs \<subseteq> insert RIntr (RGot ` {0<..})" "length got \<le> count"
    "count - length got \<le> read_progress rs" "count - length got \<le> length pipe"
  shows "safe_read count got pipe rs
     = Done (int count, got @ take (count - length got) pipe, drop (count - length got) pipe)"
  using assms
proof (induction rs arbitrary: got pipe)
  case Nil
  then show ?case by (simp add: safe_read_simps read_progress_def)
next
  case (Cons r rs)
  show ?case
  proof (cases "length got = count")
    case True
    then show ?thesis by (simp add: safe_read_simps)
  next
    case False
    then have lt: "length got < count" using Cons.prems(2) by simp
    have rs: "set rs \<subseteq> insert RIntr (RGot ` {0<..})" using Cons.prems(1) by simp
    from Cons.prems(1) consider "r = RIntr" | m where "r = RGot m" "0 < m" by auto
    then show ?thesis
    proof cases
      case 1
      then show ?thesis using Cons.IH [OF rs Cons.prems(2), of pipe] Cons.prems lt
        by (simp add: safe_read_simps read_progress_def)
    next
      case (2 m)
      define k where "k = min m (count - length got)"
      have k: "0 < k" "k \<le> count - length got" "k \<le> length pipe" "k \<le> m"
        using 2(2) lt Cons.prems(4) by (auto simp: k_def)
      have p: "length (got @ take k pipe) \<le> count"
        "count - length (got @ take k pipe) \<le> length (drop k pipe)"
        using k Cons.prems(4) by simp_all
      have q: "count - length (got @ take k pipe) \<le> read_progress rs"
        using k(3) Cons.prems(3) 2(1) by (auto simp: read_progress_def k_def)
      have "take k pipe \<noteq> []" using k(1,3) by auto
      then have "safe_read count got pipe (r # rs) = safe_read count (got @ take k pipe) (drop k pipe) rs"
        using 2 lt k by (simp add: safe_read_simps Let_def k_def [symmetric])
      moreover have "take k pipe @ take (count - length got - k) (drop k pipe) = take (count - length got) pipe"
        using take_add [of k "count - length got - k" pipe] k(2)
        by (simp only: le_add_diff_inverse)
      ultimately show ?thesis using Cons.IH [OF rs p(1) q p(2)] k by (simp add: min_def)
    qed
  qed
qed

lemma safe_write_result:
  "safe_write data n ws = Done (r, bs) \<Longrightarrow> n \<le> length data \<Longrightarrow>
     (\<exists>m\<le>length data. n \<le> m \<and> bs = take m data \<and> (r = int m \<or> r = - 1))"
proof (induction ws arbitrary: n)
  case Nil
  then show ?case by (cases "length data \<le> n") (auto simp: safe_write_simps)
next
  case (Cons w ws)
  show ?case
  proof (cases "length data \<le> n")
    case True
    then show ?thesis using Cons.prems by (auto simp: safe_write_simps)
  next
    case False
    then have lt: "n < length data" by simp
    show ?thesis
    proof (cases w)
      case (WPut m)
      then have "safe_write data (n + min m (length data - n)) ws = Done (r, bs)"
        using Cons.prems(1) lt by (simp add: safe_write_simps)
      moreover have "n + min m (length data - n) \<le> length data" using lt by simp
      ultimately show ?thesis using Cons.IH by (meson le_add1 le_trans)
    next
      case WAgain
      then show ?thesis using Cons.prems lt by (intro exI [of _ n]) (simp add: safe_write_simps)
    next
      case WError
      then show ?thesis using Cons.prems lt by (intro exI [of _ n]) (simp add: safe_write_simps)
    qed (use Cons lt in \<open>simp add: safe_write_simps\<close>)
  qed
qed

lemma safe_write_full:
  "safe_write data 0 ws = Done (int (length data), bs) \<Longrightarrow> bs = data"
  by (drule safe_write_result) auto

subsection \<open>Properties\<close>

text \<open>Any record written whole is read back whole and decoded to what was sent, however the kernel
  slices the reads, and nothing after it is touched.\<close>

theorem pipe_task_roundtrip:
  assumes "length (pt_data t) = 1024" "safe_write (enc_task t) 0 ws = Done (int sizeof_task, sent)"
    and "set rs \<subseteq> insert RIntr (RGot ` {0<..})" "sizeof_task \<le> read_progress rs"
  shows "\<exists>bs. safe_read sizeof_task [] (sent @ later) rs = Done (int sizeof_task, bs, later)
     \<and> dec_task bs = t"
proof -
  have l: "length (enc_task t) = sizeof_task" using assms(1) by (simp add: sizeof_task_def)
  have s: "sent = enc_task t" using safe_write_full assms(2) l by metis
  show ?thesis
    using safe_read_full [OF assms(3), of "[]" sizeof_task "sent @ later"] assms(1,4) s l
    by (simp add: dec_enc_task)
qed

theorem pipe_task_roundtrip_witness:
  "\<exists>bs. safe_read sizeof_task [] (enc_task \<lparr>pt_task_id = 7, pt_data = replicate 1024 65, pt_data_len = 3\<rparr> @ [1])
     [RGot 1000, RIntr, RGot 500] = Done (int sizeof_task, bs, [1]) \<and> pt_task_id (dec_task bs) = 7"
proof -
  let ?t = "\<lparr>pt_task_id = 7, pt_data = replicate 1024 65, pt_data_len = 3\<rparr>"
  have l: "length (pt_data ?t) = 1024" by simp
  then have n: "0 < length (enc_task ?t)" by simp
  have "safe_write (enc_task ?t) 0 [WPut 2000] = Done (int sizeof_task, enc_task ?t)"
    unfolding safe_write_simps(6) [OF n] by (simp add: safe_write_simps(1) sizeof_task_def)
  moreover have "set [RGot 1000, RIntr, RGot 500] \<subseteq> insert RIntr (RGot ` {0<..})"
    "sizeof_task \<le> read_progress [RGot 1000, RIntr, RGot 500]"
    by (simp_all add: sizeof_task_def read_progress_def)
  ultimately show ?thesis using pipe_task_roundtrip [OF l, of _ _ _ "[1]"] by fastforce
qed

text \<open>A non-blocking pipe that is empty and one at end of file look the same to the callers of
  \<open>safe_read\<close>: both give 0, which they take for the other side having closed the pipe.\<close>

theorem safe_read_again_is_eof:
  "safe_read sizeof_result [] pipe (RAgain # rs) = Done (0, [], pipe)
   \<and> safe_read sizeof_result [] [] (RGot n # rs) = Done (0, [], [])"
  by (simp add: safe_read_simps sizeof_result_def)

end
