(* ===== verification/Process_Pool.thy ===== *)
theory Process_Pool
  imports Pipe_Io
begin

text \<open>
  The older process pool: \<^verbatim>\<open>ProcessPool/process_pool.c\<close>, \<^verbatim>\<open>ProcessPool/worker.c\<close> and the
  rest of \<^verbatim>\<open>ProcessPool/utils.c\<close>. The system is the kernel of \<open>Pipe_Io\<close> with the state of every
  process and the handler each child was forked with. The outcomes of system calls, the clock and
  the flags that signals or other threads set are arguments, given round by round for the loops; a
  loop whose rounds run out has not returned (\<open>Blocked\<close>). Log output is not modelled.
\<close>

datatype worker_status = WORKER_IDLE | WORKER_BUSY | WORKER_DEAD

record worker_process =
  pw_pid :: int
  pw_status :: worker_status
  pw_to :: "int \<times> int"
  pw_from :: "int \<times> int"
  pw_last_active :: u64
  pw_current_task_id :: u32

record task_queue =
  tq_tasks :: "pp_task list"
  tq_head :: int
  tq_tail :: int
  tq_count :: int

record process_pool =
  pp_workers :: "worker_process list"
  pp_worker_count :: int
  pp_task_queue :: task_queue
  pp_running :: bool
  pp_next_task_id :: u32
  pp_read_fds :: "int set"
  pp_max_fd :: int

text \<open>A handler gets the data, its length and the zeroed result buffer, and returns its code, the
  buffer and the result length.\<close>

type_synonym task_handler = "u8 list \<Rightarrow> u32 \<Rightarrow> u8 list \<Rightarrow> u32 \<times> u8 list \<times> u32"

datatype child = ChildRunning | ChildZombie | ChildGone

record sys = kernel +
  s_procs :: "int \<Rightarrow> child"
  s_handlers :: "int \<Rightarrow> task_handler option"

subsection \<open>Signals\<close>

definition SIGINT :: int where "SIGINT = 2"
definition SIGTERM :: int where "SIGTERM = 15"

text \<open>The flag \<open>pool_should_exit\<close> after a signal.\<close>

definition master_signal_handler :: "int \<Rightarrow> bool \<Rightarrow> bool" where
  "master_signal_handler sig flag = (if sig = SIGTERM \<or> sig = SIGINT then True else flag)"

text \<open>The calls of \<open>sigaction\<close> with their outcomes, in order.\<close>

fun setup_signals :: "bool list \<Rightarrow> int" where
  "setup_signals [] = 0"
| "setup_signals (ok # oks) = (if \<not> ok then - 1 else setup_signals oks)"

subsection \<open>The task queue\<close>

definition pp_zero_task :: pp_task where
  "pp_zero_task = \<lparr>pt_task_id = 0, pt_data = replicate 1024 0, pt_data_len = 0\<rparr>"

definition init_task_queue :: "task_queue \<Rightarrow> task_queue" where
  "init_task_queue q = q\<lparr>tq_head := 0, tq_tail := 0, tq_count := 0\<rparr>"

definition enqueue_task :: "task_queue \<Rightarrow> pp_task \<Rightarrow> int \<times> task_queue" where
  "enqueue_task q task =
     (if tq_count q \<ge> MAX_TASK_QUEUE then (- 1, q)
      else (0, q\<lparr>tq_tasks := (tq_tasks q)[nat (tq_tail q) := task],
                 tq_tail := (tq_tail q + 1) mod MAX_TASK_QUEUE, tq_count := tq_count q + 1\<rparr>))"

definition dequeue_task :: "task_queue \<Rightarrow> int \<times> pp_task option \<times> task_queue" where
  "dequeue_task q =
     (if tq_count q = 0 then (- 1, None, q)
      else (0, Some (tq_tasks q ! nat (tq_head q)),
            q\<lparr>tq_head := (tq_head q + 1) mod MAX_TASK_QUEUE, tq_count := tq_count q - 1\<rparr>))"

subsection \<open>The worker process\<close>

definition upper :: "u8 \<Rightarrow> u8" where
  "upper c = (if 97 \<le> c \<and> c \<le> 122 then c - 97 + 65 else c)"

text \<open>\<open>PROCESSED: \<close> and its terminator are written first; a character is overwritten by its image.\<close>

definition processed_prefix :: "u8 list" where
  "processed_prefix = [80, 82, 79, 67, 69, 83, 83, 69, 68, 58, 32]"

definition put_bytes :: "nat \<Rightarrow> u8 list \<Rightarrow> u8 list \<Rightarrow> u8 list" where
  "put_bytes off bs buf = take off buf @ bs @ drop (off + length bs) buf"

definition pp_default_handler :: task_handler where
  "pp_default_handler data data_len result =
     (if sint data_len \<le> 0 \<or> sint data_len \<ge> MAX_TASK_DATA then (- 1, result, 0)
      else let prefix_len = length processed_prefix;
               r1 = put_bytes 0 (processed_prefix @ [0]) result;
               remaining = nat MAX_TASK_DATA - prefix_len - 1;
               copy_len = (if nat (sint data_len) < remaining then nat (sint data_len) else remaining);
               r2 = put_bytes prefix_len (map (\<lambda>i. upper (data ! i)) [0..<copy_len]) r1;
               result_len = prefix_len + copy_len
           in (0, put_bytes result_len [0] r2, of_nat result_len))"

datatype select_res = SelIntr | SelError | SelTimeout | SelReady "int set"

text \<open>One round of the worker's loop: the exit flag, \<open>select\<close>, the calls of \<open>read\<close> and \<open>write\<close>.\<close>

record wm_round =
  wr_exit :: bool
  wr_select :: select_res
  wr_reads :: "read_res list"
  wr_writes :: "write_res list"

definition run_task :: "task_handler \<Rightarrow> pp_task \<Rightarrow> pp_result" where
  "run_task handler task =
     (case handler (pt_data task) (pt_data_len task) (replicate 1024 0) of (code, data, n) \<Rightarrow>
        \<lparr>pr_task_id = pt_task_id task, pr_result_code = code, pr_result_data = data, pr_result_len = n\<rparr>)"

text \<open>The bytes left in the pipe from the master and those in the pipe to it, at the exit.\<close>

fun worker_rounds ::
  "int \<Rightarrow> task_handler \<Rightarrow> wm_round list \<Rightarrow> u8 list \<Rightarrow> u8 list \<Rightarrow> (u8 list \<times> u8 list) outcome" where
  "worker_rounds read_fd handler [] inp out = Blocked"
| "worker_rounds read_fd handler (r # rs) inp out =
     (if wr_exit r then Done (inp, out)
      else case wr_select r of
        SelIntr \<Rightarrow> worker_rounds read_fd handler rs inp out
      | SelError \<Rightarrow> Done (inp, out)
      | SelTimeout \<Rightarrow> worker_rounds read_fd handler rs inp out
      | SelReady fds \<Rightarrow>
          if read_fd \<notin> fds then worker_rounds read_fd handler rs inp out
          else bind_outcome (safe_read sizeof_task [] inp (wr_reads r)) (\<lambda>(n, bs, inp1).
            if n = 0 then Done (inp1, out)
            else if n \<noteq> int sizeof_task then worker_rounds read_fd handler rs inp1 out
            else bind_outcome (safe_write (enc_result (run_task handler (dec_task bs))) 0 (wr_writes r))
                   (\<lambda>(m, sent).
              if m \<noteq> int sizeof_result then Done (inp1, out @ sent)
              else worker_rounds read_fd handler rs inp1 (out @ sent))))"

text \<open>\<open>worker_main\<close> until it closes its pipes and exits; a failed set-up exits at once.\<close>

definition worker_main ::
  "bool list \<Rightarrow> int \<Rightarrow> task_handler option \<Rightarrow> wm_round list \<Rightarrow> u8 list \<Rightarrow> u8 list
     \<Rightarrow> (u8 list \<times> u8 list) outcome" where
  "worker_main sigs read_fd handler rounds inp out =
     (if setup_signals sigs = - 1 then Done (inp, out)
      else worker_rounds read_fd (case handler of None \<Rightarrow> pp_default_handler | Some h \<Rightarrow> h) rounds inp out)"

subsection \<open>Creating and terminating workers\<close>

record cw_env =
  cw_pipe_to :: pipe_env
  cw_pipe_from :: pipe_env
  cw_fork :: "int option"
  cw_time :: u64

text \<open>The parent's side. The ends it closes keep their numbers in the structure.\<close>

definition create_worker_process ::
  "cw_env \<Rightarrow> worker_process \<Rightarrow> task_handler option \<Rightarrow> sys \<Rightarrow> int \<times> worker_process \<times> sys" where
  "create_worker_process env w handler s =
     (case create_pipe_pair (cw_pipe_to env) (pw_to w) s of (rc1, to, s1) \<Rightarrow>
      let w1 = w\<lparr>pw_to := to\<rparr>
      in if rc1 = - 1 then (- 1, w1, s1)
         else case create_pipe_pair (cw_pipe_from env) (pw_from w1) s1 of (rc2, from, s2) \<Rightarrow>
           let w2 = w1\<lparr>pw_from := from\<rparr>
           in if rc2 = - 1
              then (case close_pipe_pair (pw_to w2) s2 of (to', s3) \<Rightarrow> (- 1, w2\<lparr>pw_to := to'\<rparr>, s3))
              else case cw_fork env of
                None \<Rightarrow>
                  (case close_pipe_pair (pw_to w2) s2 of (to', s3) \<Rightarrow>
                     case close_pipe_pair (pw_from w2) s3 of (from', s4) \<Rightarrow>
                       (- 1, w2\<lparr>pw_pid := - 1, pw_to := to', pw_from := from'\<rparr>, s4))
              | Some pid \<Rightarrow>
                  let s3 = s2\<lparr>s_procs := (s_procs s2)(pid := ChildRunning),
                             s_handlers := (s_handlers s2)(pid := handler)\<rparr>;
                      s4 = sys_close (snd (pw_from w2)) (sys_close (fst (pw_to w2)) s3)
                  in (0, w2\<lparr>pw_pid := pid, pw_status := WORKER_IDLE, pw_last_active := cw_time env,
                            pw_current_task_id := - 1\<rparr>, s4))"

text \<open>The polls of \<open>waitpid\<close>: whether the child has exited by then. After the signals and the
  waits the child is gone.\<close>

fun wait_polls :: "nat \<Rightarrow> bool list \<Rightarrow> child \<Rightarrow> child outcome" where
  "wait_polls wait_count polls c =
     (if \<not> wait_count < 50 then Done c
      else case polls of [] \<Rightarrow> Blocked
        | exited # polls' \<Rightarrow>
            if c = ChildZombie \<or> c = ChildRunning \<and> exited then Done ChildGone
            else wait_polls (wait_count + 1) polls' c)"

declare wait_polls.simps [simp del]

definition terminate_worker_process ::
  "bool list \<Rightarrow> worker_process \<Rightarrow> sys \<Rightarrow> (worker_process \<times> sys) outcome" where
  "terminate_worker_process polls w s =
     bind_outcome
       (if pw_pid w > 0
        then bind_outcome (wait_polls 0 polls (s_procs s (pw_pid w))) (\<lambda>c.
               let c' = (if c \<noteq> ChildGone then ChildGone else c)
               in Done (w\<lparr>pw_pid := - 1\<rparr>, s\<lparr>s_procs := (s_procs s)(pw_pid w := c')\<rparr>))
        else Done (w, s))
       (\<lambda>(w1, s1).
          case close_pipe_pair (pw_to w1) s1 of (to, s2) \<Rightarrow>
          case close_pipe_pair (pw_from w1) s2 of (from, s3) \<Rightarrow>
            Done (w1\<lparr>pw_to := to, pw_from := from, pw_status := WORKER_DEAD\<rparr>, s3))"

subsection \<open>Talking to workers\<close>

definition send_task_to_worker ::
  "write_res list \<Rightarrow> u64 \<Rightarrow> worker_process \<Rightarrow> pp_task \<Rightarrow> sys \<Rightarrow> (int \<times> worker_process \<times> sys) outcome" where
  "send_task_to_worker ws time w task s =
     bind_outcome
       (case k_fds s (snd (pw_to w)) of
          Some (WriteEnd k) \<Rightarrow> bind_outcome (safe_write (enc_task task) 0 ws) (\<lambda>(n, bs).
            Done (n, s\<lparr>k_pipe := (k_pipe s)(k := k_pipe s k @ bs)\<rparr>))
        | _ \<Rightarrow> Done (- 1, s))
       (\<lambda>(n, s1). if n \<noteq> int sizeof_task then Done (- 1, w, s1)
          else Done (0, w\<lparr>pw_status := WORKER_BUSY, pw_current_task_id := pt_task_id task,
                          pw_last_active := time\<rparr>, s1))"

definition receive_result_from_worker ::
  "read_res list \<Rightarrow> u64 \<Rightarrow> worker_process \<Rightarrow> sys
     \<Rightarrow> (int \<times> worker_process \<times> pp_result option \<times> sys) outcome" where
  "receive_result_from_worker rs time w s =
     bind_outcome
       (case k_fds s (fst (pw_from w)) of
          Some (ReadEnd k) \<Rightarrow> bind_outcome (safe_read sizeof_result [] (k_pipe s k) rs) (\<lambda>(n, bs, rest).
            Done (n, bs, s\<lparr>k_pipe := (k_pipe s)(k := rest)\<rparr>))
        | _ \<Rightarrow> Done (- 1, [], s))
       (\<lambda>(n, bs, s1).
          if n \<noteq> int sizeof_result
          then Done (- 1, if n = 0 then w\<lparr>pw_status := WORKER_DEAD\<rparr> else w, None, s1)
          else Done (0, w\<lparr>pw_status := WORKER_IDLE, pw_current_task_id := - 1, pw_last_active := time\<rparr>,
                     Some (dec_result bs), s1))"

definition is_worker_alive :: "worker_process \<Rightarrow> sys \<Rightarrow> bool \<times> worker_process" where
  "is_worker_alive w s =
     (if pw_pid w \<le> 0 then (False, w)
      else if s_procs s (pw_pid w) = ChildGone then (False, w\<lparr>pw_status := WORKER_DEAD\<rparr>)
      else (True, w))"

definition mark_reaped :: "int \<Rightarrow> worker_process list \<Rightarrow> worker_process list" where
  "mark_reaped pid ws =
     (case find (\<lambda>i. pw_pid (ws ! i) = pid) [0..<length ws] of None \<Rightarrow> ws
      | Some i \<Rightarrow> ws[i := (ws ! i)\<lparr>pw_status := WORKER_DEAD, pw_pid := - 1\<rparr>])"

text \<open>The children \<open>waitpid\<close> hands over, one after the other.\<close>

fun reap_dead_children :: "int list \<Rightarrow> process_pool \<Rightarrow> sys \<Rightarrow> process_pool \<times> sys" where
  "reap_dead_children [] p s = (p, s)"
| "reap_dead_children (pid # pids) p s =
     (let n = nat (pp_worker_count p);
          ws = mark_reaped pid (take n (pp_workers p)) @ drop n (pp_workers p)
      in reap_dead_children pids (p\<lparr>pp_workers := ws\<rparr>) (s\<lparr>s_procs := (s_procs s)(pid := ChildGone)\<rparr>))"

subsection \<open>Dispatching\<close>

fun find_idle ::
  "nat list \<Rightarrow> worker_process list \<Rightarrow> sys \<Rightarrow> nat option \<times> worker_process list" where
  "find_idle [] ws s = (None, ws)"
| "find_idle (i # js) ws s =
     (if pw_status (ws ! i) = WORKER_IDLE
      then case is_worker_alive (ws ! i) s of (alive, w) \<Rightarrow>
             if alive then (Some i, ws[i := w]) else find_idle js (ws[i := w]) s
      else find_idle js ws s)"

definition slots :: "process_pool \<Rightarrow> nat list" where
  "slots p = [0..<nat (pp_worker_count p)]"

definition find_idle_worker :: "process_pool \<Rightarrow> sys \<Rightarrow> nat option \<times> process_pool" where
  "find_idle_worker p s =
     (case find_idle (slots p) (pp_workers p) s of (r, ws) \<Rightarrow> (r, p\<lparr>pp_workers := ws\<rparr>))"

function dispatch_tasks ::
  "(nat \<Rightarrow> write_res list) \<Rightarrow> u64 \<Rightarrow> nat \<Rightarrow> process_pool \<Rightarrow> sys \<Rightarrow> (nat \<times> process_pool \<times> sys) outcome" where
  "dispatch_tasks wrs time dispatched p s =
     (if \<not> tq_count (pp_task_queue p) > 0 then Done (dispatched, p, s)
      else case find_idle_worker p s of
        (None, p1) \<Rightarrow> Done (dispatched, p1, s)
      | (Some i, p1) \<Rightarrow>
          (case dequeue_task (pp_task_queue p1) of
             (rc, None, q) \<Rightarrow> Done (dispatched, p1, s)
           | (rc, Some task, q) \<Rightarrow>
               (case send_task_to_worker (wrs dispatched) time (pp_workers p1 ! i) task s of
                  Blocked \<Rightarrow> Blocked
                | Fault \<Rightarrow> Fault
                | Done (sent, w, s1) \<Rightarrow>
                    if sent = - 1
                    then Done (dispatched,
                           p1\<lparr>pp_task_queue := snd (enqueue_task q task),
                              pp_workers := (pp_workers p1)[i := w\<lparr>pw_status := WORKER_DEAD\<rparr>]\<rparr>, s1)
                    else dispatch_tasks wrs time (dispatched + 1)
                           (p1\<lparr>pp_task_queue := q, pp_workers := (pp_workers p1)[i := w]\<rparr>) s1)))"
  by pat_completeness auto

lemma find_idle_worker_queue:
  "find_idle_worker p s = (r, p') \<Longrightarrow> pp_task_queue p' = pp_task_queue p"
  by (auto simp: find_idle_worker_def split: prod.splits)

termination dispatch_tasks
  by (relation "measure (\<lambda>(wrs, time, dispatched, p, s). nat (tq_count (pp_task_queue p)))")
    (auto simp: dequeue_task_def dest: find_idle_worker_queue [OF sym] split: if_splits)

declare dispatch_tasks.simps [simp del]

subsection \<open>The pool\<close>

definition close_worker :: "worker_process \<Rightarrow> sys \<Rightarrow> worker_process \<times> sys" where
  "close_worker w s =
     (case close_pipe_pair (pw_to w) s of (to, s1) \<Rightarrow>
      case close_pipe_pair (pw_from w) s1 of (from, s2) \<Rightarrow> (w\<lparr>pw_to := to, pw_from := from\<rparr>, s2))"

definition restart_dead_worker ::
  "cw_env \<Rightarrow> nat \<Rightarrow> task_handler option \<Rightarrow> process_pool \<Rightarrow> sys \<Rightarrow> int \<times> process_pool \<times> sys" where
  "restart_dead_worker env i handler p s =
     (let w = pp_workers p ! i
      in if pw_status w \<noteq> WORKER_DEAD then (0, p, s)
         else case close_worker w s of (w1, s1) \<Rightarrow>
              case create_worker_process env w1 handler s1 of (rc, w2, s2) \<Rightarrow>
                (if rc = - 1 then - 1 else 0, p\<lparr>pp_workers := (pp_workers p)[i := w2]\<rparr>, s2))"

definition zero_worker_process :: worker_process where
  "zero_worker_process = \<lparr>pw_pid = 0, pw_status = WORKER_IDLE, pw_to = (0, 0), pw_from = (0, 0),
     pw_last_active = 0, pw_current_task_id = 0\<rparr>"

definition zero_pool :: process_pool where
  "zero_pool = \<lparr>pp_workers = replicate 32 zero_worker_process, pp_worker_count = 0,
     pp_task_queue = \<lparr>tq_tasks = replicate 1024 pp_zero_task, tq_head = 0, tq_tail = 0, tq_count = 0\<rparr>,
     pp_running = False, pp_next_task_id = 0, pp_read_fds = {}, pp_max_fd = 0\<rparr>"

fun terminate_all ::
  "(nat \<Rightarrow> bool list) \<Rightarrow> nat list \<Rightarrow> process_pool \<Rightarrow> sys \<Rightarrow> (process_pool \<times> sys) outcome" where
  "terminate_all polls [] p s = Done (p, s)"
| "terminate_all polls (i # js) p s =
     bind_outcome (terminate_worker_process (polls i) (pp_workers p ! i) s) (\<lambda>(w, s1).
       terminate_all polls js (p\<lparr>pp_workers := (pp_workers p)[i := w]\<rparr>) s1)"

fun create_workers ::
  "(nat \<Rightarrow> cw_env) \<Rightarrow> (nat \<Rightarrow> bool list) \<Rightarrow> task_handler option \<Rightarrow> nat list \<Rightarrow> process_pool \<Rightarrow> sys
     \<Rightarrow> (process_pool option \<times> sys) outcome" where
  "create_workers env polls handler [] p s = Done (Some p, s)"
| "create_workers env polls handler (i # js) p s =
     (case create_worker_process (env i) (pp_workers p ! i) handler s of (rc, w, s1) \<Rightarrow>
      let p1 = p\<lparr>pp_workers := (pp_workers p)[i := w]\<rparr>
      in if rc = - 1
         then bind_outcome (terminate_all polls [0..<i] p1 s1) (\<lambda>(p2, s2). Done (None, s2))
         else create_workers env polls handler js p1 s1)"

record cp_env =
  cp_mem :: bool
  cp_sigs :: "bool list"
  cp_worker :: "nat \<Rightarrow> cw_env"
  cp_polls :: "nat \<Rightarrow> bool list"

definition process_pool_create ::
  "cp_env \<Rightarrow> int \<Rightarrow> task_handler option \<Rightarrow> sys \<Rightarrow> (process_pool option \<times> sys) outcome" where
  "process_pool_create env worker_count handler s =
     (if worker_count \<le> 0 \<or> worker_count > PP_MAX_WORKERS then Done (None, s)
      else if \<not> cp_mem env then Done (None, s)
      else let p = zero_pool\<lparr>pp_worker_count := worker_count, pp_running := False, pp_next_task_id := 1,
                     pp_task_queue := init_task_queue (pp_task_queue zero_pool)\<rparr>
           in if setup_signals (cp_sigs env) = - 1 then Done (None, s)
              else create_workers (cp_worker env) (cp_polls env) handler (slots p) p s)"

text \<open>\<open>garbage\<close> is what the stack holds where the task is built.\<close>

definition process_pool_submit_task ::
  "u8 list \<Rightarrow> process_pool option \<Rightarrow> u8 list option \<Rightarrow> u32 \<Rightarrow> (u32 \<times> process_pool option) outcome" where
  "process_pool_submit_task garbage pool task_data data_len =
     (case (pool, task_data) of
        (Some p, Some bs) \<Rightarrow>
          if sint data_len \<le> 0 \<or> sint data_len \<ge> MAX_TASK_DATA then Done (- 1, pool)
          else if tq_count (pp_task_queue p) \<ge> MAX_TASK_QUEUE then Done (- 1, pool)
          else if pp_next_task_id p = 0x7FFFFFFF then Fault
          else if length bs < nat (sint data_len) then Fault
          else let n = nat (sint data_len);
                   task = \<lparr>pt_task_id = pp_next_task_id p,
                           pt_data = take n bs @ [0] @ drop (n + 1) garbage, pt_data_len = data_len\<rparr>;
                   p1 = p\<lparr>pp_next_task_id := pp_next_task_id p + 1\<rparr>
               in case enqueue_task (pp_task_queue p1) task of (rc, q) \<Rightarrow>
                    if rc = - 1 then Done (- 1, Some (p1\<lparr>pp_task_queue := q\<rparr>))
                    else Done (pt_task_id task, Some (p1\<lparr>pp_task_queue := q\<rparr>))
      | _ \<Rightarrow> Done (- 1, pool))"

definition update_fd_sets :: "process_pool \<Rightarrow> process_pool" where
  "update_fd_sets p =
     (let fds = map (\<lambda>w. fst (pw_from w))
            (filter (\<lambda>w. pw_status w \<noteq> WORKER_DEAD \<and> fst (pw_from w) \<noteq> - 1)
               (take (nat (pp_worker_count p)) (pp_workers p)))
      in p\<lparr>pp_read_fds := set fds, pp_max_fd := fold max fds (- 1)\<rparr>)"

record gr_round =
  gr_running :: bool
  gr_select :: select_res
  gr_reads :: "nat \<Rightarrow> read_res list"
  gr_time :: u64

fun collect_result ::
  "(nat \<Rightarrow> read_res list) \<Rightarrow> u64 \<Rightarrow> int set \<Rightarrow> nat list \<Rightarrow> process_pool \<Rightarrow> sys
     \<Rightarrow> (pp_result option \<times> process_pool \<times> sys) outcome" where
  "collect_result rrs time ready [] p s = Done (None, p, s)"
| "collect_result rrs time ready (i # js) p s =
     (let w = pp_workers p ! i
      in if pw_status w \<noteq> WORKER_DEAD \<and> fst (pw_from w) \<noteq> - 1 \<and> fst (pw_from w) \<in> ready
         then bind_outcome (receive_result_from_worker (rrs i) time w s) (\<lambda>(rc, w', r, s1).
                let p1 = p\<lparr>pp_workers := (pp_workers p)[i := w']\<rparr>
                in if rc = 0 then Done (r, p1, s1) else collect_result rrs time ready js p1 s1)
         else collect_result rrs time ready js p s)"

text \<open>The loop of \<open>process_pool_get_result\<close>; \<open>SelTimeout\<close> is a result 0 of \<open>select\<close>.\<close>

fun get_result_rounds ::
  "gr_round list \<Rightarrow> process_pool \<Rightarrow> sys \<Rightarrow> (int \<times> pp_result option \<times> process_pool \<times> sys) outcome" where
  "get_result_rounds [] p s = Blocked"
| "get_result_rounds (r # rs) p s =
     (if \<not> gr_running r then Done (- 1, None, p, s)
      else let p1 = update_fd_sets p
           in if pp_max_fd p1 = - 1 then get_result_rounds rs p1 s
              else case gr_select r of
                SelIntr \<Rightarrow> get_result_rounds rs p1 s
              | SelError \<Rightarrow> Done (- 1, None, p1, s)
              | SelTimeout \<Rightarrow> Done (- 1, None, p1, s)
              | SelReady ready \<Rightarrow>
                  bind_outcome (collect_result (gr_reads r) (gr_time r) (ready \<inter> pp_read_fds p1) (slots p1) p1 s)
                    (\<lambda>(res, p2, s2). case res of
                       Some x \<Rightarrow> Done (0, Some x, p2, s2)
                     | None \<Rightarrow> get_result_rounds rs p2 s2))"

definition process_pool_get_result ::
  "gr_round list \<Rightarrow> process_pool option \<Rightarrow> bool \<Rightarrow> sys
     \<Rightarrow> (int \<times> pp_result option \<times> process_pool option \<times> sys) outcome" where
  "process_pool_get_result rounds pool result s =
     (case pool of None \<Rightarrow> Done (- 1, None, None, s)
      | Some p \<Rightarrow> if \<not> result then Done (- 1, None, pool, s)
                  else bind_outcome (get_result_rounds rounds p s) (\<lambda>(rc, r, p1, s1).
                         Done (rc, r, Some p1, s1)))"

record run_round =
  rr_stop :: bool
  rr_reaped :: "int list"
  rr_restart :: "nat \<Rightarrow> cw_env"
  rr_writes :: "nat \<Rightarrow> write_res list"
  rr_time :: u64

fun restart_dead :: "(nat \<Rightarrow> cw_env) \<Rightarrow> nat list \<Rightarrow> process_pool \<Rightarrow> sys \<Rightarrow> process_pool \<times> sys" where
  "restart_dead env [] p s = (p, s)"
| "restart_dead env (i # js) p s =
     (if pw_status (pp_workers p ! i) = WORKER_DEAD
      then case restart_dead_worker (env i) i None p s of (rc, p1, s1) \<Rightarrow> restart_dead env js p1 s1
      else restart_dead env js p s)"

fun run_rounds :: "run_round list \<Rightarrow> process_pool \<Rightarrow> sys \<Rightarrow> (process_pool \<times> sys) outcome" where
  "run_rounds [] p s = Blocked"
| "run_rounds (r # rs) p s =
     (if rr_stop r then Done (p\<lparr>pp_running := False\<rparr>, s)
      else case reap_dead_children (rr_reaped r) p s of (p1, s1) \<Rightarrow>
           case restart_dead (rr_restart r) (slots p1) p1 s1 of (p2, s2) \<Rightarrow>
           bind_outcome (dispatch_tasks (rr_writes r) (rr_time r) 0 p2 s2) (\<lambda>(n, p3, s3).
             run_rounds rs p3 s3))"

definition process_pool_run ::
  "run_round list \<Rightarrow> process_pool option \<Rightarrow> sys \<Rightarrow> (int \<times> process_pool option \<times> sys) outcome" where
  "process_pool_run rounds pool s =
     (case pool of None \<Rightarrow> Done (- 1, None, s)
      | Some p \<Rightarrow> bind_outcome (run_rounds rounds (p\<lparr>pp_running := True\<rparr>) s) (\<lambda>(p1, s1).
                    Done (0, Some p1, s1)))"

definition process_pool_stop :: "process_pool option \<Rightarrow> process_pool option" where
  "process_pool_stop pool = map_option (pp_running_update (\<lambda>_. False)) pool"

text \<open>The pool's memory is gone afterwards; the descriptors and processes stay in the system.\<close>

definition process_pool_destroy ::
  "(nat \<Rightarrow> bool list) \<Rightarrow> int list \<Rightarrow> process_pool option \<Rightarrow> sys \<Rightarrow> sys outcome" where
  "process_pool_destroy polls reaped pool s =
     (case pool of None \<Rightarrow> Done s
      | Some p \<Rightarrow>
          bind_outcome (terminate_all polls (slots p) (p\<lparr>pp_running := False\<rparr>) s) (\<lambda>(p1, s1).
            Done (snd (reap_dead_children reaped p1 s1))))"

definition process_pool_get_status ::
  "process_pool option \<Rightarrow> bool \<Rightarrow> bool \<Rightarrow> int option \<times> int option" where
  "process_pool_get_status pool active_workers pending_tasks =
     (case pool of
        None \<Rightarrow> (if active_workers then Some 0 else None, if pending_tasks then Some 0 else None)
      | Some p \<Rightarrow>
          (let active = int (length (filter (\<lambda>w. pw_status w \<noteq> WORKER_DEAD)
                               (take (nat (pp_worker_count p)) (pp_workers p))))
           in (if active_workers then Some active else None,
               if pending_tasks then Some (tq_count (pp_task_queue p)) else None)))"

subsection \<open>The queue is a bounded list\<close>

definition tq_contents :: "task_queue \<Rightarrow> pp_task list" where
  "tq_contents q = int_ring (tq_tasks q) MAX_TASK_QUEUE (tq_head q) (tq_count q)"

definition tq_ok :: "task_queue \<Rightarrow> bool" where
  "tq_ok q \<longleftrightarrow> length (tq_tasks q) = nat MAX_TASK_QUEUE \<and> 0 \<le> tq_head q \<and> tq_head q < MAX_TASK_QUEUE
     \<and> 0 \<le> tq_count q \<and> tq_count q \<le> MAX_TASK_QUEUE
     \<and> tq_tail q = (tq_head q + tq_count q) mod MAX_TASK_QUEUE"

definition tq_enq :: "task_queue \<Rightarrow> pp_task \<Rightarrow> task_queue option" where
  "tq_enq q t = (case enqueue_task q t of (rc, q') \<Rightarrow> if rc = 0 then Some q' else None)"

definition tq_deq :: "task_queue \<Rightarrow> (pp_task \<times> task_queue) option" where
  "tq_deq q = (case dequeue_task q of (rc, t, q') \<Rightarrow> map_option (\<lambda>x. (x, q')) t)"

lemma length_tq_contents [simp]: "length (tq_contents q) = nat (tq_count q)"
  by (simp add: tq_contents_def)

lemma tq_contents_Nil: "tq_ok q \<Longrightarrow> tq_contents q = [] \<longleftrightarrow> tq_count q = 0"
  by (simp add: tq_contents_def tq_ok_def int_ring_eq_Nil)

lemma enqueue_task_room:
  assumes "tq_ok q" "tq_count q < MAX_TASK_QUEUE"
  shows "\<exists>q'. enqueue_task q t = (0, q') \<and> tq_ok q' \<and> tq_contents q' = tq_contents q @ [t]"
  using int_ring_put(1) [of MAX_TASK_QUEUE "tq_tasks q" "tq_head q" "tq_count q" "tq_tail q" t]
    int_ring_put(2) [of MAX_TASK_QUEUE "tq_tasks q" "tq_head q" "tq_count q" "tq_tail q"] assms
  by (simp add: enqueue_task_def tq_ok_def tq_contents_def MAX_TASK_QUEUE_def)

lemma dequeue_task_some:
  assumes "tq_ok q" "tq_count q \<noteq> 0"
  shows "\<exists>t q'. dequeue_task q = (0, Some t, q') \<and> tq_ok q' \<and> tq_contents q = t # tq_contents q'"
  using int_ring_take(1) [of "tq_head q" MAX_TASK_QUEUE "tq_count q" "tq_tasks q"]
    int_ring_take(2) [of "tq_head q" MAX_TASK_QUEUE "tq_count q"] assms
  by (simp add: dequeue_task_def tq_ok_def tq_contents_def MAX_TASK_QUEUE_def)

interpretation ppq: bounded_queue tq_enq tq_deq tq_contents tq_ok "\<lambda>_. nat MAX_TASK_QUEUE" "\<lambda>_. True"
proof (unfold_locales, goal_cases)
  case (1 q)
  then show ?case by (simp add: tq_ok_def nat_mono)
next
  case (2 q x)
  then have "tq_count q \<ge> MAX_TASK_QUEUE" by (simp add: tq_ok_def MAX_TASK_QUEUE_def)
  then show ?case by (simp add: tq_enq_def enqueue_task_def)
next
  case (3 q x)
  then have "tq_count q < MAX_TASK_QUEUE" by (simp add: tq_ok_def)
  then show ?case using enqueue_task_room [of q x] 3(1) by (auto simp: tq_enq_def)
next
  case (4 q)
  then show ?case using tq_contents_Nil [of q] by (simp add: tq_deq_def dequeue_task_def)
next
  case (5 q x xs)
  then have "tq_count q \<noteq> 0" using tq_contents_Nil [of q] by auto
  then show ?case using dequeue_task_some [of q] 5 by (auto simp: tq_deq_def)
qed

lemma init_task_queue_ok:
  "length (tq_tasks q) = 1024 \<Longrightarrow> tq_ok (init_task_queue q) \<and> tq_contents (init_task_queue q) = []"
  by (simp add: tq_ok_def init_task_queue_def MAX_TASK_QUEUE_def tq_contents_def int_ring_def)

text \<open>Over every sequence of calls the task queue accepts, delivers and keeps exactly what a list
  bounded by 1024 does, with no slot lost to tell full from empty.\<close>

theorem task_queue_refines_bounded_list:
  assumes "length (tq_tasks q) = 1024"
  shows "(case queue_run tq_enq tq_deq (init_task_queue q) ops of (acc, out, q') \<Rightarrow> (acc, out, tq_contents q'))
       = queue_run (spec_enq 1024) spec_deq [] ops"
  using ppq.run_refines [of "init_task_queue q" ops] init_task_queue_ok [OF assms]
  by (simp add: MAX_TASK_QUEUE_def)

theorem task_queue_refines_bounded_list_witness:
  "(case queue_run tq_enq tq_deq (init_task_queue (pp_task_queue zero_pool)) [Enq pp_zero_task, Deq, Deq] of
      (acc, out, q') \<Rightarrow> (acc, out, tq_contents q')) = ([pp_zero_task], [pp_zero_task], [])"
proof -
  have l: "length (tq_tasks (pp_task_queue zero_pool)) = 1024" by (simp add: zero_pool_def)
  show ?thesis
    unfolding task_queue_refines_bounded_list [OF l, of "[Enq pp_zero_task, Deq, Deq]"]
    by (simp add: spec_enq_def)
qed

subsection \<open>Dispatching keeps the tasks\<close>

text \<open>One iteration of the dispatching loop: it stops, or fails to send the first task, or sends it and goes on.\<close>

lemma dispatch_tasks_iteration:
  assumes run: "dispatch_tasks wrs time d p s = Done (n, p', s')" and ok: "tq_ok (pp_task_queue p)"
  obtains (stop) "n = d" "pp_task_queue p' = pp_task_queue p"
    | (fail) t ts where "n = d" "tq_ok (pp_task_queue p')" "tq_contents (pp_task_queue p) = t # ts"
        "tq_contents (pp_task_queue p') = ts @ [t]"
    | (sent) t p2 s2 where "dispatch_tasks wrs time (d + 1) p2 s2 = Done (n, p', s')" "tq_ok (pp_task_queue p2)"
        "tq_contents (pp_task_queue p) = t # tq_contents (pp_task_queue p2)"
        "nat (tq_count (pp_task_queue p2)) < nat (tq_count (pp_task_queue p))"
proof (cases "tq_count (pp_task_queue p) > 0")
  case False
  then show thesis using run by (intro stop) (simp_all add: dispatch_tasks.simps)
next
  case True
  obtain r p1 where f: "find_idle_worker p s = (r, p1)" by (cases "find_idle_worker p s")
  then have q1: "pp_task_queue p1 = pp_task_queue p" by (rule find_idle_worker_queue)
  show thesis
  proof (cases r)
    case None
    then show thesis using run True f q1 by (intro stop) (simp_all add: dispatch_tasks.simps)
  next
    case (Some i)
    obtain t q where dq: "dequeue_task (pp_task_queue p1) = (0, Some t, q)" "tq_ok q"
      "tq_contents (pp_task_queue p) = t # tq_contents q"
      using dequeue_task_some [of "pp_task_queue p"] ok True q1 by auto
    then have room: "tq_count q < MAX_TASK_QUEUE" "nat (tq_count q) < nat (tq_count (pp_task_queue p))"
      using ok q1 True by (auto simp: dequeue_task_def tq_ok_def split: if_splits)
    obtain rc w s1 where sd: "send_task_to_worker (wrs d) time (pp_workers p1 ! i) t s = Done (rc, w, s1)"
      using run True f Some dq
      by (cases "send_task_to_worker (wrs d) time (pp_workers p1 ! i) t s") (auto simp: dispatch_tasks.simps)
    show thesis
    proof (cases "rc = - 1")
      case True
      then have "n = d" "pp_task_queue p' = snd (enqueue_task q t)"
        using run \<open>tq_count (pp_task_queue p) > 0\<close> f Some dq sd by (auto simp: dispatch_tasks.simps)
      then show thesis using enqueue_task_room [OF dq(2) room(1), of t] dq(3) by (intro fail) auto
    next
      case False
      then show thesis using run True f Some dq sd room
        by (intro sent [of "p1\<lparr>pp_task_queue := q, pp_workers := (pp_workers p1)[i := w]\<rparr>" s1])
          (simp_all add: dispatch_tasks.simps [of _ _ _ p])
    qed
  qed
qed


subsection \<open>Creating a worker\<close>

text \<open>A pair of pipes in the table of a pool's process: nothing changes, or two fresh descriptors are entered.\<close>

lemma create_pipe_pair_elim:
  assumes "create_pipe_pair env fds s = (rc, fds', s')"
  obtains (failed) "rc = - 1" "k_fds s' = k_fds s" "s_procs s' = s_procs s"
    | (made) r u where "rc = 0" "fds' = (r, u)" "0 \<le> r" "0 \<le> u" "r \<noteq> u" "k_fds s r = None" "k_fds s u = None"
        "k_fds s' = (k_fds s)(r \<mapsto> ReadEnd (k_next_pipe s), u \<mapsto> WriteEnd (k_next_pipe s))"
        "k_next_pipe s' = k_next_pipe s + 1" "s_procs s' = s_procs s" "s_handlers s' = s_handlers s"
  using create_pipe_pair_cases [of env fds s] assms by (auto dest!: sys_pipe_Some)

lemmas create_worker_defs = create_worker_process_def close_pipe_pair_def sys_close_def Let_def


subsection \<open>Terminating workers\<close>

lemma wait_polls_simps:
  "\<not> n < 50 \<Longrightarrow> wait_polls n polls c = Done c"
  "n < 50 \<Longrightarrow> wait_polls n (exited # polls) c
     = (if c = ChildZombie \<or> c = ChildRunning \<and> exited then Done ChildGone
        else wait_polls (n + 1) polls c)"
  by (subst wait_polls.simps, simp)+

lemma wait_polls_returns:
  "50 \<le> n + length polls \<Longrightarrow> \<exists>c'. wait_polls n polls c = Done c'"
proof (induction polls arbitrary: n)
  case (Cons a polls)
  then show ?case using Cons.IH [of "n + 1"] by (cases "n < 50") (auto simp: wait_polls_simps)
qed (simp add: wait_polls_simps)

lemma terminate_worker_process_gone:
  assumes "50 \<le> length polls"
  shows "\<exists>w' s'. terminate_worker_process polls w s = Done (w', s') \<and> pw_status w' = WORKER_DEAD
     \<and> pw_to w' = (- 1, - 1) \<and> pw_from w' = (- 1, - 1)
     \<and> (if pw_pid w > 0 then pw_pid w' = - 1 else pw_pid w' = pw_pid w)
     \<and> s_procs s' = (if pw_pid w > 0 then (s_procs s)(pw_pid w := ChildGone) else s_procs s)
     \<and> dom (k_fds s') = dom (k_fds s) - ({fst (pw_to w), snd (pw_to w), fst (pw_from w), snd (pw_from w)} - {- 1})"
proof -
  obtain c where c: "wait_polls 0 polls (s_procs s (pw_pid w)) = Done c"
    using wait_polls_returns [of 0 polls] assms by auto
  obtain a b where t: "pw_to w = (a, b)" by (cases "pw_to w")
  obtain e d where f: "pw_from w = (e, d)" by (cases "pw_from w")
  show ?thesis
    by (cases "pw_pid w > 0")
      (auto simp: terminate_worker_process_def c t f close_pipe_pair_def sys_close_def Let_def)
qed

lemma terminate_all_gone:
  assumes "\<forall>i\<in>set js. 50 \<le> length (polls i) \<and> i < length (pp_workers p)" "distinct js"
  shows "\<exists>p' s'. terminate_all polls js p s = Done (p', s')
     \<and> (\<forall>i\<in>set js. 0 < pw_pid (pp_workers p ! i) \<longrightarrow> s_procs s' (pw_pid (pp_workers p ! i)) = ChildGone)
     \<and> (\<forall>q. s_procs s q = ChildGone \<longrightarrow> s_procs s' q = ChildGone)
     \<and> pp_worker_count p' = pp_worker_count p"
  using assms
proof (induction js arbitrary: p s)
  case (Cons i js)
  obtain w s1 where t: "terminate_worker_process (polls i) (pp_workers p ! i) s = Done (w, s1)"
    "s_procs s1 = (if pw_pid (pp_workers p ! i) > 0
       then (s_procs s)(pw_pid (pp_workers p ! i) := ChildGone) else s_procs s)"
    using terminate_worker_process_gone [of "polls i" "pp_workers p ! i" s] Cons.prems(1) by auto
  let ?p = "p\<lparr>pp_workers := (pp_workers p)[i := w]\<rparr>"
  obtain p' s' where r: "terminate_all polls js ?p s1 = Done (p', s')"
    "\<forall>j\<in>set js. 0 < pw_pid (pp_workers ?p ! j) \<longrightarrow> s_procs s' (pw_pid (pp_workers ?p ! j)) = ChildGone"
    "\<forall>q. s_procs s1 q = ChildGone \<longrightarrow> s_procs s' q = ChildGone" "pp_worker_count p' = pp_worker_count ?p"
    using Cons.IH [of ?p s1] Cons.prems by auto
  have "pp_workers ?p ! j = pp_workers p ! j" if "j \<in> set js" for j
    using that Cons.prems(2) by (cases "j = i") auto
  then show ?case using t r by (intro exI [of _ p'] exI [of _ s']) auto
qed simp

lemma reap_keeps_gone:
  "s_procs s q = ChildGone \<Longrightarrow> s_procs (snd (reap_dead_children pids p s)) q = ChildGone"
  by (induction pids p s rule: reap_dead_children.induct) (simp_all add: Let_def)


subsection \<open>Restarting a worker\<close>

text \<open>A pool of two workers in a fresh process, whose first worker exits and is restarted.\<close>

definition fresh_sys :: sys where
  "fresh_sys = \<lparr>k_fds = [0 \<mapsto> OtherFile, 1 \<mapsto> OtherFile, 2 \<mapsto> OtherFile], k_limit = 64, k_next_pipe = 0,
     k_nonblock = {}, k_pipe = (\<lambda>_. []), s_procs = (\<lambda>_. ChildGone), s_handlers = (\<lambda>_. None)\<rparr>"

definition forks :: "int \<Rightarrow> cw_env" where
  "forks pid = \<lparr>cw_pipe_to = \<lparr>pe_pipe = True, pe_getfl = True, pe_setfl = True\<rparr>,
     cw_pipe_from = \<lparr>pe_pipe = True, pe_getfl = True, pe_setfl = True\<rparr>, cw_fork = Some pid, cw_time = 0\<rparr>"

definition two_created :: "task_handler \<Rightarrow> (int \<times> worker_process) \<times> (int \<times> worker_process) \<times> sys" where
  "two_created h =
     (case create_worker_process (forks 100) zero_worker_process (Some h) fresh_sys of (rc0, w0, s1) \<Rightarrow>
      case create_worker_process (forks 101) zero_worker_process (Some h) s1 of (rc1, w1, s2) \<Rightarrow>
        ((rc0, w0), (rc1, w1), s2))"

definition restarted :: "task_handler \<Rightarrow> int \<times> worker_process \<times> sys" where
  "restarted h =
     (case two_created h of ((rc0, w0), (rc1, w1), s2) \<Rightarrow>
      case close_worker (w0\<lparr>pw_status := WORKER_DEAD, pw_pid := - 1\<rparr>)
             (s2\<lparr>s_procs := (s_procs s2)(100 := ChildGone)\<rparr>) of (w0', s3) \<Rightarrow>
        create_worker_process (forks 102) w0' None s3)"

definition two_workers_env :: cp_env where
  "two_workers_env = \<lparr>cp_mem = True, cp_sigs = [True, True, True, True],
     cp_worker = (\<lambda>i. forks (100 + int i)), cp_polls = (\<lambda>_. [])\<rparr>"

definition two_pool_of :: "worker_process \<Rightarrow> worker_process \<Rightarrow> process_pool" where
  "two_pool_of w0 w1 = zero_pool\<lparr>pp_worker_count := 2, pp_running := False, pp_next_task_id := 1,
     pp_task_queue := init_task_queue (pp_task_queue zero_pool),
     pp_workers := (pp_workers zero_pool)[0 := w0, 1 := w1]\<rparr>"

lemma zero_pool_workers:
  "length (pp_workers zero_pool) = 32" "i < 32 \<Longrightarrow> pp_workers zero_pool ! i = zero_worker_process"
  by (simp_all only: zero_pool_def process_pool.select_convs length_replicate nth_replicate)

lemma upt_two: "[0..<2] = [0, Suc 0]"
  by (simp add: upt_rec)

lemma two_created_ok:
  "case two_created h of ((rc0, w0), (rc1, w1), s) \<Rightarrow>
     rc0 = 0 \<and> rc1 = 0 \<and> pw_pid w0 = 100 \<and> pw_pid w1 = 101 \<and> pw_status w0 = WORKER_IDLE
     \<and> pw_status w1 = WORKER_IDLE \<and> pw_to w1 = (3, 6) \<and> \<not> Option.is_none (k_fds s 6)"
  by code_simp

lemma restarted_ok:
  "case restarted h of (rc, w, s) \<Rightarrow>
     rc = 0 \<and> pw_status w = WORKER_IDLE \<and> pw_pid w = 102 \<and> Option.is_none (k_fds s 6)
     \<and> s_procs s 101 = ChildRunning \<and> Option.is_none (s_handlers s 102)"
  by code_simp

lemma two_workers_create:
  assumes "two_created h = ((0, w0), (0, w1), s)"
  shows "process_pool_create two_workers_env 2 (Some h) fresh_sys = Done (Some (two_pool_of w0 w1), s)"
proof -
  obtain s1 where c: "create_worker_process (forks 100) zero_worker_process (Some h) fresh_sys = (0, w0, s1)"
    "create_worker_process (forks 101) zero_worker_process (Some h) s1 = (0, w1, s)"
    using assms by (auto simp: two_created_def split: prod.splits)
  show ?thesis
    by (simp add: process_pool_create_def two_workers_env_def PP_MAX_WORKERS_def slots_def upt_two
        zero_pool_workers c two_pool_of_def Let_def)
qed

lemma mark_reaped_first:
  assumes "0 < n" "n \<le> length ws" "pw_pid (ws ! 0) = pid"
  shows "mark_reaped pid (take n ws) @ drop n ws
     = ws[0 := (ws ! 0)\<lparr>pw_status := WORKER_DEAD, pw_pid := - 1\<rparr>]"
proof -
  have "[0..<length (take n ws)] = 0 # [1..<length (take n ws)]"
    using assms by (simp add: upt_conv_Cons)
  then have "mark_reaped pid (take n ws)
      = take n (ws[0 := (ws ! 0)\<lparr>pw_status := WORKER_DEAD, pw_pid := - 1\<rparr>])"
    using assms by (simp add: mark_reaped_def take_update_swap)
  moreover have "drop n ws = drop n (ws[0 := (ws ! 0)\<lparr>pw_status := WORKER_DEAD, pw_pid := - 1\<rparr>])"
    using assms(1) by simp
  ultimately show ?thesis by (metis append_take_drop_id)
qed

text \<open>The structure of a worker names the pipe ends its creator closed, so the kernel hands their
  numbers to the next worker; restarting the first worker closes them again, which cuts off the
  second, still running and idle: every task sent to it fails. The restarted worker has lost the
  pool's handler.\<close>

theorem restart_closes_neighbour:
  "\<exists>p s p1 s1 p2 s2. process_pool_create two_workers_env 2 (Some h) fresh_sys = Done (Some p, s)
     \<and> reap_dead_children [100] p s = (p1, s1)
     \<and> restart_dead (\<lambda>_. forks 102) (slots p1) p1 s1 = (p2, s2)
     \<and> pw_pid (pp_workers p2 ! 0) = 102 \<and> s_handlers s2 102 = None
     \<and> pw_status (pp_workers p2 ! 1) = WORKER_IDLE \<and> s_procs s2 (pw_pid (pp_workers p2 ! 1)) = ChildRunning
     \<and> k_fds s (snd (pw_to (pp_workers p ! 1))) \<noteq> None
     \<and> send_task_to_worker ws time (pp_workers p2 ! 1) task s2 = Done (- 1, pp_workers p2 ! 1, s2)"
proof -
  obtain w0 w1 s where w: "two_created h = ((0, w0), (0, w1), s)" "pw_pid w0 = 100" "pw_pid w1 = 101"
    "pw_status w1 = WORKER_IDLE" "pw_to w1 = (3, 6)" "k_fds s 6 \<noteq> None"
    using two_created_ok [of h] by (auto simp: Option.is_none_def split: prod.splits)
  obtain v s2 where v: "restarted h = (0, v, s2)" "pw_pid v = 102" "k_fds s2 6 = None"
    "s_procs s2 101 = ChildRunning" "s_handlers s2 102 = None"
    using restarted_ok [of h] by (auto simp: Option.is_none_def split: prod.splits)
  let ?d = "w0\<lparr>pw_status := WORKER_DEAD, pw_pid := - 1\<rparr>"
  let ?s1 = "s\<lparr>s_procs := (s_procs s)(100 := ChildGone)\<rparr>"
  let ?p = "two_pool_of w0 w1" and ?p1 = "two_pool_of ?d w1" and ?p2 = "two_pool_of v w1"
  have pool: "pp_workers (two_pool_of a b) ! 0 = a" "pp_workers (two_pool_of a b) ! Suc 0 = b"
    "pp_worker_count (two_pool_of a b) = 2"
    "(two_pool_of a b)\<lparr>pp_workers := (pp_workers (two_pool_of a b))[0 := c]\<rparr> = two_pool_of c b"
    "2 \<le> length (pp_workers (two_pool_of a b))" for a b c
    by (simp_all add: two_pool_of_def zero_pool_workers list_update_swap)
  have "mark_reaped 100 (take 2 (pp_workers ?p)) @ drop 2 (pp_workers ?p)
      = (pp_workers ?p)[0 := (pp_workers ?p ! 0)\<lparr>pw_status := WORKER_DEAD, pw_pid := - 1\<rparr>]"
    by (rule mark_reaped_first) (use w(2) in \<open>simp_all add: pool\<close>)
  then have r1: "reap_dead_children [100] ?p s = (?p1, ?s1)"
    using pool(4) [of w0 w1 ?d] by (simp add: pool Let_def)
  have "restart_dead_worker (forks 102) 0 None ?p1 ?s1 = (0, ?p2, s2)"
    using v(1) w(1) by (auto simp: restart_dead_worker_def pool restarted_def split: prod.splits)
  then have r2: "restart_dead (\<lambda>_. forks 102) (slots ?p1) ?p1 ?s1 = (?p2, s2)"
    using w(4) by (simp add: slots_def pool upt_two)
  have "send_task_to_worker ws time w1 task s2 = Done (- 1, w1, s2)"
    using w(5) v(3) by (simp add: send_task_to_worker_def sizeof_task_def)
  then show ?thesis using two_workers_create [OF w(1)] r1 r2 pool v w
    by (intro exI [of _ ?p] exI [of _ s] exI [of _ ?p1] exI [of _ ?s1] exI [of _ ?p2] exI [of _ s2]) simp
qed




subsection \<open>Running tasks\<close>

lemma put_bytes_length: "off + length bs \<le> length buf \<Longrightarrow> length (put_bytes off bs buf) = length buf"
  by (simp add: put_bytes_def)

lemma unat_of_nat_u32: "k < 2 ^ 32 \<Longrightarrow> unat (of_nat k :: u32) = k"
  by (simp add: unat_of_nat)

lemma split_at: "out = a @ [x] @ r \<Longrightarrow> length a = n \<Longrightarrow> take n out = a \<and> out ! n = x"
  by (auto simp: nth_append)

text \<open>The default handler answers the task in upper case after a prefix, cut to the buffer: the
  result is terminated and never fills the buffer.\<close>

theorem default_task_handler_result:
  assumes "0 < sint n" "sint n < MAX_TASK_DATA" "nat (sint n) \<le> length data" "length buf = 1024"
  shows "\<exists>out m. pp_default_handler data n buf = (0, out, m) \<and> length out = 1024
     \<and> unat m = 11 + min (nat (sint n)) 1012 \<and> unat m < 1024
     \<and> take (unat m) out = processed_prefix @ map upper (take (min (nat (sint n)) 1012) data)
     \<and> out ! unat m = 0"
proof -
  define c where "c = min (nat (sint n)) 1012"
  let ?u = "map (\<lambda>i. upper (data ! i)) [0..<c]"
  let ?r1 = "put_bytes 0 (processed_prefix @ [0]) buf" and ?out = "put_bytes (11 + c) [0]
     (put_bytes 11 (map (\<lambda>i. upper (data ! i)) [0..<c]) (put_bytes 0 (processed_prefix @ [0]) buf))"
  have c: "c \<le> 1012" "c \<le> length data" using assms(3) by (auto simp: c_def)
  have cl: "(if nat (sint n) < 1012 then nat (sint n) else 1012) = c" by (simp add: c_def)
  have rem: "nat 1024 - 11 - 1 = (1012::nat)" by simp
  have nc: "\<not> (sint n \<le> 0 \<or> 1024 \<le> sint n)" using assms(1,2) by (simp add: MAX_TASK_DATA_def)
  have p: "length processed_prefix = 11" by (simp add: processed_prefix_def)
  have u: "?u = map upper (take c data)" using c(2) by (intro nth_equalityI) simp_all
  have l1: "length ?r1 = 1024" using put_bytes_length [of 0 "processed_prefix @ [0]" buf] assms(4) p by simp
  have "take 11 ?r1 = processed_prefix" using p by (simp add: put_bytes_def)
  then have r2: "put_bytes 11 ?u ?r1 = processed_prefix @ ?u @ drop (11 + c) ?r1"
    by (simp add: put_bytes_def)
  have "take (11 + c) (processed_prefix @ ?u @ drop (11 + c) ?r1) = processed_prefix @ ?u"
    using p by simp
  then have out: "?out = (processed_prefix @ ?u) @ [0] @ drop (12 + c) (put_bytes 11 ?u ?r1)"
    unfolding put_bytes_def [of "11 + c" "[0]"] r2 by simp
  have l2: "length (put_bytes 11 ?u ?r1) = 1024" using put_bytes_length [of 11 ?u ?r1] l1 c(1) by simp
  have "length ?out = 1024" using put_bytes_length [of "11 + c" "[0]" "put_bytes 11 ?u ?r1"] l2 c(1) by simp
  moreover have pl: "length (processed_prefix @ ?u) = 11 + c" using p by simp
  have "take (11 + c) ?out = processed_prefix @ ?u" "?out ! (11 + c) = 0"
    using split_at [OF out pl] by simp_all
  moreover have "pp_default_handler data n buf = (0, ?out, of_nat (11 + c))"
    by (simp only: pp_default_handler_def MAX_TASK_DATA_def Let_def p rem if_not_P [OF nc] cl)
  moreover have "unat (of_nat (11 + c) :: u32) = 11 + c" by (rule unat_of_nat_u32) (use c(1) in simp)
  ultimately show ?thesis using c(1) u
    by (intro exI [of _ ?out] exI [of _ "of_nat (11 + c)"]) (simp add: c_def min_less_iff_disj)
qed

theorem default_task_handler_result_witness:
  "\<exists>out m. pp_default_handler [97, 98, 49] 3 (replicate 1024 0) = (0, out, m) \<and> unat m = 14
     \<and> take 14 out = processed_prefix @ [65, 66, 49]"
proof -
  have s: "sint (3::u32) = 3" by simp
  have h: "0 < sint (3::u32)" "sint (3::u32) < MAX_TASK_DATA" "nat (sint (3::u32)) \<le> length [97, 98, 49 :: u8]"
    "length (replicate 1024 (0::u8)) = 1024"
    unfolding s MAX_TASK_DATA_def length_replicate by simp_all
  have "map upper [97, 98, 49] = [65, 66, 49]" by code_simp
  then show ?thesis using default_task_handler_result [OF h] unfolding s by (auto simp: min_def)
qed

definition serving_round :: "int \<Rightarrow> task_handler \<Rightarrow> pp_task \<Rightarrow> wm_round \<Rightarrow> bool" where
  "serving_round fd h t r \<longleftrightarrow> \<not> wr_exit r \<and> (\<exists>fds. wr_select r = SelReady fds \<and> fd \<in> fds)
     \<and> set (wr_reads r) \<subseteq> insert RIntr (RGot ` {0<..}) \<and> sizeof_task \<le> read_progress (wr_reads r)
     \<and> safe_write (enc_result (run_task h t)) 0 (wr_writes r) = Done (int sizeof_result, enc_result (run_task h t))"

text \<open>C18. The worker serves the tasks in its pipe in order: when every record is read and every result
  written whole, its answers are the handler's results one by one, whatever the slicing.\<close>

theorem worker_serves_in_order:
  assumes "list_all2 (serving_round fd h) ts rs" "\<forall>t\<in>set ts. length (pt_data t) = 1024" "wr_exit quit"
  shows "worker_rounds fd h (rs @ [quit]) (concat (map enc_task ts) @ later) out
     = Done (later, out @ concat (map (\<lambda>t. enc_result (run_task h t)) ts))"
  using assms(1,2)
proof (induction ts rs arbitrary: out rule: list_all2_induct)
  case Nil
  then show ?case using assms(3) by simp
next
  case (Cons t ts r rs)
  have d: "length (pt_data t) = 1024" using Cons.prems by simp
  obtain fds where sel: "\<not> wr_exit r" "wr_select r = SelReady fds" "fd \<in> fds"
    "set (wr_reads r) \<subseteq> insert RIntr (RGot ` {0<..})" "sizeof_task \<le> read_progress (wr_reads r)"
    "safe_write (enc_result (run_task h t)) 0 (wr_writes r) = Done (int sizeof_result, enc_result (run_task h t))"
    using Cons.hyps(1) by (auto simp: serving_round_def)
  let ?rest = "concat (map enc_task ts) @ later"
  have "safe_read sizeof_task [] (enc_task t @ ?rest) (wr_reads r) = Done (int sizeof_task, enc_task t, ?rest)"
    using safe_read_full [OF sel(4), of "[]" sizeof_task "enc_task t @ ?rest"] sel(5) d
    by (simp add: sizeof_task_def)
  moreover have "int sizeof_task \<noteq> 0" by (simp add: sizeof_task_def)
  ultimately show ?case using sel(1-3,6) Cons.IH [of "out @ enc_result (run_task h t)"] Cons.prems
    by (simp add: dec_enc_task d)
qed

theorem worker_serves_in_order_witness:
  "worker_rounds 3 (\<lambda>d n r. (0, replicate 1024 1, 5))
     [\<lparr>wr_exit = False, wr_select = SelReady {3}, wr_reads = [RGot 1000, RGot 1000], wr_writes = [WIntr, WPut 2000]\<rparr>,
      \<lparr>wr_exit = True, wr_select = SelTimeout, wr_reads = [], wr_writes = []\<rparr>] (enc_task pp_zero_task) []
   = Done ([], enc_result \<lparr>pr_task_id = 0, pr_result_code = 0, pr_result_data = replicate 1024 1, pr_result_len = 5\<rparr>)"
proof -
  let ?h = "\<lambda>d n r. (0, replicate 1024 1, 5) :: u32 \<times> u8 list \<times> u32"
  let ?r = "\<lparr>wr_exit = False, wr_select = SelReady {3}, wr_reads = [RGot 1000, RGot 1000], wr_writes = [WIntr, WPut 2000]\<rparr>"
  let ?q = "\<lparr>wr_exit = True, wr_select = SelTimeout, wr_reads = [], wr_writes = []\<rparr>"
  let ?res = "\<lparr>pr_task_id = 0, pr_result_code = 0, pr_result_data = replicate 1024 1, pr_result_len = 5\<rparr> :: pp_result"
  have run: "run_task ?h pp_zero_task = ?res" by (simp only: run_task_def pp_zero_task_def pp_task.simps prod.case)
  have z: "length (pt_data pp_zero_task) = 1024" by (simp only: pp_zero_task_def pp_task.simps length_replicate)
  have l: "length (enc_result ?res) = 1036" by (simp add: length_enc_result)
  then have n: "0 < length (enc_result ?res)" by simp
  have "safe_write (enc_result ?res) 0 [WIntr, WPut 2000] = Done (int sizeof_result, enc_result ?res)"
    unfolding safe_write_simps(3) [OF n] safe_write_simps(6) [OF n] l
    by (subst safe_write_simps(1)) (simp_all add: l sizeof_result_def)
  then have "serving_round 3 ?h pp_zero_task ?r"
    by (simp add: serving_round_def run sizeof_task_def read_progress_def)
  then show ?thesis
    using worker_serves_in_order [of 3 ?h "[pp_zero_task]" "[?r]" ?q "[]" "[]"] z by (simp add: run)
qed

subsection \<open>Submitting\<close>

text \<open>A submission is refused without an effect, or appends one task that carries the next id and
  the caller's bytes, terminated, and takes the id.\<close>

theorem submit_task_spec:
  assumes "tq_ok (pp_task_queue p)" "length garbage = 1024" "pp_next_task_id p \<noteq> 0x7FFFFFFF"
    "nat (sint n) \<le> length bs"
  shows "if 0 < sint n \<and> sint n < MAX_TASK_DATA \<and> length (tq_contents (pp_task_queue p)) < 1024
     then \<exists>p' t. process_pool_submit_task garbage (Some p) (Some bs) n = Done (pp_next_task_id p, Some p')
       \<and> tq_ok (pp_task_queue p') \<and> tq_contents (pp_task_queue p') = tq_contents (pp_task_queue p) @ [t]
       \<and> pt_task_id t = pp_next_task_id p \<and> pt_data_len t = n \<and> length (pt_data t) = 1024
       \<and> take (nat (sint n)) (pt_data t) = take (nat (sint n)) bs \<and> pt_data t ! nat (sint n) = 0
       \<and> pp_next_task_id p' = pp_next_task_id p + 1 \<and> pp_workers p' = pp_workers p
     else process_pool_submit_task garbage (Some p) (Some bs) n = Done (- 1, Some p)"
proof -
  let ?q = "pp_task_queue p" and ?n = "nat (sint n)"
  have full: "length (tq_contents ?q) < 1024 \<longleftrightarrow> tq_count ?q < MAX_TASK_QUEUE"
    using assms(1) by (auto simp: tq_ok_def MAX_TASK_QUEUE_def)
  show ?thesis
  proof (cases "0 < sint n \<and> sint n < MAX_TASK_DATA \<and> tq_count ?q < MAX_TASK_QUEUE")
    case False
    then show ?thesis using full by (auto simp: process_pool_submit_task_def)
  next
    case True
    let ?d = "take ?n bs @ [0] @ drop (?n + 1) garbage"
    let ?t = "\<lparr>pt_task_id = pp_next_task_id p, pt_data = ?d, pt_data_len = n\<rparr>"
    obtain q where q: "enqueue_task ?q ?t = (0, q)" "tq_ok q" "tq_contents q = tq_contents ?q @ [?t]"
      using enqueue_task_room [OF assms(1), of ?t] True by auto
    have lt: "?n < 1024" using True by (auto simp: MAX_TASK_DATA_def nat_less_iff)
    have d: "length ?d = 1024" "take ?n ?d = take ?n bs" "?d ! ?n = 0"
      using assms(2,4) lt by (simp_all add: nth_append min_absorb2)
    let ?p = "p\<lparr>pp_next_task_id := pp_next_task_id p + 1, pp_task_queue := q\<rparr>"
    have "process_pool_submit_task garbage (Some p) (Some bs) n = Done (pp_next_task_id p, Some ?p)"
      using True assms(3,4) q(1) by (auto simp: process_pool_submit_task_def Let_def)
    moreover have c: "0 < sint n \<and> sint n < MAX_TASK_DATA \<and> length (tq_contents ?q) < 1024"
      using True full by blast
    ultimately show ?thesis unfolding if_P [OF c] using q d
      by (intro exI [of _ ?p] exI [of _ ?t]) simp
  qed
qed

theorem submit_task_spec_witness:
  "\<exists>p'. process_pool_submit_task (replicate 1024 9) (Some (two_pool_of zero_worker_process zero_worker_process))
      (Some [104, 105]) 2 = Done (1, Some p') \<and> pp_next_task_id p' = 2"
proof -
  let ?p = "two_pool_of zero_worker_process zero_worker_process"
  have "length (tq_tasks (pp_task_queue zero_pool)) = 1024"
    by (simp only: zero_pool_def process_pool.simps task_queue.simps length_replicate)
  then have q: "tq_ok (pp_task_queue ?p)" "tq_contents (pp_task_queue ?p) = []"
    using init_task_queue_ok by (auto simp: two_pool_of_def)
  have i: "pp_next_task_id ?p = 1" by (simp add: two_pool_of_def)
  have s: "sint (2::u32) = 2" by simp
  have h: "length (replicate 1024 (9::u8)) = 1024" "pp_next_task_id ?p \<noteq> 0x7FFFFFFF"
    "nat (sint (2::u32)) \<le> length [104, 105 :: u8]"
    unfolding s i length_replicate by simp_all
  show ?thesis using submit_task_spec [OF q(1) h] q(2) unfolding s i
    by (auto simp: MAX_TASK_DATA_def)
qed

end
