(* ===== verification/Metrics.thy ===== *)
theory Metrics
  imports Complex_Main "HOL-Library.Sublist" Pool_Prelude
begin

text \<open>
  Metrics: \<^verbatim>\<open>new_ProcessPool/src/utils/metrics.c\<close>. The registry holds the registered counters,
  latency trackers and histograms (the used prefix of each array); the sizes of the arrays, which
  the sources use but define nowhere, are parameters, and so are clock readings. Atomic updates are
  single steps; \<^verbatim>\<open>Metrics_Recording\<close> interleaves the compare-and-exchange loops of
  \<open>metrics_latency_record\<close> step by step. The reports are in \<open>Metrics_Json\<close> and \<open>Metrics_Summary\<close>, the reading
  of \<^verbatim>\<open>/proc\<close> in \<open>Proc_Stats\<close>.
\<close>

record perf_counter =
  ct_value :: u64
  ct_reset_time :: u64
  ct_name :: string

record tracker =
  lt_count :: u64
  lt_total :: u64
  lt_min :: u64
  lt_max :: u64
  lt_reset_time :: u64
  lt_name :: string

record histogram =
  hg_values :: "u64 list"
  hg_bounds :: "u64 list"
  hg_count :: u64
  hg_sum :: u64
  hg_reset_time :: u64
  hg_name :: string

record metrics =
  mx_initialized :: bool
  mx_counters :: "perf_counter list"
  mx_latencies :: "tracker list"
  mx_histograms :: "histogram list"
  mx_start_time :: u64

record limits =
  ml_counters :: nat
  ml_latencies :: nat
  ml_histograms :: nat
  ml_buckets :: nat

subsection \<open>Initialisation\<close>

datatype metrics_mutex = RegistryMutex | HistogramMutex nat

definition zero_metrics :: metrics where
  "zero_metrics = \<lparr>mx_initialized = False, mx_counters = [], mx_latencies = [], mx_histograms = [],
     mx_start_time = 0\<rparr>"

text \<open>The loop over the histograms' mutexes; \<open>inits\<close> are the outcomes of the remaining calls.\<close>

fun init_mutexes :: "nat \<Rightarrow> bool list \<Rightarrow> metrics_mutex list \<Rightarrow> bool \<times> metrics_mutex list" where
  "init_mutexes i [] held = (True, held)"
| "init_mutexes i (ok # inits) held =
     (if \<not> ok
      then (False, fold remove1 (map HistogramMutex [0..<i] @ [RegistryMutex]) held)
      else init_mutexes (Suc i) inits (held @ [HistogramMutex i]))"

definition metrics_init ::
  "bool \<Rightarrow> bool list \<Rightarrow> u64 \<Rightarrow> metrics \<times> metrics_mutex list \<Rightarrow> int \<times> metrics \<times> metrics_mutex list" where
  "metrics_init mutex_ok inits now g =
     (case g of (m, held) \<Rightarrow>
      if mx_initialized m then (0, m, held)
      else if \<not> mutex_ok then (- 1, zero_metrics, held)
      else case init_mutexes 0 inits (held @ [RegistryMutex]) of (ok, held') \<Rightarrow>
             if \<not> ok then (- 1, zero_metrics, held')
             else (0, zero_metrics\<lparr>mx_start_time := now, mx_initialized := True\<rparr>, held'))"

definition metrics_cleanup :: "limits \<Rightarrow> metrics \<times> metrics_mutex list \<Rightarrow> metrics \<times> metrics_mutex list" where
  "metrics_cleanup l g =
     (case g of (m, held) \<Rightarrow>
      if \<not> mx_initialized m then g
      else (m\<lparr>mx_initialized := False\<rparr>,
            fold remove1 (map HistogramMutex [0..<ml_histograms l] @ [RegistryMutex]) held))"

subsection \<open>Registration\<close>

text \<open>The body the three registrations share: the bound, the search by name, the new entry.\<close>

definition register_in ::
  "nat \<Rightarrow> ('e \<Rightarrow> string) \<Rightarrow> string \<Rightarrow> 'e \<Rightarrow> 'e list \<Rightarrow> int \<times> 'e list" where
  "register_in size_max name_of name new xs =
     (if length xs \<ge> size_max then (- 1, xs)
      else case find (\<lambda>i. name_of (xs ! i) = name) [0..<length xs] of
             Some i \<Rightarrow> (int i, xs)
           | None \<Rightarrow> (int (length xs), xs @ [new]))"

definition stored_name :: "string \<Rightarrow> string" where
  "stored_name name = take 63 name"

definition metrics_counter_register ::
  "limits \<Rightarrow> u64 \<Rightarrow> string option \<Rightarrow> metrics \<Rightarrow> int \<times> metrics" where
  "metrics_counter_register l now name m =
     (case name of None \<Rightarrow> (- 1, m)
      | Some nm \<Rightarrow> if \<not> mx_initialized m then (- 1, m)
          else case register_in (ml_counters l) ct_name nm
                      \<lparr>ct_value = 0, ct_reset_time = now, ct_name = stored_name nm\<rparr> (mx_counters m) of
                 (i, xs) \<Rightarrow> (i, m\<lparr>mx_counters := xs\<rparr>))"

definition fresh_tracker :: "u64 \<Rightarrow> string \<Rightarrow> tracker" where
  "fresh_tracker now nm = \<lparr>lt_count = 0, lt_total = 0, lt_min = - 1, lt_max = 0, lt_reset_time = now,
     lt_name = nm\<rparr>"

definition metrics_latency_register ::
  "limits \<Rightarrow> u64 \<Rightarrow> string option \<Rightarrow> metrics \<Rightarrow> int \<times> metrics" where
  "metrics_latency_register l now name m =
     (case name of None \<Rightarrow> (- 1, m)
      | Some nm \<Rightarrow> if \<not> mx_initialized m then (- 1, m)
          else case register_in (ml_latencies l) lt_name nm (fresh_tracker now (stored_name nm)) (mx_latencies m) of
                 (i, xs) \<Rightarrow> (i, m\<lparr>mx_latencies := xs\<rparr>))"

definition init_histogram_buckets :: "limits \<Rightarrow> u64 list \<Rightarrow> nat \<Rightarrow> histogram \<Rightarrow> histogram" where
  "init_histogram_buckets l boundaries bucket_count h =
     (let n = (if bucket_count > ml_buckets l then ml_buckets l else bucket_count)
      in h\<lparr>hg_bounds := map (\<lambda>i. if i < n then boundaries ! i else - 1) [0..<ml_buckets l],
           hg_values := replicate (ml_buckets l) 0\<rparr>)"

definition fresh_histogram :: "limits \<Rightarrow> u64 \<Rightarrow> string \<Rightarrow> u64 list \<Rightarrow> nat \<Rightarrow> histogram" where
  "fresh_histogram l now nm bs n = init_histogram_buckets l bs n
     \<lparr>hg_values = [], hg_bounds = [], hg_count = 0, hg_sum = 0, hg_reset_time = now, hg_name = nm\<rparr>"

definition metrics_histogram_register ::
  "limits \<Rightarrow> u64 \<Rightarrow> string option \<Rightarrow> u64 list option \<Rightarrow> int \<Rightarrow> metrics \<Rightarrow> int \<times> metrics" where
  "metrics_histogram_register l now name boundaries bucket_count m =
     (case (name, boundaries) of
        (Some nm, Some bs) \<Rightarrow>
          if \<not> mx_initialized m \<or> bucket_count \<le> 0 then (- 1, m)
          else case register_in (ml_histograms l) hg_name nm
                      (fresh_histogram l now (stored_name nm) bs (nat bucket_count)) (mx_histograms m) of
                 (i, xs) \<Rightarrow> (i, m\<lparr>mx_histograms := xs\<rparr>)
      | _ \<Rightarrow> (- 1, m))"

subsection \<open>Counters\<close>

definition valid_id :: "metrics \<Rightarrow> int \<Rightarrow> 'e list \<Rightarrow> bool" where
  "valid_id m i xs \<longleftrightarrow> \<not> (\<not> mx_initialized m \<or> i < 0 \<or> i \<ge> int (length xs))"

definition update_at :: "int \<Rightarrow> ('e \<Rightarrow> 'e) \<Rightarrow> 'e list \<Rightarrow> 'e list" where
  "update_at i f xs = xs[nat i := f (xs ! nat i)]"

definition metrics_counter_add :: "int \<Rightarrow> u64 \<Rightarrow> metrics \<Rightarrow> metrics" where
  "metrics_counter_add i v m =
     (if \<not> valid_id m i (mx_counters m) then m
      else m\<lparr>mx_counters := update_at i (\<lambda>c. c\<lparr>ct_value := ct_value c + v\<rparr>) (mx_counters m)\<rparr>)"

definition metrics_counter_inc :: "int \<Rightarrow> metrics \<Rightarrow> metrics" where
  "metrics_counter_inc i m =
     (if \<not> valid_id m i (mx_counters m) then m
      else m\<lparr>mx_counters := update_at i (\<lambda>c. c\<lparr>ct_value := ct_value c + 1\<rparr>) (mx_counters m)\<rparr>)"

definition metrics_counter_get :: "int \<Rightarrow> metrics \<Rightarrow> u64" where
  "metrics_counter_get i m =
     (if \<not> valid_id m i (mx_counters m) then 0 else ct_value (mx_counters m ! nat i))"

definition metrics_counter_reset :: "u64 \<Rightarrow> int \<Rightarrow> metrics \<Rightarrow> metrics" where
  "metrics_counter_reset now i m =
     (if \<not> valid_id m i (mx_counters m) then m
      else m\<lparr>mx_counters := update_at i (\<lambda>c. c\<lparr>ct_value := 0, ct_reset_time := now\<rparr>) (mx_counters m)\<rparr>)"

subsection \<open>Latencies\<close>

text \<open>Recording without interference; the loops then exchange at the first attempt.\<close>

definition record_latency :: "u64 \<Rightarrow> tracker \<Rightarrow> tracker" where
  "record_latency v t =
     (let t1 = t\<lparr>lt_count := lt_count t + 1, lt_total := lt_total t + v\<rparr>;
          t2 = (if v < lt_min t1 then t1\<lparr>lt_min := v\<rparr> else t1)
      in if v > lt_max t2 then t2\<lparr>lt_max := v\<rparr> else t2)"

definition metrics_latency_record :: "int \<Rightarrow> u64 \<Rightarrow> metrics \<Rightarrow> metrics" where
  "metrics_latency_record i v m =
     (if \<not> valid_id m i (mx_latencies m) then m
      else m\<lparr>mx_latencies := update_at i (record_latency v) (mx_latencies m)\<rparr>)"

record latency_stats =
  ls_count :: u64
  ls_total_time :: u64
  ls_min_time :: u64
  ls_max_time :: u64
  ls_avg_time :: u64

definition tracker_stats :: "tracker \<Rightarrow> latency_stats" where
  "tracker_stats t =
     \<lparr>ls_count = lt_count t, ls_total_time = lt_total t,
      ls_min_time = (if lt_min t = - 1 then 0 else lt_min t), ls_max_time = lt_max t,
      ls_avg_time = (if lt_count t > 0 then lt_total t div lt_count t else 0)\<rparr>"

definition metrics_latency_get :: "int \<Rightarrow> metrics \<Rightarrow> latency_stats" where
  "metrics_latency_get i m =
     (if \<not> valid_id m i (mx_latencies m)
      then \<lparr>ls_count = 0, ls_total_time = 0, ls_min_time = 0, ls_max_time = 0, ls_avg_time = 0\<rparr>
      else tracker_stats (mx_latencies m ! nat i))"

definition metrics_latency_reset :: "u64 \<Rightarrow> int \<Rightarrow> metrics \<Rightarrow> metrics" where
  "metrics_latency_reset now i m =
     (if \<not> valid_id m i (mx_latencies m) then m
      else m\<lparr>mx_latencies := update_at i (\<lambda>t. fresh_tracker now (lt_name t)) (mx_latencies m)\<rparr>)"

subsection \<open>Histograms\<close>

definition bucket_of :: "u64 list \<Rightarrow> u64 \<Rightarrow> nat option" where
  "bucket_of bounds v = find (\<lambda>i. v \<le> bounds ! i) [0..<length bounds]"

definition observe :: "u64 \<Rightarrow> histogram \<Rightarrow> histogram" where
  "observe v h =
     (let h1 = (case bucket_of (hg_bounds h) v of None \<Rightarrow> h
                | Some i \<Rightarrow> h\<lparr>hg_values := (hg_values h)[i := hg_values h ! i + 1]\<rparr>)
      in h1\<lparr>hg_count := hg_count h1 + 1, hg_sum := hg_sum h1 + v\<rparr>)"

definition metrics_histogram_observe :: "int \<Rightarrow> u64 \<Rightarrow> metrics \<Rightarrow> metrics" where
  "metrics_histogram_observe i v m =
     (if \<not> valid_id m i (mx_histograms m) then m
      else m\<lparr>mx_histograms := update_at i (observe v) (mx_histograms m)\<rparr>)"

record histogram_stats =
  hs_total_count :: u64
  hs_total_sum :: u64
  hs_buckets :: "u64 list"
  hs_bucket_boundaries :: "u64 list"
  hs_average :: real

text \<open>The quotient is a \<open>double\<close> in the code; here it is the exact one.\<close>

definition metrics_histogram_get :: "limits \<Rightarrow> int \<Rightarrow> metrics \<Rightarrow> histogram_stats" where
  "metrics_histogram_get l i m =
     (if \<not> valid_id m i (mx_histograms m)
      then \<lparr>hs_total_count = 0, hs_total_sum = 0, hs_buckets = replicate (ml_buckets l) 0,
            hs_bucket_boundaries = replicate (ml_buckets l) 0, hs_average = 0\<rparr>
      else let h = mx_histograms m ! nat i
           in \<lparr>hs_total_count = hg_count h, hs_total_sum = hg_sum h, hs_buckets = hg_values h,
               hs_bucket_boundaries = hg_bounds h,
               hs_average = (if hg_count h > 0 then real (unat (hg_sum h)) / real (unat (hg_count h)) else 0)\<rparr>)"

definition metrics_histogram_reset :: "u64 \<Rightarrow> int \<Rightarrow> metrics \<Rightarrow> metrics" where
  "metrics_histogram_reset now i m =
     (if \<not> valid_id m i (mx_histograms m) then m
      else m\<lparr>mx_histograms := update_at i (\<lambda>h. h\<lparr>hg_values := map (\<lambda>_. 0) (hg_values h), hg_count := 0,
                hg_sum := 0, hg_reset_time := now\<rparr>) (mx_histograms m)\<rparr>)"

text \<open>The clock may differ between the entries: \<open>now\<close> gives the reading for each.\<close>

definition metrics_reset_all :: "(nat \<Rightarrow> u64) \<Rightarrow> (nat \<Rightarrow> u64) \<Rightarrow> (nat \<Rightarrow> u64) \<Rightarrow> metrics \<Rightarrow> metrics" where
  "metrics_reset_all now1 now2 now3 m =
     (if \<not> mx_initialized m then m
      else let m1 = fold (\<lambda>i. metrics_counter_reset (now1 i) (int i)) [0..<length (mx_counters m)] m;
               m2 = fold (\<lambda>i. metrics_latency_reset (now2 i) (int i)) [0..<length (mx_latencies m1)] m1
           in fold (\<lambda>i. metrics_histogram_reset (now3 i) (int i)) [0..<length (mx_histograms m2)] m2)"

subsection \<open>Timers\<close>

record perf_timer =
  pf_start_time :: u64
  pf_name :: "string option"
  pf_latency_id :: int

definition perf_timer_start ::
  "limits \<Rightarrow> u64 \<Rightarrow> u64 \<Rightarrow> string option \<Rightarrow> metrics \<Rightarrow> perf_timer \<times> metrics" where
  "perf_timer_start l start now name m =
     (case name of
        None \<Rightarrow> (\<lparr>pf_start_time = start, pf_name = None, pf_latency_id = - 1\<rparr>, m)
      | Some nm \<Rightarrow> (case metrics_latency_register l now name m of (i, m') \<Rightarrow>
          (\<lparr>pf_start_time = start, pf_name = name, pf_latency_id = i\<rparr>, m')))"

definition perf_timer_end ::
  "u64 \<Rightarrow> perf_timer option \<Rightarrow> metrics \<Rightarrow> u64 \<times> perf_timer option \<times> metrics" where
  "perf_timer_end now timer m =
     (case timer of None \<Rightarrow> (0, None, m)
      | Some t \<Rightarrow>
          if pf_start_time t = 0 then (0, timer, m)
          else let elapsed = now - pf_start_time t;
                   m' = (if pf_latency_id t \<ge> 0 then metrics_latency_record (pf_latency_id t) elapsed m else m)
               in (elapsed, Some (t\<lparr>pf_start_time := 0\<rparr>), m'))"

subsection \<open>The pool's own metrics\<close>

record pool_metrics =
  pm_task_submitted :: int
  pm_task_completed :: int
  pm_task_failed :: int
  pm_task_cancelled :: int
  pm_worker_created :: int
  pm_worker_destroyed :: int
  pm_task_latency :: int
  pm_queue_latency :: int

definition metrics_init_pool_metrics :: "limits \<Rightarrow> u64 \<Rightarrow> metrics \<Rightarrow> pool_metrics \<times> metrics" where
  "metrics_init_pool_metrics l now m =
     (case metrics_counter_register l now (Some ''tasks_submitted'') m of (a, m1) \<Rightarrow>
      case metrics_counter_register l now (Some ''tasks_completed'') m1 of (b, m2) \<Rightarrow>
      case metrics_counter_register l now (Some ''tasks_failed'') m2 of (c, m3) \<Rightarrow>
      case metrics_counter_register l now (Some ''tasks_cancelled'') m3 of (d, m4) \<Rightarrow>
      case metrics_counter_register l now (Some ''workers_created'') m4 of (e, m5) \<Rightarrow>
      case metrics_counter_register l now (Some ''workers_destroyed'') m5 of (f, m6) \<Rightarrow>
      case metrics_latency_register l now (Some ''task_execution_time'') m6 of (g, m7) \<Rightarrow>
      case metrics_latency_register l now (Some ''task_queue_time'') m7 of (h, m8) \<Rightarrow>
        (\<lparr>pm_task_submitted = a, pm_task_completed = b, pm_task_failed = c, pm_task_cancelled = d,
          pm_worker_created = e, pm_worker_destroyed = f, pm_task_latency = g, pm_queue_latency = h\<rparr>, m8))"

definition inc_if_registered :: "int \<Rightarrow> metrics \<Rightarrow> metrics" where
  "inc_if_registered i m = (if i \<ge> 0 then metrics_counter_inc i m else m)"

definition metrics_task_submitted :: "pool_metrics \<Rightarrow> metrics \<Rightarrow> metrics" where
  "metrics_task_submitted pm = inc_if_registered (pm_task_submitted pm)"

definition metrics_task_completed :: "pool_metrics \<Rightarrow> u64 \<Rightarrow> metrics \<Rightarrow> metrics" where
  "metrics_task_completed pm time_ns m =
     (let m1 = inc_if_registered (pm_task_completed pm) m
      in if pm_task_latency pm \<ge> 0 then metrics_latency_record (pm_task_latency pm) time_ns m1 else m1)"

definition metrics_task_failed :: "pool_metrics \<Rightarrow> metrics \<Rightarrow> metrics" where
  "metrics_task_failed pm = inc_if_registered (pm_task_failed pm)"

definition metrics_task_cancelled :: "pool_metrics \<Rightarrow> metrics \<Rightarrow> metrics" where
  "metrics_task_cancelled pm = inc_if_registered (pm_task_cancelled pm)"

definition metrics_worker_created :: "pool_metrics \<Rightarrow> metrics \<Rightarrow> metrics" where
  "metrics_worker_created pm = inc_if_registered (pm_worker_created pm)"

definition metrics_worker_destroyed :: "pool_metrics \<Rightarrow> metrics \<Rightarrow> metrics" where
  "metrics_worker_destroyed pm = inc_if_registered (pm_worker_destroyed pm)"

definition metrics_task_queue_time :: "pool_metrics \<Rightarrow> u64 \<Rightarrow> metrics \<Rightarrow> metrics" where
  "metrics_task_queue_time pm time_ns m =
     (if pm_queue_latency pm \<ge> 0 then metrics_latency_record (pm_queue_latency pm) time_ns m else m)"

subsection \<open>Registries\<close>

text \<open>What the three registrations promise: a bound on the entries, and one entry per name.\<close>

locale name_registry =
  fixes capacity :: nat
    and ready :: "'m \<Rightarrow> bool"
    and entries :: "'m \<Rightarrow> 'e list"
    and name_of :: "'e \<Rightarrow> string"
    and register :: "u64 \<Rightarrow> string \<Rightarrow> 'm \<Rightarrow> int \<times> 'm"
  assumes not_ready: "\<not> ready m \<Longrightarrow> register now nm m = (- 1, m)"
    and full: "capacity \<le> length (entries m) \<Longrightarrow> register now nm m = (- 1, m)"
    and found: "ready m \<Longrightarrow> length (entries m) < capacity \<Longrightarrow> i < length (entries m)
      \<Longrightarrow> name_of (entries m ! i) = nm \<Longrightarrow> nm \<notin> name_of ` set (take i (entries m))
      \<Longrightarrow> register now nm m = (int i, m)"
    and fresh: "ready m \<Longrightarrow> length (entries m) < capacity \<Longrightarrow> nm \<notin> name_of ` set (entries m)
      \<Longrightarrow> \<exists>e m'. register now nm m = (int (length (entries m)), m') \<and> entries m' = entries m @ [e]
            \<and> name_of e = stored_name nm \<and> ready m'"
begin

lemma known_cases:
  assumes "ready m" "length (entries m) < capacity" "nm \<in> name_of ` set (entries m)"
  obtains i where "i < length (entries m)" "name_of (entries m ! i) = nm" "\<forall>now. register now nm m = (int i, m)"
proof -
  let ?P = "\<lambda>i. i < length (entries m) \<and> name_of (entries m ! i) = nm"
  have ex: "\<exists>i. ?P i" using assms(3) by (auto simp: in_set_conv_nth)
  let ?i = "LEAST i. ?P i"
  have p: "?P ?i" using ex by (rule LeastI_ex)
  have "nm \<notin> name_of ` set (take ?i (entries m))"
  proof
    assume "nm \<in> name_of ` set (take ?i (entries m))"
    then obtain j where "j < ?i" "name_of (entries m ! j) = nm"
      using p by (auto simp: in_set_conv_nth)
    moreover from this p have "?P j" by simp
    ultimately show False using not_less_Least [of j ?P] by blast
  qed
  with p show ?thesis using that [of ?i] found [OF assms(1,2), of ?i nm] by blast
qed

lemma register_cases:
  assumes "register now nm m = (i, m')"
  obtains (rejected) "i = - 1" "m' = m"
  | (known) k where "ready m" "length (entries m) < capacity" "i = int k" "m' = m"
      "\<forall>now. register now nm m = (int k, m)"
      "k < length (entries m)" "name_of (entries m ! k) = nm"
  | (created) e where "ready m" "ready m'" "length (entries m) < capacity" "i = int (length (entries m))"
      "entries m' = entries m @ [e]" "name_of e = stored_name nm" "nm \<notin> name_of ` set (entries m)"
proof (cases "ready m \<and> length (entries m) < capacity")
  case False
  then show ?thesis using assms rejected not_ready [of m now nm] full [of m now nm] by fastforce
next
  case True
  show ?thesis
  proof (cases "nm \<in> name_of ` set (entries m)")
    case in_it: True
    from True have "ready m" "length (entries m) < capacity" by auto
    from known_cases [OF this in_it] obtain k where k: "k < length (entries m)"
      "name_of (entries m ! k) = nm" and r: "\<forall>now. register now nm m = (int k, m)" .
    from r assms have "i = int k" "m' = m" by (metis prod.inject)+
    from known [OF _ _ this r k] True show ?thesis by blast
  next
    case False
    then show ?thesis using assms created True fresh [of m nm now] by auto
  qed
qed

lemma entries_grow: "register now nm m = (i, m') \<Longrightarrow> prefix (entries m) (entries m')"
  by (erule register_cases) auto

lemma id_in_range: "register now nm m = (i, m') \<Longrightarrow> 0 \<le> i \<Longrightarrow> i < int (length (entries m'))"
  by (erule register_cases) auto

lemma length_bounded:
  "register now nm m = (i, m') \<Longrightarrow> length (entries m) \<le> capacity \<Longrightarrow> length (entries m') \<le> capacity"
  by (erule register_cases) auto

lemma id_name:
  "register now nm m = (i, m') \<Longrightarrow> 0 \<le> i \<Longrightarrow> name_of (entries m' ! nat i) = nm \<or> name_of (entries m' ! nat i) = stored_name nm"
  by (erule register_cases) auto

lemma register_again:
  assumes r: "register now nm m = (i, m')" and i: "0 \<le> i" and short: "length nm \<le> 63"
    and room: "length (entries m') < capacity"
  shows "register now' nm m' = (i, m')"
  using r
proof (cases rule: register_cases)
  case known
  then show ?thesis by simp
next
  case (created e)
  then have "name_of e = nm" using short by (simp add: stored_name_def)
  with created room found [of m' "length (entries m)" nm now'] show ?thesis by simp
qed (use i in simp)

lemma distinct_ids:
  assumes "register now a m = (i, m1)" "register now' b m1 = (j, m2)" "0 \<le> i" "0 \<le> j" "a \<noteq> b"
    "length a \<le> 63" "length b \<le> 63"
  shows "i \<noteq> j"
proof -
  have s: "stored_name a = a" "stored_name b = b" using assms(6,7) by (simp_all add: stored_name_def)
  have "name_of (entries m1 ! nat i) = a" "name_of (entries m2 ! nat j) = b"
    using id_name [OF assms(1,3)] id_name [OF assms(2,4)] s by auto
  moreover have "entries m2 ! nat i = entries m1 ! nat i"
    using entries_grow [OF assms(2)] id_in_range [OF assms(1,3)] assms(3)
    by (auto simp: prefix_def nth_append)
  ultimately show ?thesis using assms(5) by metis
qed

lemma long_names_again:
  assumes r: "register now nm m = (i, m')" and i: "0 \<le> i" and long: "63 < length nm"
    and names: "\<forall>e \<in> set (entries m). length (name_of e) \<le> 63" and room: "length (entries m') < capacity"
  shows "\<exists>m''. register now' nm m' = (i + 1, m'')"
  using r
proof (cases rule: register_cases)
  case (known k)
  then show ?thesis using names long by (metis nth_mem leD)
next
  case (created e)
  have "length (stored_name nm) \<le> 63" by (simp add: stored_name_def)
  with created long have "nm \<notin> name_of ` set (entries m')" by auto
  with created room fresh [of m' nm now'] show ?thesis by auto
qed (use i in simp)

end

lemma register_in_full: "n \<le> length xs \<Longrightarrow> register_in n f nm e xs = (- 1, xs)"
  by (simp add: register_in_def)

lemma register_in_found:
  assumes "length xs < n" "i < length xs" "f (xs ! i) = nm" "nm \<notin> f ` set (take i xs)"
  shows "register_in n f nm e xs = (int i, xs)"
proof -
  have "find (\<lambda>j. f (xs ! j) = nm) [0..<length xs] = Some i"
    unfolding find_Some_iff
  proof (intro exI [of _ i] conjI allI impI)
    fix j assume "j < i"
    then have "f (xs ! j) \<in> f ` set (take i xs)"
      using assms(2) by (auto simp: in_set_conv_nth intro!: imageI exI [of _ j])
    then show "f (xs ! ([0..<length xs] ! j)) \<noteq> nm" using assms(2,4) \<open>j < i\<close> by auto
  qed (use assms in auto)
  then show ?thesis using assms(1) by (simp add: register_in_def)
qed

lemma register_in_fresh:
  assumes "length xs < n" "nm \<notin> f ` set xs"
  shows "register_in n f nm e xs = (int (length xs), xs @ [e])"
proof -
  have "find (\<lambda>j. f (xs ! j) = nm) [0..<length xs] = None"
    using assms(2) by (auto simp: find_None_iff)
  then show ?thesis using assms(1) by (simp add: register_in_def)
qed

lemmas register_in_simps = register_in_full register_in_found register_in_fresh

interpretation ctr: name_registry "ml_counters l" mx_initialized mx_counters ct_name
  "\<lambda>now nm. metrics_counter_register l now (Some nm)"
  by unfold_locales (auto simp: metrics_counter_register_def register_in_simps)

interpretation lat: name_registry "ml_latencies l" mx_initialized mx_latencies lt_name
  "\<lambda>now nm. metrics_latency_register l now (Some nm)"
  by unfold_locales (auto simp: metrics_latency_register_def fresh_tracker_def register_in_simps)

interpretation hist: name_registry "ml_histograms l" "\<lambda>m. mx_initialized m \<and> 0 < n" mx_histograms hg_name
  "\<lambda>now nm. metrics_histogram_register l now (Some nm) (Some bs) n"
  by unfold_locales
    (auto simp: metrics_histogram_register_def fresh_histogram_def init_histogram_buckets_def Let_def register_in_simps)

text \<open>A name of at most 63 characters identifies one counter: as long as the table is not full,
  registering it again returns the identifier of the first registration and changes nothing, and two
  such names never share an identifier.\<close>

theorem counter_register_identifies:
  assumes "metrics_counter_register l now (Some a) m = (i, m1)" "0 \<le> i" "length a \<le> 63"
  shows "(length (mx_counters m1) < ml_counters l \<longrightarrow> metrics_counter_register l now' (Some a) m1 = (i, m1))
    \<and> (length b \<le> 63 \<longrightarrow> b \<noteq> a \<longrightarrow> 0 \<le> fst (metrics_counter_register l now' (Some b) m1)
         \<longrightarrow> fst (metrics_counter_register l now' (Some b) m1) \<noteq> i)"
proof -
  have "fst (metrics_counter_register l now' (Some b) m1) \<noteq> i"
    if "length b \<le> 63" "b \<noteq> a" "0 \<le> fst (metrics_counter_register l now' (Some b) m1)"
    using ctr.distinct_ids [OF assms(1) _ assms(2) that(3) _ assms(3) that(1)] that(2)
    by (metis prod.collapse)
  then show ?thesis using ctr.register_again [OF assms] by blast
qed


theorem counter_register_identifies_witness:
  "\<exists>m1. metrics_counter_register \<lparr>ml_counters = 3, ml_latencies = 0, ml_histograms = 0, ml_buckets = 0\<rparr> 5
       (Some ''a'') (zero_metrics\<lparr>mx_initialized := True\<rparr>) = (0, m1)
     \<and> metrics_counter_register \<lparr>ml_counters = 3, ml_latencies = 0, ml_histograms = 0, ml_buckets = 0\<rparr> 8
       (Some ''a'') m1 = (0, m1)"
proof -
  let ?l = "\<lparr>ml_counters = 3, ml_latencies = 0, ml_histograms = 0, ml_buckets = 0\<rparr>"
  let ?m = "zero_metrics\<lparr>mx_initialized := True\<rparr>"
  let ?m1 = "snd (metrics_counter_register ?l 5 (Some ''a'') ?m)"
  have r: "metrics_counter_register ?l 5 (Some ''a'') ?m = (0, ?m1)" by code_simp
  have "length (mx_counters ?m1) < ml_counters ?l" by code_simp
  then show ?thesis using counter_register_identifies [OF r, of 8] r by auto
qed

text \<open>The library truncates a name to 63 characters when it stores it but compares the whole name
  when it searches, so a longer name never finds its entry: each registration takes another one.\<close>

theorem long_counter_name_registers_twice:
  assumes "metrics_counter_register l now (Some nm) m = (i, m')" "0 \<le> i" "63 < length nm"
    "\<forall>c \<in> set (mx_counters m). length (ct_name c) \<le> 63" "length (mx_counters m') < ml_counters l"
  shows "\<exists>m''. metrics_counter_register l now' (Some nm) m' = (i + 1, m'')"
  by (rule ctr.long_names_again [OF assms])

theorem long_counter_name_registers_twice_witness:
  "\<exists>m' m''. metrics_counter_register \<lparr>ml_counters = 3, ml_latencies = 0, ml_histograms = 0, ml_buckets = 0\<rparr> 5
       (Some (replicate 70 CHR ''x'')) (zero_metrics\<lparr>mx_initialized := True\<rparr>) = (0, m')
     \<and> metrics_counter_register \<lparr>ml_counters = 3, ml_latencies = 0, ml_histograms = 0, ml_buckets = 0\<rparr> 8
       (Some (replicate 70 CHR ''x'')) m' = (1, m'')"
proof -
  let ?l = "\<lparr>ml_counters = 3, ml_latencies = 0, ml_histograms = 0, ml_buckets = 0\<rparr>"
  let ?m = "zero_metrics\<lparr>mx_initialized := True\<rparr>"
  let ?n = "replicate 70 CHR ''x''"
  let ?m1 = "snd (metrics_counter_register ?l 5 (Some ?n) ?m)"
  have r: "metrics_counter_register ?l 5 (Some ?n) ?m = (0, ?m1)"
    by (simp add: metrics_counter_register_def register_in_def zero_metrics_def)
  have "length (mx_counters ?m1) < ml_counters ?l"
    by (simp add: metrics_counter_register_def register_in_def zero_metrics_def)
  then show ?thesis using long_counter_name_registers_twice [OF r, of 8] r
    by (auto simp: zero_metrics_def)
qed

subsection \<open>Histograms\<close>

definition fitting :: "u64 list \<Rightarrow> nat \<Rightarrow> u64 list \<Rightarrow> nat" where
  "fitting bounds i vs = length (filter (\<lambda>v. bucket_of bounds v = Some i) vs)"

lemma bucket_of_range: "bucket_of bounds v = Some i \<Longrightarrow> i < length bounds"
  unfolding bucket_of_def find_Some_iff by auto

lemma bucket_of_first:
  "bucket_of bounds v = Some i \<longleftrightarrow> i < length bounds \<and> v \<le> bounds ! i \<and> (\<forall>j<i. bounds ! j < v)"
  unfolding bucket_of_def find_Some_iff by (force simp: not_le)

lemma observe_many:
  assumes "length (hg_values h) = length (hg_bounds h)"
  shows "fold observe vs h = h\<lparr>hg_values := map (\<lambda>i. hg_values h ! i + of_nat (fitting (hg_bounds h) i vs))
           [0..<length (hg_bounds h)],
         hg_count := hg_count h + of_nat (length vs), hg_sum := hg_sum h + sum_list vs\<rparr>"
  using assms
proof (induction vs arbitrary: h)
  case Nil
  have "hg_values h = map ((!) (hg_values h)) [0..<length (hg_bounds h)]"
    using map_nth [of "hg_values h"] Nil by simp
  then show ?case by (cases h) (simp add: fitting_def)
next
  case (Cons v vs)
  let ?h = "observe v h"
  have b: "hg_bounds ?h = hg_bounds h" and n: "length (hg_values ?h) = length (hg_bounds h)"
    using Cons.prems by (auto simp: observe_def split: option.split)
  have c: "hg_count ?h = hg_count h + 1" "hg_sum ?h = hg_sum h + v" "?h\<lparr>hg_values := x, hg_count := y, hg_sum := z\<rparr>
      = h\<lparr>hg_values := x, hg_count := y, hg_sum := z\<rparr>" for x y z
    by (cases h; auto simp: observe_def split: option.split)+
  have v: "hg_values ?h ! i + of_nat (fitting (hg_bounds h) i vs)
      = hg_values h ! i + of_nat (fitting (hg_bounds h) i (v # vs))" if "i < length (hg_bounds h)" for i
    using that Cons.prems bucket_of_range [of "hg_bounds h" v]
    by (auto simp: observe_def fitting_def nth_list_update split: option.split)
  have "fold observe (v # vs) h = fold observe vs ?h" by simp
  also have "\<dots> = ?h\<lparr>hg_values := map (\<lambda>i. hg_values ?h ! i + of_nat (fitting (hg_bounds ?h) i vs))
           [0..<length (hg_bounds ?h)],
         hg_count := hg_count ?h + of_nat (length vs), hg_sum := hg_sum ?h + sum_list vs\<rparr>"
    by (rule Cons.IH) (simp add: b n)
  also have "\<dots> = h\<lparr>hg_values := map (\<lambda>i. hg_values h ! i + of_nat (fitting (hg_bounds h) i (v # vs)))
           [0..<length (hg_bounds h)],
         hg_count := hg_count h + of_nat (length (v # vs)), hg_sum := hg_sum h + sum_list (v # vs)\<rparr>"
    unfolding c b using v by (simp add: c algebra_simps cong: map_cong)
  finally show ?case .
qed

lemma sum_fitting:
  "(\<Sum>i<length bounds. fitting bounds i vs) = length (filter (\<lambda>v. bucket_of bounds v \<noteq> None) vs)"
proof (induction vs)
  case (Cons v vs)
  have "(\<Sum>i<length bounds. fitting bounds i (v # vs))
      = (\<Sum>i<length bounds. (if bucket_of bounds v = Some i then 1 else 0) + fitting bounds i vs)"
    by (rule sum.cong) (auto simp: fitting_def)
  moreover have "(\<Sum>i<length bounds. if bucket_of bounds v = Some i then 1 else 0)
      = (if bucket_of bounds v \<noteq> None then 1 else (0::nat))"
    by (cases "bucket_of bounds v") (auto dest: bucket_of_range)
  ultimately show ?case using Cons by (simp add: sum.distrib)
qed (simp add: fitting_def)

lemma fitting_le: "fitting bounds i vs \<le> length vs"
  by (simp add: fitting_def)

lemma fresh_histogram_sel:
  "hg_bounds (fresh_histogram l now nm bs n) = map (\<lambda>i. if i < n then bs ! i else - 1) [0..<ml_buckets l]"
  "hg_values (fresh_histogram l now nm bs n) = replicate (ml_buckets l) 0"
  "hg_count (fresh_histogram l now nm bs n) = 0" "hg_sum (fresh_histogram l now nm bs n) = 0"
  by (auto simp: fresh_histogram_def init_histogram_buckets_def Let_def)

text \<open>A histogram never loses or invents an observation: after any sequence of fewer than \<open>2 ^ 64\<close>
  observations bucket \<open>i\<close> holds the number of values whose first boundary not below them is the
  \<open>i\<close>-th, the totals are the number and the sum of the values, and the buckets add up to the number
  of observations as soon as one of the array's buckets is left for the values above every boundary.\<close>

theorem histogram_conserves:
  assumes small: "length vs < 2 ^ 64" and h: "h = fold observe vs (fresh_histogram l now nm bs n)"
  shows "hg_count h = of_nat (length vs) \<and> hg_sum h = sum_list vs
    \<and> (\<forall>i<ml_buckets l. unat (hg_values h ! i)
         = length (filter (\<lambda>v. v \<le> hg_bounds h ! i \<and> (\<forall>j<i. hg_bounds h ! j < v)) vs))
    \<and> (n < ml_buckets l \<longrightarrow> (\<Sum>i<ml_buckets l. unat (hg_values h ! i)) = length vs)"
proof -
  let ?h = "fresh_histogram l now nm bs n"
  let ?b = "hg_bounds ?h"
  have len: "length ?b = ml_buckets l" by (simp add: fresh_histogram_sel)
  have h': "h = ?h\<lparr>hg_values := map (\<lambda>i. hg_values ?h ! i + of_nat (fitting ?b i vs)) [0..<length ?b],
         hg_count := hg_count ?h + of_nat (length vs), hg_sum := hg_sum ?h + sum_list vs\<rparr>"
    unfolding h by (rule observe_many) (simp add: fresh_histogram_sel)
  have bounds: "hg_bounds h = ?b" unfolding h' by simp
  have val: "unat (hg_values h ! i) = fitting ?b i vs" if i: "i < ml_buckets l" for i
  proof -
    have "hg_values h ! i = of_nat (fitting ?b i vs)"
      unfolding h' using i len by (simp add: fresh_histogram_sel)
    moreover have "fitting ?b i vs < 2 ^ LENGTH(64)"
      using fitting_le [of ?b i vs] small by simp
    ultimately show ?thesis by (simp add: unat_of_nat)
  qed
  have exact: "fitting ?b i vs = length (filter (\<lambda>v. v \<le> hg_bounds h ! i \<and> (\<forall>j<i. hg_bounds h ! j < v)) vs)"
    if "i < ml_buckets l" for i
    unfolding fitting_def bucket_of_first bounds using that len by simp
  have "(\<Sum>i<ml_buckets l. unat (hg_values h ! i)) = length vs" if n: "n < ml_buckets l"
  proof -
    have some: "bucket_of ?b v \<noteq> None" for v
    proof
      assume "bucket_of ?b v = None"
      then have "\<not> v \<le> ?b ! n" using n len by (auto simp: bucket_of_def find_None_iff)
      moreover have "?b ! n = - 1" using n by (simp add: fresh_histogram_sel)
      ultimately show False by simp
    qed
    have "(\<Sum>i<ml_buckets l. unat (hg_values h ! i)) = (\<Sum>i<length ?b. fitting ?b i vs)"
      unfolding len by (rule sum.cong) (simp_all add: val)
    then show ?thesis using some by (simp add: sum_fitting)
  qed
  moreover have "hg_count h = of_nat (length vs)" "hg_sum h = sum_list vs"
    unfolding h' by (simp_all add: fresh_histogram_sel)
  ultimately show ?thesis using val exact by simp
qed

theorem histogram_conserves_witness:
  "\<exists>h. h = fold observe [5, 20, 99, 10] (fresh_histogram \<lparr>ml_counters = 0, ml_latencies = 0,
       ml_histograms = 1, ml_buckets = 3\<rparr> 0 ''h'' [10, 50] 2)
     \<and> hg_values h = [2, 1, 1] \<and> (\<Sum>i<3. unat (hg_values h ! i)) = 4 \<and> hg_sum h = 134"
proof -
  let ?l = "\<lparr>ml_counters = 0, ml_latencies = 0, ml_histograms = 1, ml_buckets = 3\<rparr>"
  obtain h where h: "h = fold observe [5, 20, 99, 10] (fresh_histogram ?l 0 ''h'' [10, 50] 2)" by blast
  have "hg_values h = [2, 1, 1]" unfolding h by code_simp
  moreover have "hg_sum h = 134" unfolding h by code_simp
  moreover have "(\<Sum>i<ml_buckets ?l. unat (hg_values h ! i)) = length [5, 20, 99, 10 :: u64]"
    using histogram_conserves [OF _ h] by auto
  ultimately show ?thesis using h by (intro exI [of _ h]) simp
qed

text \<open>When every bucket has a boundary, a value above all of them is counted in the totals only.\<close>

theorem histogram_overflow_uncounted:
  assumes "\<forall>b \<in> set (hg_bounds h). b < v"
  shows "hg_values (observe v h) = hg_values h \<and> hg_count (observe v h) = hg_count h + 1"
proof -
  have "bucket_of (hg_bounds h) v = None"
    using assms by (auto simp: bucket_of_def find_None_iff not_le)
  then show ?thesis by (simp add: observe_def)
qed

theorem histogram_overflow_uncounted_witness:
  "hg_values (observe 99 (fresh_histogram \<lparr>ml_counters = 0, ml_latencies = 0,
       ml_histograms = 1, ml_buckets = 2\<rparr> 0 ''h'' [10, 50] 2)) = [0, 0]"
proof -
  let ?h = "fresh_histogram \<lparr>ml_counters = 0, ml_latencies = 0, ml_histograms = 1, ml_buckets = 2\<rparr> 0 ''h'' [10, 50] 2"
  have "hg_bounds ?h = [10, 50]" "hg_values ?h = [0, 0]" by code_simp+
  then show ?thesis using histogram_overflow_uncounted [of ?h 99] by simp
qed

subsection \<open>The type invariant of the registry\<close>

datatype metrics_op =
    CounterRegister u64 "string option"
  | CounterInc int
  | CounterAdd int u64
  | CounterReset u64 int
  | LatencyRegister u64 "string option"
  | LatencyRecord int u64
  | LatencyReset u64 int
  | HistogramRegister u64 "string option" "u64 list option" int
  | HistogramObserve int u64
  | HistogramReset u64 int
  | ResetAll "nat \<Rightarrow> u64" "nat \<Rightarrow> u64" "nat \<Rightarrow> u64"

fun metrics_exec :: "limits \<Rightarrow> metrics_op \<Rightarrow> metrics \<Rightarrow> metrics" where
  "metrics_exec l (CounterRegister now nm) m = snd (metrics_counter_register l now nm m)"
| "metrics_exec l (CounterInc i) m = metrics_counter_inc i m"
| "metrics_exec l (CounterAdd i v) m = metrics_counter_add i v m"
| "metrics_exec l (CounterReset now i) m = metrics_counter_reset now i m"
| "metrics_exec l (LatencyRegister now nm) m = snd (metrics_latency_register l now nm m)"
| "metrics_exec l (LatencyRecord i v) m = metrics_latency_record i v m"
| "metrics_exec l (LatencyReset now i) m = metrics_latency_reset now i m"
| "metrics_exec l (HistogramRegister now nm bs n) m = snd (metrics_histogram_register l now nm bs n m)"
| "metrics_exec l (HistogramObserve i v) m = metrics_histogram_observe i v m"
| "metrics_exec l (HistogramReset now i) m = metrics_histogram_reset now i m"
| "metrics_exec l (ResetAll a b c) m = metrics_reset_all a b c m"

definition wf_buckets :: "limits \<Rightarrow> histogram \<Rightarrow> bool" where
  "wf_buckets l h \<longleftrightarrow> length (hg_values h) = ml_buckets l
     \<and> length (hg_bounds h) = ml_buckets l"

definition wf_metrics :: "limits \<Rightarrow> metrics \<Rightarrow> bool" where
  "wf_metrics l m \<longleftrightarrow>
     length (mx_counters m) \<le> ml_counters l \<and> (\<forall>nm \<in> set (map ct_name (mx_counters m)). length nm \<le> 63)
   \<and> length (mx_latencies m) \<le> ml_latencies l \<and> (\<forall>nm \<in> set (map lt_name (mx_latencies m)). length nm \<le> 63)
   \<and> length (mx_histograms m) \<le> ml_histograms l \<and> (\<forall>nm \<in> set (map hg_name (mx_histograms m)). length nm \<le> 63)
   \<and> (\<forall>h \<in> set (mx_histograms m). wf_buckets l h)"

definition names_kept :: "metrics \<Rightarrow> metrics \<Rightarrow> bool" where
  "names_kept m m' \<longleftrightarrow> prefix (map ct_name (mx_counters m)) (map ct_name (mx_counters m'))
     \<and> prefix (map lt_name (mx_latencies m)) (map lt_name (mx_latencies m'))
     \<and> prefix (map hg_name (mx_histograms m)) (map hg_name (mx_histograms m'))"

definition metrics_safe :: "limits \<Rightarrow> metrics \<Rightarrow> metrics \<Rightarrow> bool" where
  "metrics_safe l m m' \<longleftrightarrow> (wf_metrics l m \<longrightarrow> wf_metrics l m' \<and> names_kept m m')"

lemma metrics_safe_refl [intro, simp]: "metrics_safe l m m"
  by (simp add: metrics_safe_def names_kept_def)

lemma metrics_safe_trans: "metrics_safe l m m1 \<Longrightarrow> metrics_safe l m1 m2 \<Longrightarrow> metrics_safe l m m2"
  unfolding metrics_safe_def names_kept_def by (blast intro: prefix_order.trans)

lemma metrics_safe_fold:
  assumes f: "\<And>x m. metrics_safe l m (f x m)"
  shows "metrics_safe l m m1 \<Longrightarrow> metrics_safe l m (fold f xs m1)"
proof (induction xs arbitrary: m1)
  case (Cons x xs)
  from Cons.IH [OF metrics_safe_trans [OF Cons.prems f]] show ?case by simp
qed simp

lemma length_update_at [simp]: "length (update_at i f xs) = length xs"
  by (simp add: update_at_def)

lemma map_update_at:
  assumes "\<And>x. g (f x) = g x"
  shows "map g (update_at i f xs) = map g xs"
proof -
  have "map g (update_at i f xs) = (map g xs)[nat i := g (xs ! nat i)]"
    by (simp add: update_at_def map_update assms)
  also have "\<dots> = map g xs"
    by (cases "nat i < length xs") (auto simp: nth_list_update list_update_beyond intro: nth_equalityI)
  finally show ?thesis .
qed

lemma all_update_at:
  assumes "\<forall>x \<in> set xs. P x" "\<And>x. P x \<Longrightarrow> P (f x)"
  shows "\<forall>x \<in> set (update_at i f xs). P x"
proof (cases "nat i < length xs")
  case True
  then have "P (f (xs ! nat i))" using assms by simp
  then show ?thesis using assms(1) set_update_subset_insert [of xs "nat i" "f (xs ! nat i)"]
    by (auto simp: update_at_def)
qed (use assms in \<open>simp add: update_at_def list_update_beyond\<close>)

lemma safe_update_counters:
  "(\<And>c. ct_name (f c) = ct_name c) \<Longrightarrow> metrics_safe l m (m\<lparr>mx_counters := update_at i f (mx_counters m)\<rparr>)"
  unfolding metrics_safe_def wf_metrics_def names_kept_def
  by (simp add: map_update_at del: set_map)

lemma safe_update_latencies:
  "(\<And>c. lt_name (f c) = lt_name c) \<Longrightarrow> metrics_safe l m (m\<lparr>mx_latencies := update_at i f (mx_latencies m)\<rparr>)"
  unfolding metrics_safe_def wf_metrics_def names_kept_def
  by (simp add: map_update_at del: set_map)

lemma safe_update_histograms:
  "(\<And>h. hg_name (f h) = hg_name h) \<Longrightarrow> (\<And>h. wf_buckets l h \<Longrightarrow> wf_buckets l (f h))
   \<Longrightarrow> metrics_safe l m (m\<lparr>mx_histograms := update_at i f (mx_histograms m)\<rparr>)"
  using all_update_at [of "mx_histograms m" "wf_buckets l" f i]
  unfolding metrics_safe_def wf_metrics_def names_kept_def
  by (simp add: map_update_at del: set_map)

lemmas safe_updates = safe_update_counters safe_update_latencies safe_update_histograms

lemma register_in_grows:
  "register_in n f nm e xs = (i, ys) \<Longrightarrow> ys = xs \<or> ys = xs @ [e] \<and> length xs < n"
  by (auto simp: register_in_def split: if_splits option.splits)

lemma safe_counter_register: "metrics_safe l m (snd (metrics_counter_register l now nm m))"
  unfolding metrics_counter_register_def metrics_safe_def wf_metrics_def names_kept_def
  by (auto simp: stored_name_def split: option.split prod.split dest!: register_in_grows)

lemma safe_latency_register: "metrics_safe l m (snd (metrics_latency_register l now nm m))"
  unfolding metrics_latency_register_def metrics_safe_def wf_metrics_def names_kept_def
  by (auto simp: stored_name_def fresh_tracker_def split: option.split prod.split dest!: register_in_grows)

lemma safe_histogram_register: "metrics_safe l m (snd (metrics_histogram_register l now nm bs n m))"
  unfolding metrics_histogram_register_def metrics_safe_def wf_metrics_def names_kept_def wf_buckets_def
  by (auto simp: stored_name_def fresh_histogram_def init_histogram_buckets_def Let_def
      split: option.split prod.split dest!: register_in_grows)

lemma record_latency_name: "lt_name (record_latency v t) = lt_name t"
  by (simp add: record_latency_def Let_def)

lemma observe_keeps: "hg_name (observe v h) = hg_name h" "wf_buckets l h \<Longrightarrow> wf_buckets l (observe v h)"
  by (auto simp: observe_def wf_buckets_def split: option.split)

lemma safe_counter_reset: "metrics_safe l m (metrics_counter_reset now i m)"
  by (simp add: metrics_counter_reset_def safe_updates)

lemma safe_latency_reset: "metrics_safe l m (metrics_latency_reset now i m)"
  by (simp add: metrics_latency_reset_def fresh_tracker_def safe_updates)

lemma safe_histogram_reset: "metrics_safe l m (metrics_histogram_reset now i m)"
  by (auto simp: metrics_histogram_reset_def wf_buckets_def intro!: safe_update_histograms)

lemmas safe_resets = safe_counter_reset safe_latency_reset safe_histogram_reset

lemma safe_reset_all: "metrics_safe l m (metrics_reset_all a b c m)"
  unfolding metrics_reset_all_def Let_def
  by (cases "mx_initialized m") (simp_all add: metrics_safe_fold safe_resets)

lemma metrics_exec_safe: "metrics_safe l m (metrics_exec l op m)"
  by (cases op)
    (simp_all add: safe_counter_register safe_latency_register safe_histogram_register safe_resets safe_reset_all
      metrics_counter_inc_def metrics_counter_add_def metrics_latency_record_def metrics_histogram_observe_def
      record_latency_name observe_keeps safe_updates)

text \<open>C26. Every sequence of registry operations, rejected ones included, keeps the registry well formed:
  the entries stay within the arrays, the names within 63 characters and every histogram keeps its
  full set of buckets; and an identifier that was handed out keeps naming the same metric.\<close>

theorem metrics_ops_keep_wf:
  assumes "wf_metrics l m"
  shows "wf_metrics l (fold (metrics_exec l) ops m) \<and> names_kept m (fold (metrics_exec l) ops m)"
proof -
  have "metrics_safe l m (fold (metrics_exec l) ops m)"
    by (rule metrics_safe_fold [OF metrics_exec_safe metrics_safe_refl])
  then show ?thesis using assms by (simp add: metrics_safe_def)
qed

theorem metrics_ops_keep_wf_witness:
  "wf_metrics \<lparr>ml_counters = 1, ml_latencies = 0, ml_histograms = 1, ml_buckets = 2\<rparr>
     (fold (metrics_exec \<lparr>ml_counters = 1, ml_latencies = 0, ml_histograms = 1, ml_buckets = 2\<rparr>)
       [CounterRegister 1 (Some ''a''), CounterAdd 0 7, CounterRegister 2 (Some ''b''),
        HistogramRegister 3 (Some ''h'') (Some [4]) 1, HistogramObserve 0 9, CounterInc 5]
       (zero_metrics\<lparr>mx_initialized := True\<rparr>))"
  using metrics_ops_keep_wf
  by (rule conjunct1) (simp add: wf_metrics_def zero_metrics_def)

subsection \<open>Latency statistics\<close>

lemma record_latency_eq:
  "record_latency v t = t\<lparr>lt_count := lt_count t + 1, lt_total := lt_total t + v,
     lt_min := min (lt_min t) v, lt_max := max (lt_max t) v\<rparr>"
  unfolding record_latency_def Let_def min_def max_def by (cases t) auto

lemma fold_record_latency:
  "fold record_latency vs t = t\<lparr>lt_count := lt_count t + of_nat (length vs), lt_total := lt_total t + sum_list vs,
     lt_min := Min (set (lt_min t # vs)), lt_max := Max (set (lt_max t # vs))\<rparr>"
proof (induction vs arbitrary: t)
  case (Cons v vs)
  have "Min (insert (min a v) (set vs)) = Min (insert a (insert v (set vs)))"
    "Max (insert (max a v) (set vs)) = Max (insert a (insert v (set vs)))" for a :: u64
    by (cases "vs = []"; simp add: min.assoc max.assoc)+
  then show ?case by (simp add: Cons.IH record_latency_eq [of v t] algebra_simps)
qed simp

lemma sum_list_bounds:
  fixes xs :: "nat list"
  assumes "\<forall>x \<in> set xs. a \<le> x \<and> x \<le> b"
  shows "a * length xs \<le> sum_list xs \<and> sum_list xs \<le> b * length xs"
  using assms by (induction xs) auto

text \<open>As long as the total does not overflow, the statistics of a tracker are those of the values
  recorded: their number, sum, minimum and maximum, and an average between the two. A minimum of
  \<open>UINT64_MAX\<close>, the value of an empty tracker, is reported as 0.\<close>

theorem latency_stats_correct:
  assumes ne: "vs \<noteq> []" and sum: "sum_list (map unat vs) < 2 ^ 64" and len: "length vs < 2 ^ 64"
    and s: "s = tracker_stats (fold record_latency vs (fresh_tracker now nm))"
  shows "unat (ls_count s) = length vs \<and> unat (ls_total_time s) = sum_list (map unat vs)
    \<and> ls_min_time s = (if Min (set vs) = - 1 then 0 else Min (set vs)) \<and> ls_max_time s = Max (set vs)
    \<and> unat (ls_avg_time s) = sum_list (map unat vs) div length vs
    \<and> ls_min_time s \<le> ls_avg_time s \<and> ls_avg_time s \<le> ls_max_time s"
proof -
  have mn: "Min (insert (- 1) (set vs)) = Min (set vs)"
    using ne by (simp add: min_absorb2)
  have mx: "Max (insert 0 (set vs)) = Max (set vs)"
    using ne by (simp add: max_absorb2)
  have c: "unat (of_nat (length vs) :: u64) = length vs"
    using len by (simp add: unat_of_nat)
  have tot: "unat (sum_list vs) = sum_list (map unat vs)"
    using sum by (intro unat_sum_list) simp
  have pos: "(0 :: u64) < of_nat (length vs)"
    using c ne by (metis length_greater_0_conv unat_0 word_less_nat_alt)
  have st: "ls_count s = of_nat (length vs)" "ls_total_time s = sum_list vs"
    "ls_min_time s = (if Min (set vs) = - 1 then 0 else Min (set vs))" "ls_max_time s = Max (set vs)"
    "ls_avg_time s = sum_list vs div of_nat (length vs)"
    unfolding s fold_record_latency tracker_stats_def fresh_tracker_def using mn mx pos by simp_all
  have avg: "unat (ls_avg_time s) = sum_list (map unat vs) div length vs"
    unfolding st(5) by (simp add: unat_div c tot)
  have "\<forall>x \<in> set (map unat vs). unat (Min (set vs)) \<le> x \<and> x \<le> unat (Max (set vs))"
    by (auto simp flip: word_le_nat_alt)
  from sum_list_bounds [OF this] have "unat (Min (set vs)) * length vs \<le> sum_list (map unat vs)"
    "sum_list (map unat vs) \<le> unat (Max (set vs)) * length vs" by simp_all
  then have "unat (Min (set vs)) \<le> unat (ls_avg_time s)" "unat (ls_avg_time s) \<le> unat (Max (set vs))"
    unfolding avg using ne div_le_mono [of "sum_list (map unat vs)" "unat (Max (set vs)) * length vs" "length vs"]
    by (simp_all add: less_eq_div_iff_mult_less_eq)
  then have "Min (set vs) \<le> ls_avg_time s" "ls_avg_time s \<le> ls_max_time s"
    by (simp_all add: st(4) word_le_nat_alt)
  then show ?thesis using st(1-4) c tot avg by simp
qed

theorem latency_stats_correct_witness:
  "\<exists>s. s = tracker_stats (fold record_latency [30, 10, 21] (fresh_tracker 4 ''t''))
     \<and> ls_avg_time s = 20 \<and> ls_min_time s \<le> ls_avg_time s \<and> ls_avg_time s \<le> ls_max_time s"
proof -
  obtain s where s: "s = tracker_stats (fold record_latency [30, 10, 21] (fresh_tracker 4 ''t''))" by blast
  have "ls_avg_time s = 20" unfolding s by code_simp
  moreover have "ls_min_time s \<le> ls_avg_time s \<and> ls_avg_time s \<le> ls_max_time s"
    using latency_stats_correct [OF _ _ _ s] by auto
  ultimately show ?thesis using s by blast
qed

subsection \<open>Initialisation\<close>

lemma fold_remove1_after: "x \<notin> set xs \<Longrightarrow> fold remove1 xs (x # xs) = [x]"
  by (induction xs) auto

lemma init_mutexes_outcome:
  "init_mutexes i inits (RegistryMutex # map HistogramMutex [0..<i])
   = (if False \<in> set inits then (False, []) else (True, RegistryMutex # map HistogramMutex [0..<i + length inits]))"
proof (induction inits arbitrary: i)
  case (Cons ok inits)
  have "RegistryMutex \<notin> set (map HistogramMutex [0..<i])" by auto
  then show ?case using Cons [of "Suc i"] by (auto simp: fold_remove1_after)
qed simp

text \<open>Initialisation is all or nothing: either every mutex of the registry is initialised and the
  registry is empty and usable, or the call returns -1, every mutex it had initialised is destroyed
  again and the registry stays unusable. The clean-up destroys exactly the mutexes of the first
  case, after which the library can be initialised again.\<close>

theorem metrics_init_all_or_nothing:
  assumes "\<not> mx_initialized m" and n: "length inits = ml_histograms l"
  shows "metrics_init ok inits now (m, []) =
      (if ok \<and> False \<notin> set inits
       then (0, zero_metrics\<lparr>mx_start_time := now, mx_initialized := True\<rparr>,
             RegistryMutex # map HistogramMutex [0..<ml_histograms l])
       else (- 1, zero_metrics, []))
    \<and> snd (metrics_cleanup l (snd (metrics_init ok inits now (m, [])))) = []
    \<and> \<not> mx_initialized (fst (metrics_cleanup l (snd (metrics_init ok inits now (m, [])))))"
proof -
  have r: "RegistryMutex \<notin> set (map HistogramMutex [0..<ml_histograms l])" by auto
  have i: "init_mutexes 0 inits [RegistryMutex]
    = (if False \<in> set inits then (False, []) else (True, RegistryMutex # map HistogramMutex [0..<ml_histograms l]))"
    using init_mutexes_outcome [of 0 inits] n by simp
  show ?thesis
    using assms(1) fold_remove1_after [OF r]
    by (auto simp: metrics_init_def metrics_cleanup_def i zero_metrics_def)
qed

theorem metrics_init_all_or_nothing_witness:
  "metrics_init True [True, False] 9 (zero_metrics, []) = (- 1, zero_metrics, [])"
  using metrics_init_all_or_nothing [of zero_metrics "[True, False]"
    "\<lparr>ml_counters = 0, ml_latencies = 0, ml_histograms = 2, ml_buckets = 0\<rparr>" True 9]
  by (simp add: zero_metrics_def)

subsection \<open>The metrics of the pool\<close>

datatype pool_event =
    EvSubmitted
  | EvCompleted u64
  | EvFailed
  | EvCancelled
  | EvWorkerCreated
  | EvWorkerDestroyed
  | EvQueueTime u64

fun pool_event_step :: "pool_metrics \<Rightarrow> pool_event \<Rightarrow> metrics \<Rightarrow> metrics" where
  "pool_event_step pm EvSubmitted m = metrics_task_submitted pm m"
| "pool_event_step pm (EvCompleted t) m = metrics_task_completed pm t m"
| "pool_event_step pm EvFailed m = metrics_task_failed pm m"
| "pool_event_step pm EvCancelled m = metrics_task_cancelled pm m"
| "pool_event_step pm EvWorkerCreated m = metrics_worker_created pm m"
| "pool_event_step pm EvWorkerDestroyed m = metrics_worker_destroyed pm m"
| "pool_event_step pm (EvQueueTime t) m = metrics_task_queue_time pm t m"

definition execution_times :: "pool_event list \<Rightarrow> u64 list" where
  "execution_times evs = [t. EvCompleted t \<leftarrow> evs]"

definition queue_times :: "pool_event list \<Rightarrow> u64 list" where
  "queue_times evs = [t. EvQueueTime t \<leftarrow> evs]"

definition bump :: "nat \<Rightarrow> perf_counter \<Rightarrow> perf_counter" where
  "bump n c = c\<lparr>ct_value := ct_value c + of_nat n\<rparr>"

definition pool_ids :: pool_metrics where
  "pool_ids = \<lparr>pm_task_submitted = 0, pm_task_completed = 1, pm_task_failed = 2, pm_task_cancelled = 3,
     pm_worker_created = 4, pm_worker_destroyed = 5, pm_task_latency = 0, pm_queue_latency = 1\<rparr>"

lemma pool_ids_sel:
  "pm_task_submitted pool_ids = 0" "pm_task_completed pool_ids = 1" "pm_task_failed pool_ids = 2"
  "pm_task_cancelled pool_ids = 3" "pm_worker_created pool_ids = 4" "pm_worker_destroyed pool_ids = 5"
  "pm_task_latency pool_ids = 0" "pm_queue_latency pool_ids = 1"
  by (simp_all add: pool_ids_def)

lemmas pool_event_defs = metrics_task_submitted_def metrics_task_completed_def metrics_task_failed_def
  metrics_task_cancelled_def metrics_worker_created_def metrics_worker_destroyed_def
  metrics_task_queue_time_def inc_if_registered_def metrics_counter_inc_def metrics_latency_record_def
  valid_id_def update_at_def pool_ids_sel

lemma pool_event_run:
  assumes "mx_initialized m" "mx_counters m = [a, b, c, d, e, f]" "mx_latencies m = [t, q]"
  shows "mx_initialized (fold (pool_event_step pool_ids) evs m)
    \<and> mx_counters (fold (pool_event_step pool_ids) evs m)
       = [bump (count_list evs EvSubmitted) a, bump (length (execution_times evs)) b,
          bump (count_list evs EvFailed) c, bump (count_list evs EvCancelled) d,
          bump (count_list evs EvWorkerCreated) e, bump (count_list evs EvWorkerDestroyed) f]
    \<and> mx_latencies (fold (pool_event_step pool_ids) evs m)
       = [fold record_latency (execution_times evs) t, fold record_latency (queue_times evs) q]"
  using assms
proof (induction evs arbitrary: m a b c d e f t q)
  case Nil
  then show ?case by (simp add: bump_def execution_times_def queue_times_def)
next
  case (Cons ev evs)
  note step_simps = pool_event_defs bump_def execution_times_def queue_times_def
    nth_Cons' numeral_2_eq_2 numeral_3_eq_3 eval_nat_numeral add.assoc
  show ?case
    by (cases ev) (use Cons.prems in \<open>simp_all add: Cons.IH step_simps\<close>)
qed


lemma metrics_init_pool_metrics_ids:
  assumes "mx_initialized m" "mx_counters m = []" "mx_latencies m = []" "6 \<le> ml_counters l" "2 \<le> ml_latencies l"
  obtains m' where "metrics_init_pool_metrics l now m = (pool_ids, m')" "mx_initialized m'"
    "mx_counters m' = map (\<lambda>nm. \<lparr>ct_value = 0, ct_reset_time = now, ct_name = nm\<rparr>)
       [''tasks_submitted'', ''tasks_completed'', ''tasks_failed'', ''tasks_cancelled'', ''workers_created'',
        ''workers_destroyed'']"
    "mx_latencies m' = [fresh_tracker now ''task_execution_time'', fresh_tracker now ''task_queue_time'']"
proof -
  have "\<exists>m'. metrics_init_pool_metrics l now m = (pool_ids, m') \<and> mx_initialized m'
    \<and> mx_counters m' = map (\<lambda>nm. \<lparr>ct_value = 0, ct_reset_time = now, ct_name = nm\<rparr>)
       [''tasks_submitted'', ''tasks_completed'', ''tasks_failed'', ''tasks_cancelled'', ''workers_created'',
        ''workers_destroyed'']
    \<and> mx_latencies m' = [fresh_tracker now ''task_execution_time'', fresh_tracker now ''task_queue_time'']"
    using assms
    by (simp add: metrics_init_pool_metrics_def metrics_counter_register_def metrics_latency_register_def
        register_in_fresh stored_name_def fresh_tracker_def pool_ids_def)
  then show ?thesis using that by blast
qed

text \<open>The metrics the pool keeps of itself: after \<open>metrics_init_pool_metrics\<close> on an empty registry
  with room for them, any sequence of task and worker events leaves in every counter the number of
  its events and in the two trackers exactly the recorded times.\<close>

theorem pool_metrics_count_events:
  assumes "mx_initialized m" "mx_counters m = []" "mx_latencies m = []" "6 \<le> ml_counters l" "2 \<le> ml_latencies l"
    and run: "metrics_init_pool_metrics l now m = (pm, m0)" "m' = fold (pool_event_step pm) evs m0"
  shows "metrics_counter_get (pm_task_submitted pm) m' = of_nat (count_list evs EvSubmitted)
    \<and> metrics_counter_get (pm_task_completed pm) m' = of_nat (length (execution_times evs))
    \<and> metrics_counter_get (pm_task_failed pm) m' = of_nat (count_list evs EvFailed)
    \<and> metrics_counter_get (pm_task_cancelled pm) m' = of_nat (count_list evs EvCancelled)
    \<and> metrics_counter_get (pm_worker_created pm) m' = of_nat (count_list evs EvWorkerCreated)
    \<and> metrics_counter_get (pm_worker_destroyed pm) m' = of_nat (count_list evs EvWorkerDestroyed)
    \<and> metrics_latency_get (pm_task_latency pm) m'
        = tracker_stats (fold record_latency (execution_times evs) (fresh_tracker now ''task_execution_time''))
    \<and> metrics_latency_get (pm_queue_latency pm) m'
        = tracker_stats (fold record_latency (queue_times evs) (fresh_tracker now ''task_queue_time''))"
proof -
  obtain m1 where m1: "metrics_init_pool_metrics l now m = (pool_ids, m1)" "mx_initialized m1"
    "mx_counters m1 = map (\<lambda>nm. \<lparr>ct_value = 0, ct_reset_time = now, ct_name = nm\<rparr>)
       [''tasks_submitted'', ''tasks_completed'', ''tasks_failed'', ''tasks_cancelled'', ''workers_created'',
        ''workers_destroyed'']"
    "mx_latencies m1 = [fresh_tracker now ''task_execution_time'', fresh_tracker now ''task_queue_time'']"
    using metrics_init_pool_metrics_ids [OF assms(1-5)] .
  have pm: "pm = pool_ids" and m': "m' = fold (pool_event_step pool_ids) evs m1"
    using run m1(1) by simp_all
  note r = pool_event_run [OF m1(2) m1(3) [unfolded list.map] m1(4), of evs, folded m']
  show ?thesis
    unfolding pm metrics_counter_get_def metrics_latency_get_def valid_id_def pool_ids_sel
    using r by (simp add: bump_def nth_Cons' eval_nat_numeral)
qed

theorem pool_metrics_count_events_witness:
  "\<exists>pm m0. metrics_init_pool_metrics \<lparr>ml_counters = 6, ml_latencies = 2, ml_histograms = 0, ml_buckets = 0\<rparr> 3
       (zero_metrics\<lparr>mx_initialized := True\<rparr>) = (pm, m0)
     \<and> metrics_counter_get (pm_task_completed pm)
         (fold (pool_event_step pm) [EvSubmitted, EvSubmitted, EvCompleted 40, EvFailed, EvCompleted 60] m0) = 2
     \<and> ls_avg_time (metrics_latency_get (pm_task_latency pm)
         (fold (pool_event_step pm) [EvSubmitted, EvSubmitted, EvCompleted 40, EvFailed, EvCompleted 60] m0)) = 50"
proof -
  let ?l = "\<lparr>ml_counters = 6, ml_latencies = 2, ml_histograms = 0, ml_buckets = 0\<rparr>"
  let ?evs = "[EvSubmitted, EvSubmitted, EvCompleted 40, EvFailed, EvCompleted 60]"
  obtain pm m0 where r: "metrics_init_pool_metrics ?l 3 (zero_metrics\<lparr>mx_initialized := True\<rparr>) = (pm, m0)"
    by (cases "metrics_init_pool_metrics ?l 3 (zero_metrics\<lparr>mx_initialized := True\<rparr>)") blast
  have "ls_avg_time (tracker_stats (fold record_latency (execution_times ?evs)
      (fresh_tracker 3 ''task_execution_time''))) = 50"
    "of_nat (length (execution_times ?evs)) = (2 :: u64)" by code_simp+
  moreover note pool_metrics_count_events [OF _ _ _ _ _ r refl, of ?evs]
  ultimately show ?thesis using r
    by (intro exI [of _ pm] exI [of _ m0]) (simp add: zero_metrics_def)
qed

text \<open>A timer measures the time between its start and its first end, records it once, and a
  second end returns 0 and records nothing.\<close>

lemma perf_timer_once:
  assumes "perf_timer_start l start now name m = (t, m1)" "start \<noteq> 0"
  shows "\<exists>t'. perf_timer_end e (Some t) m1
      = (e - start, Some t', if 0 \<le> pf_latency_id t then metrics_latency_record (pf_latency_id t) (e - start) m1 else m1)
    \<and> perf_timer_end e' (Some t') m2 = (0, Some t', m2)"
  using assms
  by (auto simp: perf_timer_start_def perf_timer_end_def Let_def split: option.splits prod.splits)

end
