(* ===== verification/Metrics_Recording.thy ===== *)
theory Metrics_Recording
  imports Metrics
begin

text \<open>
  Concurrent calls of \<open>metrics_latency_record\<close> (\<^verbatim>\<open>new_ProcessPool/src/utils/metrics.c\<close>) on one
  latency tracker: a step relation over the atomic operations, its invariant, and the theorem that
  every interleaving ends in the tracker that the sequential model gives.
\<close>

subsection \<open>Concurrent recording\<close>

text \<open>The steps of \<open>metrics_latency_record\<close> by many threads on one tracker: each atomic operation is
  a step, and a weak compare-and-exchange may fail at any time, reloading the current value.\<close>

datatype rec_pc =
    RStart
  | RCounted
  | RTotalled
  | RMinLoop u64
  | RMinDone
  | RMaxLoop u64
  | RFinished

inductive rec_step :: "u64 list \<Rightarrow> tracker \<times> (nat \<Rightarrow> rec_pc) \<Rightarrow> tracker \<times> (nat \<Rightarrow> rec_pc) \<Rightarrow> bool"
  for vs :: "u64 list" where
  rec_count: "i < length vs \<Longrightarrow> pcs i = RStart
     \<Longrightarrow> rec_step vs (t, pcs) (t\<lparr>lt_count := lt_count t + 1\<rparr>, pcs(i := RCounted))"
| rec_total: "i < length vs \<Longrightarrow> pcs i = RCounted
     \<Longrightarrow> rec_step vs (t, pcs) (t\<lparr>lt_total := lt_total t + vs ! i\<rparr>, pcs(i := RTotalled))"
| rec_load_min: "i < length vs \<Longrightarrow> pcs i = RTotalled \<Longrightarrow> rec_step vs (t, pcs) (t, pcs(i := RMinLoop (lt_min t)))"
| rec_min_exit: "i < length vs \<Longrightarrow> pcs i = RMinLoop cur \<Longrightarrow> \<not> vs ! i < cur
     \<Longrightarrow> rec_step vs (t, pcs) (t, pcs(i := RMinDone))"
| rec_min_swap: "i < length vs \<Longrightarrow> pcs i = RMinLoop cur \<Longrightarrow> vs ! i < cur \<Longrightarrow> lt_min t = cur
     \<Longrightarrow> rec_step vs (t, pcs) (t\<lparr>lt_min := vs ! i\<rparr>, pcs(i := RMinDone))"
| rec_min_retry: "i < length vs \<Longrightarrow> pcs i = RMinLoop cur \<Longrightarrow> vs ! i < cur
     \<Longrightarrow> rec_step vs (t, pcs) (t, pcs(i := RMinLoop (lt_min t)))"
| rec_load_max: "i < length vs \<Longrightarrow> pcs i = RMinDone \<Longrightarrow> rec_step vs (t, pcs) (t, pcs(i := RMaxLoop (lt_max t)))"
| rec_max_exit: "i < length vs \<Longrightarrow> pcs i = RMaxLoop cur \<Longrightarrow> \<not> vs ! i > cur
     \<Longrightarrow> rec_step vs (t, pcs) (t, pcs(i := RFinished))"
| rec_max_swap: "i < length vs \<Longrightarrow> pcs i = RMaxLoop cur \<Longrightarrow> vs ! i > cur \<Longrightarrow> lt_max t = cur
     \<Longrightarrow> rec_step vs (t, pcs) (t\<lparr>lt_max := vs ! i\<rparr>, pcs(i := RFinished))"
| rec_max_retry: "i < length vs \<Longrightarrow> pcs i = RMaxLoop cur \<Longrightarrow> vs ! i > cur
     \<Longrightarrow> rec_step vs (t, pcs) (t, pcs(i := RMaxLoop (lt_max t)))"

subsection \<open>A call running alone returns\<close>

definition solo_finishes :: "u64 list \<Rightarrow> nat \<Rightarrow> tracker \<Rightarrow> (nat \<Rightarrow> rec_pc) \<Rightarrow> bool" where
  "solo_finishes vs i t pcs \<longleftrightarrow> (\<exists>t'. (rec_step vs)\<^sup>*\<^sup>* (t, pcs) (t', pcs(i := RFinished)))"

lemma solo_step:
  assumes "rec_step vs (t, pcs) (t1, pcs(i := pc))" "\<And>pcs'. pcs' i = pc \<Longrightarrow> solo_finishes vs i t1 pcs'"
  shows "solo_finishes vs i t pcs"
  using assms(1) assms(2) [of "pcs(i := pc)"] unfolding solo_finishes_def
  by (auto intro: converse_rtranclp_into_rtranclp)

lemma solo_done: "rec_step vs (t, pcs) (t1, pcs(i := RFinished)) \<Longrightarrow> solo_finishes vs i t pcs"
  unfolding solo_finishes_def by blast

lemma solo_max:
  assumes "i < length vs" "pcs i = RMaxLoop cur"
  shows "solo_finishes vs i t pcs"
proof -
  have fresh: "solo_finishes vs i t pcs'" if "pcs' i = RMaxLoop (lt_max t)" for pcs'
    using that assms(1) by (cases "vs ! i > lt_max t") (blast intro: solo_done rec_max_swap rec_max_exit)+
  show ?thesis
  proof (cases "vs ! i > cur")
    case True
    show ?thesis by (rule solo_step [OF rec_max_retry [of i vs pcs cur, OF assms True]]) (rule fresh)
  next
    case False
    show ?thesis by (rule solo_done [OF rec_max_exit [of i vs pcs cur, OF assms False]])
  qed
qed

lemma solo_min_done: "i < length vs \<Longrightarrow> pcs i = RMinDone \<Longrightarrow> solo_finishes vs i t pcs"
  by (rule solo_step [OF rec_load_max]) (auto intro: solo_max)

lemma solo_min:
  assumes "i < length vs" "pcs i = RMinLoop cur"
  shows "solo_finishes vs i t pcs"
proof -
  note leave = solo_step [where pc = RMinDone, OF _ solo_min_done [OF assms(1)]]
  have fresh: "solo_finishes vs i t pcs'" if "pcs' i = RMinLoop (lt_min t)" for pcs'
  proof (cases "vs ! i < lt_min t")
    case True
    show ?thesis by (rule leave [OF rec_min_swap [of i vs pcs' "lt_min t", OF assms(1) that True refl]])
  next
    case False
    show ?thesis by (rule leave [OF rec_min_exit [of i vs pcs' "lt_min t", OF assms(1) that False]])
  qed
  show ?thesis
  proof (cases "vs ! i < cur")
    case True
    show ?thesis by (rule solo_step [OF rec_min_retry [of i vs pcs cur, OF assms True]]) (rule fresh)
  next
    case False
    show ?thesis by (rule leave [OF rec_min_exit [of i vs pcs cur, OF assms False]])
  qed
qed

lemma solo_totalled: "i < length vs \<Longrightarrow> pcs i = RTotalled \<Longrightarrow> solo_finishes vs i t pcs"
  by (rule solo_step [OF rec_load_min]) (auto intro: solo_min)

lemma solo_counted: "i < length vs \<Longrightarrow> pcs i = RCounted \<Longrightarrow> solo_finishes vs i t pcs"
  by (rule solo_step [OF rec_total]) (auto intro: solo_totalled)

lemma solo_start: "i < length vs \<Longrightarrow> pcs i = RStart \<Longrightarrow> solo_finishes vs i t pcs"
  by (rule solo_step [OF rec_count]) (auto intro: solo_counted)

lemmas solo_all = solo_start solo_counted solo_totalled solo_min solo_min_done solo_max

text \<open>Recording is obstruction free: from every state of the other calls, finished or stopped in the
  middle of their loops, a call that runs alone returns, and moves no other call.\<close>

theorem latency_recording_obstruction_free:
  assumes "i < length vs"
  shows "\<exists>t'. (rec_step vs)\<^sup>*\<^sup>* (t, pcs) (t', pcs(i := RFinished))"
proof (cases "pcs i")
  case RFinished
  then have "pcs(i := RFinished) = pcs" by (simp add: fun_upd_idem)
  then show ?thesis by auto
qed (use solo_all [OF assms, of pcs] in \<open>auto simp: solo_finishes_def\<close>)

theorem latency_recording_obstruction_free_witness:
  "\<exists>t'. (rec_step [7, 3])\<^sup>*\<^sup>* (fresh_tracker 0 ''q'', (\<lambda>_. RStart)(0 := RMinLoop 9))
     (t', (\<lambda>_. RStart)(0 := RMinLoop 9, 1 := RFinished))"
  using latency_recording_obstruction_free [of 1 "[7, 3]" "fresh_tracker 0 ''q''" "(\<lambda>_. RStart)(0 := RMinLoop 9)"]
  by simp

subsection \<open>The invariant\<close>

fun rec_stage :: "rec_pc \<Rightarrow> nat" where
  "rec_stage RStart = 0"
| "rec_stage RCounted = 1"
| "rec_stage RTotalled = 2"
| "rec_stage (RMinLoop _) = 2"
| "rec_stage RMinDone = 3"
| "rec_stage (RMaxLoop _) = 3"
| "rec_stage RFinished = 4"

definition sum_from :: "nat \<Rightarrow> (nat \<Rightarrow> u64) \<Rightarrow> nat \<Rightarrow> (nat \<Rightarrow> rec_pc) \<Rightarrow> u64" where
  "sum_from k f n pcs = (\<Sum>j<n. if k \<le> rec_stage (pcs j) then f j else 0)"

lemma sum_from_same:
  "(k \<le> rec_stage pc) = (k \<le> rec_stage (pcs i)) \<Longrightarrow> sum_from k f n (pcs(i := pc)) = sum_from k f n pcs"
  unfolding sum_from_def by (rule sum.cong) auto

lemma sum_from_enter:
  assumes "i < n" "\<not> k \<le> rec_stage (pcs i)" "k \<le> rec_stage pc"
  shows "sum_from k f n (pcs(i := pc)) = sum_from k f n pcs + f i"
proof -
  have "sum_from k f n pcs' = (if k \<le> rec_stage (pcs' i) then f i else 0)
      + (\<Sum>j\<in>{..<n} - {i}. if k \<le> rec_stage (pcs' j) then f j else 0)" for pcs'
    unfolding sum_from_def using assms(1) by (simp add: sum.remove)
  note r = this[of "pcs(i := pc)"] this[of pcs]
  have "(\<Sum>j\<in>{..<n} - {i}. if k \<le> rec_stage ((pcs(i := pc)) j) then f j else 0)
      = (\<Sum>j\<in>{..<n} - {i}. if k \<le> rec_stage (pcs j) then f j else 0)"
    by (rule sum.cong) auto
  then show ?thesis using r assms(2,3) by simp
qed

definition min_seen :: "u64 list \<Rightarrow> u64 \<Rightarrow> (nat \<Rightarrow> rec_pc) \<Rightarrow> bool" where
  "min_seen vs mn pcs \<longleftrightarrow> (\<forall>i<length vs. (3 \<le> rec_stage (pcs i) \<longrightarrow> mn \<le> vs ! i)
     \<and> (\<forall>cur. pcs i = RMinLoop cur \<longrightarrow> mn \<le> cur))"

definition max_seen :: "u64 list \<Rightarrow> u64 \<Rightarrow> (nat \<Rightarrow> rec_pc) \<Rightarrow> bool" where
  "max_seen vs mx pcs \<longleftrightarrow> (\<forall>i<length vs. (4 \<le> rec_stage (pcs i) \<longrightarrow> vs ! i \<le> mx)
     \<and> (\<forall>cur. pcs i = RMaxLoop cur \<longrightarrow> cur \<le> mx))"

definition rec_inv :: "u64 list \<Rightarrow> tracker \<Rightarrow> tracker \<times> (nat \<Rightarrow> rec_pc) \<Rightarrow> bool" where
  "rec_inv vs t0 s \<longleftrightarrow> (case s of (t, pcs) \<Rightarrow>
     lt_count t = lt_count t0 + sum_from 1 (\<lambda>_. 1) (length vs) pcs
   \<and> lt_total t = lt_total t0 + sum_from 2 (\<lambda>i. vs ! i) (length vs) pcs
   \<and> lt_min t \<in> insert (lt_min t0) (set vs) \<and> lt_min t \<le> lt_min t0 \<and> min_seen vs (lt_min t) pcs
   \<and> lt_max t \<in> insert (lt_max t0) (set vs) \<and> lt_max t0 \<le> lt_max t \<and> max_seen vs (lt_max t) pcs
   \<and> lt_reset_time t = lt_reset_time t0 \<and> lt_name t = lt_name t0)"

lemma min_seen_upd:
  "min_seen vs mn pcs \<Longrightarrow> mn' \<le> mn \<Longrightarrow> (3 \<le> rec_stage pc \<Longrightarrow> mn' \<le> vs ! i)
   \<Longrightarrow> (\<And>cur. pc = RMinLoop cur \<Longrightarrow> mn' \<le> cur) \<Longrightarrow> min_seen vs mn' (pcs(i := pc))"
  unfolding min_seen_def by (auto intro: order_trans)

lemma max_seen_upd:
  "max_seen vs mx pcs \<Longrightarrow> mx \<le> mx' \<Longrightarrow> (4 \<le> rec_stage pc \<Longrightarrow> vs ! i \<le> mx')
   \<Longrightarrow> (\<And>cur. pc = RMaxLoop cur \<Longrightarrow> cur \<le> mx') \<Longrightarrow> max_seen vs mx' (pcs(i := pc))"
  unfolding max_seen_def by (auto intro: order_trans)

lemma min_seenD: "min_seen vs mn pcs \<Longrightarrow> i < length vs \<Longrightarrow> pcs i = RMinLoop cur \<Longrightarrow> mn \<le> cur"
  "min_seen vs mn pcs \<Longrightarrow> i < length vs \<Longrightarrow> 3 \<le> rec_stage (pcs i) \<Longrightarrow> mn \<le> vs ! i"
  unfolding min_seen_def by blast+

lemma max_seenD: "max_seen vs mx pcs \<Longrightarrow> i < length vs \<Longrightarrow> pcs i = RMaxLoop cur \<Longrightarrow> cur \<le> mx"
  unfolding max_seen_def by blast

lemma rec_inv_upd:
  assumes inv: "rec_inv vs t0 (t, pcs)" and i: "i < length vs"
    and stage: "rec_stage (pcs i) \<le> rec_stage pc"
    and c: "lt_count t' = lt_count t + (if \<not> 1 \<le> rec_stage (pcs i) \<and> 1 \<le> rec_stage pc then 1 else 0)"
    and s: "lt_total t' = lt_total t + (if \<not> 2 \<le> rec_stage (pcs i) \<and> 2 \<le> rec_stage pc then vs ! i else 0)"
    and mn: "lt_min t' = lt_min t \<or> lt_min t' = vs ! i" "lt_min t' \<le> lt_min t"
      "3 \<le> rec_stage pc \<Longrightarrow> lt_min t' \<le> vs ! i" "\<And>cur. pc = RMinLoop cur \<Longrightarrow> lt_min t' \<le> cur"
    and mx: "lt_max t' = lt_max t \<or> lt_max t' = vs ! i" "lt_max t \<le> lt_max t'"
      "4 \<le> rec_stage pc \<Longrightarrow> vs ! i \<le> lt_max t'" "\<And>cur. pc = RMaxLoop cur \<Longrightarrow> cur \<le> lt_max t'"
    and rest: "lt_reset_time t' = lt_reset_time t" "lt_name t' = lt_name t"
  shows "rec_inv vs t0 (t', pcs(i := pc))"
proof -
  have u: "sum_from k f (length vs) (pcs(i := pc)) = sum_from k f (length vs) pcs
      + (if \<not> k \<le> rec_stage (pcs i) \<and> k \<le> rec_stage pc then f i else 0)" for k f
  proof (cases "(k \<le> rec_stage pc) = (k \<le> rec_stage (pcs i))")
    case True
    then show ?thesis by (auto simp: sum_from_same)
  next
    case False
    with stage have "\<not> k \<le> rec_stage (pcs i)" "k \<le> rec_stage pc" by linarith+
    then show ?thesis by (simp add: sum_from_enter [OF i])
  qed
  have "vs ! i \<in> set vs" using i by simp
  moreover have "min_seen vs (lt_min t') (pcs(i := pc))"
    by (rule min_seen_upd [of vs "lt_min t"]) (use inv mn in \<open>auto simp: rec_inv_def\<close>)
  moreover have "max_seen vs (lt_max t') (pcs(i := pc))"
    by (rule max_seen_upd [of vs "lt_max t"]) (use inv mx in \<open>auto simp: rec_inv_def\<close>)
  moreover have "lt_min t' \<le> lt_min t0" "lt_max t0 \<le> lt_max t'"
    using inv mn(2) mx(2) unfolding rec_inv_def by auto
  moreover have "lt_min t' \<in> insert (lt_min t0) (set vs)" "lt_max t' \<in> insert (lt_max t0) (set vs)"
    using inv mn(1) mx(1) \<open>vs ! i \<in> set vs\<close> unfolding rec_inv_def by auto
  ultimately show ?thesis
    using inv c s rest unfolding rec_inv_def prod.case u by simp
qed

lemma rec_invD:
  assumes "rec_inv vs t0 (t, pcs)" "i < length vs"
  shows "pcs i = RMinLoop cur \<Longrightarrow> lt_min t \<le> cur" "pcs i = RMaxLoop cur \<Longrightarrow> cur \<le> lt_max t"
    "3 \<le> rec_stage (pcs i) \<Longrightarrow> lt_min t \<le> vs ! i"
  using assms min_seenD [of vs "lt_min t" pcs i] max_seenD [of vs "lt_max t" pcs i]
  unfolding rec_inv_def by auto

lemma rec_inv_step: "rec_step vs s s' \<Longrightarrow> rec_inv vs t0 s \<Longrightarrow> rec_inv vs t0 s'"
proof (induction rule: rec_step.induct)
  case (rec_min_exit i pcs cur t)
  with rec_invD(1) [of vs t0 t pcs i cur] show ?case
    by (intro rec_inv_upd [where t = t]) auto
next
  case (rec_max_exit i pcs cur t)
  with rec_invD(2,3) [of vs t0 t pcs i] show ?case
    by (intro rec_inv_upd [where t = t]) auto
next
  case (rec_max_swap i pcs cur t)
  with rec_invD(3) [of vs t0 t pcs i] show ?case
    by (intro rec_inv_upd [where t = t]) auto
next
  case (rec_load_max i pcs t)
  with rec_invD(3) [of vs t0 t pcs i] show ?case
    by (intro rec_inv_upd [where t = t]) auto
next
  case (rec_max_retry i pcs cur t)
  with rec_invD(3) [of vs t0 t pcs i] show ?case
    by (intro rec_inv_upd [where t = t]) auto
qed (erule rec_inv_upd; auto)+

text \<open>C10. However the steps of concurrent calls of \<open>metrics_latency_record\<close> on one tracker interleave,
  and however often their weak compare-and-exchanges fail, once every call has returned the tracker
  is the one that recording the values one after the other gives: no count, no duration, no
  minimum or maximum is lost.\<close>

theorem latency_recording_linear:
  assumes "(rec_step vs)\<^sup>*\<^sup>* (t, \<lambda>_. RStart) (t', pcs)" "\<forall>i<length vs. pcs i = RFinished"
  shows "t' = fold record_latency vs t"
proof -
  have "rec_inv vs t (t, \<lambda>_. RStart)"
    unfolding rec_inv_def min_seen_def max_seen_def sum_from_def by simp
  with assms(1) have inv: "rec_inv vs t (t', pcs)"
    by (induction rule: rtranclp_induct) (auto intro: rec_inv_step)
  have s: "sum_from k f (length vs) pcs = (\<Sum>j<length vs. f j)" if "k \<le> 4" for k f
    unfolding sum_from_def using assms(2) that by simp
  have "lt_min t' = Min (set (lt_min t # vs))"
    using inv assms(2) unfolding rec_inv_def min_seen_def
    by (intro Min_eqI [symmetric]) (auto simp: in_set_conv_nth)
  moreover have "lt_max t' = Max (set (lt_max t # vs))"
    using inv assms(2) unfolding rec_inv_def max_seen_def
    by (intro Max_eqI [symmetric]) (auto simp: in_set_conv_nth)
  moreover have "sum_list vs = (\<Sum>j<length vs. vs ! j)"
    by (simp add: sum_list_sum_nth lessThan_atLeast0)
  ultimately show ?thesis
    using inv s unfolding rec_inv_def fold_record_latency by (cases t'; cases t) auto
qed

theorem latency_recording_linear_witness:
  "\<exists>t' pcs. (rec_step [7, 3])\<^sup>*\<^sup>* (fresh_tracker 0 ''q'', \<lambda>_. RStart) (t', pcs)
     \<and> {pcs 0, pcs 1} = {RFinished} \<and> t' = fold record_latency [7, 3] (fresh_tracker 0 ''q'')
     \<and> lt_min t' = 3 \<and> lt_max t' = 7"
proof -
  let ?t = "fresh_tracker 0 ''q''"
  have "\<exists>t' pcs. (rec_step [7, 3])\<^sup>*\<^sup>* (?t, \<lambda>_. RStart) (t', pcs) \<and> pcs 0 = RFinished \<and> pcs 1 = RFinished"
  proof -
    have i: "0 < length [7, 3 :: u64]" "1 < length [7, 3 :: u64]" by simp_all
    obtain t1 where "(rec_step [7, 3])\<^sup>*\<^sup>* (?t, \<lambda>_. RStart) (t1, (\<lambda>_. RStart)(0 := RFinished))"
      using solo_start [OF i(1), of "\<lambda>_. RStart" ?t] unfolding solo_finishes_def by auto
    moreover obtain t2 where "(rec_step [7, 3])\<^sup>*\<^sup>* (t1, (\<lambda>_. RStart)(0 := RFinished))
        (t2, (\<lambda>_. RStart)(0 := RFinished, 1 := RFinished))"
      using solo_start [OF i(2), of "(\<lambda>_. RStart)(0 := RFinished)" t1] unfolding solo_finishes_def by auto
    ultimately show ?thesis
      by (intro exI [of _ t2] exI [of _ "(\<lambda>_. RStart)(0 := RFinished, 1 := RFinished)"]) auto
  qed
  then obtain t' pcs where r: "(rec_step [7, 3])\<^sup>*\<^sup>* (?t, \<lambda>_. RStart) (t', pcs)"
    "pcs 0 = RFinished" "pcs 1 = RFinished" by blast
  have "t' = fold record_latency [7, 3] ?t"
    by (rule latency_recording_linear [OF r(1)]) (use r(2,3) in \<open>auto simp: less_Suc_eq\<close>)
  moreover have "lt_min (fold record_latency [7, 3] ?t) = 3" "lt_max (fold record_latency [7, 3] ?t) = 7"
    by code_simp+
  ultimately show ?thesis using r by auto
qed

end
