(* ===== verification/Utils_Numeric.thy ===== *)
theory Utils_Numeric
  imports Complex_Main "HOL-Library.Multiset" Pool_Prelude
begin

text \<open>
  The numeric part of \<^verbatim>\<open>new_ProcessPool/src/utils/utils.c\<close>: clocks and sleeping, limits, averages and
  percentiles, the linear congruential generator and the hash functions. \<open>uint64_t\<close>, \<open>size_t\<close> and
  \<open>uint32_t\<close> are words; a \<open>double\<close> is the exact real it approximates; the results of system calls
  are arguments.
\<close>

subsection \<open>Clocks and sleeping\<close>

text \<open>The argument is the time \<open>clock_gettime\<close> stored, or \<open>None\<close> when it failed.\<close>

definition get_time_ns :: "(u64 \<times> u64) option \<Rightarrow> u64" where
  "get_time_ns ts = (case ts of Some (sec, nsec) \<Rightarrow> sec * 1000000000 + nsec | None \<Rightarrow> 0)"

definition get_time_us :: "(u64 \<times> u64) option \<Rightarrow> u64" where
  "get_time_us ts = get_time_ns ts div 1000"

definition get_time_ms :: "(u64 \<times> u64) option \<Rightarrow> u64" where
  "get_time_ms ts = get_time_ns ts div 1000000"

definition get_realtime_ns :: "(u64 \<times> u64) option \<Rightarrow> u64" where
  "get_realtime_ns ts = (case ts of Some (sec, nsec) \<Rightarrow> sec * 1000000000 + nsec | None \<Rightarrow> 0)"

text \<open>The \<open>timespec\<close> handed to \<open>nanosleep\<close>.\<close>

definition sleep_ns :: "u64 \<Rightarrow> u64 \<times> u64" where
  "sleep_ns nanoseconds = (nanoseconds div 1000000000, nanoseconds mod 1000000000)"

definition sleep_us :: "u64 \<Rightarrow> u64 \<times> u64" where
  "sleep_us microseconds = sleep_ns (microseconds * 1000)"

definition sleep_ms :: "u64 \<Rightarrow> u64 \<times> u64" where
  "sleep_ms milliseconds = sleep_ns (milliseconds * 1000000)"

subsection \<open>The limit on open files\<close>

record rlimit =
  rlim_cur :: u64
  rlim_max :: u64

definition get_max_open_files :: "rlimit option \<Rightarrow> int" where
  "get_max_open_files r = (case r of Some rl \<Rightarrow> sint (ucast (rlim_cur rl) :: u32) | None \<Rightarrow> - 1)"

text \<open>The limit handed to \<open>setrlimit\<close>; \<open>None\<close> when the call returns -1 before that. \<open>max_files\<close>
  is an \<open>int\<close>, converted to the 64 bits of \<open>rlim_t\<close>.\<close>

definition set_max_open_files :: "int \<Rightarrow> rlimit option \<Rightarrow> rlimit option" where
  "set_max_open_files max_files r =
     (case r of None \<Rightarrow> None
      | Some rl \<Rightarrow>
          let rl1 = rl\<lparr>rlim_cur := of_int max_files\<rparr>
          in Some (if rlim_cur rl1 > rlim_max rl1 then rl1\<lparr>rlim_cur := rlim_max rl1\<rparr> else rl1))"

subsection \<open>Minima, maxima, averages\<close>

definition min_u64 :: "u64 \<Rightarrow> u64 \<Rightarrow> u64" where
  "min_u64 a b = (if a < b then a else b)"

definition max_u64 :: "u64 \<Rightarrow> u64 \<Rightarrow> u64" where
  "max_u64 a b = (if a > b then a else b)"

definition min_u32 :: "u32 \<Rightarrow> u32 \<Rightarrow> u32" where
  "min_u32 a b = (if a < b then a else b)"

definition max_u32 :: "u32 \<Rightarrow> u32 \<Rightarrow> u32" where
  "max_u32 a b = (if a > b then a else b)"

definition calculate_average :: "u64 list option \<Rightarrow> real" where
  "calculate_average values =
     (case values of None \<Rightarrow> 0
      | Some vs \<Rightarrow> if length vs = 0 then 0
                 else real (unat (fold (\<lambda>v sum. sum + v) vs 0)) / real (length vs))"

subsection \<open>Percentiles\<close>

text \<open>The two nested loops of the sort, on the array updated in place.\<close>

definition swap :: "nat \<Rightarrow> nat \<Rightarrow> 'a list \<Rightarrow> 'a list" where
  "swap i j xs = xs[i := xs ! j, j := xs ! i]"

fun sort_inner :: "nat \<Rightarrow> nat list \<Rightarrow> u64 list \<Rightarrow> u64 list" where
  "sort_inner i [] xs = xs"
| "sort_inner i (j # js) xs = sort_inner i js (if xs ! i > xs ! j then swap i j xs else xs)"

definition sort_values :: "u64 list \<Rightarrow> u64 list" where
  "sort_values xs = fold (\<lambda>i ys. sort_inner i [i + 1..<length xs] ys) [0..<length xs - 1] xs"

text \<open>Returns the result and the array as the call leaves it.\<close>

definition calculate_percentile :: "u64 list option \<Rightarrow> real \<Rightarrow> u64 \<times> u64 list option" where
  "calculate_percentile values percentile =
     (case values of None \<Rightarrow> (0, None)
      | Some vs \<Rightarrow>
          if length vs = 0 \<or> percentile < 0 \<or> percentile > 100 then (0, values)
          else let xs = sort_values vs;
                   index = (percentile / 100) * real (length vs - 1);
                   lower = nat \<lfloor>index\<rfloor>;
                   upper = lower + 1
               in if upper \<ge> length vs then (xs ! (length vs - 1), Some xs)
                  else let weight = index - real lower
                       in (of_int \<lfloor>real (unat (xs ! lower)) * (1 - weight) + real (unat (xs ! upper)) * weight\<rfloor>,
                           Some xs))"

subsection \<open>Random numbers\<close>

definition set_random_seed :: "u64 \<Rightarrow> (u64 \<times> u64) option \<Rightarrow> u64" where
  "set_random_seed seed ts = (if seed = 0 then get_time_ns ts else seed)"

text \<open>Each call takes the seed and returns its result and the new seed.\<close>

definition get_random_u64 :: "u64 \<Rightarrow> u64 \<times> u64" where
  "get_random_u64 seed = (let next = seed * 1103515245 + 12345 in (next, next))"

definition get_random_u32 :: "u64 \<Rightarrow> u32 \<times> u64" where
  "get_random_u32 seed = (case get_random_u64 seed of (r, seed') \<Rightarrow> (ucast (drop_bit 32 r), seed'))"

definition get_random_range :: "u32 \<Rightarrow> u32 \<Rightarrow> u64 \<Rightarrow> (u32 \<times> u64) outcome" where
  "get_random_range min_val max_val seed =
     (if min_val \<ge> max_val then Done (min_val, seed)
      else let range = max_val - min_val + 1
           in case get_random_u32 seed of (r, seed') \<Rightarrow>
                if range = 0 then Fault else Done (min_val + r mod range, seed'))"

definition get_random_double :: "u64 \<Rightarrow> real \<times> u64" where
  "get_random_double seed =
     (case get_random_u64 seed of (r, seed') \<Rightarrow> (real (unat r) / real (unat (- 1 :: u64)), seed'))"

subsection \<open>Hashes\<close>

text \<open>The characters of a string are \<open>char\<close>, signed on the platforms the pool targets: \<open>c\<close> is sign
  extended. The bytes of a memory block are unsigned.\<close>

definition hash_string :: "u8 list option \<Rightarrow> u64" where
  "hash_string str = (case str of None \<Rightarrow> 0
     | Some s \<Rightarrow> fold (\<lambda>c hash. (push_bit 5 hash + hash) + scast c) s 5381)"

definition hash_memory :: "u8 list option \<Rightarrow> u64" where
  "hash_memory data = (case data of None \<Rightarrow> 0
     | Some bytes \<Rightarrow> if length bytes = 0 then 0
                   else fold (\<lambda>b hash. (push_bit 5 hash + hash) + ucast b) bytes 5381)"

definition hash_mix :: "u64 \<Rightarrow> u64" where
  "hash_mix value =
     (let v1 = value XOR drop_bit 33 value;
          v2 = v1 * 0xff51afd7ed558ccd;
          v3 = v2 XOR drop_bit 33 v2;
          v4 = v3 * 0xc4ceb9fe1a85ec53
      in v4 XOR drop_bit 33 v4)"

definition hash_u64 :: "u64 \<Rightarrow> u32" where
  "hash_u64 value = ucast (hash_mix value)"

subsection \<open>Sleeping, limits and random numbers\<close>

lemma sleep_ns_split:
  "unat (fst (sleep_ns w)) * 1000000000 + unat (snd (sleep_ns w)) = unat w"
  "unat (snd (sleep_ns w)) < 1000000000"
  by (simp_all add: sleep_ns_def unat_div unat_mod)

text \<open>The time slept is the time asked for, below 584 years; the nanosecond field is always valid.\<close>

theorem sleep_exact:
  assumes "unat us * 1000 < 2 ^ 64"
  shows "unat (fst (sleep_us us)) * 1000000000 + unat (snd (sleep_us us)) = unat us * 1000
    \<and> unat (snd (sleep_us us)) < 1000000000"
proof -
  have "unat (us * 1000) = unat us * 1000"
    using assms by (simp add: unat_word_ariths)
  then show ?thesis
    unfolding sleep_us_def using sleep_ns_split [of "us * 1000"] by simp
qed

theorem sleep_us_wraps: "sleep_us 18446744073709552 = (0, 384)"
  by (simp add: sleep_us_def sleep_ns_def)

text \<open>The limit set never exceeds the hard limit, a request within it is set as it is, and a negative
  request, converted to a huge unsigned one, sets the hard limit.\<close>

theorem set_max_open_files_capped:
  assumes "set_max_open_files n (Some rl) = Some rl'" "- (2 ^ 31) \<le> n" "n < 2 ^ 31"
    "unat (rlim_max rl) < 2 ^ 63"
  shows "rlim_max rl' = rlim_max rl \<and> rlim_cur rl' \<le> rlim_max rl
    \<and> unat (rlim_cur rl') = (if 0 \<le> n then min (nat n) (unat (rlim_max rl)) else unat (rlim_max rl))"
proof -
  have n: "uint (of_int n :: u64) = (if 0 \<le> n then n else 2 ^ 64 + n)"
  proof (cases "0 \<le> n")
    case False
    have "n mod 2 ^ 64 = (n + 2 ^ 64) mod 2 ^ 64" by simp
    also have "\<dots> = n + 2 ^ 64" using False assms(2) by (intro mod_pos_pos_trivial) simp_all
    finally show ?thesis using False by (simp add: uint_word_of_int)
  qed (use assms(3) in \<open>simp add: uint_word_of_int\<close>)
  then have "unat (of_int n :: u64) = (if 0 \<le> n then nat n else nat (2 ^ 64 + n))"
    by (simp flip: nat_uint_eq)
  then show ?thesis
    using assms unfolding set_max_open_files_def by (auto simp: Let_def word_less_nat_alt word_le_nat_alt)
qed

lemma lcg_inverse: "(1103515245 :: u64) * 17850689345304521573 = 1"
  by simp

lemma mix1_inverse: "(0xff51afd7ed558ccd :: u64) * 0x4f74430c22a54005 = 1"
  by simp

lemma mix2_inverse: "(0xc4ceb9fe1a85ec53 :: u64) * 0x9cb4b2f8129337db = 1"
  by simp

lemma mult_cancel_unit:
  fixes a b c d :: u64
  assumes "c * d = 1" "a * c = b * c"
  shows "a = b"
proof -
  have "a * (c * d) = b * (c * d)" using assms(2) by (simp add: mult.assoc [symmetric])
  then show ?thesis by (simp add: assms(1))
qed

lemma shift_involution:
  fixes v :: u64
  shows "(v XOR drop_bit 33 v) XOR drop_bit 33 (v XOR drop_bit 33 v) = v"
proof (rule bit_word_eqI)
  fix n
  have "\<not> bit v (33 + (33 + n))" by (auto dest: bit_imp_le_length)
  then show "bit ((v XOR drop_bit 33 v) XOR drop_bit 33 (v XOR drop_bit 33 v)) n = bit v n"
    by (auto simp: bit_xor_iff bit_drop_bit_eq add.assoc)
qed

lemma shift_cancel: "(v :: u64) XOR drop_bit 33 v = w XOR drop_bit 33 w \<Longrightarrow> v = w"
  by (metis shift_involution)

text \<open>The finaliser behind \<open>hash_u64\<close> loses nothing before its last truncation: different values are
  mixed to different 64-bit values.\<close>

theorem hash_mix_injective: "hash_mix a = hash_mix b \<longleftrightarrow> a = b"
  unfolding hash_mix_def Let_def
  by (auto dest!: shift_cancel mult_cancel_unit [OF mix1_inverse] mult_cancel_unit [OF mix2_inverse])

text \<open>The generator is a permutation of the 64-bit states.\<close>

theorem random_u64_permutation: "get_random_u64 a = get_random_u64 b \<longleftrightarrow> a = b"
  unfolding get_random_u64_def Let_def by (auto dest!: mult_cancel_unit [OF lcg_inverse])

text \<open>A random number is within its bounds, the bounds included; the one pair of bounds without an
  answer is the full range of \<open>uint32_t\<close>, where the length of the range wraps to 0 and the
  remainder divides by it.\<close>

theorem random_range_bounds:
  assumes "lo \<le> hi"
  shows "(case get_random_range lo hi seed of
       Done (r, seed') \<Rightarrow> lo \<le> r \<and> r \<le> hi \<and> \<not> (lo = 0 \<and> hi = - 1)
     | Blocked \<Rightarrow> False
     | Fault \<Rightarrow> lo = 0 \<and> hi = - 1)"
proof (cases "lo < hi")
  case True
  obtain r seed' where r: "get_random_u32 seed = (r, seed')" by (cases "get_random_u32 seed")
  have d: "unat (hi - lo) = unat hi - unat lo"
    using assms by (simp add: unat_sub)
  show ?thesis
  proof (cases "hi - lo + 1 = 0")
    case z: True
    then have m: "hi - lo = - 1" by (simp add: eq_neg_iff_add_eq_0)
    moreover have "unat (- 1 :: u32) = 2 ^ 32 - 1" by (simp add: unsigned_minus_1_eq_mask mask_eq_exp_minus_1)
    ultimately have u: "unat hi - unat lo = 2 ^ 32 - 1" using d m by metis
    have "unat hi < 2 ^ 32" using unsigned_less [of hi] by simp
    with u have h: "unat hi = 2 ^ 32 - 1" "unat lo = 0" by simp_all
    have "lo = 0" using h(2) by (simp add: unat_eq_0)
    moreover have "hi = - 1" using m \<open>lo = 0\<close> by simp
    ultimately show ?thesis by (simp add: get_random_range_def r)
  next
    case False
    have len: "unat (hi - lo + 1) = unat hi - unat lo + 1"
      using d False by (metis Suc_eq_plus1 unatSuc add.commute)
    have "unat (r mod (hi - lo + 1)) < unat hi - unat lo + 1"
      using len by (simp add: unat_mod)
    moreover have "unat lo \<le> unat hi" using assms by (simp add: word_le_nat_alt)
    moreover have "unat hi < 2 ^ LENGTH(32)" by (rule unsigned_less)
    ultimately have s: "unat (lo + r mod (hi - lo + 1)) = unat lo + unat (r mod (hi - lo + 1))"
      "unat lo + unat (r mod (hi - lo + 1)) \<le> unat hi"
      by (simp_all add: unat_word_ariths)
    then have "lo \<le> lo + r mod (hi - lo + 1)" "lo + r mod (hi - lo + 1) \<le> hi"
      by (simp_all add: word_le_nat_alt)
    then show ?thesis using True False by (auto simp: get_random_range_def r)
  qed
next
  case False
  then show ?thesis using assms by (auto simp: get_random_range_def)
qed


theorem random_range_bounds_witness:
  "\<exists>r seed'. get_random_range 3 9 7 = Done (r, seed') \<and> 3 \<le> r \<and> r \<le> 9"
proof -
  obtain r seed' where r: "get_random_range 3 9 7 = Done (r, seed')"
    by (cases "get_random_range 3 9 7") (use random_range_bounds [of 3 9 7] in auto)
  then show ?thesis using random_range_bounds [of 3 9 7] by auto
qed

lemma random_range_full_faults: "get_random_range 0 (- 1) seed = Fault"
  by (simp add: get_random_range_def split: prod.split)

subsection \<open>Hash functions\<close>

fun poly_hash :: "(u8 \<Rightarrow> u64) \<Rightarrow> u8 list \<Rightarrow> u64" where
  "poly_hash f [] = 0"
| "poly_hash f (c # cs) = f c * 33 ^ length cs + poly_hash f cs"

lemma fold_hash:
  "fold (\<lambda>c h. (push_bit 5 h + h) + f c) cs h0 = h0 * 33 ^ length cs + poly_hash f cs"
proof (induction cs arbitrary: h0)
  case (Cons c cs)
  have "push_bit 5 h0 = h0 * 32" by (simp add: push_bit_eq_mult)
  then show ?case unfolding fold_simps(2) Cons.IH by (simp add: algebra_simps)
qed simp

lemma scast_ascii: "c < 128 \<Longrightarrow> scast c = (ucast (c :: u8) :: u64)"
proof -
  assume c: "c < 128"
  then have "uint c < 128" by (simp add: word_less_def)
  then have "sint c = uint c" by (simp add: sint_uint signed_take_bit_int_eq_self [of 7 "uint c"] order_trans [of _ 0])
  then show ?thesis by (metis scast_eq ucast_eq)
qed

text \<open>Both hash functions are the polynomial hash with base 33 modulo \<open>2 ^ 64\<close>, over signed characters
  for strings and over unsigned bytes for memory, so they agree on every non-empty ASCII string.\<close>

theorem hash_is_polynomial:
  "hash_string (Some s) = 5381 * 33 ^ length s + poly_hash scast s
   \<and> (s \<noteq> [] \<longrightarrow> hash_memory (Some s) = 5381 * 33 ^ length s + poly_hash ucast s)
   \<and> (s \<noteq> [] \<longrightarrow> (\<forall>c \<in> set s. c < 128) \<longrightarrow> hash_string (Some s) = hash_memory (Some s))"
proof -
  have "poly_hash scast s = poly_hash ucast s" if "\<forall>c \<in> set s. c < 128" for s
    using that by (induction s) (simp_all add: scast_ascii)
  then show ?thesis
    by (auto simp: hash_string_def hash_memory_def fold_hash)
qed

theorem hash_is_polynomial_witness:
  "hash_string (Some [104, 105]) = hash_memory (Some [104, 105 :: u8])
   \<and> hash_string (Some [104, 105]) = 5381 * 33 ^ 2 + (104 * 33 + 105)"
proof -
  note h = hash_is_polynomial [of "[104, 105]"]
  have "hash_string (Some [104, 105]) = 5381 * 33 ^ length [104, 105 :: u8] + poly_hash scast [104, 105]"
    using h by (rule conjunct1)
  moreover have "poly_hash scast [104, 105] = 104 * 33 + 105" by code_simp
  moreover have "hash_string (Some [104, 105]) = hash_memory (Some [104, 105])"
    using h [THEN conjunct2, THEN conjunct2] by force
  ultimately show ?thesis by (simp only: list.size numeral_2_eq_2 add_0 add_0_right plus_nat.simps)
qed

lemma hashes_differ_beyond_ascii: "hash_string (Some [200]) \<noteq> hash_memory (Some [200 :: u8])"
  by code_simp

subsection \<open>Sorting and percentiles\<close>

lemma length_swap [simp]: "length (swap i j xs) = length xs"
  by (simp add: swap_def)

lemma mset_swap_eq: "i < length xs \<Longrightarrow> j < length xs \<Longrightarrow> mset (swap i j xs) = mset xs"
  unfolding swap_def by (metis List.list_update_id mset_swap nth_list_update_neq)

lemma nth_swap: "i < length xs \<Longrightarrow> j < length xs \<Longrightarrow>
  swap i j xs ! k = (if k = j then xs ! i else if k = i then xs ! j else xs ! k)"
  by (auto simp: swap_def nth_list_update)

text \<open>One run of the inner loop: \<open>ys\<close> permutes \<open>xs\<close> among the positions \<open>i\<close> and \<open>js\<close> only, and
  position \<open>i\<close> holds the least of them.\<close>

definition min_moved :: "nat \<Rightarrow> nat set \<Rightarrow> u64 list \<Rightarrow> u64 list \<Rightarrow> bool" where
  "min_moved i js xs ys \<longleftrightarrow> length ys = length xs \<and> mset ys = mset xs
     \<and> (\<forall>k. k \<notin> insert i js \<longrightarrow> ys ! k = xs ! k) \<and> ys ! i \<le> xs ! i \<and> (\<forall>j \<in> js. ys ! i \<le> ys ! j)
     \<and> (\<forall>k \<in> insert i js. \<exists>k' \<in> insert i js. ys ! k = xs ! k')"

lemma sort_inner_min_moved:
  "i < length xs \<Longrightarrow> \<forall>j \<in> set js. j < length xs \<Longrightarrow> i \<notin> set js \<Longrightarrow> distinct js
   \<Longrightarrow> min_moved i (set js) xs (sort_inner i js xs)"
proof (induction js arbitrary: xs)
  case Nil
  then show ?case by (simp add: min_moved_def)
next
  case (Cons j js)
  obtain zs where zs: "zs = (if xs ! i > xs ! j then swap i j xs else xs)" by blast
  have j: "j < length xs" "j \<noteq> i" "j \<notin> set js" using Cons.prems by auto
  have x: "length zs = length xs" "mset zs = mset xs" "zs ! i \<le> xs ! i" "zs ! i \<le> zs ! j"
    "\<And>k. k \<noteq> i \<Longrightarrow> k \<noteq> j \<Longrightarrow> zs ! k = xs ! k" "zs ! i \<in> {xs ! i, xs ! j}" "zs ! j \<in> {xs ! i, xs ! j}"
    unfolding zs using Cons.prems j by (auto simp: nth_swap mset_swap_eq)
  obtain ys where ys: "ys = sort_inner i js zs" by blast
  have ih: "min_moved i (set js) zs ys"
    unfolding ys using Cons.prems by (intro Cons.IH) (auto simp: x(1))
  have yj: "ys ! j = zs ! j" using ih j unfolding min_moved_def by blast
  have "\<exists>k' \<in> insert i (set (j # js)). ys ! k = xs ! k'" if k: "k \<in> insert i (set (j # js))" for k
  proof (cases "k = j")
    case True
    then show ?thesis using yj x(7) by auto
  next
    case False
    with k have "k \<in> insert i (set js)" by auto
    with ih obtain k' where k': "k' \<in> insert i (set js)" "ys ! k = zs ! k'"
      unfolding min_moved_def by blast
    show ?thesis
    proof (cases "k' = i")
      case True
      then show ?thesis using k'(2) x(6) by auto
    next
      case False
      then have "zs ! k' = xs ! k'" using k'(1) j by (intro x(5)) auto
      then show ?thesis using k' False by auto
    qed
  qed
  moreover have ij: "ys ! i \<le> ys ! j"
  proof -
    have "ys ! i \<le> zs ! i" using ih unfolding min_moved_def by blast
    then show ?thesis unfolding yj using x(4) by (rule order_trans)
  qed
  moreover have "sort_inner i (j # js) xs = ys" by (simp add: zs ys)
  moreover have i: "length ys = length zs" "mset ys = mset zs" "\<forall>k. k \<notin> insert i (set js) \<longrightarrow> ys ! k = zs ! k"
    "ys ! i \<le> zs ! i" "\<forall>j \<in> set js. ys ! i \<le> ys ! j"
    using ih unfolding min_moved_def by blast+
  moreover have "\<forall>k. k \<notin> insert i (set (j # js)) \<longrightarrow> ys ! k = xs ! k" using i(3) x(5) by simp
  moreover have "ys ! i \<le> xs ! i" using i(4) x(3) by (rule order_trans)
  moreover have "\<forall>j' \<in> set (j # js). ys ! i \<le> ys ! j'" using i(5) ij by simp
  moreover have "length ys = length xs" "mset ys = mset xs" using i(1,2) x(1,2) by simp_all
  ultimately show ?case unfolding min_moved_def by blast
qed

definition sorted_below :: "nat \<Rightarrow> u64 list \<Rightarrow> bool" where
  "sorted_below i xs \<longleftrightarrow> (\<forall>p k. p < i \<longrightarrow> p < k \<longrightarrow> k < length xs \<longrightarrow> xs ! p \<le> xs ! k)"

lemma sort_pass:
  assumes "i < length xs" "sorted_below i xs"
  shows "let ys = sort_inner i [i + 1..<length xs] xs
    in length ys = length xs \<and> mset ys = mset xs \<and> sorted_below (Suc i) ys"
proof -
  let ?ys = "sort_inner i [i + 1..<length xs] xs"
  have m: "min_moved i (set [i + 1..<length xs]) xs ?ys"
    using assms(1) by (intro sort_inner_min_moved) auto
  have "?ys ! p \<le> ?ys ! k" if h: "p < Suc i" "p < k" "k < length xs" for p k
  proof (cases "p = i")
    case True
    then show ?thesis using m h unfolding min_moved_def by auto
  next
    case False
    then have p: "p < i" "?ys ! p = xs ! p" using m h unfolding min_moved_def by auto
    obtain k' where "p < k'" "k' < length xs" "?ys ! k = xs ! k'"
    proof (cases "k < i")
      case True
      then have "?ys ! k = xs ! k" using m h unfolding min_moved_def by auto
      then show ?thesis using that [of k] h by blast
    next
      case False
      then have "k \<in> insert i (set [i + 1..<length xs])" using h(3) by auto
      then obtain k' where "k' \<in> insert i (set [i + 1..<length xs])" "?ys ! k = xs ! k'"
        using m unfolding min_moved_def by blast
      then show ?thesis using that [of k'] p(1) assms(1) by auto
    qed
    then show ?thesis using assms(2) p unfolding sorted_below_def by metis
  qed
  then show ?thesis using m unfolding min_moved_def sorted_below_def Let_def by simp
qed

lemma sort_passes:
  "k \<le> length xs \<Longrightarrow> let ys = fold (\<lambda>i ys. sort_inner i [i + 1..<length xs] ys) [0..<k] xs
    in length ys = length xs \<and> mset ys = mset xs \<and> sorted_below k ys"
proof (induction k)
  case 0
  then show ?case by (simp add: sorted_below_def)
next
  case (Suc k)
  let ?ys = "fold (\<lambda>i ys. sort_inner i [i + 1..<length xs] ys) [0..<k] xs"
  have "length ?ys = length xs" "mset ?ys = mset xs" "sorted_below k ?ys" using Suc by (auto simp: Let_def)
  with sort_pass [of k ?ys] Suc.prems show ?case by (simp add: Let_def)
qed

text \<open>The sort is a sort.\<close>

lemma sort_values_eq_sort: "sort_values xs = sort xs"
proof -
  have r: "length (sort_values xs) = length xs" "mset (sort_values xs) = mset xs"
    "sorted_below (length xs - 1) (sort_values xs)"
    using sort_passes [of "length xs - 1" xs] by (simp_all add: sort_values_def Let_def)
  have "sorted (sort_values xs)"
    unfolding sorted_iff_nth_mono_less
  proof (intro allI impI)
    fix p k assume "p < k" "k < length (sort_values xs)"
    then show "sort_values xs ! p \<le> sort_values xs ! k"
      using r(1,3) unfolding sorted_below_def by auto
  qed
  with r(2) show ?thesis by (intro properties_for_sort [symmetric]) auto
qed

lemma floor_between:
  fixes m n :: nat
  assumes "m \<le> n" "0 \<le> w" "w \<le> 1"
  shows "int m \<le> \<lfloor>real m * (1 - w) + real n * w\<rfloor> \<and> \<lfloor>real m * (1 - w) + real n * w\<rfloor> \<le> int n"
proof -
  let ?x = "real m * (1 - w) + real n * w"
  have x: "?x = real m + (real n - real m) * w" by (simp add: algebra_simps)
  have "real m \<le> ?x" unfolding x using assms by simp
  moreover have "?x \<le> real n"
    unfolding x using mult_left_le [of w "real n - real m"] assms by simp
  ultimately show ?thesis by (simp add: le_floor_iff floor_le_iff)
qed

lemma interpolate_bounds:
  fixes a b :: u64
  assumes "a \<le> b" "0 \<le> w" "w \<le> 1"
    and r: "r = (of_int \<lfloor>real (unat a) * (1 - w) + real (unat b) * w\<rfloor> :: u64)"
  shows "a \<le> r \<and> r \<le> b"
proof -
  obtain z where z: "z = \<lfloor>real (unat a) * (1 - w) + real (unat b) * w\<rfloor>" by blast
  have f: "int (unat a) \<le> z" "z \<le> int (unat b)"
    unfolding z using floor_between [of "unat a" "unat b" w] assms by (simp_all add: word_le_nat_alt)
  then have "uint a \<le> z" "z \<le> uint b" by simp_all
  moreover have "uint b < 2 ^ LENGTH(64)" "0 \<le> uint a" by (rule unsigned_less, simp)
  ultimately have "uint r = z" unfolding r z [symmetric]
    using order_trans [of 0 "uint a" z] by (simp add: uint_word_of_int mod_pos_pos_trivial)
  with \<open>uint a \<le> z\<close> \<open>z \<le> uint b\<close> show ?thesis by (simp add: word_le_def)
qed

text \<open>\<open>calculate_percentile\<close> leaves the array sorted and returns a value between the two order
  statistics around the percentile's position: for 0 the minimum, for 100 the maximum.\<close>

theorem percentile_brackets:
  assumes "vs \<noteq> []" "0 \<le> p" "p \<le> 100"
  shows "snd (calculate_percentile (Some vs) p) = Some (sort vs)
    \<and> sort vs ! nat \<lfloor>p / 100 * real (length vs - 1)\<rfloor> \<le> fst (calculate_percentile (Some vs) p)
    \<and> fst (calculate_percentile (Some vs) p)
        \<le> sort vs ! min (length vs - 1) (nat \<lfloor>p / 100 * real (length vs - 1)\<rfloor> + 1)"
proof -
  let ?x = "p / 100 * real (length vs - 1)"
  let ?lo = "nat \<lfloor>?x\<rfloor>"
  have x: "0 \<le> ?x" "?x \<le> real (length vs - 1)"
    using assms mult_right_mono [of "p / 100" 1 "real (length vs - 1)"] by simp_all
  then have lo: "?lo \<le> length vs - 1" by (simp add: nat_le_iff floor_le_iff)
  have n: "length vs \<noteq> 0" "\<not> p < 0" "\<not> p > 100" using assms by simp_all
  show ?thesis
  proof (cases "?lo + 1 \<ge> length vs")
    case True
    with lo n have e: "?lo = length vs - 1" by linarith
    have r: "calculate_percentile (Some vs) p = (sort vs ! (length vs - 1), Some (sort vs))"
      unfolding calculate_percentile_def Let_def sort_values_eq_sort option.case
      using True n by (simp only: if_True if_False simp_thms)
    show ?thesis unfolding r fst_conv snd_conv e by simp
  next
    case False
    have w: "0 \<le> ?x - real ?lo" "?x - real ?lo \<le> 1" using x(1) by linarith+
    have le: "sort vs ! ?lo \<le> sort vs ! (?lo + 1)"
      by (rule sorted_nth_mono) (use False in \<open>simp_all only: sorted_sort length_sort not_le le_add1\<close>)
    have m: "min (length vs - 1) (?lo + 1) = ?lo + 1" using False by linarith
    have r: "calculate_percentile (Some vs) p = (of_int \<lfloor>real (unat (sort vs ! ?lo)) * (1 - (?x - real ?lo))
        + real (unat (sort vs ! (?lo + 1))) * (?x - real ?lo)\<rfloor>, Some (sort vs))"
      unfolding calculate_percentile_def Let_def sort_values_eq_sort option.case
      using False n by (simp only: if_False simp_thms)
    show ?thesis
      unfolding m r fst_conv snd_conv using interpolate_bounds [OF le w refl] by blast
  qed
qed

theorem percentile_brackets_witness:
  "snd (calculate_percentile (Some [40, 10, 30, 20, 50]) 50) = Some [10, 20, 30, 40, 50]
   \<and> (30 :: u64) \<le> fst (calculate_percentile (Some [40, 10, 30, 20, 50]) 50)
   \<and> fst (calculate_percentile (Some [40, 10, 30, 20, 50]) 50) \<le> 40"
proof -
  have s: "sort [40, 10, 30, 20, 50 :: u64] = [10, 20, 30, 40, 50]" by code_simp
  have i: "nat \<lfloor>50 / 100 * real (length [40, 10, 30, 20, 50 :: u64] - 1)\<rfloor> = 2" by simp
  show ?thesis using percentile_brackets [of "[40, 10, 30, 20, 50]" 50] unfolding s i by simp
qed

subsection \<open>Averages\<close>

text \<open>The average is exact as long as the sum fits in 64 bits.\<close>

lemma fold_plus_u64: "fold (\<lambda>v sum. sum + v) vs (a :: u64) = a + sum_list vs"
  by (induction vs arbitrary: a) (simp_all add: add.assoc)

theorem average_exact:
  assumes "vs \<noteq> []" "sum_list (map unat vs) < 2 ^ 64"
  shows "calculate_average (Some vs) = real (sum_list (map unat vs)) / real (length vs)"
proof -
  have "unat (sum_list vs) = sum_list (map unat vs)" using assms(2) by (intro unat_sum_list) simp
  then show ?thesis using assms(1) unfolding calculate_average_def fold_plus_u64 by simp
qed

end
