(* ===== verification/Utils_Strings.thy ===== *)
theory Utils_Strings
  imports Main "HOL-Library.Sublist" Pool_Prelude
begin

text \<open>
  The memory, string and logging part of \<^verbatim>\<open>new_ProcessPool/src/utils/utils.c\<close>. A C string is the
  \<open>string\<close> before its terminator, a null pointer is \<open>None\<close>, and \<open>malloc\<close>'s answers are arguments.
  The character class is that of the C locale. The operations of \<^verbatim>\<open>string.h\<close> the code calls are
  modelled on such strings.
\<close>

subsection \<open>Memory\<close>

text \<open>The heap maps the address of each live block to its bytes. The argument \<open>a\<close> is the address the
  allocator answers with, and \<open>None\<close> when it fails.\<close>

type_synonym heap = "nat \<Rightarrow> u8 list option"

definition safe_malloc :: "nat option \<Rightarrow> u64 \<Rightarrow> heap \<Rightarrow> nat option \<times> heap" where
  "safe_malloc a sz h =
     (if sz = 0 then (None, h)
      else case a of None \<Rightarrow> (None, h) | Some p \<Rightarrow> (Some p, h(p \<mapsto> replicate (unat sz) 0)))"

definition safe_calloc :: "nat option \<Rightarrow> u64 \<Rightarrow> u64 \<Rightarrow> heap \<Rightarrow> nat option \<times> heap" where
  "safe_calloc a count sz h =
     (if count = 0 \<or> sz = 0 then (None, h)
      else if count > - 1 div sz then (None, h)
      else case a of None \<Rightarrow> (None, h)
           | Some p \<Rightarrow> (Some p, h(p \<mapsto> replicate (unat (count * sz)) 0)))"

definition free_block :: "nat option \<Rightarrow> heap \<Rightarrow> heap" where
  "free_block ptr h = (case ptr of None \<Rightarrow> h | Some p \<Rightarrow> h(p := None))"

text \<open>\<open>fill\<close> is the indeterminate content of the bytes \<open>realloc\<close> adds.\<close>

definition safe_realloc :: "nat option \<Rightarrow> u8 list \<Rightarrow> nat option \<Rightarrow> u64 \<Rightarrow> heap \<Rightarrow> nat option \<times> heap" where
  "safe_realloc a fill ptr new_size h =
     (if new_size = 0 then (None, free_block ptr h)
      else case a of None \<Rightarrow> (None, h)
           | Some p \<Rightarrow>
               let old = (case ptr of None \<Rightarrow> [] | Some q \<Rightarrow> (case h q of None \<Rightarrow> [] | Some bs \<Rightarrow> bs))
               in (Some p, (free_block ptr h)(p \<mapsto> take (unat new_size) (old @ fill))))"

text \<open>\<open>safe_free\<close> takes the address of a pointer; \<open>None\<close> when that is null.\<close>

definition safe_free :: "nat option option \<Rightarrow> heap \<Rightarrow> nat option option \<times> heap" where
  "safe_free ptr h =
     (case ptr of Some (Some p) \<Rightarrow> (Some None, h(p := None)) | _ \<Rightarrow> (ptr, h))"

definition safe_strdup :: "bool \<Rightarrow> string option \<Rightarrow> string option" where
  "safe_strdup malloc_ok str =
     (case str of None \<Rightarrow> None | Some s \<Rightarrow> if malloc_ok then Some s else None)"

definition safe_strndup :: "bool \<Rightarrow> string option \<Rightarrow> nat \<Rightarrow> string option" where
  "safe_strndup malloc_ok str max_len =
     (case str of None \<Rightarrow> None
      | Some s \<Rightarrow> let len = min (length s) max_len
                  in if malloc_ok then Some (take len s) else None)"

subsection \<open>Strings\<close>

definition isspace :: "char \<Rightarrow> bool" where
  "isspace c \<longleftrightarrow> c \<in> set [CHR '' '', CHR 0x09, CHR 0x0A, CHR 0x0B, CHR 0x0C, CHR 0x0D]"

fun skip_space :: "string \<Rightarrow> string" where
  "skip_space [] = []"
| "skip_space (c # cs) = (if isspace c then skip_space cs else c # cs)"

text \<open>The loop that moves \<open>end\<close> back: the index of the last character kept.\<close>

fun trim_end :: "string \<Rightarrow> nat \<Rightarrow> nat" where
  "trim_end s 0 = 0"
| "trim_end s (Suc e) = (if isspace (s ! Suc e) then trim_end s e else Suc e)"

definition trim_whitespace :: "string option \<Rightarrow> string option" where
  "trim_whitespace str =
     (case str of None \<Rightarrow> None
      | Some s0 \<Rightarrow>
          let s = skip_space s0
          in if s = [] then Some s
             else Some (take (trim_end s (length s - 1) + 1) s))"

fun strncmp_eq :: "string \<Rightarrow> string \<Rightarrow> nat \<Rightarrow> bool" where
  "strncmp_eq a b 0 = True"
| "strncmp_eq [] [] (Suc n) = True"
| "strncmp_eq (x # a) (y # b) (Suc n) = (x = y \<and> strncmp_eq a b n)"
| "strncmp_eq _ _ (Suc n) = False"

definition string_starts_with :: "string option \<Rightarrow> string option \<Rightarrow> bool" where
  "string_starts_with str pre =
     (case (str, pre) of
        (Some s, Some p) \<Rightarrow> if length p > length s then False else strncmp_eq s p (length p)
      | _ \<Rightarrow> False)"

definition string_ends_with :: "string option \<Rightarrow> string option \<Rightarrow> bool" where
  "string_ends_with str suf =
     (case (str, suf) of
        (Some s, Some p) \<Rightarrow> if length p > length s then False else drop (length s - length p) s = p
      | _ \<Rightarrow> False)"

text \<open>\<open>strstr\<close>: the offset of the first occurrence.\<close>

fun strstr :: "string \<Rightarrow> string \<Rightarrow> nat option" where
  "strstr [] needle = (if needle = [] then Some 0 else None)"
| "strstr (c # cs) needle =
     (if take (length needle) (c # cs) = needle then Some 0
      else map_option Suc (strstr cs needle))"

lemma strstr_bound: "strstr s needle = Some i \<Longrightarrow> i + length needle \<le> length s"
proof (induction s arbitrary: i)
  case (Cons c cs)
  show ?case
  proof (cases "take (length needle) (c # cs) = needle")
    case True
    then have "length needle \<le> length (c # cs)" by (metis length_take min.cobounded1)
    then show ?thesis using Cons.prems True by simp
  next
    case False
    then show ?thesis using Cons by (auto split: if_splits)
  qed
qed (auto split: if_splits)

lemma strstr_progress: "strstr s needle = Some i \<Longrightarrow> needle \<noteq> [] \<Longrightarrow> length s - (i + length needle) < length s"
  using strstr_bound [of s needle i] by (cases needle) auto

function count_occurrences :: "string \<Rightarrow> string \<Rightarrow> nat" where
  "count_occurrences old pos =
     (case strstr pos old of None \<Rightarrow> 0
      | Some i \<Rightarrow> if old = [] then 0 else Suc (count_occurrences old (drop (i + length old) pos)))"
  by pat_completeness auto
termination
  by (relation "measure (\<lambda>(old, pos). length pos)") (auto dest: strstr_progress)

text \<open>The copying loop. \<open>size\<close> is the size of the allocated block: a copy beyond it is a fault.\<close>

function replace_copy :: "nat \<Rightarrow> string \<Rightarrow> string \<Rightarrow> string \<Rightarrow> string \<Rightarrow> string outcome" where
  "replace_copy sz old new dst src =
     (case strstr src old of
        None \<Rightarrow> if length dst + length src + 1 > sz then Fault else Done (dst @ src)
      | Some i \<Rightarrow>
          if old = [] \<or> length dst + i + length new > sz then Fault
          else replace_copy sz old new (dst @ take i src @ new) (drop (i + length old) src))"
  by pat_completeness auto
termination
  by (relation "measure (\<lambda>(sz, old, new, dst, src). length src)") (auto dest: strstr_progress)

declare count_occurrences.simps [simp del] replace_copy.simps [simp del]

definition string_replace ::
  "bool \<Rightarrow> string option \<Rightarrow> string option \<Rightarrow> string option \<Rightarrow> string option outcome" where
  "string_replace malloc_ok str old_substr new_substr =
     (case (str, old_substr, new_substr) of
        (Some s, Some old, Some new) \<Rightarrow>
          if length old = 0 then Done (safe_strdup malloc_ok (Some s))
          else let count = count_occurrences old s
               in if count = 0 then Done (safe_strdup malloc_ok (Some s))
                  else let result_len = (of_nat (length s) :: u64)
                             + of_nat count * (of_nat (length new) - of_nat (length old)) + 1
                       in if \<not> malloc_ok then Done None
                          else bind_outcome (replace_copy (unat result_len) old new [] s) (\<lambda>r. Done (Some r))
      | _ \<Rightarrow> Done None)"

subsection \<open>The log\<close>

datatype log_sink = LogNone | LogStderr | LogFile nat

record logger =
  lg_level :: int
  lg_file :: log_sink
  lg_console :: bool
  lg_timestamp :: bool
  lg_thread_id :: bool
  lg_open :: "nat list"

definition initial_logger :: logger where
  "initial_logger = \<lparr>lg_level = 2, lg_file = LogNone, lg_console = True, lg_timestamp = True,
     lg_thread_id = True, lg_open = []\<rparr>"

definition log_set_level :: "int \<Rightarrow> logger \<Rightarrow> logger" where
  "log_set_level level g = (if level \<ge> 0 \<and> level \<le> 4 then g\<lparr>lg_level := level\<rparr> else g)"

definition log_get_level :: "logger \<Rightarrow> int" where
  "log_get_level g = lg_level g"

definition close_log :: "logger \<Rightarrow> logger" where
  "close_log g = (case lg_file g of LogFile f \<Rightarrow> g\<lparr>lg_open := remove1 f (lg_open g)\<rparr> | _ \<Rightarrow> g)"

text \<open>\<open>opened\<close> is the stream \<open>fopen\<close> answers with; \<open>named\<close> says that the file name is not null.\<close>

definition log_set_file :: "bool \<Rightarrow> nat option \<Rightarrow> logger \<Rightarrow> logger" where
  "log_set_file named opened g =
     (let g1 = close_log g
      in if named
         then (case opened of None \<Rightarrow> g1\<lparr>lg_file := LogStderr\<rparr>
               | Some f \<Rightarrow> g1\<lparr>lg_file := LogFile f, lg_open := f # lg_open g1\<rparr>)
         else g1\<lparr>lg_file := LogNone\<rparr>)"

definition log_set_console :: "bool \<Rightarrow> logger \<Rightarrow> logger" where
  "log_set_console enable g = g\<lparr>lg_console := enable\<rparr>"

definition log_set_timestamp :: "bool \<Rightarrow> logger \<Rightarrow> logger" where
  "log_set_timestamp enable g = g\<lparr>lg_timestamp := enable\<rparr>"

definition log_set_thread_id :: "bool \<Rightarrow> logger \<Rightarrow> logger" where
  "log_set_thread_id enable g = g\<lparr>lg_thread_id := enable\<rparr>"

definition log_cleanup :: "logger \<Rightarrow> logger" where
  "log_cleanup g =
     (case lg_file g of LogFile f \<Rightarrow> (close_log g)\<lparr>lg_file := LogNone\<rparr> | _ \<Rightarrow> g)"

text \<open>The 4096 bytes of \<open>buffer\<close>: the characters before \<open>ptr\<close>, and those \<open>snprintf\<close> left from \<open>ptr\<close>
  to its terminator. \<open>append_piece\<close> is one call of \<open>snprintf\<close> and the test that moves \<open>ptr\<close>.\<close>

definition append_piece :: "string \<Rightarrow> string \<times> string \<Rightarrow> string \<times> string" where
  "append_piece piece b =
     (case b of (front, tail) \<Rightarrow>
      let remaining = 4096 - length front
      in if 0 < length piece \<and> length piece < remaining then (front @ piece, [])
         else (front, take (remaining - 1) piece))"

definition newline :: string where
  "newline = [CHR 0x0A]"

definition finish_line :: "string \<times> string \<Rightarrow> string" where
  "finish_line b =
     (case b of (front, tail) \<Rightarrow> if 4096 - length front > 1 then front @ newline else front @ tail)"

definition bracketed :: "string \<Rightarrow> string" where
  "bracketed s = ''['' @ s @ ''] ''"

definition log_level_names :: "string list" where
  "log_level_names = [''ERROR'', ''WARN'', ''INFO'', ''DEBUG'', ''TRACE'']"

definition log_level_colors :: "string list" where
  "log_level_colors = map (\<lambda>n. CHR 0x1B # ''['' @ n @ ''m'') [''31'', ''33'', ''32'', ''36'', ''37'']"

definition log_reset_color :: string where
  "log_reset_color = CHR 0x1B # ''[0m''"

text \<open>The texts of the time stamp and the thread, the pool's name and the formatted message are
  arguments. The result lists what is written to each stream.\<close>

definition log_line :: "logger \<Rightarrow> string \<Rightarrow> string \<Rightarrow> string option \<Rightarrow> string \<Rightarrow> string \<Rightarrow> string" where
  "log_line g timestamp thread pool_name level_name message =
     (let b0 = ([], []);
          b1 = (if lg_timestamp g then append_piece (bracketed timestamp) b0 else b0);
          b2 = (if lg_thread_id g then append_piece (bracketed thread) b1 else b1);
          b3 = (case pool_name of None \<Rightarrow> b2 | Some nm \<Rightarrow> if nm = [] then b2 else append_piece (bracketed nm) b2);
          b4 = append_piece (bracketed level_name) b3
      in finish_line (append_piece message b4))"

definition log_message ::
  "logger \<Rightarrow> bool \<Rightarrow> string \<Rightarrow> string \<Rightarrow> string option \<Rightarrow> int \<Rightarrow> string \<Rightarrow> (log_sink \<times> string) list outcome" where
  "log_message g stderr_is_tty timestamp thread pool_name level message =
     (if level > lg_level g then Done []
      else if level < 0 \<or> level \<ge> int (length log_level_names) then Fault
      else let line = log_line g timestamp thread pool_name (log_level_names ! nat level) message;
               console = (if lg_console g
                          then [(LogStderr, if stderr_is_tty
                                            then log_level_colors ! nat level @ line @ log_reset_color
                                            else line)]
                          else []);
               file = (if lg_file g = LogNone then [] else [(lg_file g, line)])
           in Done (console @ file))"

subsection \<open>Memory: overflow and accounting\<close>

lemma div_overflow_iff:
  fixes a b :: "'a::len word"
  assumes "b \<noteq> 0"
  shows "a > - 1 div b \<longleftrightarrow> 2 ^ LENGTH('a) \<le> unat a * unat b"
proof -
  have b: "0 < unat b" using assms by (simp add: unat_gt_0)
  have m: "unat (- 1 :: 'a word) = 2 ^ LENGTH('a) - 1"
    by (simp add: unsigned_minus_1_eq_mask mask_eq_exp_minus_1)
  have "a > - 1 div b \<longleftrightarrow> \<not> unat a \<le> (2 ^ LENGTH('a) - 1) div unat b"
    by (simp add: word_less_nat_alt unat_div m not_le)
  also have "\<dots> \<longleftrightarrow> \<not> unat a * unat b \<le> 2 ^ LENGTH('a) - 1"
    using b by (simp add: less_eq_div_iff_mult_less_eq)
  also have "\<dots> \<longleftrightarrow> 2 ^ LENGTH('a) \<le> unat a * unat b"
    using zero_less_power [of "2 :: nat" "LENGTH('a)"] by linarith
  finally show ?thesis .
qed

text \<open>\<open>safe_calloc\<close> never hands out a block smaller than the product of its arguments: it answers null
  exactly when an argument is 0, the product does not fit in \<open>size_t\<close>, or the allocator fails, and
  otherwise a zeroed block of exactly the product.\<close>

theorem safe_calloc_exact:
  "safe_calloc a count sz h =
     (if count \<noteq> 0 \<and> sz \<noteq> 0 \<and> unat count * unat sz < 2 ^ 64 \<and> a \<noteq> None
      then (a, h(the a \<mapsto> replicate (unat count * unat sz) 0)) else (None, h))"
proof (cases "count = 0 \<or> sz = 0")
  case False
  then have o: "count > - 1 div sz \<longleftrightarrow> 2 ^ 64 \<le> unat count * unat sz"
    using div_overflow_iff [of sz count] by simp
  have "unat (count * sz) = unat count * unat sz" if "unat count * unat sz < 2 ^ 64"
    using that by (simp add: unat_word_ariths)
  then show ?thesis using False by (auto simp: safe_calloc_def o split: option.split)
qed (auto simp: safe_calloc_def)

text \<open>A resized block keeps its old bytes up to the smaller size; when the allocator fails the old
  block stays as it was, and a new size of 0 frees it.\<close>

lemma safe_realloc_keeps:
  assumes "h q = Some bs" "new_size \<noteq> 0" "length fill \<ge> unat new_size" "h p = None \<or> p = q"
  shows "safe_realloc None fill (Some q) new_size h = (None, h)"
    "\<exists>h'. safe_realloc (Some p) fill (Some q) new_size h = (Some p, h') \<and> dom h' = insert p (dom h - {q})
       \<and> (\<exists>bs'. h' p = Some bs' \<and> length bs' = unat new_size
            \<and> take (min (length bs) (unat new_size)) bs' = take (unat new_size) bs)"
    "safe_realloc a fill (Some q) 0 h = (None, h(q := None))"
  using assms by (auto simp: safe_realloc_def free_block_def min_def)

lemma safe_free_once:
  "safe_free (Some (Some p)) h = (Some None, h(p := None))"
  "safe_free (fst (safe_free ptr h)) (snd (safe_free ptr h)) = safe_free ptr h"
  by (auto simp: safe_free_def split: option.split)

subsection \<open>Trimming\<close>

lemma skip_space_eq: "skip_space s = dropWhile isspace s"
  by (induction s) auto

lemma skip_space_split:
  obtains a where "s = a @ skip_space s" "list_all isspace a"
  by (rule that [of "takeWhile isspace s"]) (auto simp: skip_space_eq list_all_iff dest: set_takeWhileD)

lemma skip_space_hd: "skip_space s \<noteq> [] \<Longrightarrow> \<not> isspace (hd (skip_space s))"
  by (induction s) auto

lemma trim_end_le: "trim_end s e \<le> e"
  by (induction e) (auto intro: le_SucI)

lemma trim_end_space: "trim_end s e < k \<Longrightarrow> k \<le> e \<Longrightarrow> isspace (s ! k)"
  by (induction e) (auto split: if_splits simp: le_Suc_eq)

lemma trim_end_stop: "trim_end s e \<noteq> 0 \<Longrightarrow> \<not> isspace (s ! trim_end s e)"
  by (induction e) auto

text \<open>Trimming removes white space only, and all of it at both ends: the rest is empty or begins and
  ends with another character.\<close>

theorem trim_whitespace_correct:
  "\<exists>a t b. trim_whitespace (Some s) = Some t \<and> s = a @ t @ b \<and> list_all isspace (a @ b)
     \<and> (t = [] \<or> \<not> isspace (hd t) \<and> \<not> isspace (last t))"
proof -
  obtain a where a: "s = a @ skip_space s" "list_all isspace a" by (rule skip_space_split)
  show ?thesis
  proof (cases "skip_space s = []")
    case True
    then have "trim_whitespace (Some s) = Some []" by (simp add: trim_whitespace_def)
    moreover have "s = a @ [] @ []" "list_all isspace (a @ [])" using a True by simp_all
    ultimately show ?thesis by blast
  next
    case False
    obtain r where r: "r = skip_space s" by blast
    obtain e where e: "e = trim_end r (length r - 1)" by blast
    have ne: "r \<noteq> []" using False r by simp
    have lt: "e < length r" using trim_end_le [of r "length r - 1"] ne unfolding e by (cases r) auto
    have d: "list_all isspace (drop (e + 1) r)"
      unfolding list_all_length
      using trim_end_space [of r "length r - 1"] unfolding e [symmetric] by auto
    have h: "\<not> isspace (hd (take (e + 1) r))" using skip_space_hd [OF False] ne r by (cases r) auto
    have "\<not> isspace (r ! e)"
    proof (cases "e = 0")
      case True
      then show ?thesis using h ne by (cases r) auto
    next
      case False
      then show ?thesis using trim_end_stop [of r "length r - 1"] e by simp
    qed
    then have l: "\<not> isspace (last (take (e + 1) r))"
      using lt by (simp add: take_Suc_conv_app_nth)
    have t: "trim_whitespace (Some s) = Some (take (e + 1) r)"
      using False unfolding trim_whitespace_def Let_def option.case r [symmetric] e by simp
    have s: "s = a @ take (e + 1) r @ drop (e + 1) r"
      unfolding append_take_drop_id r by (rule a(1))
    from a(2) d have "list_all isspace (a @ drop (e + 1) r)" by simp
    with t s h l show ?thesis by blast
  qed
qed

subsection \<open>Prefixes and suffixes\<close>

lemma strncmp_eq_take: "length p \<le> length s \<Longrightarrow> strncmp_eq s p (length p) \<longleftrightarrow> prefix p s"
proof (induction p arbitrary: s)
  case (Cons c p)
  then show ?case by (cases s) auto
qed simp

theorem starts_ends_with_correct:
  "string_starts_with (Some s) (Some p) = prefix p s \<and> string_ends_with (Some s) (Some p) = suffix p s"
proof -
  have "string_starts_with (Some s) (Some p) = prefix p s"
    using strncmp_eq_take [of p s] prefix_length_le [of p s] by (auto simp: string_starts_with_def)
  moreover have "string_ends_with (Some s) (Some p) = suffix p s"
    using suffix_length_le [of p s]
    by (auto simp: string_ends_with_def suffix_def) (metis append_take_drop_id)
  ultimately show ?thesis by simp
qed

subsection \<open>Replacement\<close>

text \<open>The specification: from left to right, each occurrence is replaced and the search goes on after it.\<close>

function replace_ref :: "string \<Rightarrow> string \<Rightarrow> string \<Rightarrow> string" where
  "replace_ref old new [] = []"
| "replace_ref old new (c # cs) =
     (if old \<noteq> [] \<and> take (length old) (c # cs) = old
      then new @ replace_ref old new (drop (length old) (c # cs))
      else c # replace_ref old new cs)"
  by pat_completeness auto
termination
  by (relation "measure (\<lambda>(old, new, s). length s)") auto

declare replace_ref.simps(2) [simp del]

lemma replace_ref_strstr:
  assumes "old \<noteq> []"
  shows "replace_ref old new s = (case strstr s old of None \<Rightarrow> s
     | Some i \<Rightarrow> take i s @ new @ replace_ref old new (drop (i + length old) s))"
proof (induction s)
  case (Cons c cs)
  show ?case
  proof (cases "take (length old) (c # cs) = old")
    case True
    then show ?thesis using assms by (simp add: replace_ref.simps(2))
  next
    case False
    then show ?thesis using Cons by (simp add: replace_ref.simps(2) split: option.split)
  qed
qed (use assms in simp)

lemma replace_copy_correct:
  assumes "old \<noteq> []" "length dst + length (replace_ref old new src) + 1 \<le> sz"
  shows "replace_copy sz old new dst src = Done (dst @ replace_ref old new src)"
  using assms(2)
proof (induction src arbitrary: dst rule: length_induct)
  case (1 src)
  show ?case
  proof (cases "strstr src old")
    case None
    then show ?thesis using 1 by (subst replace_copy.simps) (simp add: replace_ref_strstr [OF assms(1), of new src])
  next
    case (Some i)
    note r = replace_ref_strstr [OF assms(1), of new src, unfolded Some option.case]
    have b: "i + length old \<le> length src" by (rule strstr_bound [OF Some])
    have "replace_copy sz old new (dst @ take i src @ new) (drop (i + length old) src)
      = Done ((dst @ take i src @ new) @ replace_ref old new (drop (i + length old) src))"
      using 1(1) 1(2) r b strstr_progress [OF Some assms(1)] by simp
    then show ?thesis
      using 1(2) r b assms(1) by (subst replace_copy.simps) (simp add: Some)
  qed
qed

lemma replace_ref_length:
  assumes "old \<noteq> []"
  shows "length (replace_ref old new s) + count_occurrences old s * length old
     = length s + count_occurrences old s * length new"
proof (induction s rule: length_induct)
  case (1 s)
  show ?case
  proof (cases "strstr s old")
    case None
    then show ?thesis by (simp add: replace_ref_strstr [OF assms, of new s] count_occurrences.simps [of old s])
  next
    case (Some i)
    let ?r = "drop (i + length old) s"
    have b: "i + length old \<le> length s" by (rule strstr_bound [OF Some])
    have "length (replace_ref old new ?r) + count_occurrences old ?r * length old
     = length ?r + count_occurrences old ?r * length new"
      using 1 strstr_progress [OF Some assms] by simp
    moreover have "count_occurrences old s = Suc (count_occurrences old ?r)"
      by (subst count_occurrences.simps) (simp add: Some assms)
    moreover have "length (replace_ref old new s) = i + length new + length (replace_ref old new ?r)"
      using b by (simp add: replace_ref_strstr [OF assms, of new s] Some)
    ultimately show ?thesis using b by (simp add: algebra_simps)
  qed
qed

lemma count_zero_ref: "old \<noteq> [] \<Longrightarrow> count_occurrences old s = 0 \<Longrightarrow> replace_ref old new s = s"
  by (auto simp: count_occurrences.simps [of old s] replace_ref_strstr [of old new s] split: option.splits)

text \<open>\<open>string_replace\<close> computes the replacement of every occurrence, and the block it allocates,
  whose size is computed with unsigned differences that may wrap, is exactly large enough: no copy
  leaves it.\<close>

theorem string_replace_correct:
  assumes "old \<noteq> []" "length (replace_ref old new s) + 1 < 2 ^ 64"
  shows "string_replace True (Some s) (Some old) (Some new) = Done (Some (replace_ref old new s))"
proof (cases "count_occurrences old s = 0")
  case True
  then show ?thesis
    using assms(1) count_zero_ref [OF assms(1) True] by (simp add: string_replace_def safe_strdup_def)
next
  case False
  let ?c = "count_occurrences old s"
  let ?w = "(of_nat (length s) :: u64) + of_nat ?c * (of_nat (length new) - of_nat (length old)) + 1"
  have "(of_nat (length (replace_ref old new s)) :: u64) + of_nat ?c * of_nat (length old)
      = of_nat (length s) + of_nat ?c * of_nat (length new)"
    using arg_cong [OF replace_ref_length [OF assms(1), of new s], of "of_nat :: nat \<Rightarrow> u64"] by simp
  then have "?w = of_nat (length (replace_ref old new s)) + 1"
    by (simp add: algebra_simps)
  then have "?w = of_nat (length (replace_ref old new s) + 1)" by simp
  then have w: "unat ?w = length (replace_ref old new s) + 1"
    using assms(2) by (simp only: unat_of_nat) simp
  have "replace_copy (unat ?w) old new [] s = Done ([] @ replace_ref old new s)"
    unfolding w by (rule replace_copy_correct [OF assms(1)]) simp
  then show ?thesis using assms(1) False by (simp add: string_replace_def Let_def)
qed

theorem string_replace_correct_witness:
  "string_replace True (Some ''aXbXX'') (Some ''X'') (Some ''--'') = Done (Some ''a--b----'')"
proof -
  have "replace_ref ''X'' ''--'' ''aXbXX'' = ''a--b----''" by (simp add: replace_ref.simps)
  then show ?thesis using string_replace_correct [of "''X''" "''--''" "''aXbXX''"] by simp
qed

subsection \<open>Log lines\<close>

lemma append_piece_bound:
  "length (fst b) < 4096 \<Longrightarrow> length (fst (append_piece p b)) < 4096
     \<and> length (fst (append_piece p b)) + length (snd (append_piece p b)) < 4096"
  by (cases b) (auto simp: append_piece_def Let_def)

lemma append_piece_fits:
  "0 < length p \<Longrightarrow> length front + length p < 4096 \<Longrightarrow> append_piece p (front, tail) = (front @ p, [])"
  by (simp add: append_piece_def Let_def)

text \<open>The pieces before the message, each in brackets.\<close>

definition log_header :: "logger \<Rightarrow> string \<Rightarrow> string \<Rightarrow> string option \<Rightarrow> string \<Rightarrow> string" where
  "log_header g timestamp thread pool_name level_name =
     (if lg_timestamp g then bracketed timestamp else []) @ (if lg_thread_id g then bracketed thread else [])
   @ (case pool_name of None \<Rightarrow> [] | Some nm \<Rightarrow> if nm = [] then [] else bracketed nm) @ bracketed level_name"

lemma log_line_header:
  assumes "length (log_header g ts th pn lv) < 4096"
  shows "log_line g ts th pn lv msg = finish_line (append_piece msg (log_header g ts th pn lv, []))"
  using assms unfolding log_line_def log_header_def Let_def
  by (cases pn) (auto simp: append_piece_fits bracketed_def)

text \<open>The log never writes beyond its 4096 bytes. When the whole line fits the buffer it is the header,
  the message and a newline; a message that does not fit is not cut: the newline is written where it
  began, and nothing of the message is logged.\<close>

theorem log_line_contents:
  assumes "length (log_header g ts th pn lv) < 4095"
  shows "length (log_line g ts th pn lv msg) < 4096
    \<and> (length (log_header g ts th pn lv) + length msg < 4095
         \<longrightarrow> log_line g ts th pn lv msg = log_header g ts th pn lv @ msg @ newline)
    \<and> (4096 \<le> length (log_header g ts th pn lv) + length msg
         \<longrightarrow> log_line g ts th pn lv msg = log_header g ts th pn lv @ newline)"
proof -
  obtain h where h: "h = log_header g ts th pn lv" by blast
  have "log_line g ts th pn lv msg = finish_line (append_piece msg (h, []))"
    unfolding h using assms by (intro log_line_header) simp
  then show ?thesis
    using assms unfolding h [symmetric] by (auto simp: append_piece_def finish_line_def newline_def Let_def)
qed

theorem log_line_contents_witness:
  "log_line (initial_logger\<lparr>lg_timestamp := False\<rparr>) [] ''7'' None ''INFO'' (replicate 5000 CHR ''x'')
     = ''[7] [INFO] '' @ newline"
proof -
  let ?g = "initial_logger\<lparr>lg_timestamp := False\<rparr>"
  have h: "log_header ?g [] ''7'' None ''INFO'' = ''[7] [INFO] ''"
    by (simp add: log_header_def initial_logger_def bracketed_def)
  show ?thesis
    using log_line_contents [of ?g "[]" "''7''" None "''INFO''" "replicate 5000 CHR ''x''"] unfolding h by simp
qed

lemma finish_bounded: "length (fst b) < 4096 \<Longrightarrow> length (finish_line (append_piece p b)) < 4096"
  using append_piece_bound [of b p] by (cases "append_piece p b") (auto simp: finish_line_def newline_def)

lemma append_piece_fst: "length (fst b) < 4096 \<Longrightarrow> length (fst (append_piece p b)) < 4096"
  using append_piece_bound by blast

lemma log_line_bounded: "length (log_line g ts th pn lv msg) < 4096"
  unfolding log_line_def Let_def
  by (intro finish_bounded append_piece_fst) (cases pn; auto intro!: append_piece_fst)

datatype log_op =
    SetLevel int
  | SetFile bool "nat option"
  | SetConsole bool
  | SetTimestamp bool
  | SetThreadId bool
  | Cleanup

fun log_exec :: "log_op \<Rightarrow> logger \<Rightarrow> logger" where
  "log_exec (SetLevel n) g = log_set_level n g"
| "log_exec (SetFile named opened) g = log_set_file named opened g"
| "log_exec (SetConsole b) g = log_set_console b g"
| "log_exec (SetTimestamp b) g = log_set_timestamp b g"
| "log_exec (SetThreadId b) g = log_set_thread_id b g"
| "log_exec Cleanup g = log_cleanup g"

definition wf_logger :: "logger \<Rightarrow> bool" where
  "wf_logger g \<longleftrightarrow> 0 \<le> lg_level g \<and> lg_level g \<le> 4
     \<and> lg_open g = (case lg_file g of LogFile f \<Rightarrow> [f] | _ \<Rightarrow> [])"

lemma log_exec_wf: "wf_logger g \<Longrightarrow> wf_logger (log_exec op g)"
  by (cases op) (auto simp: wf_logger_def log_set_level_def log_set_file_def close_log_def log_cleanup_def
      log_set_console_def log_set_timestamp_def log_set_thread_id_def Let_def split: log_sink.splits option.splits)

text \<open>After any sequence of configuration calls the level is one of the five and at most one stream is
  open, the current one, so no log file leaks; and a message of a level that has a name is logged
  without an access outside the table of names.\<close>

theorem log_configuration_sound:
  "wf_logger (fold log_exec ops initial_logger)
   \<and> (0 \<le> level \<longrightarrow> log_message (fold log_exec ops initial_logger) tty ts th pn level msg \<noteq> Fault)"
proof -
  have init: "wf_logger initial_logger" by (simp add: wf_logger_def initial_logger_def)
  have "wf_logger (fold log_exec ops g)" if "wf_logger g" for g
    using that by (induction ops arbitrary: g) (auto intro: log_exec_wf)
  from this [OF init] have wf: "wf_logger (fold log_exec ops initial_logger)" .
  moreover have "log_message (fold log_exec ops initial_logger) tty ts th pn level msg \<noteq> Fault" if "0 \<le> level"
    using wf that by (auto simp: log_message_def wf_logger_def log_level_names_def Let_def)
  ultimately show ?thesis by blast
qed

theorem log_configuration_sound_witness:
  "wf_logger (fold log_exec [SetLevel 9, SetLevel 3, SetFile True (Some 5), SetFile True (Some 8)] initial_logger)
   \<and> log_message (fold log_exec [SetLevel 3] initial_logger) False [] [] None 3 ''m'' \<noteq> Fault"
  using log_configuration_sound [of "[SetLevel 9, SetLevel 3, SetFile True (Some 5), SetFile True (Some 8)]"]
    log_configuration_sound [of "[SetLevel 3]" 3 False "[]" "[]" None "''m''"] by auto

lemma log_negative_level_faults:
  "level < 0 \<Longrightarrow> 0 \<le> lg_level g \<Longrightarrow> log_message g tty ts th pn level msg = Fault"
  by (simp add: log_message_def)

end
