(* ===== verification/Event_Loop.thy ===== *)
theory Event_Loop
  imports Pool_Manager
begin

text \<open>
  The event loop: \<^verbatim>\<open>new_ProcessPool/src/core/event_loop.c\<close>. Its event descriptors are those of
  \<open>Eventfd\<close>; the other descriptors (epoll instance, signal and timer descriptors, the standard
  streams) are in a table of their own. What the kernel answers, the readiness \<open>epoll_wait\<close> reports
  and clock readings are arguments. \<open>assign_task_to_worker\<close>, \<open>update_pool_statistics\<close>,
  \<open>cleanup_expired_tasks\<close>, \<open>adjust_worker_count\<close>, \<open>dump_pool_statistics\<close>, \<open>toggle_debug_mode\<close> and
  \<open>force_garbage_collection\<close> are called but defined nowhere and are parameters, as is the state
  \<open>WORKER_STATE_RUNNING\<close>, which no file declares. The member
  \<open>stats.tasks_completed\<close>, which \<open>pool_stats_t\<close> does not declare, is a counter of the state. Log
  output and thread names are not modelled.
\<close>

datatype event_type =
    EVENT_TYPE_TASK_SUBMIT
  | EVENT_TYPE_TASK_COMPLETE
  | EVENT_TYPE_WORKER_STATUS
  | EVENT_TYPE_TIMER
  | EVENT_TYPE_SIGNAL
  | EVENT_TYPE_CONTROL

record event_data =
  ed_type :: event_type
  ed_fd :: int
  ed_data :: int
  ed_edge :: bool

record event_loop =
  el_epoll_fd :: int
  el_task_submit_eventfd :: int
  el_control_eventfd :: int
  el_signal_fd :: int
  el_timer_fd :: int
  el_running :: bool
  el_thread :: bool
  el_pool :: bool
  el_events_processed :: u64
  el_tasks_submitted :: u64
  el_tasks_completed :: u64
  el_worker_events :: u64
  el_timer_events :: u64

definition zero_loop :: event_loop where
  "zero_loop = \<lparr>el_epoll_fd = 0, el_task_submit_eventfd = 0, el_control_eventfd = 0, el_signal_fd = 0,
     el_timer_fd = 0, el_running = False, el_thread = False, el_pool = False, el_events_processed = 0,
     el_tasks_submitted = 0, el_tasks_completed = 0, el_worker_events = 0, el_timer_events = 0\<rparr>"

text \<open>The descriptors that are not event descriptors; an epoll instance holds its interest list. Each
  registered event owns a block of memory; \<open>k_blocks\<close> counts the live ones.\<close>

datatype special_file = EpollFile "event_data list" | SignalFile | TimerFile | StandardFile

record kernel =
  k_os :: os
  k_files :: "int \<Rightarrow> special_file option"
  k_blocks :: nat

definition close_fd :: "int \<Rightarrow> kernel \<Rightarrow> kernel" where
  "close_fd fd k = k\<lparr>k_os := (k_os k)\<lparr>os_efds := (os_efds (k_os k))(fd := None)\<rparr>,
     k_files := (k_files k)(fd := None)\<rparr>"

definition open_file :: "int option \<Rightarrow> special_file \<Rightarrow> kernel \<Rightarrow> int \<times> kernel" where
  "open_file fd file k =
     (case fd of None \<Rightarrow> (- 1, k) | Some n \<Rightarrow> (n, k\<lparr>k_files := (k_files k)(n \<mapsto> file)\<rparr>))"

definition open_eventfd :: "int option \<Rightarrow> kernel \<Rightarrow> int \<times> kernel" where
  "open_eventfd fd k =
     (case create_eventfd fd (os_efds (k_os k)) of (n, t) \<Rightarrow> (n, k\<lparr>k_os := (k_os k)\<lparr>os_efds := t\<rparr>\<rparr>))"

subsection \<open>Descriptors and registered events\<close>

definition setup_signal_fd :: "bool \<Rightarrow> int option \<Rightarrow> kernel \<Rightarrow> int \<times> kernel" where
  "setup_signal_fd mask_ok fd k = (if \<not> mask_ok then (- 1, k) else open_file fd SignalFile k)"

definition setup_timer_fd :: "int option \<Rightarrow> bool \<Rightarrow> kernel \<Rightarrow> int \<times> kernel" where
  "setup_timer_fd fd settime_ok k =
     (case open_file fd TimerFile k of (tfd, k1) \<Rightarrow>
        if tfd = - 1 then (- 1, k1)
        else if \<not> settime_ok then (- 1, close_fd tfd k1)
        else (tfd, k1))"

text \<open>\<open>mem\<close>: \<open>malloc\<close> succeeds. \<open>ctl\<close>: \<open>epoll_ctl\<close> accepts the event; it always
  fails on a descriptor that is not an epoll instance.\<close>

definition epoll_add :: "bool \<Rightarrow> int \<Rightarrow> event_data \<Rightarrow> kernel \<Rightarrow> int \<times> kernel" where
  "epoll_add ctl epoll_fd ev k =
     (case k_files k epoll_fd of
        Some (EpollFile evs) \<Rightarrow>
          if \<not> ctl then (- 1, k)
          else (0, k\<lparr>k_files := (k_files k)(epoll_fd \<mapsto> EpollFile (evs @ [ev]))\<rparr>)
      | _ \<Rightarrow> (- 1, k))"

definition add_epoll_event ::
  "bool \<Rightarrow> bool \<Rightarrow> int \<Rightarrow> int \<Rightarrow> bool \<Rightarrow> event_type \<Rightarrow> int \<Rightarrow> kernel \<Rightarrow> int \<times> kernel" where
  "add_epoll_event mem ctl epoll_fd fd edge type data k =
     (if \<not> mem then (- 1, k)
      else let k1 = k\<lparr>k_blocks := k_blocks k + 1\<rparr>
           in case epoll_add ctl epoll_fd \<lparr>ed_type = type, ed_fd = fd, ed_data = data, ed_edge = edge\<rparr> k1 of
                (r, k2) \<Rightarrow> if r = - 1 then (- 1, k2\<lparr>k_blocks := k_blocks k2 - 1\<rparr>) else (0, k2))"

text \<open>\<open>epoll_ctl\<close> does not fill in the event it is given: \<open>garbage_null\<close> says whether the uninitialised
  pointer that is freed next happens to be null.\<close>

definition remove_epoll_event :: "bool \<Rightarrow> int \<Rightarrow> int \<Rightarrow> kernel \<Rightarrow> kernel outcome" where
  "remove_epoll_event garbage_null epoll_fd fd k =
     (case k_files k epoll_fd of
        Some (EpollFile evs) \<Rightarrow>
          if fd \<in> set (map ed_fd evs)
          then (if garbage_null
                then Done (k\<lparr>k_files := (k_files k)(epoll_fd \<mapsto> EpollFile (filter (\<lambda>e. ed_fd e \<noteq> fd) evs))\<rparr>)
                else Fault)
          else Done k
      | _ \<Rightarrow> Done k)"

subsection \<open>Initialisation and clean-up\<close>

text \<open>The initialisation fails part way only before the loop runs, so its clean-up never stops a
  thread; \<open>close_all\<close> is the rest of \<open>event_loop_cleanup\<close>, which ends by clearing the structure.\<close>

definition close_field :: "int \<Rightarrow> kernel \<Rightarrow> kernel" where
  "close_field fd k = (if fd \<ge> 0 then close_fd fd k else k)"

definition close_all :: "event_loop \<times> kernel \<Rightarrow> event_loop \<times> kernel" where
  "close_all s =
     (case s of (el, k) \<Rightarrow>
        (zero_loop, fold close_field [el_epoll_fd el, el_task_submit_eventfd el, el_control_eventfd el,
                                      el_signal_fd el, el_timer_fd el] k))"

record loop_init_env =
  li_epoll :: "int option"
  li_submit :: "int option"
  li_control :: "int option"
  li_mask :: bool
  li_signal :: "int option"
  li_timer :: "int option"
  li_settime :: bool
  li_add :: "nat \<Rightarrow> bool \<times> bool"

text \<open>The four registrations at the end of the initialisation; the first that fails cleans up. The last
  component of the result is the pair of descriptors saved in the pool.\<close>

definition register_events ::
  "loop_init_env \<Rightarrow> event_loop \<Rightarrow> kernel \<Rightarrow> pool_error \<times> (event_loop \<times> kernel) \<times> (int \<times> int) option" where
  "register_events env el k =
     (let add = (\<lambda>i fd edge type k. add_epoll_event (fst (li_add env i)) (snd (li_add env i)) (el_epoll_fd el)
                   fd edge type 0 k);
          (r1, k1) = add 0 (el_task_submit_eventfd el) True EVENT_TYPE_TASK_SUBMIT k
      in if r1 = - 1 then (POOL_ERROR_SYSTEM_CALL, close_all (el, k1), None)
      else let (r2, k2) = add 1 (el_control_eventfd el) True EVENT_TYPE_CONTROL k1
      in if r2 = - 1 then (POOL_ERROR_SYSTEM_CALL, close_all (el, k2), None)
      else let (r3, k3) = add 2 (el_signal_fd el) False EVENT_TYPE_SIGNAL k2
      in if r3 = - 1 then (POOL_ERROR_SYSTEM_CALL, close_all (el, k3), None)
      else let (r4, k4) = add 3 (el_timer_fd el) False EVENT_TYPE_TIMER k3
      in if r4 = - 1 then (POOL_ERROR_SYSTEM_CALL, close_all (el, k4), None)
      else (POOL_SUCCESS, (el, k4), Some (el_task_submit_eventfd el, el_control_eventfd el)))"

definition event_loop_init ::
  "loop_init_env \<Rightarrow> bool \<Rightarrow> event_loop \<times> kernel
     \<Rightarrow> pool_error \<times> (event_loop \<times> kernel) \<times> (int \<times> int) option" where
  "event_loop_init env pool s =
     (case s of (el, k) \<Rightarrow>
      if \<not> pool then (POOL_ERROR_INVALID_PARAM, s, None)
      else let el0 = zero_loop\<lparr>el_pool := True\<rparr>;
               (ep, k1) = open_file (li_epoll env) (EpollFile []) k;
               el1 = el0\<lparr>el_epoll_fd := ep\<rparr>
      in if ep = - 1 then (POOL_ERROR_SYSTEM_CALL, (el1, k1), None)
      else let (ts, k2) = open_eventfd (li_submit env) k1; el2 = el1\<lparr>el_task_submit_eventfd := ts\<rparr>
      in if ts = - 1 then (POOL_ERROR_SYSTEM_CALL, (el2, close_fd ep k2), None)
      else let (ct, k3) = open_eventfd (li_control env) k2; el3 = el2\<lparr>el_control_eventfd := ct\<rparr>
      in if ct = - 1 then (POOL_ERROR_SYSTEM_CALL, (el3, close_fd ep (close_fd ts k3)), None)
      else let (sg, k4) = setup_signal_fd (li_mask env) (li_signal env) k3; el4 = el3\<lparr>el_signal_fd := sg\<rparr>
      in if sg = - 1
         then (POOL_ERROR_SYSTEM_CALL, (el4, close_fd ep (close_fd ts (close_fd ct k4))), None)
      else let (tm, k5) = setup_timer_fd (li_timer env) (li_settime env) k4; el5 = el4\<lparr>el_timer_fd := tm\<rparr>
      in if tm = - 1
         then (POOL_ERROR_SYSTEM_CALL, (el5, close_fd ep (close_fd ts (close_fd ct (close_fd sg k5)))), None)
      else register_events env el5 k5)"

definition event_loop_start :: "bool \<Rightarrow> event_loop \<Rightarrow> pool_error \<times> event_loop" where
  "event_loop_start thread_ok el =
     (if el_epoll_fd el = - 1 then (POOL_ERROR_INVALID_PARAM, el)
      else if \<not> thread_ok then (POOL_ERROR_SYSTEM_CALL, el\<lparr>el_running := False\<rparr>)
      else (POOL_SUCCESS, el\<lparr>el_running := True, el_thread := True\<rparr>))"

text \<open>\<open>exits\<close>: the loop's thread leaves; otherwise \<open>pthread_join\<close> waits for ever.\<close>

definition event_loop_stop ::
  "bool \<Rightarrow> event_loop \<times> kernel \<Rightarrow> (pool_error \<times> event_loop \<times> kernel) outcome" where
  "event_loop_stop exits s =
     (case s of (el, k) \<Rightarrow>
      if \<not> el_running el then Done (POOL_SUCCESS, el, k)
      else bind_outcome (sys_write (el_control_eventfd el) 1 (os_efds (k_os k))) (\<lambda>(r, t).
           let k1 = k\<lparr>k_os := (k_os k)\<lparr>os_efds := t\<rparr>\<rparr>
           in if el_thread el \<and> \<not> exits then Blocked
              else Done (POOL_SUCCESS, el\<lparr>el_thread := False, el_running := False\<rparr>, k1)))"

definition event_loop_cleanup :: "bool \<Rightarrow> event_loop \<times> kernel \<Rightarrow> (event_loop \<times> kernel) outcome" where
  "event_loop_cleanup exits s =
     bind_outcome (if el_running (fst s)
                   then bind_outcome (event_loop_stop exits s) (\<lambda>(e, el, k). Done (el, k))
                   else Done s)
       (\<lambda>s1. Done (close_all s1))"

definition event_loop_notify_task_submit ::
  "event_loop \<Rightarrow> kernel \<Rightarrow> (pool_error \<times> kernel) outcome" where
  "event_loop_notify_task_submit el k =
     (if el_task_submit_eventfd el = - 1 then Done (POOL_ERROR_INVALID_PARAM, k)
      else bind_outcome (sys_write (el_task_submit_eventfd el) 1 (os_efds (k_os k))) (\<lambda>(r, t).
           let k1 = k\<lparr>k_os := (k_os k)\<lparr>os_efds := t\<rparr>\<rparr>
           in case r of SysOk _ \<Rightarrow> Done (POOL_SUCCESS, k1) | _ \<Rightarrow> Done (POOL_ERROR_SYSTEM_CALL, k1)))"

definition event_loop_get_stats :: "event_loop \<Rightarrow> u64 \<times> u64 \<times> u64 \<times> u64 \<times> u64" where
  "event_loop_get_stats el = (el_events_processed el, el_tasks_submitted el, el_tasks_completed el,
     el_worker_events el, el_timer_events el)"

subsection \<open>The state the handlers work on\<close>

record 'h loop_state =
  ls_loop :: event_loop
  ls_pool :: "'h pool"
  ls_kernel :: kernel
  ls_tasks :: "'h tm"
  ls_stats_tasks_completed :: u64

definition ls_efds :: "'h loop_state \<Rightarrow> fds" where
  "ls_efds s = os_efds (k_os (ls_kernel s))"

definition put_efds :: "fds \<Rightarrow> 'h loop_state \<Rightarrow> 'h loop_state" where
  "put_efds t s = s\<lparr>ls_kernel := (ls_kernel s)\<lparr>k_os := (k_os (ls_kernel s))\<lparr>os_efds := t\<rparr>\<rparr>\<rparr>"

definition put_os :: "os \<Rightarrow> 'h loop_state \<Rightarrow> 'h loop_state" where
  "put_os os s = s\<lparr>ls_kernel := (ls_kernel s)\<lparr>k_os := os\<rparr>\<rparr>"

text \<open>A read of an event descriptor, the handler's early return on failure, and its body on success.\<close>

definition read_then ::
  "int \<Rightarrow> (u64 \<Rightarrow> 'h loop_state \<Rightarrow> 'h loop_state outcome) \<Rightarrow> 'h loop_state \<Rightarrow> 'h loop_state outcome" where
  "read_then fd body s =
     bind_outcome (sys_read fd (ls_efds s)) (\<lambda>(r, t).
       case r of SysOk value \<Rightarrow> body value (put_efds t s) | _ \<Rightarrow> Done (put_efds t s))"

subsection \<open>Submitted tasks\<close>

text \<open>The parameters of the model: \<open>assign_task_to_worker\<close> and the numbers of the error codes.\<close>

type_synonym 'h assign = "nat \<Rightarrow> 'h loop_state \<Rightarrow> pool_error \<times> 'h loop_state"

definition fail_task :: "bool \<Rightarrow> 32 word \<Rightarrow> nat \<Rightarrow> 'h loop_state \<Rightarrow> 'h loop_state outcome" where
  "fail_task mem code task s =
     bind_outcome (task_set_error mem (Some task) code (Some ''Failed to assign to worker'') (ls_tasks s))
       (\<lambda>(e, tm). case tm_heap tm task of None \<Rightarrow> Fault
        | Some t \<Rightarrow> Done (s\<lparr>ls_tasks := put_task task (t\<lparr>t_state := TASK_STATE_FAILED, t_broadcasts := t_broadcasts t + 1\<rparr>) tm\<rparr>))"

definition submit_one ::
  "'h assign \<Rightarrow> (pool_error \<Rightarrow> 32 word) \<Rightarrow> bool \<Rightarrow> 'h loop_state \<Rightarrow> 'h loop_state outcome" where
  "submit_one assign code mem s =
     (case queue_dequeue (p_queue (ls_pool s)) of
        (None, q) \<Rightarrow> Done (s\<lparr>ls_pool := (ls_pool s)\<lparr>p_queue := q\<rparr>\<rparr>)
      | (Some task, q) \<Rightarrow>
          (case assign task (s\<lparr>ls_pool := (ls_pool s)\<lparr>p_queue := q\<rparr>\<rparr>) of
             (result, s1) \<Rightarrow> if result \<noteq> POOL_SUCCESS then fail_task mem (code result) task s1 else Done s1))"

fun submit_loop ::
  "'h assign \<Rightarrow> (pool_error \<Rightarrow> 32 word) \<Rightarrow> (nat \<Rightarrow> bool) \<Rightarrow> nat \<Rightarrow> 'h loop_state \<Rightarrow> 'h loop_state outcome" where
  "submit_loop assign code mem 0 s = Done s"
| "submit_loop assign code mem (Suc n) s =
     bind_outcome (submit_one assign code (mem n) s) (submit_loop assign code mem n)"

definition handle_task_submit_event ::
  "'h assign \<Rightarrow> (pool_error \<Rightarrow> 32 word) \<Rightarrow> (nat \<Rightarrow> bool) \<Rightarrow> 'h loop_state \<Rightarrow> 'h loop_state outcome" where
  "handle_task_submit_event assign code mem s =
     read_then (el_task_submit_eventfd (ls_loop s)) (\<lambda>value s1.
       bind_outcome (submit_loop assign code mem (unat value) s1) (\<lambda>s2.
         Done (s2\<lparr>ls_loop := (ls_loop s2)\<lparr>el_tasks_submitted := el_tasks_submitted (ls_loop s2) + value\<rparr>\<rparr>))) s"

subsection \<open>Completed tasks\<close>

definition handle_task_complete_event :: "nat \<Rightarrow> 'h loop_state \<Rightarrow> 'h loop_state outcome" where
  "handle_task_complete_event worker_id s =
     (if worker_id \<ge> length (p_workers (ls_pool s)) then Fault
      else read_then (wk_result_fd (p_workers (ls_pool s) ! worker_id)) (\<lambda>value s1.
        Done (s1\<lparr>ls_stats_tasks_completed := ((\<lambda>n. n + 1) ^^ unat value) (ls_stats_tasks_completed s1),
                 ls_loop := (ls_loop s1)\<lparr>el_tasks_completed := el_tasks_completed (ls_loop s1) + value\<rparr>\<rparr>)) s)"

subsection \<open>Worker status\<close>

record status_env =
  st_now :: u64
  st_slot :: slot_env
  st_mem :: bool
  st_ctl :: bool

definition restart_worker ::
  "shm_consts \<Rightarrow> status_env \<Rightarrow> nat \<Rightarrow> 'h loop_state \<Rightarrow> 'h loop_state outcome" where
  "restart_worker sc env i s =
     (let p = ls_pool s; se = st_slot env
      in bind_outcome (worker_stop (se_stop_ns se) (se_rounds se) 1000 (p_workers p ! i) (k_os (ls_kernel s)))
           (\<lambda>(e, w, os1).
         bind_outcome (worker_destroy (se_stop_ns se) (se_rounds se) w os1) (\<lambda>(w', os2).
         bind_outcome (worker_create (sc_magic sc) (sc_version sc) (sc_header sc) (se_create se)
             (worker_config_of (p_config p)) (of_nat i) ((p_workers p)[i := w']) os2) (\<lambda>(e2, ws, os3).
           if e2 \<noteq> POOL_SUCCESS then Done (put_os os3 (s\<lparr>ls_pool := p\<lparr>p_workers := ws\<rparr>\<rparr>))
           else case worker_start (se_pid se) (se_thread se) (ws ! i) os3 of (e3, w3, child, os4) \<Rightarrow>
             let s1 = put_os os4 (s\<lparr>ls_pool := p\<lparr>p_workers := ws[i := w3]\<rparr>\<rparr>)
             in if e3 \<noteq> POOL_SUCCESS then Done s1
                else case add_epoll_event (st_mem env) (st_ctl env) (el_epoll_fd (ls_loop s)) (wk_result_fd w3)
                            True EVENT_TYPE_TASK_COMPLETE (int i) (ls_kernel s1) of (r, k) \<Rightarrow>
                       Done (s1\<lparr>ls_kernel := k\<rparr>)))))"

definition handle_worker_status_event ::
  "shm_consts \<Rightarrow> status_env \<Rightarrow> nat \<Rightarrow> 'h loop_state \<Rightarrow> 'h loop_state outcome" where
  "handle_worker_status_event sc env i s =
     (if i \<ge> length (p_workers (ls_pool s)) then Fault
      else bind_outcome
        (if \<not> worker_is_alive (st_now env) (Some (p_workers (ls_pool s) ! i)) (os_procs (k_os (ls_kernel s)))
         then restart_worker sc env i s else Done s)
        (\<lambda>s1. Done (s1\<lparr>ls_loop := (ls_loop s1)\<lparr>el_worker_events := el_worker_events (ls_loop s1) + 1\<rparr>\<rparr>)))"

subsection \<open>The timer\<close>

record 'h loop_hooks =
  lh_update_pool_statistics :: "'h loop_state \<Rightarrow> 'h loop_state"
  lh_cleanup_expired_tasks :: "'h loop_state \<Rightarrow> 'h loop_state"
  lh_adjust_worker_count :: "'h loop_state \<Rightarrow> 'h loop_state"
  lh_dump_pool_statistics :: "'h loop_state \<Rightarrow> 'h loop_state"
  lh_toggle_debug_mode :: "'h loop_state \<Rightarrow> 'h loop_state"
  lh_force_garbage_collection :: "'h loop_state \<Rightarrow> 'h loop_state"
  lh_worker_state_running :: worker_state

text \<open>\<open>first\<close> is the clock of the health check, \<open>env\<close> the calls of the handler it may run.\<close>

fun health_check ::
  "shm_consts \<Rightarrow> worker_state \<Rightarrow> (nat \<Rightarrow> u64 \<times> status_env) \<Rightarrow> nat list \<Rightarrow> 'h loop_state
     \<Rightarrow> 'h loop_state outcome" where
  "health_check sc running env [] s = Done s"
| "health_check sc running env (i # is) s =
     (if i \<ge> length (p_workers (ls_pool s)) then Fault
      else let w = p_workers (ls_pool s) ! i
           in if wk_state w = running
                 \<and> \<not> worker_is_alive (fst (env i)) (Some w) (os_procs (k_os (ls_kernel s)))
              then bind_outcome (handle_worker_status_event sc (snd (env i)) i s) (health_check sc running env is)
              else health_check sc running env is s)"

definition handle_timer_event ::
  "shm_consts \<Rightarrow> 'h loop_hooks \<Rightarrow> (nat \<Rightarrow> u64 \<times> status_env) \<Rightarrow> u64 option \<Rightarrow> 'h loop_state
     \<Rightarrow> 'h loop_state outcome" where
  "handle_timer_event sc hooks env expirations s =
     (case expirations of None \<Rightarrow> Done s
      | Some n \<Rightarrow>
          bind_outcome (health_check sc (lh_worker_state_running hooks) env (all_slots (ls_pool s)) (lh_update_pool_statistics hooks s)) (\<lambda>s1.
            let s2 = lh_cleanup_expired_tasks hooks s1;
                s3 = (if pc_enable_auto_scaling (p_config (ls_pool s2)) then lh_adjust_worker_count hooks s2 else s2)
            in Done (s3\<lparr>ls_loop := (ls_loop s3)\<lparr>el_timer_events := el_timer_events (ls_loop s3) + n\<rparr>\<rparr>)))"

subsection \<open>Signals\<close>

datatype signal_info = SigChld int | SigTerm | SigInt | SigUsr1 | SigUsr2 | SigOther

text \<open>What the reads of the signal descriptor deliver: an entry, or a failed read. The descriptor is
  made without \<open>SFD_NONBLOCK\<close>, so after the last pending signal the read waits.\<close>

definition handle_signal ::
  "shm_consts \<Rightarrow> 'h loop_hooks \<Rightarrow> status_env \<Rightarrow> signal_info \<Rightarrow> 'h loop_state \<Rightarrow> 'h loop_state outcome" where
  "handle_signal sc hooks env si s =
     (case si of
        SigChld pid \<Rightarrow>
          if length (p_workers (ls_pool s)) < unat (pc_max_workers (p_config (ls_pool s))) then Fault else
          (case find (\<lambda>i. wk_pid (p_workers (ls_pool s) ! i) = pid) (all_slots (ls_pool s)) of
             Some i \<Rightarrow> handle_worker_status_event sc env i s
           | None \<Rightarrow> Done s)
      | SigTerm \<Rightarrow> Done (s\<lparr>ls_loop := (ls_loop s)\<lparr>el_running := False\<rparr>\<rparr>)
      | SigInt \<Rightarrow> Done (s\<lparr>ls_loop := (ls_loop s)\<lparr>el_running := False\<rparr>\<rparr>)
      | SigUsr1 \<Rightarrow> Done (lh_dump_pool_statistics hooks s)
      | SigUsr2 \<Rightarrow> Done (lh_toggle_debug_mode hooks s)
      | SigOther \<Rightarrow> Done s)"

fun handle_signal_event ::
  "shm_consts \<Rightarrow> 'h loop_hooks \<Rightarrow> (nat \<Rightarrow> status_env) \<Rightarrow> signal_info option list \<Rightarrow> 'h loop_state
     \<Rightarrow> 'h loop_state outcome" where
  "handle_signal_event sc hooks env [] s = Blocked"
| "handle_signal_event sc hooks env (None # reads) s = Done s"
| "handle_signal_event sc hooks env (Some si # reads) s =
     bind_outcome (handle_signal sc hooks (env (length reads)) si s) (handle_signal_event sc hooks env reads)"

subsection \<open>Control commands\<close>

definition handle_control_event :: "'h loop_hooks \<Rightarrow> 'h loop_state \<Rightarrow> 'h loop_state outcome" where
  "handle_control_event hooks s =
     read_then (el_control_eventfd (ls_loop s)) (\<lambda>command s1.
       if command = 1 then Done (s1\<lparr>ls_loop := (ls_loop s1)\<lparr>el_running := False\<rparr>\<rparr>)
       else if command = 2 then Done s1
       else if command = 3 then Done (lh_force_garbage_collection hooks s1)
       else Done s1) s"

subsection \<open>The loop\<close>

text \<open>What an event that \<open>epoll_wait\<close> reports brings with it: the calls its handler makes.\<close>

record 'h event_env =
  ee_assign :: "'h assign"
  ee_code :: "pool_error \<Rightarrow> 32 word"
  ee_mem :: "nat \<Rightarrow> bool"
  ee_status :: "nat \<Rightarrow> status_env"
  ee_clock :: "nat \<Rightarrow> u64"
  ee_expirations :: "u64 option"
  ee_signals :: "signal_info option list"

definition dispatch_event ::
  "shm_consts \<Rightarrow> 'h loop_hooks \<Rightarrow> 'h event_env \<Rightarrow> event_data \<Rightarrow> 'h loop_state \<Rightarrow> 'h loop_state outcome" where
  "dispatch_event sc hooks env ev s =
     bind_outcome
       (case ed_type ev of
          EVENT_TYPE_TASK_SUBMIT \<Rightarrow> handle_task_submit_event (ee_assign env) (ee_code env) (ee_mem env) s
        | EVENT_TYPE_TASK_COMPLETE \<Rightarrow> handle_task_complete_event (nat (ed_data ev)) s
        | EVENT_TYPE_WORKER_STATUS \<Rightarrow> handle_worker_status_event sc (ee_status env 0) (nat (ed_data ev)) s
        | EVENT_TYPE_TIMER \<Rightarrow>
            handle_timer_event sc hooks (\<lambda>i. (ee_clock env i, ee_status env i)) (ee_expirations env) s
        | EVENT_TYPE_SIGNAL \<Rightarrow> handle_signal_event sc hooks (ee_status env) (ee_signals env) s
        | EVENT_TYPE_CONTROL \<Rightarrow> handle_control_event hooks s)
       (\<lambda>s1. Done (s1\<lparr>ls_loop := (ls_loop s1)\<lparr>el_events_processed := el_events_processed (ls_loop s1) + 1\<rparr>\<rparr>))"

fun dispatch_events ::
  "shm_consts \<Rightarrow> 'h loop_hooks \<Rightarrow> (event_data option \<times> 'h event_env) list \<Rightarrow> 'h loop_state
     \<Rightarrow> 'h loop_state outcome" where
  "dispatch_events sc hooks [] s = Done s"
| "dispatch_events sc hooks ((None, env) # evs) s = dispatch_events sc hooks evs s"
| "dispatch_events sc hooks ((Some ev, env) # evs) s =
     bind_outcome (dispatch_event sc hooks env ev s) (dispatch_events sc hooks evs)"

datatype 'h wait_result = WaitIntr | WaitError | WaitReady "(event_data option \<times> 'h event_env) list"

text \<open>The results of \<open>epoll_wait\<close> are a list; at its end the loop goes on waiting.\<close>

fun event_loop_thread ::
  "shm_consts \<Rightarrow> 'h loop_hooks \<Rightarrow> 'h wait_result list \<Rightarrow> 'h loop_state \<Rightarrow> 'h loop_state outcome" where
  "event_loop_thread sc hooks [] s = (if \<not> el_running (ls_loop s) then Done s else Blocked)"
| "event_loop_thread sc hooks (r # rs) s =
     (if \<not> el_running (ls_loop s) then Done s
      else case r of
             WaitIntr \<Rightarrow> event_loop_thread sc hooks rs s
           | WaitError \<Rightarrow> Done s
           | WaitReady evs \<Rightarrow> bind_outcome (dispatch_events sc hooks evs s) (event_loop_thread sc hooks rs))"

definition event_loop_add_worker_events ::
  "bool \<Rightarrow> bool \<Rightarrow> u32 \<Rightarrow> 'h loop_state \<Rightarrow> (pool_error \<times> 'h loop_state) outcome" where
  "event_loop_add_worker_events mem ctl worker_id s =
     (if worker_id \<ge> pc_max_workers (p_config (ls_pool s)) then Done (POOL_ERROR_INVALID_PARAM, s)
      else if unat worker_id \<ge> length (p_workers (ls_pool s)) then Fault
      else case add_epoll_event mem ctl (el_epoll_fd (ls_loop s))
                  (wk_result_fd (p_workers (ls_pool s) ! unat worker_id)) True EVENT_TYPE_TASK_COMPLETE
                  (int (unat worker_id)) (ls_kernel s) of
             (r, k) \<Rightarrow> if r = - 1 then Done (POOL_ERROR_SYSTEM_CALL, s\<lparr>ls_kernel := k\<rparr>)
                      else Done (POOL_SUCCESS, s\<lparr>ls_kernel := k\<rparr>))"

definition event_loop_remove_worker_events ::
  "bool \<Rightarrow> u32 \<Rightarrow> 'h loop_state \<Rightarrow> (pool_error \<times> 'h loop_state) outcome" where
  "event_loop_remove_worker_events garbage_null worker_id s =
     (if worker_id \<ge> pc_max_workers (p_config (ls_pool s)) then Done (POOL_ERROR_INVALID_PARAM, s)
      else if unat worker_id \<ge> length (p_workers (ls_pool s)) then Fault
      else bind_outcome (remove_epoll_event garbage_null (el_epoll_fd (ls_loop s))
                  (wk_result_fd (p_workers (ls_pool s) ! unat worker_id)) (ls_kernel s))
             (\<lambda>k. Done (POOL_SUCCESS, s\<lparr>ls_kernel := k\<rparr>)))"

subsection \<open>Initialisation\<close>

definition fresh_fd :: "kernel \<Rightarrow> int \<Rightarrow> bool" where
  "fresh_fd k n \<longleftrightarrow> 0 \<le> n \<and> k_files k n = None \<and> os_efds (k_os k) n = None"

text \<open>The kernel hands out different unused descriptors.\<close>

definition loop_fds_fresh :: "loop_init_env \<Rightarrow> kernel \<Rightarrow> bool" where
  "loop_fds_fresh env k \<longleftrightarrow>
     list_all (\<lambda>fd. fd \<noteq> None \<longrightarrow> fresh_fd k (the fd)) [li_epoll env, li_submit env, li_control env, li_signal env, li_timer env]
   \<and> distinct (map the (filter (\<lambda>fd. fd \<noteq> None) [li_epoll env, li_submit env, li_control env, li_signal env, li_timer env]))"

definition same_descriptors :: "kernel \<Rightarrow> kernel \<Rightarrow> bool" where
  "same_descriptors k k' \<longleftrightarrow> k_files k' = k_files k \<and> k_os k' = k_os k"

definition loop_ready :: "loop_init_env \<Rightarrow> event_loop \<Rightarrow> kernel \<Rightarrow> bool" where
  "loop_ready env el k \<longleftrightarrow>
     [Some (el_epoll_fd el), Some (el_task_submit_eventfd el), Some (el_control_eventfd el), Some (el_signal_fd el),
      Some (el_timer_fd el)] = [li_epoll env, li_submit env, li_control env, li_signal env, li_timer env]
   \<and> (\<exists>evs. k_files k (el_epoll_fd el) = Some (EpollFile evs)
        \<and> map ed_fd evs = [el_task_submit_eventfd el, el_control_eventfd el, el_signal_fd el, el_timer_fd el]
        \<and> map ed_type evs = [EVENT_TYPE_TASK_SUBMIT, EVENT_TYPE_CONTROL, EVENT_TYPE_SIGNAL, EVENT_TYPE_TIMER])
   \<and> os_efds (k_os k) (el_task_submit_eventfd el) = Some new_efd
   \<and> os_efds (k_os k) (el_control_eventfd el) = Some new_efd
   \<and> k_files k (el_signal_fd el) = Some SignalFile \<and> k_files k (el_timer_fd el) = Some TimerFile
   \<and> \<not> el_running el"

lemmas loop_init_simps = open_file_def open_eventfd_def create_eventfd_eq setup_signal_fd_def setup_timer_fd_def
  close_fd_def close_field_def close_all_def zero_loop_def add_epoll_event_def epoll_add_def Let_def

text \<open>\<open>k'\<close> differs from \<open>k\<close> on the descriptors of \<open>S\<close> only, and those are closed in \<open>k\<close>.\<close>

definition differs_on :: "int set \<Rightarrow> kernel \<Rightarrow> kernel \<Rightarrow> bool" where
  "differs_on S k k' \<longleftrightarrow> (\<forall>n. n \<notin> S \<longrightarrow> k_files k' n = k_files k n \<and> os_efds (k_os k') n = os_efds (k_os k) n)
     \<and> (\<forall>n \<in> S. fresh_fd k n) \<and> os_shm (k_os k') = os_shm (k_os k) \<and> os_procs (k_os k') = os_procs (k_os k)"

lemma differs_on_refl: "differs_on {} k k"
  by (simp add: differs_on_def)

lemma differs_on_empty: "differs_on {} k k' \<Longrightarrow> same_descriptors k k'"
  unfolding differs_on_def same_descriptors_def
  by (cases "k_os k'"; cases "k_os k") (auto simp: fun_eq_iff)

lemma close_fd_differs: "differs_on S k k' \<Longrightarrow> n \<in> S \<Longrightarrow> differs_on (S - {n}) k (close_fd n k')"
  by (auto simp: differs_on_def close_fd_def fresh_fd_def)

lemma close_field_differs: "differs_on S k k' \<Longrightarrow> n \<in> S \<Longrightarrow> differs_on (S - {n}) k (close_field n k')"
  using close_fd_differs [of S k k' n] by (auto simp: close_field_def differs_on_def fresh_fd_def)

lemma open_file_stage:
  assumes "open_file fd f k1 = (n, k2)" "n \<noteq> - 1" "fd \<noteq> None \<longrightarrow> fresh_fd k (the fd)" "differs_on S k k1"
  shows "fd = Some n \<and> differs_on (insert n S) k k2 \<and> k_files k2 = (k_files k1)(n \<mapsto> f)
    \<and> k_os k2 = k_os k1 \<and> k_blocks k2 = k_blocks k1"
  using assms by (auto simp: open_file_def differs_on_def split: option.splits)

lemma open_file_fails:
  "open_file fd f k1 = (- 1, k2) \<Longrightarrow> fd \<noteq> None \<longrightarrow> fresh_fd k (the fd) \<Longrightarrow> k2 = k1"
  by (auto simp: open_file_def fresh_fd_def split: option.splits)

lemma open_eventfd_stage:
  assumes "open_eventfd fd k1 = (n, k2)" "n \<noteq> - 1" "fd \<noteq> None \<longrightarrow> fresh_fd k (the fd)" "differs_on S k k1"
  shows "fd = Some n \<and> differs_on (insert n S) k k2 \<and> os_efds (k_os k2) = (os_efds (k_os k1))(n \<mapsto> new_efd)
    \<and> k_files k2 = k_files k1 \<and> k_blocks k2 = k_blocks k1"
  using assms by (auto simp: open_eventfd_def create_eventfd_eq differs_on_def split: option.splits)

lemma open_eventfd_fails:
  "open_eventfd fd k1 = (- 1, k2) \<Longrightarrow> fd \<noteq> None \<longrightarrow> fresh_fd k (the fd) \<Longrightarrow> k2 = k1"
  by (auto simp: open_eventfd_def create_eventfd_eq fresh_fd_def split: option.splits)

lemma setup_signal_fd_stage:
  assumes "setup_signal_fd ok fd k1 = (n, k2)" "fd \<noteq> None \<longrightarrow> fresh_fd k (the fd)" "differs_on S k k1"
  shows "if n = - 1 then k2 = k1 else fd = Some n \<and> differs_on (insert n S) k k2
    \<and> k_files k2 = (k_files k1)(n \<mapsto> SignalFile) \<and> k_os k2 = k_os k1 \<and> k_blocks k2 = k_blocks k1"
  using assms open_file_stage [of fd SignalFile k1 n k2 k S] open_file_fails [of fd SignalFile k1 k2 k]
  by (auto simp: setup_signal_fd_def split: if_splits)

lemma setup_timer_fd_stage:
  assumes r: "setup_timer_fd fd ok k1 = (n, k2)" and f: "fd \<noteq> None \<longrightarrow> fresh_fd k (the fd) \<and> the fd \<notin> S"
    and d: "differs_on S k k1"
  shows "if n = - 1 then differs_on S k k2 else fd = Some n \<and> differs_on (insert n S) k k2
    \<and> k_files k2 = (k_files k1)(n \<mapsto> TimerFile) \<and> k_os k2 = k_os k1 \<and> k_blocks k2 = k_blocks k1"
proof (cases fd)
  case (Some m)
  then have m: "fresh_fd k m" "m \<notin> S" "m \<noteq> - 1" using f by (auto simp: fresh_fd_def)
  obtain k3 where k3: "open_file (Some m) TimerFile k1 = (m, k3)" by (simp add: open_file_def)
  from open_file_stage [OF k3 m(3) _ d] m(1) have "differs_on (insert m S) k k3" by simp
  then have "differs_on S k (close_fd m k3)" using close_fd_differs [of "insert m S" k k3 m] m(2) by simp
  then show ?thesis
    using r Some m open_file_stage [OF k3 m(3) _ d] k3 by (auto simp: setup_timer_fd_def split: if_splits)
qed (use r d in \<open>auto simp: setup_timer_fd_def open_file_def\<close>)

lemma add_epoll_event_stage:
  assumes "add_epoll_event mem ctl ep fd edge type data k1 = (r, k2)" "differs_on S k k1" "ep \<in> S"
    "k_files k1 ep = Some (EpollFile evs)"
  shows "differs_on S k k2 \<and> k_os k2 = k_os k1 \<and> (\<forall>n. n \<noteq> ep \<longrightarrow> k_files k2 n = k_files k1 n)
    \<and> (r \<noteq> - 1 \<longrightarrow> k_blocks k2 = k_blocks k1 + 1
       \<and> k_files k2 ep = Some (EpollFile (evs @ [\<lparr>ed_type = type, ed_fd = fd, ed_data = data, ed_edge = edge\<rparr>])))
    \<and> (r = - 1 \<longrightarrow> k2 = k1)"
  using assms by (auto simp: add_epoll_event_def epoll_add_def Let_def differs_on_def split: if_splits)

lemma close_all_differs:
  assumes "differs_on S k k1" "S = {el_epoll_fd el, el_task_submit_eventfd el, el_control_eventfd el, el_signal_fd el,
      el_timer_fd el}"
    "distinct [el_epoll_fd el, el_task_submit_eventfd el, el_control_eventfd el, el_signal_fd el, el_timer_fd el]"
  shows "same_descriptors k (snd (close_all (el, k1)))"
proof -
  have "differs_on (S - {el_epoll_fd el} - {el_task_submit_eventfd el} - {el_control_eventfd el} - {el_signal_fd el}
      - {el_timer_fd el}) k (close_field (el_timer_fd el) (close_field (el_signal_fd el)
        (close_field (el_control_eventfd el) (close_field (el_task_submit_eventfd el) (close_field (el_epoll_fd el) k1)))))"
    using assms by (intro close_field_differs) auto
  moreover have "S - {el_epoll_fd el} - {el_task_submit_eventfd el} - {el_control_eventfd el} - {el_signal_fd el}
      - {el_timer_fd el} = {}" using assms(2) by auto
  ultimately show ?thesis by (simp add: close_all_def differs_on_empty)
qed

lemma register_events_outcome:
  assumes d: "differs_on S k k5" and S: "S = {el_epoll_fd el, el_task_submit_eventfd el, el_control_eventfd el,
      el_signal_fd el, el_timer_fd el}"
    and dist: "distinct [el_epoll_fd el, el_task_submit_eventfd el, el_control_eventfd el, el_signal_fd el, el_timer_fd el]"
    and ep: "k_files k5 (el_epoll_fd el) = Some (EpollFile [])"
    and r: "register_events env el k5 = (e, (el', k'), saved)"
  shows "(e = POOL_SUCCESS \<and> el' = el \<and> saved = Some (el_task_submit_eventfd el, el_control_eventfd el)
          \<and> k_blocks k' = k_blocks k5 + 4 \<and> k_os k' = k_os k5
          \<and> (\<forall>n. n \<noteq> el_epoll_fd el \<longrightarrow> k_files k' n = k_files k5 n)
          \<and> k_files k' (el_epoll_fd el) = Some (EpollFile
              [\<lparr>ed_type = EVENT_TYPE_TASK_SUBMIT, ed_fd = el_task_submit_eventfd el, ed_data = 0, ed_edge = True\<rparr>,
               \<lparr>ed_type = EVENT_TYPE_CONTROL, ed_fd = el_control_eventfd el, ed_data = 0, ed_edge = True\<rparr>,
               \<lparr>ed_type = EVENT_TYPE_SIGNAL, ed_fd = el_signal_fd el, ed_data = 0, ed_edge = False\<rparr>,
               \<lparr>ed_type = EVENT_TYPE_TIMER, ed_fd = el_timer_fd el, ed_data = 0, ed_edge = False\<rparr>]))
    \<or> (e = POOL_ERROR_SYSTEM_CALL \<and> same_descriptors k k' \<and> saved = None)"
proof -
  have epS: "el_epoll_fd el \<in> S" using S by simp
  have fail: "same_descriptors k k'" if "differs_on S k ki" "close_all (el, ki) = (el', k')" for ki
    using close_all_differs [OF that(1) S dist] that(2) by simp
  let ?add = "\<lambda>i fd edge type k. add_epoll_event (fst (li_add env i)) (snd (li_add env i)) (el_epoll_fd el) fd edge type 0 k"
  obtain r1 k1 where a1: "?add 0 (el_task_submit_eventfd el) True EVENT_TYPE_TASK_SUBMIT k5 = (r1, k1)" by fastforce
  obtain r2 k2 where a2: "?add 1 (el_control_eventfd el) True EVENT_TYPE_CONTROL k1 = (r2, k2)" by fastforce
  obtain r3 k3 where a3: "?add 2 (el_signal_fd el) False EVENT_TYPE_SIGNAL k2 = (r3, k3)" by fastforce
  obtain r4 k4 where a4: "?add 3 (el_timer_fd el) False EVENT_TYPE_TIMER k3 = (r4, k4)" by fastforce
  note R = r [unfolded register_events_def Let_def a1 a2 a3 a4 prod.case]
  note s1 = add_epoll_event_stage [OF a1 d epS ep]
  then have D1: "differs_on S k k1" by blast
  show ?thesis
  proof (cases "r1 = - 1")
    case True
    then show ?thesis using R fail [OF D1] by simp
  next
    case n1: False
    with s1 have k1: "k_files k1 (el_epoll_fd el) = Some (EpollFile [\<lparr>ed_type = EVENT_TYPE_TASK_SUBMIT,
        ed_fd = el_task_submit_eventfd el, ed_data = 0, ed_edge = True\<rparr>])" by simp
    note s2 = add_epoll_event_stage [OF a2 D1 epS k1]
    then have D2: "differs_on S k k2" by blast
    show ?thesis
    proof (cases "r2 = - 1")
      case True
      then show ?thesis using R n1 fail [OF D2] by simp
    next
      case n2: False
      with s2 have k2: "k_files k2 (el_epoll_fd el) = Some (EpollFile ([\<lparr>ed_type = EVENT_TYPE_TASK_SUBMIT,
          ed_fd = el_task_submit_eventfd el, ed_data = 0, ed_edge = True\<rparr>] @ [\<lparr>ed_type = EVENT_TYPE_CONTROL,
          ed_fd = el_control_eventfd el, ed_data = 0, ed_edge = True\<rparr>]))" by blast
      note s3 = add_epoll_event_stage [OF a3 D2 epS k2]
      then have D3: "differs_on S k k3" by blast
      show ?thesis
      proof (cases "r3 = - 1")
        case True
        then show ?thesis using R n1 n2 fail [OF D3] by simp
      next
        case n3: False
        note s4 = add_epoll_event_stage [OF a4 D3 epS s3 [THEN conjunct2, THEN conjunct2, THEN conjunct2, THEN conjunct1,
            rule_format, OF n3, THEN conjunct2]]
        then have D4: "differs_on S k k4" by blast
        show ?thesis
          by (cases "r4 = - 1") (use R n1 n2 n3 s1 s2 s3 s4 fail [OF D4] in auto)
      qed
    qed
  qed
qed

text \<open>The clean-up of each stage, and the state with the five descriptors open.\<close>

lemma close_opened:
  "differs_on {ep} k k' \<Longrightarrow> same_descriptors k (close_fd ep k')"
  "differs_on {ts, ep} k k' \<Longrightarrow> ts \<noteq> ep \<Longrightarrow> same_descriptors k (close_fd ep (close_fd ts k'))"
  "differs_on {ct, ts, ep} k k' \<Longrightarrow> distinct [ep, ts, ct]
     \<Longrightarrow> same_descriptors k (close_fd ep (close_fd ts (close_fd ct k')))"
proof -
  show one: "same_descriptors k (close_fd ep k')" if "differs_on {ep} k k'" for k'
    using close_fd_differs [OF that, of ep] by (auto intro: differs_on_empty)
  show two: "same_descriptors k (close_fd ep (close_fd ts k'))" if "differs_on {ts, ep} k k'" "ts \<noteq> ep" for k'
    using close_fd_differs [OF that(1), of ts] that(2) by (intro one) (simp add: insert_Diff_if)
  show "same_descriptors k (close_fd ep (close_fd ts (close_fd ct k')))"
    if "differs_on {ct, ts, ep} k k'" "distinct [ep, ts, ct]"
    using close_fd_differs [OF that(1), of ct] that(2) by (intro two) (simp_all add: insert_Diff_if)
qed

definition loop_opened :: "loop_init_env \<Rightarrow> kernel \<Rightarrow> int list \<Rightarrow> kernel \<Rightarrow> bool" where
  "loop_opened env k fds k5 \<longleftrightarrow> (case fds of [ep, ts, ct, sg, tm] \<Rightarrow>
       [Some ep, Some ts, Some ct, Some sg, Some tm]
         = [li_epoll env, li_submit env, li_control env, li_signal env, li_timer env]
       \<and> differs_on (set fds) k k5 \<and> distinct fds \<and> k_files k5 ep = Some (EpollFile [])
       \<and> os_efds (k_os k5) ts = Some new_efd \<and> os_efds (k_os k5) ct = Some new_efd
       \<and> k_files k5 sg = Some SignalFile \<and> k_files k5 tm = Some TimerFile \<and> k_blocks k5 = k_blocks k
     | _ \<Rightarrow> False)"

lemma opened_registers:
  assumes o: "loop_opened env k [ep, ts, ct, sg, tm] k5"
    and r: "register_events env (zero_loop\<lparr>el_pool := True, el_epoll_fd := ep, el_task_submit_eventfd := ts,
        el_control_eventfd := ct, el_signal_fd := sg, el_timer_fd := tm\<rparr>) k5 = (e, (el', k'), saved)"
  shows "(e = POOL_SUCCESS \<and> loop_ready env el' k' \<and> saved = Some (el_task_submit_eventfd el', el_control_eventfd el')
          \<and> k_blocks k' = k_blocks k + 4)
    \<or> (e = POOL_ERROR_SYSTEM_CALL \<and> same_descriptors k k' \<and> saved = None)"
proof -
  obtain el5 where el5: "el5 = zero_loop\<lparr>el_pool := True, el_epoll_fd := ep, el_task_submit_eventfd := ts,
      el_control_eventfd := ct, el_signal_fd := sg, el_timer_fd := tm\<rparr>" by blast
  have sel: "el_epoll_fd el5 = ep" "el_task_submit_eventfd el5 = ts" "el_control_eventfd el5 = ct"
    "el_signal_fd el5 = sg" "el_timer_fd el5 = tm" "\<not> el_running el5"
    by (simp_all add: el5 zero_loop_def)
  note O = o [unfolded loop_opened_def list.case]
  have d: "differs_on {ep, ts, ct, sg, tm} k k5" and dist: "distinct [ep, ts, ct, sg, tm]"
    and ep: "k_files k5 ep = Some (EpollFile [])" using O by (simp_all only: list.set)
  from register_events_outcome [of _ k k5 el5, OF _ refl _ _ r [folded el5], unfolded sel, OF d dist ep]
  show ?thesis using O sel by (auto simp: loop_ready_def)
qed

lemma init_last_stages:
  assumes d3: "differs_on {ct, ts, ep} k k3" and dist: "distinct [ep, ts, ct]"
    and env: "li_epoll env = Some ep" "li_submit env = Some ts" "li_control env = Some ct"
    and k3: "k_files k3 ep = Some (EpollFile [])" "os_efds (k_os k3) ts = Some new_efd"
      "os_efds (k_os k3) ct = Some new_efd" "k_blocks k3 = k_blocks k"
    and fresh: "loop_fds_fresh env k"
    and s4: "setup_signal_fd (li_mask env) (li_signal env) k3 = (sg, k4)"
    and s5: "setup_timer_fd (li_timer env) (li_settime env) k4 = (tm, k5)"
  shows "sg = - 1 \<Longrightarrow> same_descriptors k (close_fd ep (close_fd ts (close_fd ct k4)))"
    and "sg \<noteq> - 1 \<Longrightarrow> tm = - 1 \<Longrightarrow> same_descriptors k (close_fd ep (close_fd ts (close_fd ct (close_fd sg k5))))"
    and "sg \<noteq> - 1 \<Longrightarrow> tm \<noteq> - 1 \<Longrightarrow> loop_opened env k [ep, ts, ct, sg, tm] k5"
proof -
  have F: "li_signal env \<noteq> None \<longrightarrow> fresh_fd k (the (li_signal env))"
    using fresh by (auto simp: loop_fds_fresh_def)
  note o4 = setup_signal_fd_stage [OF s4 F d3]
  show "same_descriptors k (close_fd ep (close_fd ts (close_fd ct k4)))" if "sg = - 1"
    using o4 that close_opened(3) [OF d3 dist] by simp
  assume n4: "sg \<noteq> - 1"
  then have e4: "sg \<noteq> ep" "sg \<noteq> ts" "sg \<noteq> ct" using fresh env o4 by (auto simp: loop_fds_fresh_def)
  have f5: "li_timer env \<noteq> None \<longrightarrow> fresh_fd k (the (li_timer env)) \<and> the (li_timer env) \<notin> {sg, ct, ts, ep}"
    using fresh env o4 n4 by (auto simp: loop_fds_fresh_def)
  have d4: "differs_on {sg, ct, ts, ep} k k4" using o4 n4 by simp
  note o5 = setup_timer_fd_stage [OF s5 f5 d4]
  show "same_descriptors k (close_fd ep (close_fd ts (close_fd ct (close_fd sg k5))))" if "tm = - 1"
  proof (rule close_opened(3) [OF _ dist])
    have "{sg, ct, ts, ep} - {sg} = {ct, ts, ep}" using e4 by auto
    then show "differs_on {ct, ts, ep} k (close_fd sg k5)"
      using close_fd_differs [of "{sg, ct, ts, ep}" k k5 sg] o5 that by simp
  qed
  assume n5: "tm \<noteq> - 1"
  then have e5: "tm \<notin> {sg, ct, ts, ep}" and t: "li_timer env = Some tm" using f5 o5 by auto
  have d5: "differs_on {ep, ts, ct, sg, tm} k k5" using o5 n5 by (simp add: insert_commute)
  show "loop_opened env k [ep, ts, ct, sg, tm] k5"
    unfolding loop_opened_def list.case using d5 o4 o5 n4 n5 e4 e5 dist env k3 t by auto
qed

text \<open>C21. Initialisation is all or nothing for the descriptors: either the five descriptors are open, the
  four of them that matter are registered and the loop does not run yet, or the call fails and every
  descriptor it had opened is closed again, whatever call failed.\<close>

theorem event_loop_init_all_or_nothing:
  assumes fresh: "loop_fds_fresh env k" and r: "event_loop_init env True (el, k) = (e, (el', k'), saved)"
  shows "(e = POOL_SUCCESS \<and> loop_ready env el' k' \<and> saved = Some (el_task_submit_eventfd el', el_control_eventfd el')
          \<and> k_blocks k' = k_blocks k + 4)
    \<or> (e = POOL_ERROR_SYSTEM_CALL \<and> same_descriptors k k' \<and> saved = None)"
proof -
  have F: "li_epoll env \<noteq> None \<longrightarrow> fresh_fd k (the (li_epoll env))"
    "li_submit env \<noteq> None \<longrightarrow> fresh_fd k (the (li_submit env))"
    "li_control env \<noteq> None \<longrightarrow> fresh_fd k (the (li_control env))"
    using fresh by (auto simp: loop_fds_fresh_def)
  obtain ep k1 where s1: "open_file (li_epoll env) (EpollFile []) k = (ep, k1)" by fastforce
  obtain ts k2 where s2: "open_eventfd (li_submit env) k1 = (ts, k2)" by fastforce
  obtain ct k3 where s3: "open_eventfd (li_control env) k2 = (ct, k3)" by fastforce
  obtain sg k4 where s4: "setup_signal_fd (li_mask env) (li_signal env) k3 = (sg, k4)" by fastforce
  obtain tm k5 where s5: "setup_timer_fd (li_timer env) (li_settime env) k4 = (tm, k5)" by fastforce
  note R = r [unfolded event_loop_init_def Let_def s1 s2 s3 s4 s5 prod.case]
  show ?thesis
  proof (cases "ep = - 1")
    case True
    then show ?thesis using R open_file_fails [OF _ F(1)] s1 by (auto simp: same_descriptors_def)
  next
    case n1: False
    note o1 = open_file_stage [OF s1 n1 F(1) differs_on_refl]
    then have d1: "differs_on {ep} k k1" by simp
    show ?thesis
    proof (cases "ts = - 1")
      case True
      then have "k2 = k1" using open_eventfd_fails [OF _ F(2)] s2 by simp
      then show ?thesis using R n1 True close_opened(1) [OF d1] by auto
    next
      case n2: False
      note o2 = open_eventfd_stage [OF s2 n2 F(2) d1]
      then have d2: "differs_on {ts, ep} k k2" by simp
      have e2: "ts \<noteq> ep" using fresh o1 o2 by (auto simp: loop_fds_fresh_def)
      show ?thesis
      proof (cases "ct = - 1")
        case True
        then have "k3 = k2" using open_eventfd_fails [OF _ F(3)] s3 by simp
        then show ?thesis using R n1 n2 True close_opened(2) [OF d2 e2] by auto
      next
        case n3: False
        note o3 = open_eventfd_stage [OF s3 n3 F(3) d2]
        then have d3: "differs_on {ct, ts, ep} k k3" by simp
        have dist: "distinct [ep, ts, ct]" using fresh o1 o2 o3 e2 by (auto simp: loop_fds_fresh_def)
        have envs: "li_epoll env = Some ep" "li_submit env = Some ts" "li_control env = Some ct"
          using o1 o2 o3 by simp_all
        have k3: "k_files k3 ep = Some (EpollFile [])" "os_efds (k_os k3) ts = Some new_efd"
          "os_efds (k_os k3) ct = Some new_efd" "k_blocks k3 = k_blocks k"
          using o1 o2 o3 dist by simp_all
        note last = init_last_stages [OF d3 dist envs k3 fresh s4 s5]
        show ?thesis
        proof (cases "sg = - 1 \<or> tm = - 1")
          case True
          then show ?thesis using R n1 n2 n3 last(1,2) by (auto split: if_splits)
        next
          case False
          then show ?thesis using R n1 n2 n3 opened_registers [OF last(3)] by (simp add: zero_loop_def)
        qed
      qed
    qed
  qed
qed

theorem event_loop_init_all_or_nothing_witness:
  "\<exists>el' k'. event_loop_init \<lparr>li_epoll = Some 3, li_submit = Some 4, li_control = Some 5, li_mask = True,
       li_signal = Some 6, li_timer = Some 7, li_settime = False, li_add = \<lambda>_. (True, True)\<rparr> True
       (zero_loop, \<lparr>k_os = idle_os, k_files = \<lambda>_. None, k_blocks = 0\<rparr>) = (POOL_ERROR_SYSTEM_CALL, (el', k'), None)
     \<and> same_descriptors \<lparr>k_os = idle_os, k_files = \<lambda>_. None, k_blocks = 0\<rparr> k'"
proof -
  let ?env = "\<lparr>li_epoll = Some 3, li_submit = Some 4, li_control = Some 5, li_mask = True,
       li_signal = Some 6, li_timer = Some 7, li_settime = False, li_add = \<lambda>_. (True, True)\<rparr>"
  let ?k = "\<lparr>k_os = idle_os, k_files = \<lambda>_. None, k_blocks = 0\<rparr>"
  have f: "loop_fds_fresh ?env ?k" by (simp add: loop_fds_fresh_def fresh_fd_def idle_os_def)
  obtain e el' k' saved where r: "event_loop_init ?env True (zero_loop, ?k) = (e, (el', k'), saved)"
    by (metis prod.exhaust)
  have "fst (event_loop_init ?env True (zero_loop, ?k)) = POOL_ERROR_SYSTEM_CALL"
    by (simp add: event_loop_init_def Let_def open_file_def open_eventfd_def create_eventfd_eq setup_signal_fd_def
        setup_timer_fd_def)
  then have "e = POOL_ERROR_SYSTEM_CALL" using r by simp
  with event_loop_init_all_or_nothing [OF f r] r show ?thesis by auto
qed

subsection \<open>Clean-up\<close>

text \<open>The clean-up ends by clearing the structure, descriptors included, so a second clean-up (or one
  before any initialisation) takes descriptor 0 for the loop's and closes the standard input.\<close>

theorem second_cleanup_closes_stdin:
  assumes "event_loop_cleanup exits s = Done (el, k)"
  shows "\<exists>k'. event_loop_cleanup exits' (el, k) = Done (zero_loop, k') \<and> k_files k' 0 = None
    \<and> (\<forall>n. n \<noteq> 0 \<longrightarrow> k_files k' n = k_files k n)"
proof -
  have "el = zero_loop" using assms by (auto simp: event_loop_cleanup_def close_all_def split: prod.splits)
  then show ?thesis
    by (simp add: event_loop_cleanup_def close_all_def close_field_def close_fd_def zero_loop_def)
qed

theorem second_cleanup_closes_stdin_witness:
  "\<exists>k k'. event_loop_cleanup True (zero_loop\<lparr>el_epoll_fd := 3, el_task_submit_eventfd := 4, el_control_eventfd := 5,
       el_signal_fd := 6, el_timer_fd := 7\<rparr>, \<lparr>k_os = idle_os, k_files = [0 \<mapsto> StandardFile, 3 \<mapsto> EpollFile []], k_blocks = 0\<rparr>)
       = Done (zero_loop, k)
     \<and> k_files k 0 = Some StandardFile \<and> event_loop_cleanup True (zero_loop, k) = Done (zero_loop, k') \<and> k_files k' 0 = None"
proof -
  let ?s = "(zero_loop\<lparr>el_epoll_fd := 3, el_task_submit_eventfd := 4, el_control_eventfd := 5,
       el_signal_fd := 6, el_timer_fd := 7\<rparr>, \<lparr>k_os = idle_os, k_files = [0 \<mapsto> StandardFile, 3 \<mapsto> EpollFile []], k_blocks = 0\<rparr>)"
  obtain k where k: "event_loop_cleanup True ?s = Done (zero_loop, k)" "k_files k 0 = Some StandardFile"
    by (simp add: event_loop_cleanup_def close_all_def close_field_def close_fd_def zero_loop_def)
  from second_cleanup_closes_stdin [OF k(1), of True] k show ?thesis by auto
qed

subsection \<open>Control commands\<close>

lemma read_then_ok:
  assumes "ls_efds s fd = Some e" "e_count e \<noteq> 0" "\<not> e_semaphore e"
  shows "read_then fd body s = body (e_count e) (put_efds ((ls_efds s)(fd \<mapsto> e\<lparr>e_count := 0\<rparr>)) s)"
  using assms by (simp add: read_then_def sys_read_def)

lemma write_command:
  assumes "t fd = Some e" "unat (e_count e) + unat v \<le> 2 ^ 64 - 2" "v \<noteq> - 1"
  shows "sys_write fd v t = Done (SysOk (), t(fd \<mapsto> e\<lparr>e_count := e_count e + v\<rparr>))"
  using assms by (simp add: sys_write_def)

lemma put_efds_simps [simp]:
  "ls_efds (put_efds t s) = t" "ls_loop (put_efds t s) = ls_loop s" "ls_pool (put_efds t s) = ls_pool s"
  "ls_tasks (put_efds t s) = ls_tasks s" "put_efds t (put_efds t' s) = put_efds t s"
  by (simp_all add: put_efds_def ls_efds_def)

text \<open>One stop command ends the loop: when the control descriptor is empty, the next turn in which it is
  reported leaves the loop with \<open>running\<close> false, whatever follows.\<close>

theorem stop_command_ends_loop:
  assumes "ls_efds s (el_control_eventfd (ls_loop s)) = Some new_efd"
    and "ed_type ev = EVENT_TYPE_CONTROL" "el_running (ls_loop s)"
    and w: "sys_write (el_control_eventfd (ls_loop s)) 1 (ls_efds s) = Done (r, t)"
  shows "\<exists>s'. event_loop_thread sc hooks (WaitReady [(Some ev, env)] # rs) (put_efds t s) = Done s'
    \<and> \<not> el_running (ls_loop s') \<and> el_events_processed (ls_loop s') = el_events_processed (ls_loop s) + 1"
proof -
  have t: "t = (ls_efds s)(el_control_eventfd (ls_loop s) \<mapsto> new_efd\<lparr>e_count := 1\<rparr>)"
    using w assms(1) by (simp add: sys_write_def new_efd_def)
  have stop: "event_loop_thread sc hooks rs' s' = Done s'" if "\<not> el_running (ls_loop s')" for rs' s'
    using that by (cases rs') simp_all
  show ?thesis
    using assms(2,3) by (simp add: dispatch_event_def handle_control_event_def read_then_def sys_read_def t new_efd_def stop)
qed

definition quiet_state :: "nat lfq \<Rightarrow> u64 \<Rightarrow> nat tm \<Rightarrow> nat loop_state" where
  "quiet_state q n tm = \<lparr>ls_loop = zero_loop\<lparr>el_epoll_fd := 3, el_task_submit_eventfd := 4, el_control_eventfd := 5,
       el_signal_fd := 6, el_timer_fd := 7, el_running := True\<rparr>,
     ls_pool = one_pool\<lparr>p_queue := Some q\<rparr>,
     ls_kernel = \<lparr>k_os = idle_os\<lparr>os_efds := [4 \<mapsto> new_efd\<lparr>e_count := n\<rparr>, 5 \<mapsto> new_efd]\<rparr>,
       k_files = [3 \<mapsto> EpollFile [], 6 \<mapsto> SignalFile, 7 \<mapsto> TimerFile], k_blocks = 0\<rparr>,
     ls_tasks = tm, ls_stats_tasks_completed = 0\<rparr>"

lemma quiet_state_simps [simp]:
  "el_control_eventfd (ls_loop (quiet_state q n tm)) = 5" "el_task_submit_eventfd (ls_loop (quiet_state q n tm)) = 4"
  "el_running (ls_loop (quiet_state q n tm))" "p_queue (ls_pool (quiet_state q n tm)) = Some q"
  "ls_tasks (quiet_state q n tm) = tm"
  "ls_efds (quiet_state q n tm) = [4 \<mapsto> new_efd\<lparr>e_count := n\<rparr>, 5 \<mapsto> new_efd]"
  by (simp_all add: quiet_state_def ls_efds_def)

theorem stop_command_ends_loop_witness:
  "\<forall>(q :: nat lfq) tm sc hooks env. \<exists>t s'. sys_write 5 1 (ls_efds (quiet_state q 0 tm)) = Done (SysOk (), t)
     \<and> event_loop_thread sc hooks [WaitReady [(Some \<lparr>ed_type = EVENT_TYPE_CONTROL, ed_fd = 5, ed_data = 0,
         ed_edge = True\<rparr>, env)]] (put_efds t (quiet_state q 0 tm)) = Done s' \<and> \<not> el_running (ls_loop s')"
proof (intro allI)
  fix q :: "nat lfq" and tm :: "nat tm" and sc and hooks and env
  let ?s = "quiet_state q 0 tm"
  obtain t where t: "sys_write 5 1 (ls_efds ?s) = Done (SysOk (), t)" by (simp add: sys_write_def new_efd_def)
  have "\<exists>s'. event_loop_thread sc hooks [WaitReady [(Some \<lparr>ed_type = EVENT_TYPE_CONTROL, ed_fd = 5, ed_data = 0,
         ed_edge = True\<rparr>, env)]] (put_efds t ?s) = Done s' \<and> \<not> el_running (ls_loop s')
       \<and> el_events_processed (ls_loop s') = el_events_processed (ls_loop ?s) + 1"
    by (rule stop_command_ends_loop) (use t in \<open>simp_all add: new_efd_def\<close>)
  with t show "\<exists>t s'. sys_write 5 1 (ls_efds ?s) = Done (SysOk (), t)
     \<and> event_loop_thread sc hooks [WaitReady [(Some \<lparr>ed_type = EVENT_TYPE_CONTROL, ed_fd = 5, ed_data = 0,
         ed_edge = True\<rparr>, env)]] (put_efds t ?s) = Done s' \<and> \<not> el_running (ls_loop s')" by blast
qed

text \<open>Commands are added up in the counter of the event descriptor: two stop commands written before
  the loop reads them are the command 2, reload, and the loop runs on; a stop and a reload are the
  command 3, a collection.\<close>

theorem stop_commands_merge:
  assumes "ls_efds s (el_control_eventfd (ls_loop s)) = Some new_efd"
    and w1: "sys_write (el_control_eventfd (ls_loop s)) 1 (ls_efds s) = Done (r1, t1)"
    and w2: "sys_write (el_control_eventfd (ls_loop s)) 1 t1 = Done (r2, t2)"
  shows "\<exists>s'. handle_control_event hooks (put_efds t2 s) = Done s' \<and> ls_loop s' = ls_loop s"
proof -
  have "t1 = (ls_efds s)(el_control_eventfd (ls_loop s) \<mapsto> new_efd\<lparr>e_count := 1\<rparr>)"
    using w1 assms(1) by (simp add: sys_write_def new_efd_def)
  then have "t2 = (ls_efds s)(el_control_eventfd (ls_loop s) \<mapsto> new_efd\<lparr>e_count := 2\<rparr>)"
    using w2 by (simp add: sys_write_def new_efd_def)
  then show ?thesis
    by (simp add: handle_control_event_def read_then_def sys_read_def new_efd_def)
qed

theorem stop_commands_merge_witness:
  "\<forall>(q :: nat lfq) tm hooks. \<exists>t1 t2 s'. sys_write 5 1 (ls_efds (quiet_state q 0 tm)) = Done (SysOk (), t1)
     \<and> sys_write 5 1 t1 = Done (SysOk (), t2)
     \<and> handle_control_event hooks (put_efds t2 (quiet_state q 0 tm)) = Done s' \<and> el_running (ls_loop s')"
proof (intro allI)
  fix q :: "nat lfq" and tm :: "nat tm" and hooks
  let ?s = "quiet_state q 0 tm"
  obtain t1 t2 where t: "sys_write 5 1 (ls_efds ?s) = Done (SysOk (), t1)" "sys_write 5 1 t1 = Done (SysOk (), t2)"
    by (simp add: sys_write_def new_efd_def)
  with stop_commands_merge [of ?s "SysOk ()" t1 "SysOk ()" t2 hooks]
  show "\<exists>t1 t2 s'. sys_write 5 1 (ls_efds ?s) = Done (SysOk (), t1) \<and> sys_write 5 1 t1 = Done (SysOk (), t2)
     \<and> handle_control_event hooks (put_efds t2 ?s) = Done s' \<and> el_running (ls_loop s')" by auto
qed

subsection \<open>Signals\<close>

lemma signals_hang: "None \<notin> set reads \<Longrightarrow> handle_signal_event sc hooks env reads s \<noteq> Done s'"
  by (induction sc hooks env reads s rule: handle_signal_event.induct) auto

text \<open>The signal descriptor blocks: once the pending signals are handled, a termination signal
  included, the handler waits in its next read and the loop's thread does not come back.\<close>

theorem signal_event_hangs_loop:
  assumes "el_running (ls_loop s)" "ed_type ev = EVENT_TYPE_SIGNAL" "None \<notin> set (ee_signals env)"
  shows "event_loop_thread sc hooks (WaitReady ((Some ev, env) # evs) # rs) s \<noteq> Done s'"
  using assms(1,2) by (auto simp: dispatch_event_def signals_hang [OF assms(3)])

theorem signal_event_hangs_loop_witness:
  "\<forall>(q :: nat lfq) tm sc hooks env s'.
     event_loop_thread sc hooks [WaitReady [(Some \<lparr>ed_type = EVENT_TYPE_SIGNAL, ed_fd = 6, ed_data = 0,
       ed_edge = False\<rparr>, env\<lparr>ee_signals := [Some SigTerm]\<rparr>)]] (quiet_state q 0 tm) \<noteq> Done s'"
  by (intro allI, rule signal_event_hangs_loop) simp_all

text \<open>A worker that has exited is still a process until it is waited for, so as long as its last
  heartbeat is fresh the notice of its exit changes nothing but a counter.\<close>

theorem sigchld_fresh_zombie_ignored:
  assumes len: "length (p_workers (ls_pool s)) = unat (pc_max_workers (p_config (ls_pool s)))"
    and i: "i < length (p_workers (ls_pool s))" "wk_pid (p_workers (ls_pool s) ! i) = pid" "0 < pid"
    and only: "\<forall>j<i. wk_pid (p_workers (ls_pool s) ! j) \<noteq> pid"
    and z: "os_procs (k_os (ls_kernel s)) pid = Zombie"
    and fresh: "st_now env - wk_heartbeat (p_workers (ls_pool s) ! i) < heartbeat_timeout_ns"
  shows "handle_signal sc hooks env (SigChld pid) s
    = Done (s\<lparr>ls_loop := (ls_loop s)\<lparr>el_worker_events := el_worker_events (ls_loop s) + 1\<rparr>\<rparr>)"
proof -
  have "find (\<lambda>j. wk_pid (p_workers (ls_pool s) ! j) = pid) (all_slots (ls_pool s)) = Some i"
    unfolding find_Some_iff all_slots_def using i only len by (intro exI [of _ i]) simp
  then show ?thesis
    using i z fresh len by (simp add: handle_signal_def handle_worker_status_event_def worker_is_alive_def)
qed

subsection \<open>Submitted tasks\<close>

text \<open>What the handler needs of \<open>assign_task_to_worker\<close>: its verdict depends on the task alone and it
  leaves the queue, the tasks and the loop alone.\<close>

definition assign_respects :: "'h assign \<Rightarrow> (nat \<Rightarrow> pool_error) \<Rightarrow> bool" where
  "assign_respects assign verdict \<longleftrightarrow> (\<forall>a s. fst (assign a s) = verdict a
     \<and> p_queue (ls_pool (snd (assign a s))) = p_queue (ls_pool s) \<and> ls_tasks (snd (assign a s)) = ls_tasks s
     \<and> ls_loop (snd (assign a s)) = ls_loop s)"

definition failed_with :: "'h tm \<Rightarrow> nat \<Rightarrow> 32 word \<Rightarrow> bool" where
  "failed_with tm a c \<longleftrightarrow> (\<exists>t. tm_heap tm a = Some t \<and> t_state t = TASK_STATE_FAILED \<and> r_error_code (t_result t) = c)"

text \<open>\<open>handled\<close>: the tasks of \<open>as\<close> that were refused have failed with their codes; the others are
  untouched, and no task appears or disappears.\<close>

definition handled :: "(nat \<Rightarrow> pool_error) \<Rightarrow> (pool_error \<Rightarrow> 32 word) \<Rightarrow> nat list \<Rightarrow> 'h tm \<Rightarrow> 'h tm \<Rightarrow> bool" where
  "handled verdict code as tm tm' \<longleftrightarrow> dom (tm_heap tm') = dom (tm_heap tm)
     \<and> (\<forall>a \<in> set as. verdict a \<noteq> POOL_SUCCESS \<longrightarrow> failed_with tm' a (code (verdict a)))
     \<and> (\<forall>a. a \<notin> set as \<or> verdict a = POOL_SUCCESS \<longrightarrow> tm_heap tm' a = tm_heap tm a)"

lemma handled_Nil: "handled verdict code [] tm tm"
  by (simp add: handled_def)

lemma handled_snoc:
  assumes "handled verdict code as tm tm1" "dom (tm_heap tm2) = dom (tm_heap tm1)"
    "verdict a \<noteq> POOL_SUCCESS \<longrightarrow> failed_with tm2 a (code (verdict a))"
    "\<forall>b. b \<noteq> a \<or> verdict a = POOL_SUCCESS \<longrightarrow> tm_heap tm2 b = tm_heap tm1 b"
  shows "handled verdict code (as @ [a]) tm tm2"
  unfolding handled_def
proof (intro conjI ballI allI impI)
  show "dom (tm_heap tm2) = dom (tm_heap tm)" using assms(1,2) by (simp add: handled_def)
  fix b assume b: "b \<in> set (as @ [a])" "verdict b \<noteq> POOL_SUCCESS"
  show "failed_with tm2 b (code (verdict b))"
    using b assms by (cases "b = a") (auto simp: handled_def failed_with_def)
next
  fix b assume "b \<notin> set (as @ [a]) \<or> verdict b = POOL_SUCCESS"
  then show "tm_heap tm2 b = tm_heap tm b" using assms by (cases "b = a") (auto simp: handled_def)
qed

lemma fail_task_outcome:
  assumes "tm_heap (ls_tasks s) a \<noteq> None"
  shows "\<exists>tm. fail_task mem c a s = Done (s\<lparr>ls_tasks := tm\<rparr>) \<and> failed_with tm a c
    \<and> dom (tm_heap tm) = dom (tm_heap (ls_tasks s)) \<and> (\<forall>b. b \<noteq> a \<longrightarrow> tm_heap tm b = tm_heap (ls_tasks s) b)"
proof -
  obtain x where x: "tm_heap (ls_tasks s) a = Some x" using assms by auto
  let ?copy = "if mem then Some ''Failed to assign to worker'' else None"
  let ?t = "x\<lparr>t_result := (t_result x)\<lparr>r_error_message := ?copy, r_error_code := c\<rparr>\<rparr>"
  let ?tm = "put_task a (?t\<lparr>t_state := TASK_STATE_FAILED, t_broadcasts := t_broadcasts x + 1\<rparr>)
    (add_blocks (owned ?copy - owned (r_error_message (t_result x))) (put_task a ?t (ls_tasks s)))"
  have "fail_task mem c a s = Done (s\<lparr>ls_tasks := ?tm\<rparr>)"
    by (simp add: fail_task_def task_set_error_def x Let_def)
  then show ?thesis using x by (intro exI [of _ ?tm]) (auto simp: failed_with_def)
qed

lemma submit_one_empty:
  "p_queue (ls_pool s) = Some q \<Longrightarrow> lf_wf q \<Longrightarrow> lf_contents q = [] \<Longrightarrow> submit_one assign code mem s = Done s"
  by (cases s) (auto simp: submit_one_def lf_dequeue_empty)

lemma submit_one_task:
  assumes q: "p_queue (ls_pool s) = Some q" "lf_wf q" "lf_contents q = a # rest"
    and r: "assign_respects assign verdict" and live: "tm_heap (ls_tasks s) a \<noteq> None"
  shows "\<exists>s' q'. submit_one assign code mem s = Done s' \<and> p_queue (ls_pool s') = Some q' \<and> lf_wf q'
    \<and> lf_contents q' = rest \<and> ls_loop s' = ls_loop s \<and> dom (tm_heap (ls_tasks s')) = dom (tm_heap (ls_tasks s))
    \<and> (verdict a \<noteq> POOL_SUCCESS \<longrightarrow> failed_with (ls_tasks s') a (code (verdict a)))
    \<and> (\<forall>b. b \<noteq> a \<or> verdict a = POOL_SUCCESS \<longrightarrow> tm_heap (ls_tasks s') b = tm_heap (ls_tasks s) b)"
proof -
  obtain q' where q': "lf_dequeue q = (Some a, q')" "lf_wf q'" "lf_contents q' = rest"
    using lf_dequeue_nonempty [OF q(2,3)] by blast
  let ?s = "s\<lparr>ls_pool := (ls_pool s)\<lparr>p_queue := Some q'\<rparr>\<rparr>"
  obtain v s1 where s1: "assign a ?s = (v, s1)" by fastforce
  have f: "v = verdict a" "p_queue (ls_pool s1) = Some q'" "ls_tasks s1 = ls_tasks s" "ls_loop s1 = ls_loop s"
    using r [unfolded assign_respects_def, rule_format, of a ?s] s1 by simp_all
  have one: "submit_one assign code mem s = (if v \<noteq> POOL_SUCCESS then fail_task mem (code v) a s1 else Done s1)"
    by (simp add: submit_one_def q(1) q'(1) s1)
  show ?thesis
  proof (cases "v = POOL_SUCCESS")
    case True
    then show ?thesis using one f q' by (intro exI [of _ s1] exI [of _ q']) simp
  next
    case False
    obtain tm where "fail_task mem (code v) a s1 = Done (s1\<lparr>ls_tasks := tm\<rparr>)" "failed_with tm a (code v)"
      "dom (tm_heap tm) = dom (tm_heap (ls_tasks s))" "\<forall>b. b \<noteq> a \<longrightarrow> tm_heap tm b = tm_heap (ls_tasks s) b"
      using fail_task_outcome [of s1 a mem "code v"] live f by auto
    then show ?thesis using one f q' False by (intro exI [of _ "s1\<lparr>ls_tasks := tm\<rparr>"] exI [of _ q']) simp
  qed
qed

lemma submit_loop_drains:
  assumes r: "assign_respects assign verdict"
  shows "p_queue (ls_pool s) = Some q \<Longrightarrow> lf_wf q \<Longrightarrow> set (lf_contents q) \<subseteq> dom (tm_heap (ls_tasks s))
    \<Longrightarrow> handled verdict code as tm (ls_tasks s)
    \<Longrightarrow> \<exists>s' q'. submit_loop assign code mem n s = Done s' \<and> p_queue (ls_pool s') = Some q' \<and> lf_wf q'
      \<and> lf_contents q' = drop n (lf_contents q) \<and> ls_loop s' = ls_loop s
      \<and> handled verdict code (as @ take n (lf_contents q)) tm (ls_tasks s')"
proof (induction n arbitrary: s q "as")
  case (Suc n)
  show ?case
  proof (cases "lf_contents q")
    case Nil
    then show ?thesis using Suc.IH [OF Suc.prems] submit_one_empty [OF Suc.prems(1,2)] by simp
  next
    case (Cons a rest)
    obtain s1 q1 where s1: "submit_one assign code (mem n) s = Done s1" "p_queue (ls_pool s1) = Some q1" "lf_wf q1"
      "lf_contents q1 = rest" "ls_loop s1 = ls_loop s" "dom (tm_heap (ls_tasks s1)) = dom (tm_heap (ls_tasks s))"
      and h: "verdict a \<noteq> POOL_SUCCESS \<longrightarrow> failed_with (ls_tasks s1) a (code (verdict a))"
      "\<forall>b. b \<noteq> a \<or> verdict a = POOL_SUCCESS \<longrightarrow> tm_heap (ls_tasks s1) b = tm_heap (ls_tasks s) b"
      using submit_one_task [OF Suc.prems(1,2) Cons r, of code "mem n"] Suc.prems(3) Cons by auto
    have "handled verdict code (as @ [a]) tm (ls_tasks s1)"
      by (rule handled_snoc [OF Suc.prems(4) s1(6) h])
    then show ?thesis
      using Suc.IH [OF s1(2,3), of "as @ [a]"] Suc.prems(3) s1 Cons by auto
  qed
qed (auto simp: handled_def)


definition two_tasks :: "nat lfq" where
  "two_tasks = \<lparr>lf_head = 0, lf_tail = 2, lf_capacity = 4, lf_mask = 3, lf_tasks = [Some 64, Some 65, None, None]\<rparr>"

lemma two_tasks_simps: "lf_wf two_tasks" "lf_contents two_tasks = [64, 65]"
proof -
  have s: "lf_slots two_tasks = [Some 64, Some 65]" by code_simp
  show "lf_wf two_tasks" by (rule lf_wfI [of 2]) (simp_all add: s, simp_all add: two_tasks_def)
  show "lf_contents two_tasks = [64, 65]" by (simp add: lf_contents_def s)
qed


end
