(* ===== verification/Train_Transfer.thy ===== *)
theory Train_Transfer
  imports Pool_Prelude "HOL-Library.Signed_Division"
begin

text \<open>
  The file transfer of the teaching thread pool: \<open>transFile\<close> of
  \<^verbatim>\<open>wd_ThreadPool/server/transFile.c\<close> (version 4.0, the one that is compiled) and \<open>recvn\<close> and
  \<open>recvFile\<close> of \<^verbatim>\<open>wd_ThreadPool/client/client.c\<close>. A file travels in trains: a four-byte length
  followed by at most 1000 bytes. The outcomes of \<open>read\<close>, \<open>send\<close>, \<open>recv\<close> and \<open>write\<close> are lists; an
  exhausted list is a call that has not returned yet. The client's progress counters are
  64-bit \<open>off_t\<close> values of at most the bytes received, so they are integers.
\<close>

subsection \<open>Trains\<close>

record train =
  tr_length :: u32
  tr_data :: "u8 list"

definition TRAIN_DATA :: nat where "TRAIN_DATA = 1000"

text \<open>\<open>memcpy\<close> or \<open>read\<close> into the start of an array.\<close>

definition overwrite :: "u8 list \<Rightarrow> u8 list \<Rightarrow> u8 list" where
  "overwrite bs xs = bs @ drop (length bs) xs"

text \<open>The bytes of \<open>send(netfd, &train, sizeof(train.length) + train.length, MSG_NOSIGNAL)\<close>: the sum of a
  \<open>size_t\<close> and an \<open>int\<close> has 64 bits, so the length -1 asks for three bytes.\<close>

definition train_wire :: "train \<Rightarrow> u8 list" where
  "train_wire t = take (unat (4 + scast (tr_length t) :: u64)) (enc32 (tr_length t) @ tr_data t)"

text \<open>The socket takes at most \<open>acc\<close> bytes of a \<open>send\<close> (none when it fails); the code ignores the
  result.\<close>

definition send_bytes :: "nat \<Rightarrow> u8 list \<Rightarrow> u8 list \<Rightarrow> u8 list" where
  "send_bytes acc bs out = out @ take acc bs"

definition load_train :: "u8 list \<Rightarrow> train \<Rightarrow> train" where
  "load_train bs t = \<lparr>tr_length = of_nat (length bs), tr_data = overwrite bs (tr_data t)\<rparr>"

text \<open>An \<open>off_t\<close> in memory, little endian.\<close>

definition enc64 :: "u64 \<Rightarrow> u8 list" where
  "enc64 w = enc32 (ucast w) @ enc32 (ucast (drop_bit 32 w))"

definition dec64 :: "u8 list \<Rightarrow> u64" where
  "dec64 bs = ucast (dec32 (take 4 bs)) OR push_bit 32 (ucast (dec32 (take 4 (drop 4 bs))))"

subsection \<open>The server\<close>

text \<open>One round: the outcome of \<open>read\<close> (\<open>None\<close>: -1) and what the socket takes of the train. The result
  tells whether the loop has ended after these rounds, and the bytes sent.\<close>

fun send_rounds :: "(u8 list option \<times> nat) list \<Rightarrow> train \<Rightarrow> u8 list \<Rightarrow> bool \<times> u8 list" where
  "send_rounds [] t out = (False, out)"
| "send_rounds ((r, acc) # rs) t out =
     (let t1 = (case r of None \<Rightarrow> t\<lparr>tr_length := - 1\<rparr> | Some bs \<Rightarrow> load_train bs t);
          out1 = send_bytes acc (train_wire t1) out
      in if r = Some [] then (True, out1) else send_rounds rs t1 out1)"

text \<open>\<open>tf_stack\<close>: the train on the stack before it is filled. \<open>tf_size\<close>: \<open>st_size\<close> after \<open>fstat\<close>,
  indeterminate when \<open>open\<close> failed (\<open>tf_open\<close> is \<open>None\<close>).\<close>

record trans_env =
  tf_stack :: "u8 list"
  tf_open :: "int option"
  tf_size :: u64
  tf_name_acc :: nat
  tf_size_acc :: nat

definition file1 :: "u8 list" where "file1 = [102, 105, 108, 101, 49]"

text \<open>Whether the call has returned, the bytes sent and the descriptors open: nothing closes the file.\<close>

definition transFile ::
  "trans_env \<Rightarrow> (u8 list option \<times> nat) list \<Rightarrow> int set \<Rightarrow> bool \<times> u8 list \<times> int set" where
  "transFile env rounds fds =
     (let t0 = \<lparr>tr_length = 0, tr_data = tf_stack env\<rparr>;
          t1 = load_train file1 t0;
          out1 = send_bytes (tf_name_acc env) (train_wire t1) [];
          fds1 = (case tf_open env of None \<Rightarrow> fds | Some fd \<Rightarrow> insert fd fds);
          t2 = load_train (enc64 (tf_size env)) t1;
          out2 = send_bytes (tf_size_acc env) (train_wire t2) out1
      in case send_rounds rounds t2 out2 of (ended, out) \<Rightarrow> (ended, out, fds1))"

subsection \<open>The client\<close>

text \<open>A connection: the bytes the server's side has sent or will send, and the outcomes of the next
  calls of \<open>recv\<close>: \<open>Some k\<close> hands over at most \<open>k\<close> bytes, none at all when there are no more;
  \<open>None\<close> is -1.\<close>

type_synonym conn = "u8 list \<times> nat option list"

text \<open>\<open>total += sret\<close> also when \<open>sret\<close> is -1. Bytes outside the buffer are a fault.\<close>

fun recv_loop ::
  "nat option list \<Rightarrow> int \<Rightarrow> int \<Rightarrow> u8 list \<Rightarrow> u8 list \<Rightarrow> (u8 list \<times> conn) outcome" where
  "recv_loop ks len got buf inp =
     (if \<not> got < len then Done (buf, inp, ks)
      else case ks of [] \<Rightarrow> Blocked
        | None # ks' \<Rightarrow> recv_loop ks' len (got - 1) buf inp
        | Some k # ks' \<Rightarrow>
            (let bs = take (min k (nat (len - got))) inp
             in if bs = [] then recv_loop ks' len got buf inp
                else if got < 0 \<or> got + int (length bs) > int (length buf) then Fault
                else recv_loop ks' len (got + int (length bs))
                       (take (nat got) buf @ bs @ drop (nat got + length bs) buf)
                       (drop (length bs) inp)))"

declare recv_loop.simps [simp del]

definition recvn :: "int \<Rightarrow> u8 list \<Rightarrow> conn \<Rightarrow> (u8 list \<times> conn) outcome" where
  "recvn len buf c = recv_loop (snd c) len 0 buf (fst c)"

definition recv_header :: "train \<Rightarrow> conn \<Rightarrow> (train \<times> conn) outcome" where
  "recv_header t c =
     bind_outcome (recvn 4 (enc32 (tr_length t)) c) (\<lambda>(buf, c'). Done (t\<lparr>tr_length := dec32 buf\<rparr>, c'))"

definition recv_data :: "train \<Rightarrow> conn \<Rightarrow> (train \<times> conn) outcome" where
  "recv_data t c =
     bind_outcome (recvn (sint (tr_length t)) (tr_data t) c) (\<lambda>(buf, c'). Done (t\<lparr>tr_data := buf\<rparr>, c'))"

record progress =
  pg_current :: int
  pg_last :: int
  pg_shown :: "int list"
  pg_slept :: nat

text \<open>After each header: a second of sleep, the bytes counted and perhaps a line of progress.\<close>

definition count_train :: "int \<Rightarrow> u32 \<Rightarrow> progress \<Rightarrow> progress" where
  "count_train step len p =
     (let cur = pg_current p + sint len;
          p1 = p\<lparr>pg_current := cur, pg_slept := pg_slept p + 1\<rparr>
      in if cur - pg_last p > step then p1\<lparr>pg_shown := pg_shown p @ [cur], pg_last := cur\<rparr> else p1)"

text \<open>\<open>ws\<close>: how many bytes each \<open>write\<close> takes. A negative length makes \<open>write\<close> read past the array.\<close>

fun recv_rounds ::
  "nat list \<Rightarrow> int \<Rightarrow> train \<Rightarrow> conn \<Rightarrow> progress \<Rightarrow> u8 list \<Rightarrow> (progress \<times> u8 list \<times> conn) outcome" where
  "recv_rounds ws step t c p file =
     bind_outcome (recv_header t c) (\<lambda>(t1, c1).
       let p1 = count_train step (tr_length t1) p
       in if tr_length t1 = 0 then Done (p1, file, c1)
          else bind_outcome (recv_data t1 c1) (\<lambda>(t2, c2).
            if sint (tr_length t2) < 0 then Fault
            else case ws of [] \<Rightarrow> Blocked
              | w # ws' \<Rightarrow> recv_rounds ws' step t2 c2 p1
                            (file @ take w (take (nat (sint (tr_length t2))) (tr_data t2)))))"

declare recv_rounds.simps [simp del]

text \<open>\<open>rf_size\<close>: the indeterminate bytes of \<open>filesize\<close>.\<close>

record recv_env =
  rf_stack :: "u8 list"
  rf_size :: "u8 list"
  rf_writes :: "nat list"

record received =
  rc_name :: "u8 list"
  rc_size :: int
  rc_file :: "u8 list"
  rc_progress :: progress

text \<open>\<open>memcpy\<close> of a train's contents to an array of \<open>n\<close> bytes.\<close>

definition unload :: "nat \<Rightarrow> train \<Rightarrow> u8 list \<Rightarrow> u8 list outcome" where
  "unload n t dst =
     (if sint (tr_length t) < 0 \<or> sint (tr_length t) > int n then Fault
      else Done (overwrite (take (nat (sint (tr_length t))) (tr_data t)) dst))"

definition recvFile :: "recv_env \<Rightarrow> conn \<Rightarrow> (received \<times> conn) outcome" where
  "recvFile env c0 =
     (let t0 = \<lparr>tr_length = 0, tr_data = rf_stack env\<rparr>
      in bind_outcome (recv_header t0 c0) (\<lambda>(t1, c1).
         bind_outcome (recv_data t1 c1) (\<lambda>(t2, c2).
         bind_outcome (unload 4096 t2 (replicate 4096 0)) (\<lambda>filename.
         bind_outcome (recv_header t2 c2) (\<lambda>(t3, c3).
         bind_outcome (recv_data t3 c3) (\<lambda>(t4, c4).
         bind_outcome (unload 8 t4 (rf_size env)) (\<lambda>size_bytes.
           let filesize = sint (dec64 size_bytes)
           in bind_outcome (recv_rounds (rf_writes env) (filesize sdiv 10000) t4 c4
                 \<lparr>pg_current = 0, pg_last = 0, pg_shown = [], pg_slept = 0\<rparr> []) (\<lambda>(p, file, c5).
              Done (\<lparr>rc_name = takeWhile (\<lambda>b. b \<noteq> 0) filename, rc_size = filesize, rc_file = file,
                     rc_progress = p\<rparr>, c5)))))))))"

subsection \<open>Receiving exactly what was asked for\<close>

lemma recv_loop_simps:
  "len \<le> got \<Longrightarrow> recv_loop ks len got buf inp = Done (buf, inp, ks)"
  "got < len \<Longrightarrow> recv_loop [] len got buf inp = Blocked"
  "got < len \<Longrightarrow> recv_loop (None # ks) len got buf inp = recv_loop ks len (got - 1) buf inp"
  "got < len \<Longrightarrow> recv_loop (Some k # ks) len got buf inp
     = (let bs = take (min k (nat (len - got))) inp
        in if bs = [] then recv_loop ks len got buf inp
           else if got < 0 \<or> got + int (length bs) > int (length buf) then Fault
           else recv_loop ks len (got + int (length bs))
                  (take (nat got) buf @ bs @ drop (nat got + length bs) buf) (drop (length bs) inp))"
  by (subst recv_loop.simps, simp)+

text \<open>With \<open>m\<close> bytes to go and \<open>pre\<close> received: the bytes that \<open>recv\<close> hands over are appended.\<close>

lemma recv_loop_take:
  assumes "0 < m" "m \<le> length post" "bs = take (min k m) inp" "bs \<noteq> []"
  shows "recv_loop (Some k # ks) (int (length pre + m)) (int (length pre)) (pre @ post) inp
    = recv_loop ks (int (length (pre @ bs) + (m - length bs))) (int (length (pre @ bs)))
        ((pre @ bs) @ drop (length bs) post) (drop (length bs) inp)"
proof -
  have l: "length bs \<le> m" using assms(3) by simp
  have n: "nat (int (length pre + m) - int (length pre)) = m" by simp
  have "\<not> (int (length pre) < 0 \<or> int (length pre) + int (length bs) > int (length (pre @ post)))"
    using l assms(2) by simp
  moreover have "int (length pre) < int (length pre + m)" using assms(1) by simp
  ultimately have "recv_loop (Some k # ks) (int (length pre + m)) (int (length pre)) (pre @ post) inp
    = recv_loop ks (int (length pre + m)) (int (length pre) + int (length bs))
       (take (nat (int (length pre))) (pre @ post) @ bs @ drop (nat (int (length pre)) + length bs) (pre @ post))
       (drop (length bs) inp)"
    using assms(4) by (simp only: recv_loop_simps(4) n Let_def assms(3) [symmetric] if_False)
  then show ?thesis using l by simp
qed

lemma recv_loop_nothing:
  assumes "0 < m" "take (min k m) inp = []"
  shows "recv_loop (Some k # ks) (int (length pre + m)) (int (length pre)) buf inp
    = recv_loop ks (int (length pre + m)) (int (length pre)) buf inp"
  using assms by (simp add: recv_loop_simps(4))

lemma take_split:
  assumes "bs = take (min k m) inp"
  shows "bs @ take (m - length bs) (drop (length bs) inp) = take m inp"
    and "drop (m - length bs) (drop (length bs) inp) = drop m inp"
proof -
  have l: "length bs \<le> m" "bs = take (length bs) inp" using assms by (simp_all add: min_def)
  then show "bs @ take (m - length bs) (drop (length bs) inp) = take m inp"
    using take_add [of "length bs" "m - length bs" inp] by simp
  show "drop (m - length bs) (drop (length bs) inp) = drop m inp" using l(1) by simp
qed

lemma recv_loop_outcome:
  assumes "None \<notin> set ks" "m \<le> length post"
  shows "recv_loop ks (int (length pre + m)) (int (length pre)) (pre @ post) inp = Blocked
    \<or> (\<exists>ks'. recv_loop ks (int (length pre + m)) (int (length pre)) (pre @ post) inp
          = Done (pre @ take m inp @ drop m post, drop m inp, ks')
        \<and> m \<le> length inp \<and> set ks' \<subseteq> set ks)"
  using assms
proof (induction ks arbitrary: pre m post inp)
  case Nil
  then show ?case by (cases "m = 0") (simp_all add: recv_loop_simps)
next
  case (Cons r ks)
  then obtain k where k: "r = Some k" by (cases r) auto
  show ?case
  proof (cases "m = 0")
    case True
    then show ?thesis by (auto simp: recv_loop_simps)
  next
    case False
    then have m: "0 < m" by simp
    obtain bs where bs: "bs = take (min k m) inp" by blast
    show ?thesis
    proof (cases "bs = []")
      case True
      have nn: "None \<notin> set ks" using Cons.prems(1) by simp
      have none: "take (min k m) inp = []" using True bs by simp
      from Cons.IH [OF nn Cons.prems(2), of pre inp] show ?thesis
        unfolding k recv_loop_nothing [OF m none] by auto
    next
      case ne: False
      have l: "length bs \<le> length inp" "m - length bs \<le> length (drop (length bs) post)"
        using bs Cons.prems(2) by simp_all
      have nn: "None \<notin> set ks" using Cons.prems(1) by simp
      have d: "drop (m - length bs) (drop (length bs) post) = drop m post" using bs by simp
      from Cons.IH [OF nn l(2), of "pre @ bs" "drop (length bs) inp"]
      show ?thesis
        unfolding k recv_loop_take [OF m Cons.prems(2) bs ne] d take_split(2) [OF bs] append_assoc
        unfolding append_assoc [of pre bs, symmetric] take_split(1) [OF bs, symmetric]
        using l(1) by auto
    qed
  qed
qed

text \<open>Outcomes of \<open>recv\<close> without errors and without end of file.\<close>

definition steady :: "nat option list \<Rightarrow> bool" where
  "steady ks \<longleftrightarrow> None \<notin> set ks \<and> Some 0 \<notin> set ks"

lemma recv_loop_enough:
  assumes "steady ks" "m \<le> length post" "m \<le> length inp" "m \<le> length ks"
  shows "\<exists>ks'. recv_loop ks (int (length pre + m)) (int (length pre)) (pre @ post) inp
          = Done (pre @ take m inp @ drop m post, drop m inp, ks')
        \<and> steady ks' \<and> length ks \<le> length ks' + m"
  using assms
proof (induction ks arbitrary: pre m post inp)
  case Nil
  then show ?case by (simp add: recv_loop_simps)
next
  case (Cons r ks)
  from Cons.prems(1) obtain k where k: "r = Some k" "0 < k" "steady ks" by (cases r) (auto simp: steady_def)
  show ?case
  proof (cases "m = 0")
    case True
    then show ?thesis using Cons.prems(1) by (simp add: recv_loop_simps)
  next
    case False
    then have m: "0 < m" by simp
    obtain bs where bs: "bs = take (min k m) inp" by blast
    have l: "0 < length bs" "length bs \<le> m" "length bs \<le> length inp"
      using bs Cons.prems(3) k(2) m by simp_all
    then have ne: "bs \<noteq> []" by auto
    have s: "m - length bs \<le> length (drop (length bs) post)" "m - length bs \<le> length (drop (length bs) inp)"
      using Cons.prems(2,3) by (simp_all add: diff_le_mono)
    have s3: "m - length bs \<le> length ks" using l(1) Cons.prems(4) unfolding list.size by linarith
    obtain ks' res where R: "recv_loop ks (int (length (pre @ bs) + (m - length bs))) (int (length (pre @ bs)))
        ((pre @ bs) @ drop (length bs) post) (drop (length bs) inp) = Done (res, ks')"
      "res = (pre @ bs) @ take (m - length bs) (drop (length bs) inp) @ drop (m - length bs) (drop (length bs) post)"
      "fst ks' = drop (m - length bs) (drop (length bs) inp)"
      "steady (snd ks')" "length ks \<le> length (snd ks') + (m - length bs)"
      using Cons.IH [OF k(3) s s3, of "pre @ bs"] by auto
    have "drop (m - length bs) (drop (length bs) post) = drop m post" using l(2) by simp
    moreover have "length (Some k # ks) \<le> length (snd ks') + m"
      using R(5) l(1,2) unfolding list.size by linarith
    ultimately show ?thesis
      unfolding k(1) recv_loop_take [OF m Cons.prems(2) bs ne]
      using R take_split [OF bs] by (intro exI [of _ "snd ks'"]) (simp add: prod_eq_iff)
  qed
qed

lemma sint_small: "n < 2 ^ 31 \<Longrightarrow> sint (of_nat n :: u32) = int n"
  by (simp add: signed_of_nat signed_take_bit_int_eq_self)

lemma scast_small: "n < 2 ^ 31 \<Longrightarrow> unat (4 + scast (of_nat n :: u32) :: u64) = 4 + n"
proof -
  assume n: "n < 2 ^ 31"
  then have "(scast (of_nat n :: u32) :: u64) = of_nat n"
    by (simp add: signed_of_nat signed_take_bit_int_eq_self)
  then have "(4 + scast (of_nat n :: u32) :: u64) = of_nat (4 + n)" by simp
  then show ?thesis using n by (simp only: unat_of_nat) simp
qed

lemma dec_enc64: "dec64 (enc64 w) = w"
proof -
  have "dec64 (enc64 w) = ucast (ucast w :: u32) OR push_bit 32 (ucast (ucast (drop_bit 32 w) :: u32))"
    by (simp add: dec64_def enc64_def dec_enc32)
  also have "\<dots> = w"
  proof (rule bit_word_eqI)
    fix i assume "i < LENGTH(64)"
    then show "bit (ucast (ucast w :: u32) OR push_bit 32 (ucast (ucast (drop_bit 32 w) :: u32)) :: u64) i = bit w i"
      by (cases "i < 32") (auto simp: bit_simps)
  qed
  finally show ?thesis .
qed

lemma length_enc64 [simp]: "length (enc64 w) = 8"
  by (simp add: enc64_def)

subsection \<open>A train from the server to the client\<close>

text \<open>What a train with the contents \<open>bs\<close> is on the wire.\<close>

definition wagon :: "u8 list \<Rightarrow> u8 list" where
  "wagon bs = enc32 (of_nat (length bs)) @ bs"

lemma length_wagon [simp]: "length (wagon bs) = 4 + length bs"
  by (simp add: wagon_def)

lemma load_train_sel [simp]:
  "tr_length (load_train bs t) = of_nat (length bs)" "tr_data (load_train bs t) = overwrite bs (tr_data t)"
  by (simp_all add: load_train_def)

lemma length_overwrite: "length bs \<le> length xs \<Longrightarrow> length (overwrite bs xs) = length xs"
  by (simp add: overwrite_def)

lemma train_wire_load:
  assumes "length bs \<le> 1000"
  shows "train_wire (load_train bs t) = wagon bs"
proof -
  have "length bs < 2 ^ 31" using assms by simp
  then show ?thesis by (simp add: train_wire_def scast_small wagon_def overwrite_def)
qed

text \<open>A connection whose calls of \<open>recv\<close> suffice, however they slice the bytes.\<close>

definition supplied :: "conn \<Rightarrow> bool" where
  "supplied c \<longleftrightarrow> steady (snd c) \<and> length (fst c) \<le> length (snd c)"

lemma recvn_enough:
  assumes "supplied c" "fst c = bs @ rest" "length bs \<le> length buf"
  shows "\<exists>c'. recvn (int (length bs)) buf c = Done (overwrite bs buf, c') \<and> fst c' = rest \<and> supplied c'"
proof -
  have "length bs \<le> length (snd c)" using assms(1,2) by (simp add: supplied_def)
  then obtain ks' where "recv_loop (snd c) (int (length bs)) 0 buf (bs @ rest) = Done (overwrite bs buf, rest, ks')"
    "steady ks'" "length (snd c) \<le> length ks' + length bs"
    using recv_loop_enough [of "snd c" "length bs" buf "bs @ rest" "[]"] assms
    by (auto simp: supplied_def overwrite_def)
  then show ?thesis using assms(1,2)
    by (intro exI [of _ "(rest, ks')"]) (simp add: recvn_def supplied_def)
qed

lemma recv_header_enough:
  assumes "supplied c" "fst c = wagon bs @ rest"
  shows "\<exists>c'. recv_header t c = Done (t\<lparr>tr_length := of_nat (length bs)\<rparr>, c') \<and> fst c' = bs @ rest \<and> supplied c'"
proof -
  have "length (enc32 (of_nat (length bs))) \<le> length (enc32 (tr_length t))" by simp
  from recvn_enough [OF assms(1) _ this, of "bs @ rest"] assms(2) show ?thesis
    by (auto simp: recv_header_def wagon_def overwrite_def dec_enc32)
qed

lemma recv_data_enough:
  assumes "supplied c" "fst c = bs @ rest" "length bs \<le> length (tr_data t)" "length bs < 2 ^ 31"
    "tr_length t = of_nat (length bs)"
  shows "\<exists>c'. recv_data t c = Done (t\<lparr>tr_data := overwrite bs (tr_data t)\<rparr>, c') \<and> fst c' = rest \<and> supplied c'"
proof -
  have "sint (tr_length t) = int (length bs)" using assms(4,5) by (simp only: sint_small)
  then show ?thesis using recvn_enough [OF assms(1-3)] by (auto simp: recv_data_def)
qed

lemma recv_train_enough:
  assumes "supplied c" "fst c = wagon bs @ rest" "length bs \<le> 1000" "length (tr_data t) = 1000"
  shows "\<exists>c1 c2. recv_header t c = Done (t\<lparr>tr_length := of_nat (length bs)\<rparr>, c1)
     \<and> recv_data (t\<lparr>tr_length := of_nat (length bs)\<rparr>) c1 = Done (load_train bs t, c2) \<and> fst c2 = rest \<and> supplied c2"
proof -
  obtain c1 where c1: "recv_header t c = Done (t\<lparr>tr_length := of_nat (length bs)\<rparr>, c1)" "fst c1 = bs @ rest"
    "supplied c1" using recv_header_enough [OF assms(1,2)] by blast
  let ?t = "t\<lparr>tr_length := of_nat (length bs)\<rparr>"
  obtain c2 where "recv_data ?t c1 = Done (?t\<lparr>tr_data := overwrite bs (tr_data ?t)\<rparr>, c2)" "fst c2 = rest" "supplied c2"
    using recv_data_enough [OF c1(3,2), of ?t] assms(3,4) by auto
  then show ?thesis using c1(1) by (cases c2) (simp add: load_train_def)
qed

lemma send_rounds_wagons:
  assumes "map fst rounds = map Some chunks @ [Some []]" "\<forall>r \<in> set rounds. 1004 \<le> snd r"
    "\<forall>bs \<in> set chunks. bs \<noteq> [] \<and> length bs \<le> 1000"
  shows "send_rounds rounds t out = (True, out @ concat (map wagon chunks) @ wagon [])"
  using assms
proof (induction chunks arbitrary: rounds t out)
  case Nil
  then obtain acc where "rounds = [(Some [], acc)]" "1004 \<le> acc" by auto
  then show ?case by (simp add: send_bytes_def train_wire_load)
next
  case (Cons bs chunks)
  then obtain acc rs where r: "rounds = (Some bs, acc) # rs" "map fst rs = map Some chunks @ [Some []]" "1004 \<le> acc"
    by (cases rounds) auto
  have "take acc (train_wire (load_train bs t)) = wagon bs"
    using Cons.prems(3) r(3) by (simp add: train_wire_load)
  moreover have "bs \<noteq> []" using Cons.prems(3) by simp
  ultimately show ?case
    using Cons.IH [OF r(2), of "load_train bs t" "out @ wagon bs"] Cons.prems(2,3) r(1)
    by (simp add: send_bytes_def Let_def)
qed

lemma recv_rounds_wagons:
  assumes "supplied c" "fst c = concat (map wagon chunks) @ wagon [] @ rest" "length (tr_data t) = 1000"
    "\<forall>bs \<in> set chunks. bs \<noteq> [] \<and> length bs \<le> 1000" "length chunks \<le> length ws" "\<forall>w \<in> set ws. 1000 \<le> w"
  shows "\<exists>c'. recv_rounds ws step t c p got
     = Done (fold (count_train step) (map (\<lambda>bs. of_nat (length bs)) (chunks @ [[]])) p, got @ concat chunks, c')
     \<and> fst c' = rest \<and> supplied c'"
  using assms
proof (induction chunks arbitrary: c t p got ws)
  case Nil
  then show ?case using recv_header_enough [of c "[]" rest t] by (auto simp: recv_rounds.simps)
next
  case (Cons bs chunks)
  let ?rest = "concat (map wagon chunks) @ wagon [] @ rest" and ?n = "of_nat (length bs) :: u32"
  have bs: "bs \<noteq> []" "length bs \<le> 1000" using Cons.prems(4) by simp_all
  then have l: "sint ?n = int (length bs)" by (intro sint_small) simp
  then have n: "?n \<noteq> 0" using bs(1) by auto
  have w: "fst c = wagon bs @ ?rest" using Cons.prems(2) by simp
  obtain c1 c2 where c: "recv_header t c = Done (t\<lparr>tr_length := ?n\<rparr>, c1)"
    "recv_data (t\<lparr>tr_length := ?n\<rparr>) c1 = Done (load_train bs t, c2)" "fst c2 = ?rest" "supplied c2"
    using recv_train_enough [OF Cons.prems(1) w bs(2) Cons.prems(3)] by blast
  obtain v ws' where ws: "ws = v # ws'" "1000 \<le> v" using Cons.prems(5,6) by (cases ws) auto
  have piece: "take v (take (nat (sint ?n)) (tr_data (load_train bs t))) = bs"
    using bs(2) ws(2) by (simp add: l overwrite_def)
  have data: "length (tr_data (load_train bs t)) = 1000" using bs(2) Cons.prems(3) by (simp add: length_overwrite)
  have "recv_rounds ws step t c p got
      = recv_rounds ws' step (load_train bs t) c2 (count_train step ?n p) (got @ bs)"
    using n piece by (simp add: recv_rounds.simps [of "v # ws'"] c(1,2) ws(1) l Let_def)
  then show ?case
    using Cons.IH [where ws = ws' and p = "count_train step ?n p" and got = "got @ bs", OF c(4,3) data]
      Cons.prems(4-6) ws(1) by auto
qed

lemma recv_stage:
  assumes "supplied c" "fst c = wagon bs @ rest" "length bs \<le> 1000" "length (tr_data t) = 1000"
    and "length bs \<le> n" "length dst = n"
  shows "\<exists>c1 c2. recv_header t c = Done (t\<lparr>tr_length := of_nat (length bs)\<rparr>, c1)
     \<and> recv_data (t\<lparr>tr_length := of_nat (length bs)\<rparr>) c1 = Done (load_train bs t, c2)
     \<and> unload n (load_train bs t) dst = Done (overwrite bs dst) \<and> fst c2 = rest \<and> supplied c2
     \<and> length (tr_data (load_train bs t)) = 1000"
proof -
  have "sint (of_nat (length bs) :: u32) = int (length bs)" using assms(3) by (intro sint_small) simp
  then have "unload n (load_train bs t) dst = Done (overwrite bs dst)"
    using assms(5,6) by (simp add: unload_def) (simp add: overwrite_def)
  then show ?thesis using recv_train_enough [OF assms(1-4)] assms(3,4) by (auto simp: length_overwrite)
qed

text \<open>What the server has sent when everything went well.\<close>

definition whole_transfer :: "u64 \<Rightarrow> u8 list list \<Rightarrow> u8 list" where
  "whole_transfer sz chunks =
     wagon file1 @ wagon (enc64 sz) @ concat (map wagon chunks) @ wagon []"

lemma transFile_whole:
  assumes "length (tf_stack env) = 1000" "tf_open env = Some fd" "9 \<le> tf_name_acc env" "12 \<le> tf_size_acc env"
    "map fst rounds = map Some chunks @ [Some []]" "\<forall>r \<in> set rounds. 1004 \<le> snd r"
    "\<forall>bs \<in> set chunks. bs \<noteq> [] \<and> length bs \<le> 1000"
  shows "transFile env rounds fds = (True, whole_transfer (tf_size env) chunks, insert fd fds)"
proof -
  have "train_wire (load_train file1 t) = wagon file1" "train_wire (load_train (enc64 s) t) = wagon (enc64 s)" for s t
    by (simp_all add: train_wire_load file1_def)
  moreover have "length (wagon file1) \<le> tf_name_acc env" "length (wagon (enc64 s)) \<le> tf_size_acc env" for s
    using assms(3,4) by (simp_all add: file1_def)
  ultimately show ?thesis
    using assms(2) by (simp add: transFile_def Let_def send_bytes_def whole_transfer_def send_rounds_wagons [OF assms(5-7)])
qed

lemma recvFile_whole:
  assumes c: "supplied c" "fst c = whole_transfer sz chunks @ rest"
    and stack: "length (rf_stack env) = 1000" "length (rf_size env) = 8"
    and chunks: "\<forall>bs \<in> set chunks. bs \<noteq> [] \<and> length bs \<le> 1000"
    and writes: "length chunks \<le> length (rf_writes env)" "\<forall>w \<in> set (rf_writes env). 1000 \<le> w"
  shows "\<exists>c'. recvFile env c = Done (\<lparr>rc_name = file1, rc_size = sint sz, rc_file = concat chunks,
      rc_progress = fold (count_train (sint sz sdiv 10000)) (map (\<lambda>bs. of_nat (length bs)) (chunks @ [[]]))
        \<lparr>pg_current = 0, pg_last = 0, pg_shown = [], pg_slept = 0\<rparr>\<rparr>, c') \<and> fst c' = rest"
proof -
  let ?t0 = "\<lparr>tr_length = 0, tr_data = rf_stack env\<rparr>" and ?z = "replicate 4096 0 :: u8 list"
  have w1: "fst c = wagon file1 @ wagon (enc64 sz) @ concat (map wagon chunks) @ wagon [] @ rest"
    using c(2) by (simp add: whole_transfer_def)
  obtain c1 c2 where s1: "recv_header ?t0 c = Done (?t0\<lparr>tr_length := of_nat (length file1)\<rparr>, c1)"
    "recv_data (?t0\<lparr>tr_length := of_nat (length file1)\<rparr>) c1 = Done (load_train file1 ?t0, c2)"
    "unload 4096 (load_train file1 ?t0) ?z = Done (overwrite file1 ?z)"
    "fst c2 = wagon (enc64 sz) @ concat (map wagon chunks) @ wagon [] @ rest" "supplied c2"
    "length (tr_data (load_train file1 ?t0)) = 1000"
    using recv_stage [OF c(1) w1, of ?t0 4096 ?z] stack by (auto simp: file1_def)
  obtain t2 where t2: "t2 = load_train file1 ?t0" by blast
  obtain c3 c4 where s2: "recv_header t2 c2 = Done (t2\<lparr>tr_length := of_nat (length (enc64 sz))\<rparr>, c3)"
    "recv_data (t2\<lparr>tr_length := of_nat (length (enc64 sz))\<rparr>) c3 = Done (load_train (enc64 sz) t2, c4)"
    "unload 8 (load_train (enc64 sz) t2) (rf_size env) = Done (overwrite (enc64 sz) (rf_size env))"
    "fst c4 = concat (map wagon chunks) @ wagon [] @ rest" "supplied c4"
    "length (tr_data (load_train (enc64 sz) t2)) = 1000"
    using recv_stage [OF s1(5,4), of t2 8 "rf_size env"] s1(6) stack(2) t2 by auto
  have size: "dec64 (overwrite (enc64 sz) (rf_size env)) = sz"
    using stack(2) by (simp add: overwrite_def dec_enc64)
  have name: "takeWhile (\<lambda>b. b \<noteq> 0) (overwrite file1 ?z) = file1"
    by (simp add: overwrite_def file1_def takeWhile_append)
  obtain c5 where r: "recv_rounds (rf_writes env) (sint sz sdiv 10000) (load_train (enc64 sz) t2) c4
      \<lparr>pg_current = 0, pg_last = 0, pg_shown = [], pg_slept = 0\<rparr> []
    = Done (fold (count_train (sint sz sdiv 10000)) (map (\<lambda>bs. of_nat (length bs)) (chunks @ [[]]))
        \<lparr>pg_current = 0, pg_last = 0, pg_shown = [], pg_slept = 0\<rparr>, concat chunks, c5)" "fst c5 = rest"
    using recv_rounds_wagons [OF s2(5,4,6) chunks writes] by (metis append_Nil)
  have "recvFile env c = Done (\<lparr>rc_name = file1, rc_size = sint sz, rc_file = concat chunks,
      rc_progress = fold (count_train (sint sz sdiv 10000)) (map (\<lambda>bs. of_nat (length bs)) (chunks @ [[]]))
        \<lparr>pg_current = 0, pg_last = 0, pg_shown = [], pg_slept = 0\<rparr>\<rparr>, c5)"
    unfolding recvFile_def Let_def s1(1) bind_outcome.simps prod.case s1(2) t2 [symmetric] s1(3) [folded t2] s2(1-3) size r(1) name ..
  then show ?thesis using r(2) by blast
qed

subsection \<open>Properties\<close>

text \<open>C8. A file of any contents that the server reads in pieces of at most 1000 bytes arrives unchanged
  under its name, however \<open>recv\<close> slices the stream, and nothing after it is touched. The descriptor of
  the file stays open in the server.\<close>

theorem file_transfer_roundtrip:
  assumes server: "length (tf_stack env) = 1000" "tf_open env = Some fd" "9 \<le> tf_name_acc env" "12 \<le> tf_size_acc env"
    and reads: "map fst rounds = map Some chunks @ [Some []]" "\<forall>r \<in> set rounds. 1004 \<le> snd r"
      "\<forall>bs \<in> set chunks. bs \<noteq> [] \<and> length bs \<le> 1000" "concat chunks = contents"
    and client: "length (rf_stack cenv) = 1000" "length (rf_size cenv) = 8" "length chunks \<le> length (rf_writes cenv)"
      "\<forall>w \<in> set (rf_writes cenv). 1000 \<le> w"
    and recv: "steady ks" "length (fst (snd (transFile env rounds fds)) @ later) \<le> length ks"
  shows "\<exists>sent r ks'. transFile env rounds fds = (True, sent, insert fd fds)
     \<and> recvFile cenv (sent @ later, ks) = Done (r, later, ks')
     \<and> rc_name r = file1 \<and> rc_file r = contents \<and> rc_size r = sint (tf_size env)"
proof -
  note t = transFile_whole [OF server reads(1-3)]
  have "supplied (whole_transfer (tf_size env) chunks @ later, ks)" using recv by (simp add: supplied_def t)
  from recvFile_whole [OF this _ client(1,2) reads(3) client(3,4)] show ?thesis
    using t reads(4) by force
qed

theorem file_transfer_roundtrip_witness:
  "\<exists>sent r ks'. transFile \<lparr>tf_stack = replicate 1000 7, tf_open = Some 9, tf_size = 5, tf_name_acc = 9, tf_size_acc = 12\<rparr>
       [(Some [1, 2, 3], 1004), (Some [4, 5], 1004), (Some [], 1004)] {4} = (True, sent, {9, 4})
     \<and> recvFile \<lparr>rf_stack = replicate 1000 0, rf_size = replicate 8 0, rf_writes = [1000, 1000]\<rparr>
         (sent @ [6], replicate 60 (Some 2)) = Done (r, [6], ks') \<and> rc_file r = [1, 2, 3, 4, 5]"
proof -
  let ?env = "\<lparr>tf_stack = replicate 1000 7, tf_open = Some 9, tf_size = 5, tf_name_acc = 9, tf_size_acc = 12\<rparr>"
  let ?rounds = "[(Some [1, 2, 3 :: u8], 1004 :: nat), (Some [4, 5], 1004), (Some [], 1004)]"
  have t: "transFile ?env ?rounds {4} = (True, whole_transfer 5 [[1, 2, 3], [4, 5]], {9, 4})"
    by (subst transFile_whole [where fd = 9 and chunks = "[[1, 2, 3], [4, 5]]"]) auto
  have "length (fst (snd (transFile ?env ?rounds {4})) @ [6]) \<le> length (replicate 60 (Some (2 :: nat)))"
    unfolding t by (simp add: whole_transfer_def file1_def)
  moreover have "steady (replicate 60 (Some 2))" by (simp add: steady_def)
  ultimately show ?thesis
    using file_transfer_roundtrip [where env = ?env and rounds = ?rounds and fds = "{4}" and fd = 9
        and chunks = "[[1, 2, 3], [4, 5]]" and contents = "[1, 2, 3, 4, 5]" and later = "[6]"
        and ks = "replicate 60 (Some 2)"
        and cenv = "\<lparr>rf_stack = replicate 1000 0, rf_size = replicate 8 0, rf_writes = [1000, 1000]\<rparr>"]
    by auto
qed

text \<open>As long as \<open>recv\<close> reports no error, \<open>recvn\<close> returns exactly the next bytes and leaves the others, or
  does not return: it never returns early when the other side has closed the connection. With the bytes
  and enough calls it returns.\<close>

theorem recvn_whole_or_waits:
  assumes "None \<notin> set (snd c)" "n \<le> length buf"
  shows "case recvn (int n) buf c of
      Done (got, rest, ks) \<Rightarrow> n \<le> length (fst c) \<and> got = take n (fst c) @ drop n buf \<and> rest = drop n (fst c)
    | Blocked \<Rightarrow> length (fst c) < n \<or> length (snd c) < n \<or> Some 0 \<in> set (snd c)
    | Fault \<Rightarrow> False"
  using recv_loop_outcome [OF assms, of "[]" "fst c"] recv_loop_enough [of "snd c" n buf "fst c" "[]"] assms
  by (cases "n \<le> length (fst c) \<and> n \<le> length (snd c) \<and> Some 0 \<notin> set (snd c)") (auto simp: recvn_def steady_def)

theorem recvn_whole_or_waits_witness:
  "recvn 4 [0, 0, 0, 0, 0] ([1, 2, 3], [Some 2, Some 2, Some 2, Some 2]) = Blocked"
  using recvn_whole_or_waits [of "([1, 2, 3], [Some 2, Some 2, Some 2, Some 2])" 4 "[0, 0, 0, 0, 0]"]
  by (auto split: outcome.splits)

text \<open>An error of \<open>recv\<close> steps back over a byte that had been received: the next one overwrites it.\<close>

theorem recv_error_drops_byte:
  assumes "1 < len" "buf \<noteq> []"
  shows "recvn len buf (x # inp, Some 1 # None # ks) = recvn len (x # tl buf) (inp, ks)"
  using assms by (cases buf) (simp_all add: recvn_def recv_loop_simps Let_def)

text \<open>What every header keeps of the progress counters.\<close>

definition progress_ok :: "int \<Rightarrow> progress \<Rightarrow> bool" where
  "progress_ok step p \<longleftrightarrow> int (length (pg_shown p)) * (step + 1) \<le> pg_last p \<and> pg_last p \<le> pg_current p
     \<and> sorted_wrt (\<lambda>a b. a + step < b) (pg_shown p)
     \<and> (\<forall>x \<in> set (pg_shown p). x \<le> pg_last p)"

lemma progress_ok_count:
  assumes "progress_ok step p" "0 \<le> step" "0 \<le> sint len"
  shows "progress_ok step (count_train step len p)"
  using assms by (auto simp: progress_ok_def count_train_def Let_def sorted_wrt_append algebra_simps)

lemma progress_ok_rounds:
  "recv_rounds ws step t c p got = Done (p', file', c') \<Longrightarrow> progress_ok step p \<Longrightarrow> 0 \<le> step
     \<Longrightarrow> progress_ok step p'"
proof (induction ws arbitrary: t c p got)
  case Nil
  then show ?case
    by (subst (asm) recv_rounds.simps) (auto simp: Let_def progress_ok_count split: if_splits)
next
  case (Cons w ws)
  from Cons.prems(1) obtain t1 c1 where h: "recv_header t c = Done (t1, c1)"
    by (subst (asm) recv_rounds.simps) auto
  show ?case
  proof (cases "tr_length t1 = 0")
    case True
    then show ?thesis using Cons.prems h
      by (subst (asm) recv_rounds.simps) (auto simp: Let_def progress_ok_count)
  next
    case False
    with Cons.prems(1) h obtain t2 c2 where d: "recv_data t1 c1 = Done (t2, c2)" "\<not> sint (tr_length t2) < 0"
      "recv_rounds ws step t2 c2 (count_train step (tr_length t1) p)
         (got @ take w (take (nat (sint (tr_length t2))) (tr_data t2))) = Done (p', file', c')"
      by (subst (asm) recv_rounds.simps) (auto simp: Let_def split: if_splits)
    have "tr_length t2 = tr_length t1" using d(1) by (auto simp: recv_data_def)
    then show ?thesis using Cons.IH [OF d(3)] progress_ok_count [OF Cons.prems(2,3)] d(2) Cons.prems(3) by simp
  qed
qed

text \<open>However the trains come, a line of progress is shown only after more than a 10000th of the
  announced size since the last one; a file received whole shows fewer than 10000 lines.\<close>

theorem progress_lines_bounded:
  assumes "recvFile env c = Done (r, c')" "0 \<le> rc_size r"
  shows "sorted_wrt (\<lambda>a b. a + rc_size r div 10000 < b) (pg_shown (rc_progress r))
     \<and> int (length (pg_shown (rc_progress r))) * (rc_size r div 10000 + 1) \<le> pg_current (rc_progress r)
     \<and> (pg_current (rc_progress r) = rc_size r \<longrightarrow> length (pg_shown (rc_progress r)) < 10000)"
proof -
  let ?start = "\<lparr>pg_current = 0, pg_last = 0, pg_shown = [], pg_slept = 0\<rparr>" and ?p = "rc_progress r"
  obtain ws t c1 file' c2 where "recv_rounds ws (rc_size r sdiv 10000) t c1 ?start [] = Done (?p, file', c2)"
    using assms(1) by (auto simp: recvFile_def Let_def)
  moreover have step: "rc_size r sdiv 10000 = rc_size r div 10000"
    using assms(2) by (simp add: signed_divide_int_def sgn_if)
  moreover have "progress_ok (rc_size r div 10000) ?start" by (simp add: progress_ok_def)
  ultimately have ok: "progress_ok (rc_size r div 10000) ?p"
    using progress_ok_rounds assms(2) by fastforce
  then have le: "int (length (pg_shown ?p)) * (rc_size r div 10000 + 1) \<le> pg_current ?p"
    by (auto simp: progress_ok_def)
  have "length (pg_shown ?p) < 10000" if "pg_current ?p = rc_size r"
  proof (rule ccontr)
    assume "\<not> length (pg_shown ?p) < 10000"
    then have "10000 * (rc_size r div 10000 + 1) \<le> int (length (pg_shown ?p)) * (rc_size r div 10000 + 1)"
      using assms(2) by (intro mult_right_mono) simp_all
    moreover have "rc_size r < 10000 * (rc_size r div 10000 + 1)" by simp
    ultimately show False using le that by linarith
  qed
  then show ?thesis using ok le by (simp add: progress_ok_def)
qed

text \<open>A failed \<open>read\<close> sends three bytes of the length -1.\<close>

lemma train_wire_failed: "train_wire (t\<lparr>tr_length := - 1\<rparr>) = [255, 255, 255]"
proof -
  have "unat (4 + scast (- 1 :: u32) :: u64) = 3" by code_simp
  moreover have "take 3 (enc32 (- 1) @ xs) = [255, 255, 255]" for xs :: "u8 list"
  proof -
    have "enc32 (- 1) = [255, 255, 255, 255]" by code_simp
    then show ?thesis by simp
  qed
  ultimately show ?thesis by (simp add: train_wire_def)
qed

lemma send_rounds_failed:
  "send_rounds (replicate n (None, 1004)) t out = (False, out @ concat (replicate n [255, 255, 255]))"
proof (induction n arbitrary: t out)
  case (Suc n)
  then show ?case by (simp add: send_bytes_def train_wire_failed Let_def)
qed simp

theorem progress_lines_bounded_witness:
  "\<exists>r c'. recvFile \<lparr>rf_stack = replicate 1000 0, rf_size = replicate 8 0, rf_writes = [1000, 1000]\<rparr>
      (whole_transfer 5 [[1, 2, 3], [4, 5]], replicate 60 (Some 2)) = Done (r, c')
    \<and> int (length (pg_shown (rc_progress r))) \<le> 5"
proof -
  let ?env = "\<lparr>rf_stack = replicate 1000 0, rf_size = replicate 8 0, rf_writes = [1000, 1000]\<rparr>"
  let ?c = "(whole_transfer 5 [[1, 2, 3], [4, 5]], replicate 60 (Some 2))"
  have "supplied ?c" by (simp add: supplied_def steady_def whole_transfer_def file1_def)
  then obtain r c' where r: "recvFile ?env ?c = Done (r, c')" "rc_size r = 5" "rc_progress r
      = fold (count_train 0) [3, 2, 0] \<lparr>pg_current = 0, pg_last = 0, pg_shown = [], pg_slept = 0\<rparr>"
    using recvFile_whole [of ?c 5 "[[1, 2, 3], [4, 5]]" "[]" ?env] by fastforce
  have "pg_current (rc_progress r) = 5" unfolding r(3) by code_simp
  then show ?thesis using progress_lines_bounded [OF r(1)] r(1,2) by auto
qed

lemma failed_bytes: "concat (replicate n [255, 255, 255 :: u8]) = replicate (3 * n) 255"
  by (induction n) (simp_all add: numeral_3_eq_3)

lemma header_failed:
  assumes "supplied c" "fst c = replicate n 255" "4 \<le> n"
  shows "recv_rounds ws step t c p got = Fault"
proof -
  have e: "enc32 (- 1) = replicate 4 255" by code_simp
  have "fst c = enc32 (- 1) @ replicate (n - 4) 255"
    using assms(2,3) by (simp add: e flip: replicate_add)
  from recvn_enough [OF assms(1) this, of "enc32 (tr_length t)"]
  obtain c' where "recv_header t c = Done (t\<lparr>tr_length := - 1\<rparr>, c')"
    by (auto simp: recv_header_def overwrite_def dec_enc32)
  then show ?thesis
    by (simp add: recv_rounds.simps [of ws] recv_data_def recvn_def recv_loop_simps Let_def)
qed

lemma transFile_missing:
  assumes "length (tf_stack env) = 1000" "tf_open env = None" "9 \<le> tf_name_acc env" "12 \<le> tf_size_acc env"
  shows "transFile env (replicate n (None, 1004)) fds
    = (False, wagon file1 @ wagon (enc64 (tf_size env)) @ replicate (3 * n) 255, fds)"
proof -
  have "train_wire (load_train file1 t) = wagon file1" "train_wire (load_train (enc64 s) t) = wagon (enc64 s)" for s t
    by (simp_all add: train_wire_load file1_def)
  moreover have "length (wagon file1) \<le> tf_name_acc env" "length (wagon (enc64 s)) \<le> tf_size_acc env" for s
    using assms(3,4) by (simp_all add: file1_def)
  ultimately show ?thesis
    using assms(2) by (simp add: transFile_def Let_def send_bytes_def send_rounds_failed failed_bytes)
qed

text \<open>A missing file: the server's thread never returns, however long it runs, and its client, told of a
  train of length -1, calls \<open>write\<close> with a size beyond every buffer.\<close>

theorem missing_file_breaks_transfer:
  assumes server: "length (tf_stack env) = 1000" "tf_open env = None" "9 \<le> tf_name_acc env" "12 \<le> tf_size_acc env"
    and n: "2 \<le> n" and client: "length (rf_stack cenv) = 1000" "length (rf_size cenv) = 8"
    and recv: "steady ks" "length (fst (snd (transFile env (replicate n (None, 1004)) fds))) \<le> length ks"
  shows "\<exists>sent. transFile env (replicate n (None, 1004)) fds = (False, sent, fds)
     \<and> recvFile cenv (sent, ks) = Fault"
proof -
  let ?sent = "wagon file1 @ wagon (enc64 (tf_size env)) @ replicate (3 * n) 255"
  note t = transFile_missing [OF server, of n fds]
  have sup: "supplied (?sent, ks)" using recv by (simp add: supplied_def t)
  let ?t0 = "\<lparr>tr_length = 0, tr_data = rf_stack cenv\<rparr>" and ?z = "replicate 4096 0 :: u8 list"
  obtain c1 c2 where s1: "recv_header ?t0 (?sent, ks) = Done (?t0\<lparr>tr_length := of_nat (length file1)\<rparr>, c1)"
    "recv_data (?t0\<lparr>tr_length := of_nat (length file1)\<rparr>) c1 = Done (load_train file1 ?t0, c2)"
    "unload 4096 (load_train file1 ?t0) ?z = Done (overwrite file1 ?z)"
    "fst c2 = wagon (enc64 (tf_size env)) @ replicate (3 * n) 255" "supplied c2"
    "length (tr_data (load_train file1 ?t0)) = 1000"
    using recv_stage [OF sup _ _ _ _ refl, of file1 _ ?t0 ?z] client by (auto simp: file1_def)
  obtain t2 where t2: "t2 = load_train file1 ?t0" by blast
  obtain c3 c4 where s2: "recv_header t2 c2 = Done (t2\<lparr>tr_length := of_nat (length (enc64 (tf_size env)))\<rparr>, c3)"
    "recv_data (t2\<lparr>tr_length := of_nat (length (enc64 (tf_size env)))\<rparr>) c3 = Done (load_train (enc64 (tf_size env)) t2, c4)"
    "unload 8 (load_train (enc64 (tf_size env)) t2) (rf_size cenv) = Done (overwrite (enc64 (tf_size env)) (rf_size cenv))"
    "fst c4 = replicate (3 * n) 255" "supplied c4"
    using recv_stage [OF s1(5,4), of t2 8 "rf_size cenv"] s1(6) client(2) t2 by auto
  have "4 \<le> 3 * n" using n by simp
  note fault = header_failed [OF s2(5,4) this]
  have "recvFile cenv (?sent, ks) = Fault"
    unfolding recvFile_def Let_def s1(1) bind_outcome.simps prod.case s1(2) t2 [symmetric] s1(3) [folded t2] s2(1-3) fault ..
  then show ?thesis using t by blast
qed

theorem missing_file_breaks_transfer_witness:
  "\<exists>sent. transFile \<lparr>tf_stack = replicate 1000 7, tf_open = None, tf_size = 0, tf_name_acc = 9, tf_size_acc = 12\<rparr>
       (replicate 2 (None, 1004)) {4} = (False, sent, {4})
     \<and> recvFile \<lparr>rf_stack = replicate 1000 0, rf_size = replicate 8 0, rf_writes = [1000]\<rparr>
         (sent, replicate 60 (Some 5)) = Fault"
proof -
  let ?env = "\<lparr>tf_stack = replicate 1000 7, tf_open = None, tf_size = 0, tf_name_acc = 9, tf_size_acc = 12\<rparr>"
  have "length (fst (snd (transFile ?env (replicate 2 (None, 1004)) {4}))) \<le> 60"
    by (subst transFile_missing) (simp_all add: file1_def)
  then show ?thesis
    by (intro missing_file_breaks_transfer) (simp_all add: steady_def)
qed

end
