(* ===== verification/Oo_Thread_Pool.thy ===== *)
theory Oo_Thread_Pool
  imports Pool_Prelude
begin

text \<open>
  The C++ thread pool: \<^verbatim>\<open>new_CPP_ThreadPool/OO_threadPool/ThreadPool.cpp\<close> and the template
  \<open>enqueue\<close> of \<^verbatim>\<open>ThreadPool.h\<close>. The critical sections are functions of the pool; the
  interleavings of the workers with any number of calling threads are a step relation. A critical
  section is one step, except that a worker which found nothing to do holds the mutex until the step
  in which it blocks: the constructor sets \<open>stop\<close> without the mutex. A \<open>packaged_task\<close> keeps the
  exceptions of its function, so a task always ends in the same way here. The counters are
  \<open>size_t\<close> words.
\<close>

subsection \<open>The pool and its critical sections\<close>

record 'a oo_pool =
  oo_workers :: nat
  oo_tasks :: "'a list"
  oo_stop :: bool
  oo_active_threads :: u64
  oo_completed_tasks :: u64

datatype 'a worker_pc =
    WAbsent
  | WLock
  | WBlocking
  | WWaiting
  | WRunning 'a
  | WRan 'a
  | WExited

text \<open>From the moment a worker has the mutex until it gives it up or is about to block.\<close>

definition worker_section :: "'a oo_pool \<Rightarrow> 'a oo_pool \<times> 'a worker_pc" where
  "worker_section p =
     (if \<not> (oo_stop p \<or> oo_tasks p \<noteq> []) then (p, WBlocking)
      else if oo_stop p \<and> oo_tasks p = [] then (p, WExited)
      else case oo_tasks p of [] \<Rightarrow> (p, WLock)
        | t # ts \<Rightarrow> (p\<lparr>oo_tasks := ts, oo_active_threads := oo_active_threads p + 1\<rparr>, WRunning t))"

text \<open>After a task; the boolean tells that \<open>finished\<close> is notified.\<close>

definition finish_section :: "'a oo_pool \<Rightarrow> 'a oo_pool \<times> bool" where
  "finish_section p =
     (let p1 = p\<lparr>oo_active_threads := oo_active_threads p - 1, oo_completed_tasks := oo_completed_tasks p + 1\<rparr>
      in (p1, oo_tasks p1 = [] \<and> oo_active_threads p1 = 0))"

text \<open>\<open>None\<close>: the call throws.\<close>

definition oo_enqueue :: "'a \<Rightarrow> 'a oo_pool \<Rightarrow> 'a oo_pool option" where
  "oo_enqueue t p = (if oo_stop p then None else Some (p\<lparr>oo_tasks := oo_tasks p @ [t]\<rparr>))"

text \<open>\<open>None\<close>: the pool is shut down already and the call returns.\<close>

definition shutdown_section :: "'a oo_pool \<Rightarrow> 'a oo_pool option" where
  "shutdown_section p = (if oo_stop p then None else Some (p\<lparr>oo_stop := True\<rparr>))"

text \<open>The second component holds the tasks swapped out of the queue, which are destroyed.\<close>

definition shutdown_now_section :: "'a oo_pool \<Rightarrow> ('a oo_pool \<times> 'a list) option" where
  "shutdown_now_section p =
     (if oo_stop p then None else Some (p\<lparr>oo_stop := True, oo_tasks := []\<rparr>, oo_tasks p))"

definition all_finished :: "'a oo_pool \<Rightarrow> bool" where
  "all_finished p \<longleftrightarrow> oo_tasks p = [] \<and> oo_active_threads p = 0"

definition oo_size :: "'a oo_pool \<Rightarrow> nat" where "oo_size p = oo_workers p"
definition active_count :: "'a oo_pool \<Rightarrow> u64" where "active_count p = oo_active_threads p"
definition oo_queue_size :: "'a oo_pool \<Rightarrow> nat" where "oo_queue_size p = length (oo_tasks p)"
definition is_shutdown :: "'a oo_pool \<Rightarrow> bool" where "is_shutdown p = oo_stop p"
definition completed_task_count :: "'a oo_pool \<Rightarrow> u64" where "completed_task_count p = oo_completed_tasks p"

subsection \<open>The constructor\<close>

text \<open>The loop that creates the threads: how many there are, and whether all could be created.\<close>

fun spawn_workers :: "(nat \<Rightarrow> bool) \<Rightarrow> nat \<Rightarrow> nat \<Rightarrow> nat \<times> bool" where
  "spawn_workers ok i 0 = (i, True)"
| "spawn_workers ok i (Suc k) = (if ok i then spawn_workers ok (Suc i) k else (i, False))"

text \<open>\<open>CtorFailing\<close>: the handler is about to stop and join the threads created so far.\<close>

datatype 'a oo_created = CtorInvalid | CtorFailing "'a oo_pool" | CtorDone "'a oo_pool"

definition oo_create :: "(nat \<Rightarrow> bool) \<Rightarrow> nat \<Rightarrow> 'a oo_created" where
  "oo_create ok threads =
     (if threads = 0 then CtorInvalid
      else case spawn_workers ok 0 threads of (n, whole) \<Rightarrow>
             let p = \<lparr>oo_workers = n, oo_tasks = [], oo_stop = False, oo_active_threads = 0, oo_completed_tasks = 0\<rparr>
             in if whole then CtorDone p else CtorFailing p)"

subsection \<open>Interleavings\<close>

text \<open>The calling threads. \<open>CNotify\<close>: \<open>enqueue\<close> before its \<open>notify_one\<close>; \<open>CCatch\<close>: the handler of the
  constructor; \<open>CStopping\<close>: before \<open>notify_all\<close>; \<open>CJoin k\<close>: joining worker \<open>k\<close>; \<open>CJoined\<close>: every worker
  joined. \<open>CWaiting timed\<close>: blocked in \<open>wait_for_completion\<close>; \<open>CWoken\<close>, \<open>CTimedOut\<close>: about to test again;
  \<open>CReturned b\<close>: it returned \<open>b\<close>.\<close>

datatype client_pc =
    CIdle
  | CNotify
  | CCatch
  | CStopping
  | CJoin nat
  | CJoined
  | CWaiting bool
  | CWoken bool
  | CTimedOut
  | CReturned bool

definition may_call :: "client_pc \<Rightarrow> bool" where
  "may_call pc \<longleftrightarrow> (case pc of CIdle \<Rightarrow> True | CReturned b \<Rightarrow> True | _ \<Rightarrow> False)"

record 'a oo_world =
  o_pool :: "'a oo_pool"
  o_pc :: "nat \<Rightarrow> 'a worker_pc"
  o_cl :: "nat \<Rightarrow> client_pc"
  o_lock :: "nat option"
  o_accepted :: "'a list"
  o_started :: "'a list"
  o_dropped :: "'a list"

definition wake_workers :: "(nat \<Rightarrow> 'a worker_pc) \<Rightarrow> nat \<Rightarrow> 'a worker_pc" where
  "wake_workers pcs = (\<lambda>i. if pcs i = WWaiting then WLock else pcs i)"

definition wake_clients :: "(nat \<Rightarrow> client_pc) \<Rightarrow> nat \<Rightarrow> client_pc" where
  "wake_clients cls = (\<lambda>c. case cls c of CWaiting timed \<Rightarrow> CWoken timed | pc \<Rightarrow> pc)"

inductive worker_step :: "nat \<Rightarrow> 'a oo_world \<Rightarrow> 'a oo_world \<Rightarrow> bool" where
  ws_section:
    "o_pc w i = WLock \<Longrightarrow> o_lock w = None \<Longrightarrow> worker_section (o_pool w) = (p, pc)
       \<Longrightarrow> worker_step i w (w\<lparr>o_pool := p, o_pc := (o_pc w)(i := pc),
             o_lock := (if pc = WBlocking then Some i else None),
             o_started := o_started w @ (case pc of WRunning t \<Rightarrow> [t] | _ \<Rightarrow> [])\<rparr>)"
| ws_block:
    "o_pc w i = WBlocking \<Longrightarrow> worker_step i w (w\<lparr>o_pc := (o_pc w)(i := WWaiting), o_lock := None\<rparr>)"
| ws_run: "o_pc w i = WRunning t \<Longrightarrow> worker_step i w (w\<lparr>o_pc := (o_pc w)(i := WRan t)\<rparr>)"
| ws_finish:
    "o_pc w i = WRan t \<Longrightarrow> o_lock w = None \<Longrightarrow> finish_section (o_pool w) = (p, notify)
       \<Longrightarrow> worker_step i w (w\<lparr>o_pool := p, o_pc := (o_pc w)(i := WLock),
             o_cl := (if notify then wake_clients (o_cl w) else o_cl w)\<rparr>)"

inductive caller_step :: "nat \<Rightarrow> 'a oo_world \<Rightarrow> 'a oo_world \<Rightarrow> bool" where
  cs_enqueue:
    "may_call (o_cl w c) \<Longrightarrow> o_lock w = None \<Longrightarrow> oo_enqueue t (o_pool w) = Some p
       \<Longrightarrow> caller_step c w (w\<lparr>o_pool := p, o_cl := (o_cl w)(c := CNotify), o_accepted := o_accepted w @ [t]\<rparr>)"
| cs_notify:
    "o_cl w c = CNotify
       \<Longrightarrow> (if \<exists>j. o_pc w j = WWaiting then \<exists>j. o_pc w j = WWaiting \<and> pcs = (o_pc w)(j := WLock) else pcs = o_pc w)
       \<Longrightarrow> caller_step c w (w\<lparr>o_pc := pcs, o_cl := (o_cl w)(c := CIdle)\<rparr>)"
| cs_shutdown:
    "may_call (o_cl w c) \<Longrightarrow> o_lock w = None \<Longrightarrow> shutdown_section (o_pool w) = Some p
       \<Longrightarrow> caller_step c w (w\<lparr>o_pool := p, o_cl := (o_cl w)(c := CStopping)\<rparr>)"
| cs_shutdown_now:
    "may_call (o_cl w c) \<Longrightarrow> o_lock w = None \<Longrightarrow> shutdown_now_section (o_pool w) = Some (p, old)
       \<Longrightarrow> caller_step c w (w\<lparr>o_pool := p, o_cl := (o_cl w)(c := CStopping), o_dropped := o_dropped w @ old\<rparr>)"
| cs_catch:
    "o_cl w c = CCatch
       \<Longrightarrow> caller_step c w (w\<lparr>o_pool := (o_pool w)\<lparr>oo_stop := True\<rparr>, o_cl := (o_cl w)(c := CStopping)\<rparr>)"
| cs_notify_all:
    "o_cl w c = CStopping
       \<Longrightarrow> caller_step c w (w\<lparr>o_pc := wake_workers (o_pc w), o_cl := (o_cl w)(c := CJoin 0)\<rparr>)"
| cs_join:
    "o_cl w c = CJoin k \<Longrightarrow> k < oo_workers (o_pool w) \<Longrightarrow> o_pc w k = WExited
       \<Longrightarrow> caller_step c w (w\<lparr>o_cl := (o_cl w)(c := CJoin (Suc k))\<rparr>)"
| cs_joined:
    "o_cl w c = CJoin k \<Longrightarrow> \<not> k < oo_workers (o_pool w)
       \<Longrightarrow> caller_step c w (w\<lparr>o_cl := (o_cl w)(c := CJoined)\<rparr>)"
| cs_wait:
    "(may_call (o_cl w c) \<or> o_cl w c = CWoken timed) \<Longrightarrow> o_lock w = None
       \<Longrightarrow> caller_step c w (w\<lparr>o_cl := (o_cl w)(c := if all_finished (o_pool w) then CReturned True else CWaiting timed)\<rparr>)"
| cs_timeout: "o_cl w c = CWaiting True \<Longrightarrow> caller_step c w (w\<lparr>o_cl := (o_cl w)(c := CTimedOut)\<rparr>)"
| cs_timed_out:
    "o_cl w c = CTimedOut \<Longrightarrow> o_lock w = None
       \<Longrightarrow> caller_step c w (w\<lparr>o_cl := (o_cl w)(c := CReturned (all_finished (o_pool w)))\<rparr>)"

text \<open>A wait on a condition variable may end by itself.\<close>

inductive spurious_step :: "'a oo_world \<Rightarrow> 'a oo_world \<Rightarrow> bool" where
  sp_worker: "o_pc w i = WWaiting \<Longrightarrow> spurious_step w (w\<lparr>o_pc := (o_pc w)(i := WLock)\<rparr>)"
| sp_client: "o_cl w c = CWaiting timed \<Longrightarrow> spurious_step w (w\<lparr>o_cl := (o_cl w)(c := CWoken timed)\<rparr>)"

definition oo_move :: "'a oo_world \<Rightarrow> 'a oo_world \<Rightarrow> bool" where
  "oo_move w w' \<longleftrightarrow> (\<exists>i. worker_step i w w') \<or> (\<exists>c. caller_step c w w')"

definition oo_step :: "'a oo_world \<Rightarrow> 'a oo_world \<Rightarrow> bool" where
  "oo_step w w' \<longleftrightarrow> oo_move w w' \<or> spurious_step w w'"

definition oo_start :: "'a oo_pool \<Rightarrow> client_pc \<Rightarrow> 'a oo_world" where
  "oo_start p pc = \<lparr>o_pool = p, o_pc = (\<lambda>i. if i < oo_workers p then WLock else WAbsent),
     o_cl = (\<lambda>c. if c = 0 then pc else CIdle), o_lock = None, o_accepted = [], o_started = [], o_dropped = []\<rparr>"

text \<open>The states of a pool that was created with \<open>n\<close> threads, a \<open>size_t\<close>.\<close>

definition oo_reach :: "nat \<Rightarrow> 'a oo_world \<Rightarrow> bool" where
  "oo_reach n w \<longleftrightarrow> n < 2 ^ 64 \<and> (\<exists>ok p. oo_create ok n = CtorDone p \<and> oo_step\<^sup>*\<^sup>* (oo_start p CIdle) w)"

subsection \<open>The invariant\<close>

definition busy_pc :: "'a worker_pc \<Rightarrow> bool" where
  "busy_pc pc \<longleftrightarrow> (case pc of WRunning t \<Rightarrow> True | WRan t \<Rightarrow> True | _ \<Rightarrow> False)"

definition busy :: "nat \<Rightarrow> (nat \<Rightarrow> 'a worker_pc) \<Rightarrow> nat set" where
  "busy n pcs = {i. i < n \<and> busy_pc (pcs i)}"

text \<open>The workers, the mutex and the flag.\<close>

definition shape_inv :: "nat \<Rightarrow> 'a oo_pool \<Rightarrow> (nat \<Rightarrow> 'a worker_pc) \<Rightarrow> nat option \<Rightarrow> bool" where
  "shape_inv n p pcs lock \<longleftrightarrow> 0 < n \<and> n < 2 ^ 64 \<and> oo_workers p = n
     \<and> (\<forall>i. pcs i = WAbsent \<longleftrightarrow> n \<le> i) \<and> (\<forall>i. pcs i = WBlocking \<longleftrightarrow> lock = Some i)
     \<and> (lock \<noteq> None \<longrightarrow> \<not> oo_stop p \<and> oo_tasks p = [])
     \<and> (\<forall>i. pcs i = WExited \<longrightarrow> oo_stop p \<and> oo_tasks p = [])"

text \<open>After the stop a waiting worker will still be notified.\<close>

definition stop_inv :: "nat \<Rightarrow> bool \<Rightarrow> (nat \<Rightarrow> 'a worker_pc) \<Rightarrow> (nat \<Rightarrow> client_pc) \<Rightarrow> bool" where
  "stop_inv n stop pcs cls \<longleftrightarrow> (\<forall>c. cls c \<noteq> CCatch) \<and> (\<forall>c. cls c = CStopping \<longrightarrow> stop)
     \<and> (stop \<longrightarrow> (\<exists>i. pcs i = WWaiting) \<longrightarrow> (\<exists>c. cls c = CStopping))
     \<and> (\<forall>c k. cls c = CJoin k \<longrightarrow> k \<le> n \<and> (\<forall>i<k. pcs i = WExited))
     \<and> (\<forall>c. cls c = CJoined \<longrightarrow> (\<forall>i<n. pcs i = WExited))"

text \<open>What was accepted, started and dropped, and the counters.\<close>

definition history_inv ::
  "nat \<Rightarrow> 'a oo_pool \<Rightarrow> (nat \<Rightarrow> 'a worker_pc) \<Rightarrow> 'a list \<Rightarrow> 'a list \<Rightarrow> 'a list \<Rightarrow> bool" where
  "history_inv n p pcs accepted started dropped \<longleftrightarrow> accepted = started @ dropped @ oo_tasks p
     \<and> (dropped \<noteq> [] \<longrightarrow> oo_stop p \<and> oo_tasks p = [])
     \<and> oo_active_threads p = of_nat (card (busy n pcs))
     \<and> oo_completed_tasks p + of_nat (card (busy n pcs)) = of_nat (length started)"

text \<open>Nobody sleeps through its wake-up.\<close>

definition wake_inv ::
  "nat \<Rightarrow> 'a list \<Rightarrow> (nat \<Rightarrow> 'a worker_pc) \<Rightarrow> (nat \<Rightarrow> client_pc) \<Rightarrow> 'a list \<Rightarrow> bool" where
  "wake_inv n tasks pcs cls dropped \<longleftrightarrow>
     (tasks \<noteq> [] \<longrightarrow> (\<exists>i<n. pcs i \<noteq> WWaiting) \<or> (\<exists>c. cls c = CNotify))
     \<and> (\<forall>c timed. cls c = CWaiting timed \<longrightarrow> tasks \<noteq> [] \<or> busy n pcs \<noteq> {} \<or> dropped \<noteq> [])"

definition oo_inv :: "nat \<Rightarrow> 'a oo_world \<Rightarrow> bool" where
  "oo_inv n w \<longleftrightarrow> shape_inv n (o_pool w) (o_pc w) (o_lock w) \<and> stop_inv n (oo_stop (o_pool w)) (o_pc w) (o_cl w)
     \<and> history_inv n (o_pool w) (o_pc w) (o_accepted w) (o_started w) (o_dropped w)
     \<and> wake_inv n (oo_tasks (o_pool w)) (o_pc w) (o_cl w) (o_dropped w)"

lemma finite_busy [simp]: "finite (busy n pcs)"
  by (simp add: busy_def)

lemma busy_pc_simps [simp]:
  "busy_pc (WRunning t)" "busy_pc (WRan t)" "\<not> busy_pc WLock" "\<not> busy_pc WBlocking" "\<not> busy_pc WWaiting"
  "\<not> busy_pc WExited" "\<not> busy_pc WAbsent"
  by (simp_all add: busy_pc_def)

lemma busy_iff [simp]: "i \<in> busy n pcs \<longleftrightarrow> i < n \<and> busy_pc (pcs i)"
  by (simp add: busy_def)

lemma busy_enter: "i < n \<Longrightarrow> busy_pc pc \<Longrightarrow> busy n (pcs(i := pc)) = insert i (busy n pcs)"
  by (auto simp: busy_def)

lemma busy_leave: "\<not> busy_pc pc \<Longrightarrow> busy n (pcs(i := pc)) = busy n pcs - {i}"
  by (auto simp: busy_def)

lemma busy_same: "busy_pc pc = busy_pc (pcs i) \<Longrightarrow> busy n (pcs(i := pc)) = busy n pcs"
  by (auto simp: busy_def split: if_splits)

lemma wake_workers_pc [simp]:
  "wake_workers pcs i = WAbsent \<longleftrightarrow> pcs i = WAbsent" "wake_workers pcs i = WBlocking \<longleftrightarrow> pcs i = WBlocking"
  "wake_workers pcs i = WExited \<longleftrightarrow> pcs i = WExited" "wake_workers pcs i \<noteq> WWaiting"
  "busy n (wake_workers pcs) = busy n pcs"
  by (auto simp: wake_workers_def busy_def)

lemma wake_clients_pc [simp]:
  "wake_clients cls c = CCatch \<longleftrightarrow> cls c = CCatch" "wake_clients cls c = CStopping \<longleftrightarrow> cls c = CStopping"
  "wake_clients cls c = CJoin k \<longleftrightarrow> cls c = CJoin k" "wake_clients cls c = CJoined \<longleftrightarrow> cls c = CJoined"
  "wake_clients cls c = CNotify \<longleftrightarrow> cls c = CNotify" "wake_clients cls c \<noteq> CWaiting timed"
  by (auto simp: wake_clients_def split: client_pc.splits)

lemma may_call_simps [simp]:
  "\<not> may_call CNotify" "\<not> may_call CCatch" "\<not> may_call CStopping" "\<not> may_call (CJoin k)" "\<not> may_call CJoined"
  "\<not> may_call (CWaiting t)" "\<not> may_call (CWoken t)" "\<not> may_call CTimedOut"
  by (simp_all add: may_call_def)

lemma card_busy_le: "card (busy n pcs) \<le> n"
  using card_mono [of "{..<n}" "busy n pcs"] by (auto simp: busy_def)

lemma of_nat_card_busy:
  assumes "n < 2 ^ 64"
  shows "(of_nat (card (busy n pcs)) :: u64) = 0 \<longleftrightarrow> busy n pcs = {}"
proof -
  have "card (busy n pcs) < 2 ^ 64" using card_busy_le [of n pcs] assms by simp
  then have "unat (of_nat (card (busy n pcs)) :: u64) = card (busy n pcs)" by (simp add: unat_of_nat)
  then show ?thesis by (metis card_0_eq finite_busy unat_eq_zero)
qed

lemmas section_defs = worker_section_def finish_section_def oo_enqueue_def shutdown_section_def
  shutdown_now_section_def all_finished_def

text \<open>What one section of a worker does.\<close>

lemma worker_section_cases:
  assumes "worker_section p = (p', pc)"
  obtains "\<not> oo_stop p" "oo_tasks p = []" "p' = p" "pc = WBlocking"
    | "oo_stop p" "oo_tasks p = []" "p' = p" "pc = WExited"
    | t ts where "oo_tasks p = t # ts" "p' = p\<lparr>oo_tasks := ts, oo_active_threads := oo_active_threads p + 1\<rparr>"
        "pc = WRunning t"
  using assms by (cases "oo_tasks p") (auto simp: worker_section_def split: if_splits)

lemma worker_index: "shape_inv n p pcs lock \<Longrightarrow> pcs i \<noteq> WAbsent \<Longrightarrow> i < n"
  unfolding shape_inv_def by (metis not_le)

lemma shape_pool:
  "shape_inv n p pcs None \<Longrightarrow> oo_workers p' = oo_workers p
     \<Longrightarrow> (oo_stop p \<Longrightarrow> oo_tasks p = [] \<Longrightarrow> oo_stop p' \<and> oo_tasks p' = []) \<Longrightarrow> shape_inv n p' pcs None"
  by (auto simp: shape_inv_def)

lemma shape_pc:
  assumes "shape_inv n p pcs lock" "pcs i \<noteq> WAbsent" "pcs i \<noteq> WBlocking" "pc \<noteq> WAbsent" "pc \<noteq> WBlocking"
    "pc = WExited \<Longrightarrow> oo_stop p \<and> oo_tasks p = []"
  shows "shape_inv n p (pcs(i := pc)) lock"
  using assms by (auto simp: shape_inv_def)

lemma shape_block:
  assumes "shape_inv n p pcs None" "pcs i \<noteq> WAbsent" "\<not> oo_stop p" "oo_tasks p = []"
  shows "shape_inv n p (pcs(i := WBlocking)) (Some i)"
  using assms by (auto simp: shape_inv_def)

lemma shape_unblock:
  assumes "shape_inv n p pcs lock" "pcs i = WBlocking"
  shows "shape_inv n p (pcs(i := WWaiting)) None"
proof -
  have "i < n" by (rule worker_index [OF assms(1)]) (simp add: assms(2))
  then show ?thesis using assms by (auto simp: shape_inv_def)
qed

lemma shape_wake: "shape_inv n p pcs lock \<Longrightarrow> shape_inv n p (wake_workers pcs) lock"
  by (simp add: shape_inv_def)

lemma stop_invI:
  assumes "\<And>c. cls c \<noteq> CCatch" "\<And>c. cls c = CStopping \<Longrightarrow> s"
    "\<And>i. s \<Longrightarrow> pcs i = WWaiting \<Longrightarrow> \<exists>c. cls c = CStopping" "\<And>c k. cls c = CJoin k \<Longrightarrow> k \<le> n"
    "\<And>c k i. cls c = CJoin k \<Longrightarrow> i < k \<Longrightarrow> pcs i = WExited" "\<And>c i. cls c = CJoined \<Longrightarrow> i < n \<Longrightarrow> pcs i = WExited"
  shows "stop_inv n s pcs cls"
  unfolding stop_inv_def using assms by blast

lemma stop_invD:
  assumes "stop_inv n s pcs cls"
  shows "cls c \<noteq> CCatch" "cls c = CStopping \<Longrightarrow> s"
    "s \<Longrightarrow> pcs i = WWaiting \<Longrightarrow> \<exists>c. cls c = CStopping" "cls c = CJoin k \<Longrightarrow> k \<le> n"
    "cls c = CJoin k \<Longrightarrow> i < k \<Longrightarrow> pcs i = WExited" "cls c = CJoined \<Longrightarrow> i < n \<Longrightarrow> pcs i = WExited"
proof -
  note a = assms [unfolded stop_inv_def]
  from a show "cls c \<noteq> CCatch" by (elim conjE) simp
  from a have "\<forall>c. cls c = CStopping \<longrightarrow> s" by (elim conjE) assumption
  then show "cls c = CStopping \<Longrightarrow> s" by blast
  from a have "s \<longrightarrow> (\<exists>i. pcs i = WWaiting) \<longrightarrow> (\<exists>c. cls c = CStopping)" by (elim conjE) assumption
  then show "s \<Longrightarrow> pcs i = WWaiting \<Longrightarrow> \<exists>c. cls c = CStopping" by blast
  from a show "cls c = CJoin k \<Longrightarrow> k \<le> n" by (elim conjE) simp
  from a show "cls c = CJoin k \<Longrightarrow> i < k \<Longrightarrow> pcs i = WExited" by (elim conjE) simp
  from a have "\<forall>c. cls c = CJoined \<longrightarrow> (\<forall>i<n. pcs i = WExited)" by (elim conjE) assumption
  then show "cls c = CJoined \<Longrightarrow> i < n \<Longrightarrow> pcs i = WExited" by blast
qed

lemma exists_other: "\<exists>d. f d = q \<Longrightarrow> f c \<noteq> q \<Longrightarrow> \<exists>d. (f(c := x)) d = q"
  by (metis fun_upd_other)

lemma stop_pc:
  assumes "stop_inv n s pcs cls" "pcs i \<noteq> WExited" "s \<Longrightarrow> pc \<noteq> WWaiting"
  shows "stop_inv n s (pcs(i := pc)) cls"
proof (rule stop_invI)
  note D = stop_invD [OF assms(1)]
  show "\<exists>c. cls c = CStopping" if "s" "(pcs(i := pc)) j = WWaiting" for j
    using that assms(3) D(3) [of j] by (cases "j = i") auto
  have keep: "(pcs(i := pc)) j = WExited" if "pcs j = WExited" for j
    using that assms(2) by (cases "j = i") auto
  show "(pcs(i := pc)) j = WExited" if "cls c = CJoin k" "j < k" for c k j by (rule keep) (rule D(5) [OF that])
  show "(pcs(i := pc)) j = WExited" if "cls c = CJoined" "j < n" for c j by (rule keep) (rule D(6) [OF that])
qed (fact stop_invD [OF assms(1)])+

text \<open>The states of a calling thread that the stop does not speak of.\<close>

definition quiet_pc :: "client_pc \<Rightarrow> bool" where
  "quiet_pc pc \<longleftrightarrow> (case pc of CCatch \<Rightarrow> False | CStopping \<Rightarrow> False | CJoin k \<Rightarrow> False | CJoined \<Rightarrow> False | _ \<Rightarrow> True)"

lemma quiet_pc_simps [simp]:
  "quiet_pc CIdle" "quiet_pc CNotify" "quiet_pc (CWaiting t)" "quiet_pc (CWoken t)" "quiet_pc CTimedOut" "quiet_pc (CReturned b)"
  "\<not> quiet_pc CCatch" "\<not> quiet_pc CStopping" "\<not> quiet_pc (CJoin k)" "\<not> quiet_pc CJoined"
  by (simp_all add: quiet_pc_def)

lemma stop_client:
  assumes "stop_inv n s pcs cls" "cls c \<noteq> CStopping"
    and x: "quiet_pc x \<or> (\<exists>k\<le>n. x = CJoin k \<and> (\<forall>i<k. pcs i = WExited)) \<or> x = CJoined \<and> (\<forall>i<n. pcs i = WExited)"
  shows "stop_inv n s pcs (cls(c := x))"
proof (rule stop_invI)
  note D = stop_invD [OF assms(1)]
  show "\<exists>d. (cls(c := x)) d = CStopping" if "s" "pcs i = WWaiting" for i
    using D(3) [OF that] assms(2) by (rule exists_other)
  show "(cls(c := x)) d \<noteq> CCatch" for d using x D(1) by (cases "d = c") auto
  show "s" if "(cls(c := x)) d = CStopping" for d using that x D(2) [of d] by (cases "d = c") auto
  show "k \<le> n" if "(cls(c := x)) d = CJoin k" for d k using that x D(4) [of d k] by (cases "d = c") auto
  show "pcs i = WExited" if "(cls(c := x)) d = CJoin k" "i < k" for d k i
    using that x D(5) [of d k i] by (cases "d = c") auto
  show "pcs i = WExited" if "(cls(c := x)) d = CJoined" "i < n" for d i
    using that x D(6) [of d i] by (cases "d = c") auto
qed

lemma stop_set:
  assumes "stop_inv n s pcs cls"
  shows "stop_inv n True pcs (cls(c := CStopping))"
proof (rule stop_invI)
  note D = stop_invD [OF assms(1)]
  show "\<exists>d. (cls(c := CStopping)) d = CStopping" for i :: nat by (intro exI [of _ c]) simp
  show "(cls(c := CStopping)) d \<noteq> CCatch" for d using D(1) by (cases "d = c") auto
  show "k \<le> n" if "(cls(c := CStopping)) d = CJoin k" for d k using that D(4) [of d k] by (cases "d = c") auto
  show "pcs i = WExited" if "(cls(c := CStopping)) d = CJoin k" "i < k" for d k i
    using that D(5) [of d k i] by (cases "d = c") auto
  show "pcs i = WExited" if "(cls(c := CStopping)) d = CJoined" "i < n" for d i
    using that D(6) [of d i] by (cases "d = c") auto
qed simp

lemma stop_wake_clients: "stop_inv n s pcs cls \<Longrightarrow> stop_inv n s pcs (wake_clients cls)"
  by (simp add: stop_inv_def)

lemma stop_notify_all:
  assumes "stop_inv n s pcs cls" "cls c = CStopping"
  shows "stop_inv n s (wake_workers pcs) (cls(c := CJoin 0))"
proof (rule stop_invI)
  note D = stop_invD [OF assms(1)]
  show "(cls(c := CJoin 0)) d \<noteq> CCatch" for d using D(1) by (cases "d = c") auto
  show "s" if "(cls(c := CJoin 0)) d = CStopping" for d using that D(2) [of d] by (cases "d = c") auto
  show "k \<le> n" if "(cls(c := CJoin 0)) d = CJoin k" for d k using that D(4) [of d k] by (cases "d = c") auto
  show "wake_workers pcs i = WExited" if "(cls(c := CJoin 0)) d = CJoin k" "i < k" for d k i
    using that D(5) [of d k i] by (cases "d = c") auto
  show "wake_workers pcs i = WExited" if "(cls(c := CJoin 0)) d = CJoined" "i < n" for d i
    using that D(6) [of d i] by (cases "d = c") auto
qed simp

lemma history_same:
  assumes "history_inv n p pcs acc st dr" "busy_pc pc = busy_pc (pcs i)"
  shows "history_inv n p (pcs(i := pc)) acc st dr"
  using assms busy_same [of pc pcs i n] by (simp add: history_inv_def)

lemma history_stop:
  "history_inv n p pcs acc st dr \<Longrightarrow> history_inv n (p\<lparr>oo_stop := True\<rparr>) pcs acc st dr"
  by (auto simp: history_inv_def)

lemma history_wake: "history_inv n p pcs acc st dr \<Longrightarrow> history_inv n p (wake_workers pcs) acc st dr"
  by (simp add: history_inv_def)

lemma history_take:
  assumes "history_inv n p pcs acc st dr" "oo_tasks p = t # ts" "i < n" "\<not> busy_pc (pcs i)"
  shows "history_inv n (p\<lparr>oo_tasks := ts, oo_active_threads := oo_active_threads p + 1\<rparr>) (pcs(i := WRunning t))
    acc (st @ [t]) dr"
proof -
  have b: "busy n (pcs(i := WRunning t)) = insert i (busy n pcs)" by (rule busy_enter) (simp_all add: assms(3))
  have "card (insert i (busy n pcs)) = Suc (card (busy n pcs))" using assms(4) by (simp add: card_insert_if)
  moreover have "dr = []" using assms(1,2) by (auto simp: history_inv_def)
  ultimately show ?thesis using assms(1,2) by (auto simp: history_inv_def b algebra_simps)
qed

lemma history_finish:
  assumes "history_inv n p pcs acc st dr" "i < n" "busy_pc (pcs i)"
  shows "history_inv n (fst (finish_section p)) (pcs(i := WLock)) acc st dr"
proof -
  have b: "busy n (pcs(i := WLock)) = busy n pcs - {i}" by (rule busy_leave) simp
  have "card (busy n pcs) = Suc (card (busy n pcs - {i}))"
    using assms(2,3) by (intro card.remove) simp_all
  then show ?thesis
    using assms(1) by (auto simp: history_inv_def b finish_section_def Let_def algebra_simps)
qed

lemma history_put:
  "history_inv n p pcs acc st dr \<Longrightarrow> \<not> oo_stop p
     \<Longrightarrow> history_inv n (p\<lparr>oo_tasks := oo_tasks p @ [t]\<rparr>) pcs (acc @ [t]) st dr"
  by (auto simp: history_inv_def)

lemma history_drop:
  "history_inv n p pcs acc st dr \<Longrightarrow> \<not> oo_stop p
     \<Longrightarrow> history_inv n (p\<lparr>oo_stop := True, oo_tasks := []\<rparr>) pcs acc st (dr @ oo_tasks p)"
  by (auto simp: history_inv_def)

lemma wake_pc:
  assumes "wake_inv n ts pcs cls dr" "busy_pc pc = busy_pc (pcs i)" "pc \<noteq> WWaiting \<or> ts = []" "i < n"
  shows "wake_inv n ts (pcs(i := pc)) cls dr"
proof -
  have "\<exists>j<n. (pcs(i := pc)) j \<noteq> WWaiting" if "ts \<noteq> []"
    using that assms(3,4) by (intro exI [of _ i]) simp
  then show ?thesis using assms(1,2) busy_same [of pc pcs i n] by (auto simp: wake_inv_def)
qed

text \<open>The states of a calling thread that the wake-ups do not speak of.\<close>

definition awake_pc :: "client_pc \<Rightarrow> bool" where
  "awake_pc pc \<longleftrightarrow> (case pc of CWaiting t \<Rightarrow> False | _ \<Rightarrow> True)"

lemma awake_pc_simps [simp]:
  "awake_pc CIdle" "awake_pc CNotify" "awake_pc CStopping" "awake_pc (CJoin k)" "awake_pc CJoined" "awake_pc (CWoken t)"
  "awake_pc CTimedOut" "awake_pc (CReturned b)" "awake_pc CCatch" "\<not> awake_pc (CWaiting t)"
  by (simp_all add: awake_pc_def)

lemma wake_client:
  assumes "wake_inv n ts pcs cls dr" "cls c \<noteq> CNotify"
    and "awake_pc x \<or> ts \<noteq> [] \<or> busy n pcs \<noteq> {} \<or> dr \<noteq> []"
  shows "wake_inv n ts pcs (cls(c := x)) dr"
  unfolding wake_inv_def
proof (intro conjI allI impI)
  show "(\<exists>i<n. pcs i \<noteq> WWaiting) \<or> (\<exists>d. (cls(c := x)) d = CNotify)" if "ts \<noteq> []"
    using assms(1) that exists_other [where f = cls and q = CNotify and c = c and x = x, OF _ assms(2)] unfolding wake_inv_def by blast
  show "ts \<noteq> [] \<or> busy n pcs \<noteq> {} \<or> dr \<noteq> []" if "(cls(c := x)) d = CWaiting timed" for d timed
    using assms(1,3) that by (cases "d = c") (auto simp: wake_inv_def)
qed

lemma wake_put:
  assumes "wake_inv n ts pcs cls dr"
  shows "wake_inv n (ts @ [t]) pcs (cls(c := CNotify)) dr"
  unfolding wake_inv_def by (auto intro: exI [of _ c])

lemma wake_notify:
  assumes "wake_inv n ts pcs cls dr" "cls c = CNotify" "0 < n" "\<forall>i. pcs i = WAbsent \<longleftrightarrow> n \<le> i"
    and p: "if \<exists>j. pcs j = WWaiting then \<exists>j. pcs j = WWaiting \<and> pcs' = pcs(j := WLock) else pcs' = pcs"
  shows "wake_inv n ts pcs' (cls(c := CIdle)) dr"
proof -
  have "(\<exists>i<n. pcs' i \<noteq> WWaiting) \<and> busy n pcs' = busy n pcs"
  proof (cases "\<exists>j. pcs j = WWaiting")
    case True
    then obtain j where j: "pcs j = WWaiting" "pcs' = pcs(j := WLock)" using p by auto
    then have "j < n" using assms(4) by (metis not_le worker_pc.distinct(5))
    then show ?thesis using j busy_same [of WLock pcs j n] by auto
  next
    case False
    then show ?thesis using p assms(3) by auto
  qed
  moreover have "d \<noteq> c \<Longrightarrow> (cls(c := CIdle)) d = cls d" for d by simp
  ultimately show ?thesis using assms(1) unfolding wake_inv_def
    by (metis client_pc.distinct(11) fun_upd_apply)
qed

lemma wake_workers_inv:
  assumes "wake_inv n ts pcs cls dr" "0 < n"
  shows "wake_inv n ts (wake_workers pcs) cls dr"
  using assms by (auto simp: wake_inv_def)

lemma wake_take:
  assumes "wake_inv n (t # ts) pcs cls dr" "i < n"
  shows "wake_inv n ts (pcs(i := WRunning t)) cls dr"
proof -
  have b: "busy n (pcs(i := WRunning t)) = insert i (busy n pcs)" by (rule busy_enter) (simp_all add: assms(2))
  have "\<exists>j<n. (pcs(i := WRunning t)) j \<noteq> WWaiting" using assms(2) by (intro exI [of _ i]) simp
  then show ?thesis unfolding wake_inv_def b by auto
qed

lemma wake_finish:
  assumes "wake_inv n ts pcs cls dr" "i < n"
    and "\<not> notify \<Longrightarrow> ts \<noteq> [] \<or> busy n pcs - {i} \<noteq> {}"
  shows "wake_inv n ts (pcs(i := WLock)) (if notify then wake_clients cls else cls) dr"
proof -
  have b: "busy n (pcs(i := WLock)) = busy n pcs - {i}" by (rule busy_leave) simp
  have "\<exists>j<n. (pcs(i := WLock)) j \<noteq> WWaiting" using assms(2) by (intro exI [of _ i]) simp
  then show ?thesis using assms(3) unfolding wake_inv_def b by auto
qed

subsection \<open>Every step keeps the invariant\<close>

lemma oo_invD:
  assumes "oo_inv n w"
  shows "shape_inv n (o_pool w) (o_pc w) (o_lock w)" "stop_inv n (oo_stop (o_pool w)) (o_pc w) (o_cl w)"
    "history_inv n (o_pool w) (o_pc w) (o_accepted w) (o_started w) (o_dropped w)"
    "wake_inv n (oo_tasks (o_pool w)) (o_pc w) (o_cl w) (o_dropped w)"
  using assms by (simp_all add: oo_inv_def)

lemma oo_inv_worker:
  assumes inv: "oo_inv n w" and step: "worker_step i w w'"
  shows "oo_inv n w'"
  using step
proof cases
  case (ws_section p pc)
  note I = oo_invD [OF inv]
  have i: "i < n" using worker_index [OF I(1), of i] ws_section(2) by simp
  note S = I(1) [unfolded ws_section(3)]
  from ws_section(4) show ?thesis
  proof (cases rule: worker_section_cases)
    case 1
    have "shape_inv n (o_pool w) ((o_pc w)(i := WBlocking)) (Some i)"
      using shape_block [OF S, of i] ws_section(2) 1 by simp
    moreover have "stop_inv n (oo_stop (o_pool w)) ((o_pc w)(i := WBlocking)) (o_cl w)"
      by (rule stop_pc [OF I(2)]) (simp_all add: ws_section(2))
    moreover note history_same [OF I(3), of WBlocking i] wake_pc [OF I(4), of WBlocking i]
    ultimately show ?thesis using 1 i ws_section by (simp add: oo_inv_def)
  next
    case 2
    have "shape_inv n (o_pool w) ((o_pc w)(i := WExited)) None"
      by (rule shape_pc [OF S]) (simp_all add: ws_section(2) 2)
    moreover have "stop_inv n (oo_stop (o_pool w)) ((o_pc w)(i := WExited)) (o_cl w)"
      by (rule stop_pc [OF I(2)]) (simp_all add: ws_section(2))
    moreover note history_same [OF I(3), of WExited i] wake_pc [OF I(4), of WExited i]
    ultimately show ?thesis using 2 i ws_section by (simp add: oo_inv_def)
  next
    case (3 t ts)
    have "shape_inv n p (o_pc w) None" by (rule shape_pool [OF S]) (simp_all add: 3)
    then have "shape_inv n p ((o_pc w)(i := WRunning t)) None"
      by (rule shape_pc) (simp_all add: ws_section(2))
    moreover have "stop_inv n (oo_stop (o_pool w)) ((o_pc w)(i := WRunning t)) (o_cl w)"
      by (rule stop_pc [OF I(2)]) (simp_all add: ws_section(2))
    moreover note history_take [OF I(3) 3(1) i] wake_take [OF I(4) [unfolded 3(1)] i]
    ultimately show ?thesis using 3 ws_section by (simp add: oo_inv_def)
  qed
next
  case ws_block
  note I = oo_invD [OF inv]
  have i: "i < n" using worker_index [OF I(1), of i] ws_block(2) by simp
  have l: "o_lock w = Some i" "\<not> oo_stop (o_pool w)" "oo_tasks (o_pool w) = []"
    using I(1) ws_block(2) by (auto simp: shape_inv_def)
  have "stop_inv n (oo_stop (o_pool w)) ((o_pc w)(i := WWaiting)) (o_cl w)"
    by (rule stop_pc [OF I(2)]) (simp_all add: ws_block(2) l)
  then show ?thesis
    using shape_unblock [OF I(1) ws_block(2)] history_same [OF I(3), of WWaiting i] wake_pc [OF I(4), of WWaiting i]
      ws_block i l by (simp add: oo_inv_def)
next
  case (ws_run t)
  note I = oo_invD [OF inv]
  have i: "i < n" using worker_index [OF I(1), of i] ws_run(2) by simp
  have "shape_inv n (o_pool w) ((o_pc w)(i := WRan t)) (o_lock w)"
    by (rule shape_pc [OF I(1)]) (simp_all add: ws_run(2))
  moreover have "stop_inv n (oo_stop (o_pool w)) ((o_pc w)(i := WRan t)) (o_cl w)"
    by (rule stop_pc [OF I(2)]) (simp_all add: ws_run(2))
  ultimately show ?thesis
    using history_same [OF I(3), of "WRan t" i] wake_pc [OF I(4), of "WRan t" i] ws_run i by (simp add: oo_inv_def)
next
  case (ws_finish t p notify)
  note I = oo_invD [OF inv]
  have i: "i < n" using worker_index [OF I(1), of i] ws_finish(2) by simp
  have p: "p = fst (finish_section (o_pool w))" "oo_tasks p = oo_tasks (o_pool w)" "oo_stop p = oo_stop (o_pool w)"
    "oo_workers p = oo_workers (o_pool w)" "notify \<longleftrightarrow> oo_tasks p = [] \<and> oo_active_threads p = 0"
    using ws_finish(4) by (auto simp: finish_section_def Let_def)
  have "shape_inv n p (o_pc w) None" by (rule shape_pool [OF I(1) [unfolded ws_finish(3)]]) (simp_all add: p(2-4))
  then have "shape_inv n p ((o_pc w)(i := WLock)) None" by (rule shape_pc) (simp_all add: ws_finish(2))
  moreover have "stop_inv n (oo_stop (o_pool w)) ((o_pc w)(i := WLock)) (o_cl w)"
    by (rule stop_pc [OF I(2)]) (simp_all add: ws_finish(2))
  then have "stop_inv n (oo_stop p) ((o_pc w)(i := WLock)) (if notify then wake_clients (o_cl w) else o_cl w)"
    by (simp add: p(3) stop_wake_clients)
  moreover have h: "history_inv n p ((o_pc w)(i := WLock)) (o_accepted w) (o_started w) (o_dropped w)"
    unfolding p(1) by (rule history_finish [OF I(3) i]) (simp add: ws_finish(2))
  moreover have "wake_inv n (oo_tasks p) ((o_pc w)(i := WLock)) (if notify then wake_clients (o_cl w) else o_cl w) (o_dropped w)"
    unfolding p(2)
  proof (rule wake_finish [OF I(4) i])
    assume "\<not> notify"
    moreover have "oo_active_threads p = 0 \<longleftrightarrow> busy n ((o_pc w)(i := WLock)) = {}"
      using h I(1) by (simp add: history_inv_def shape_inv_def of_nat_card_busy)
    ultimately show "oo_tasks (o_pool w) \<noteq> [] \<or> busy n (o_pc w) - {i} \<noteq> {}"
      using p(2,5) busy_leave [of WLock n "o_pc w" i] by auto
  qed
  ultimately show ?thesis using ws_finish by (simp add: oo_inv_def)
qed

lemma oo_inv_client:
  assumes inv: "oo_inv n w" and step: "caller_step c w w'"
  shows "oo_inv n w'"
  using step
proof cases
  case (cs_enqueue t p)
  note I = oo_invD [OF inv]
  have p: "\<not> oo_stop (o_pool w)" "p = (o_pool w)\<lparr>oo_tasks := oo_tasks (o_pool w) @ [t]\<rparr>"
    using cs_enqueue(4) by (auto simp: oo_enqueue_def split: if_splits)
  have c: "o_cl w c \<noteq> CStopping" using cs_enqueue(2) by auto
  have "shape_inv n p (o_pc w) None"
    by (rule shape_pool [OF I(1) [unfolded cs_enqueue(3)]]) (simp_all add: p)
  moreover have "stop_inv n (oo_stop (o_pool w)) (o_pc w) ((o_cl w)(c := CNotify))"
    by (rule stop_client [OF I(2) c]) simp
  ultimately show ?thesis using p history_put [OF I(3) p(1)] wake_put [OF I(4)] cs_enqueue
    by (simp add: oo_inv_def)
next
  case (cs_notify pcs)
  note I = oo_invD [OF inv]
  have c: "o_cl w c \<noteq> CStopping" using cs_notify(2) by simp
  have a: "0 < n" "\<forall>i. o_pc w i = WAbsent \<longleftrightarrow> n \<le> i" using I(1) by (simp_all add: shape_inv_def)
  have "pcs = o_pc w \<or> (\<exists>j. o_pc w j = WWaiting \<and> pcs = (o_pc w)(j := WLock))"
    using cs_notify(3) by (auto split: if_splits)
  then have "shape_inv n (o_pool w) pcs (o_lock w) \<and> stop_inv n (oo_stop (o_pool w)) pcs (o_cl w)
      \<and> history_inv n (o_pool w) pcs (o_accepted w) (o_started w) (o_dropped w)"
  proof (elim disjE exE conjE)
    fix j assume j: "o_pc w j = WWaiting" "pcs = (o_pc w)(j := WLock)"
    have "shape_inv n (o_pool w) pcs (o_lock w)" unfolding j(2) by (rule shape_pc [OF I(1)]) (simp_all add: j(1))
    moreover have "stop_inv n (oo_stop (o_pool w)) pcs (o_cl w)"
      unfolding j(2) by (rule stop_pc [OF I(2)]) (simp_all add: j(1))
    ultimately show ?thesis using history_same [OF I(3), of WLock j] j by simp
  qed (use I in simp)
  moreover from this have "stop_inv n (oo_stop (o_pool w)) pcs ((o_cl w)(c := CIdle))"
    by (intro stop_client) (simp_all add: c)
  ultimately show ?thesis using wake_notify [OF I(4) cs_notify(2) a cs_notify(3)] cs_notify(1)
    by (simp add: oo_inv_def)
next
  case (cs_shutdown p)
  note I = oo_invD [OF inv]
  have p: "p = (o_pool w)\<lparr>oo_stop := True\<rparr>" using cs_shutdown(4) by (auto simp: shutdown_section_def split: if_splits)
  have "shape_inv n p (o_pc w) None" by (rule shape_pool [OF I(1) [unfolded cs_shutdown(3)]]) (simp_all add: p)
  moreover have "wake_inv n (oo_tasks (o_pool w)) (o_pc w) ((o_cl w)(c := CStopping)) (o_dropped w)"
    by (rule wake_client [OF I(4)]) (use cs_shutdown(2) in auto)
  ultimately show ?thesis using p stop_set [OF I(2)] history_stop [OF I(3)] cs_shutdown by (simp add: oo_inv_def)
next
  case (cs_shutdown_now p old)
  note I = oo_invD [OF inv]
  have p: "\<not> oo_stop (o_pool w)" "p = (o_pool w)\<lparr>oo_stop := True, oo_tasks := []\<rparr>" "old = oo_tasks (o_pool w)"
    using cs_shutdown_now(4) by (auto simp: shutdown_now_section_def split: if_splits)
  have "shape_inv n p (o_pc w) None" by (rule shape_pool [OF I(1) [unfolded cs_shutdown_now(3)]]) (simp_all add: p)
  moreover have "wake_inv n [] (o_pc w) ((o_cl w)(c := CStopping)) (o_dropped w @ old)"
    using I(4) p(3) by (auto simp: wake_inv_def)
  ultimately show ?thesis using p stop_set [OF I(2)] history_drop [OF I(3) p(1)] cs_shutdown_now
    by (simp add: oo_inv_def)
next
  case cs_catch
  then show ?thesis using stop_invD(1) [OF oo_invD(2) [OF inv], of c] by simp
next
  case cs_notify_all
  note I = oo_invD [OF inv]
  have "wake_inv n (oo_tasks (o_pool w)) (o_pc w) ((o_cl w)(c := CJoin 0)) (o_dropped w)"
    by (rule wake_client [OF I(4)]) (simp_all add: cs_notify_all(2))
  then have "wake_inv n (oo_tasks (o_pool w)) (wake_workers (o_pc w)) ((o_cl w)(c := CJoin 0)) (o_dropped w)"
    by (rule wake_workers_inv) (use I(1) in \<open>simp add: shape_inv_def\<close>)
  then show ?thesis
    using shape_wake [OF I(1)] stop_notify_all [OF I(2) cs_notify_all(2)] history_wake [OF I(3)] cs_notify_all(1)
    by (simp add: oo_inv_def)
next
  case (cs_join k)
  note I = oo_invD [OF inv]
  have n: "oo_workers (o_pool w) = n" using I(1) by (simp add: shape_inv_def)
  have "stop_inv n (oo_stop (o_pool w)) (o_pc w) ((o_cl w)(c := CJoin (Suc k)))"
  proof (rule stop_client [OF I(2)])
    have "\<forall>i<k. o_pc w i = WExited" using stop_invD(5) [OF I(2) cs_join(2)] by blast
    then show "quiet_pc (CJoin (Suc k)) \<or> (\<exists>m\<le>n. CJoin (Suc k) = CJoin m \<and> (\<forall>i<m. o_pc w i = WExited))
      \<or> CJoin (Suc k) = CJoined \<and> (\<forall>i<n. o_pc w i = WExited)"
      using cs_join(3,4) n by (auto simp: less_Suc_eq)
  qed (simp add: cs_join(2))
  moreover have "wake_inv n (oo_tasks (o_pool w)) (o_pc w) ((o_cl w)(c := CJoin (Suc k))) (o_dropped w)"
    by (rule wake_client [OF I(4)]) (simp_all add: cs_join(2))
  ultimately show ?thesis using I(1,3) cs_join(1) by (simp add: oo_inv_def)
next
  case (cs_joined k)
  note I = oo_invD [OF inv]
  have n: "oo_workers (o_pool w) = n" using I(1) by (simp add: shape_inv_def)
  have "stop_inv n (oo_stop (o_pool w)) (o_pc w) ((o_cl w)(c := CJoined))"
  proof (rule stop_client [OF I(2)])
    have "\<forall>i<n. o_pc w i = WExited" using stop_invD(5) [OF I(2) cs_joined(2)] cs_joined(3) n by simp
    then show "quiet_pc CJoined \<or> (\<exists>m\<le>n. CJoined = CJoin m \<and> (\<forall>i<m. o_pc w i = WExited))
      \<or> CJoined = CJoined \<and> (\<forall>i<n. o_pc w i = WExited)" by simp
  qed (simp add: cs_joined(2))
  moreover have "wake_inv n (oo_tasks (o_pool w)) (o_pc w) ((o_cl w)(c := CJoined)) (o_dropped w)"
    by (rule wake_client [OF I(4)]) (simp_all add: cs_joined(2))
  ultimately show ?thesis using I(1,3) cs_joined(1) by (simp add: oo_inv_def)
next
  case (cs_wait timed)
  note I = oo_invD [OF inv]
  let ?x = "if all_finished (o_pool w) then CReturned True else CWaiting timed"
  have c: "o_cl w c \<noteq> CStopping" "o_cl w c \<noteq> CNotify" using cs_wait(2) by auto
  have "stop_inv n (oo_stop (o_pool w)) (o_pc w) ((o_cl w)(c := ?x))"
    by (rule stop_client [OF I(2) c(1)]) simp
  moreover have "wake_inv n (oo_tasks (o_pool w)) (o_pc w) ((o_cl w)(c := ?x)) (o_dropped w)"
  proof (rule wake_client [OF I(4) c(2)])
    have "oo_active_threads (o_pool w) = 0 \<longleftrightarrow> busy n (o_pc w) = {}"
      using I(1,3) by (simp add: history_inv_def shape_inv_def of_nat_card_busy)
    then show "awake_pc ?x \<or> oo_tasks (o_pool w) \<noteq> [] \<or> busy n (o_pc w) \<noteq> {} \<or> o_dropped w \<noteq> []"
      by (auto simp: all_finished_def)
  qed
  ultimately show ?thesis using I(1,3) cs_wait(1) by (simp add: oo_inv_def)
next
  case cs_timeout
  note I = oo_invD [OF inv]
  have "stop_inv n (oo_stop (o_pool w)) (o_pc w) ((o_cl w)(c := CTimedOut))"
    by (rule stop_client [OF I(2)]) (simp_all add: cs_timeout(2))
  moreover have "wake_inv n (oo_tasks (o_pool w)) (o_pc w) ((o_cl w)(c := CTimedOut)) (o_dropped w)"
    by (rule wake_client [OF I(4)]) (simp_all add: cs_timeout(2))
  ultimately show ?thesis using I(1,3) cs_timeout(1) by (simp add: oo_inv_def)
next
  case cs_timed_out
  note I = oo_invD [OF inv]
  let ?x = "CReturned (all_finished (o_pool w))"
  have "stop_inv n (oo_stop (o_pool w)) (o_pc w) ((o_cl w)(c := ?x))"
    by (rule stop_client [OF I(2)]) (simp_all add: cs_timed_out(2))
  moreover have "wake_inv n (oo_tasks (o_pool w)) (o_pc w) ((o_cl w)(c := ?x)) (o_dropped w)"
    by (rule wake_client [OF I(4)]) (simp_all add: cs_timed_out(2))
  ultimately show ?thesis using I(1,3) cs_timed_out(1) by (simp add: oo_inv_def)
qed

lemma oo_inv_spurious:
  assumes inv: "oo_inv n w" and step: "spurious_step w w'"
  shows "oo_inv n w'"
  using step
proof cases
  case (sp_worker i)
  note I = oo_invD [OF inv]
  have i: "i < n" using worker_index [OF I(1), of i] sp_worker(2) by simp
  have "shape_inv n (o_pool w) ((o_pc w)(i := WLock)) (o_lock w)"
    by (rule shape_pc [OF I(1)]) (simp_all add: sp_worker(2))
  moreover have "stop_inv n (oo_stop (o_pool w)) ((o_pc w)(i := WLock)) (o_cl w)"
    by (rule stop_pc [OF I(2)]) (simp_all add: sp_worker(2))
  ultimately show ?thesis
    using history_same [OF I(3), of WLock i] wake_pc [OF I(4), of WLock i] sp_worker i by (simp add: oo_inv_def)
next
  case (sp_client c timed)
  note I = oo_invD [OF inv]
  have "stop_inv n (oo_stop (o_pool w)) (o_pc w) ((o_cl w)(c := CWoken timed))"
    by (rule stop_client [OF I(2)]) (simp_all add: sp_client(2))
  moreover have "wake_inv n (oo_tasks (o_pool w)) (o_pc w) ((o_cl w)(c := CWoken timed)) (o_dropped w)"
    by (rule wake_client [OF I(4)]) (simp_all add: sp_client(2))
  ultimately show ?thesis using I(1,3) sp_client(1) by (simp add: oo_inv_def)
qed

lemma spawn_workers_whole: "spawn_workers ok i k = (m, True) \<Longrightarrow> m = i + k"
  by (induction ok i k rule: spawn_workers.induct) (auto split: if_splits)

lemma oo_create_done:
  assumes "oo_create ok n = CtorDone p"
  shows "0 < n \<and> p = \<lparr>oo_workers = n, oo_tasks = [], oo_stop = False, oo_active_threads = 0, oo_completed_tasks = 0\<rparr>"
  using assms spawn_workers_whole [of ok 0 n] by (auto simp: oo_create_def Let_def split: if_splits prod.splits)

lemma oo_inv_start:
  fixes p :: "'a oo_pool"
  assumes "oo_create ok n = CtorDone p" "n < 2 ^ 64"
  shows "oo_inv n (oo_start p CIdle)"
proof -
  have "busy n (\<lambda>i. if i < n then WLock else WAbsent :: 'a worker_pc) = {}" by (auto simp: busy_def)
  then show ?thesis
    using oo_create_done [OF assms(1)] assms(2)
    by (simp add: oo_inv_def oo_start_def shape_inv_def stop_inv_def history_inv_def wake_inv_def not_less)
qed

lemma oo_reach_inv:
  assumes "oo_reach n w"
  shows "oo_inv n w"
proof -
  from assms obtain ok p where p: "n < 2 ^ 64" "oo_create ok n = CtorDone p" "oo_step\<^sup>*\<^sup>* (oo_start p CIdle) w"
    by (auto simp: oo_reach_def)
  from p(3) show ?thesis
    by (induction rule: rtranclp_induct)
      (use oo_inv_start [OF p(2,1)] in
        \<open>auto simp: oo_step_def oo_move_def intro: oo_inv_worker oo_inv_client oo_inv_spurious\<close>)
qed

subsection \<open>Properties\<close>

text \<open>C11. In every interleaving of the workers and of any number of callers, the tasks accepted are those
  started, once each and in the order of submission, followed by those thrown away by \<open>shutdown_now\<close>
  and those still queued; the counters are exact.\<close>

theorem oo_pool_conserves_tasks:
  assumes "oo_reach n w"
  shows "o_accepted w = o_started w @ o_dropped w @ oo_tasks (o_pool w)
    \<and> (o_dropped w \<noteq> [] \<longrightarrow> oo_stop (o_pool w) \<and> oo_tasks (o_pool w) = [])
    \<and> active_count (o_pool w) = of_nat (card (busy n (o_pc w)))
    \<and> completed_task_count (o_pool w) + of_nat (card (busy n (o_pc w))) = of_nat (length (o_started w))"
  using oo_invD(3) [OF oo_reach_inv [OF assms]]
  by (simp add: history_inv_def active_count_def completed_task_count_def)

text \<open>C12. When a caller has returned from \<open>shutdown\<close> after joining the workers, every worker has left and every
  task that was accepted and not thrown away has been completed.\<close>

theorem oo_shutdown_completes_all:
  assumes "oo_reach n w" "o_cl w c = CJoined"
  shows "(\<forall>i<n. o_pc w i = WExited) \<and> oo_tasks (o_pool w) = [] \<and> o_accepted w = o_started w @ o_dropped w
    \<and> oo_active_threads (o_pool w) = 0 \<and> oo_completed_tasks (o_pool w) = of_nat (length (o_started w))"
proof -
  note I = oo_invD [OF oo_reach_inv [OF assms(1)]]
  have e: "\<forall>i<n. o_pc w i = WExited" using stop_invD(6) [OF I(2) assms(2)] by blast
  then have "busy n (o_pc w) = {}" by (auto simp: busy_def)
  moreover have "0 < n" using I(1) by (simp add: shape_inv_def)
  with e have "oo_tasks (o_pool w) = []" using I(1) by (auto simp: shape_inv_def)
  ultimately show ?thesis using e I(3) by (simp add: history_inv_def)
qed

text \<open>A free mutex is all that a worker in front of a section needs.\<close>

lemma worker_can_move:
  assumes "oo_inv n w" "o_pc w i \<noteq> WAbsent" "o_pc w i \<noteq> WWaiting" "o_pc w i \<noteq> WExited" "o_lock w = None"
  shows "\<exists>w'. worker_step i w w'"
proof (cases "o_pc w i")
  case WLock
  then show ?thesis using ws_section [OF WLock assms(5)] by (metis surj_pair)
next
  case WBlocking
  then show ?thesis using oo_invD(1) [OF assms(1)] assms(5) by (auto simp: shape_inv_def)
next
  case (WRan t)
  then show ?thesis using ws_finish [OF WRan assms(5)] by (metis surj_pair)
qed (use assms in \<open>auto intro: ws_run\<close>)

lemma client_can_notify: "o_cl w c = CNotify \<Longrightarrow> \<exists>w'. caller_step c w w'"
  using cs_notify [of w c "o_pc w"] cs_notify [of w c "(o_pc w)(j := WLock)" for j]
  by (cases "\<exists>j. o_pc w j = WWaiting") auto

text \<open>No task is left behind: while one is queued, and after the stop while a worker has not left, a
  worker can move, or a notification is still to be sent that wakes one.\<close>

theorem oo_pool_never_stuck:
  assumes "oo_reach n w"
    and "oo_tasks (o_pool w) \<noteq> [] \<or> oo_stop (o_pool w) \<and> (\<exists>i<n. o_pc w i \<noteq> WExited)"
  shows "(\<exists>i w'. worker_step i w w') \<or> (\<exists>c w'. o_cl w c \<in> {CNotify, CStopping} \<and> caller_step c w w')"
proof -
  note inv = oo_reach_inv [OF assms(1)]
  note I = oo_invD [OF inv]
  have lock: "o_lock w = None" using I(1) assms(2) by (auto simp: shape_inv_def)
  have na: "o_pc w i \<noteq> WAbsent" if "i < n" for i using I(1) that by (auto simp: shape_inv_def)
  show ?thesis
  proof (cases "\<exists>i<n. o_pc w i \<noteq> WWaiting \<and> o_pc w i \<noteq> WExited")
    case True
    then show ?thesis using worker_can_move [OF inv na] lock by blast
  next
    case False
    show ?thesis
    proof (cases "oo_tasks (o_pool w) = []")
      case True
      then have "oo_stop (o_pool w)" "\<exists>i. o_pc w i = WWaiting" using assms(2) False by auto
      then obtain c where "o_cl w c = CStopping" using stop_invD(3) [OF I(2)] by blast
      then show ?thesis using cs_notify_all [of w c] by auto
    next
      case ne: False
      then have "o_pc w i \<noteq> WExited" for i using I(1) by (auto simp: shape_inv_def)
      with False have "\<not> (\<exists>i<n. o_pc w i \<noteq> WWaiting)" by blast
      then obtain c where "o_cl w c = CNotify" using I(4) ne by (auto simp: wake_inv_def)
      then show ?thesis using client_can_notify [of w c] by auto
    qed
  qed
qed

text \<open>The steps the workers have left after the stop.\<close>

definition pc_work :: "'a worker_pc \<Rightarrow> nat" where
  "pc_work pc = (case pc of WRunning t \<Rightarrow> 3 | WRan t \<Rightarrow> 2 | WExited \<Rightarrow> 0 | _ \<Rightarrow> 1)"

definition work_left :: "nat \<Rightarrow> 'a oo_world \<Rightarrow> nat" where
  "work_left n w = 3 * length (oo_tasks (o_pool w)) + (\<Sum>i<n. pc_work (o_pc w i))"

lemma pc_work_simps [simp]:
  "pc_work (WRunning t) = 3" "pc_work (WRan t) = 2" "pc_work WExited = 0" "pc_work WLock = 1" "pc_work WWaiting = 1"
  "pc_work WBlocking = 1" "pc_work WAbsent = 1"
  by (simp_all add: pc_work_def)

lemma sum_work_wake: "(\<Sum>j<(n :: nat). pc_work (wake_workers pcs j)) = (\<Sum>j<n. pc_work (pcs j))"
  by (intro sum.cong) (auto simp: wake_workers_def)

text \<open>C27. After the stop every step of a worker uses up one of a number of steps that no other step
  renews, so the workers leave after at most three steps for each queued task and each worker.\<close>

theorem oo_shutdown_terminates:
  assumes "oo_reach n w" "oo_stop (o_pool w)" "oo_step w w'"
  shows "oo_stop (o_pool w') \<and> work_left n w' \<le> work_left n w
    \<and> ((\<exists>i. worker_step i w w') \<longrightarrow> work_left n w' < work_left n w)
    \<and> work_left n w \<le> 3 * length (oo_tasks (o_pool w)) + 3 * n"
proof -
  note I = oo_invD [OF oo_reach_inv [OF assms(1)]]
  have less: "oo_stop (o_pool w') \<and> work_left n w' < work_left n w" if "worker_step i w w'" for i
    using that
  proof cases
    case (ws_section p pc)
    have i: "i < n" using worker_index [OF I(1), of i] ws_section(2) by simp
    from ws_section(4) show ?thesis
    proof (cases rule: worker_section_cases)
      case 2
      then show ?thesis using sum_state_upd [OF i, of pc_work "o_pc w" WExited] ws_section assms(2) by (simp add: work_left_def)
    next
      case (3 t ts)
      then show ?thesis using sum_state_upd [OF i, of pc_work "o_pc w" "WRunning t"] ws_section assms(2)
        by (simp add: work_left_def)
    qed (use assms(2) in simp)
  next
    case ws_block
    then show ?thesis using I(1) assms(2) by (auto simp: shape_inv_def)
  next
    case (ws_run t)
    then have "i < n" using worker_index [OF I(1), of i] by simp
    then show ?thesis using sum_state_upd [of i n pc_work "o_pc w" "WRan t"] ws_run assms(2) by (simp add: work_left_def)
  next
    case (ws_finish t p notify)
    then have "i < n" using worker_index [OF I(1), of i] by simp
    then show ?thesis using sum_state_upd [of i n pc_work "o_pc w" WLock] ws_finish assms(2)
      by (auto simp: work_left_def finish_section_def Let_def)
  qed
  have wake: "(\<Sum>j<n. pc_work (pcs j)) = (\<Sum>j<n. pc_work (o_pc w j))"
    if "pcs = (o_pc w)(j := WLock)" "o_pc w j = WWaiting" for pcs j
    using that by (intro sum.cong) auto
  have other: "oo_stop (o_pool w') \<and> work_left n w' = work_left n w" if "caller_step c w w' \<or> spurious_step w w'" for c
    using that
  proof
    assume "caller_step c w w'"
    then show ?thesis
      by cases (use assms(2) wake in \<open>auto simp: work_left_def section_defs sum_work_wake split: if_splits\<close>)
  next
    assume "spurious_step w w'"
    then show ?thesis
    proof cases
      case (sp_worker i)
      then show ?thesis using assms(2) wake [of "o_pc w'" i] by (simp add: work_left_def)
    qed (use assms(2) in \<open>simp add: work_left_def\<close>)
  qed
  have "(\<Sum>i<n. pc_work (o_pc w i)) \<le> (\<Sum>i<n. 3)"
    by (intro sum_mono) (simp add: pc_work_def split: worker_pc.splits)
  then have "work_left n w \<le> 3 * length (oo_tasks (o_pool w)) + 3 * n" by (simp add: work_left_def)
  then show ?thesis using assms(3) less other by (fastforce simp: oo_step_def oo_move_def)
qed

text \<open>C28. \<open>wait_for_completion\<close> is sound and loses no wake-up: a call returns true only when everything
  accepted has been completed or thrown away, and as long as nothing was thrown away a call is blocked
  only while a task is queued or running.\<close>

theorem oo_wait_for_completion_correct:
  assumes "oo_reach n w"
  shows "(\<forall>c w'. caller_step c w w' \<and> o_cl w c \<noteq> CReturned True \<and> o_cl w' c = CReturned True
      \<longrightarrow> o_accepted w' = o_started w' @ o_dropped w' \<and> busy n (o_pc w') = {}
        \<and> oo_completed_tasks (o_pool w') = of_nat (length (o_started w')))
    \<and> (\<forall>c timed. o_dropped w = [] \<and> o_cl w c = CWaiting timed
        \<longrightarrow> oo_tasks (o_pool w) \<noteq> [] \<or> busy n (o_pc w) \<noteq> {})"
proof (intro conjI allI impI)
  note inv = oo_reach_inv [OF assms]
  show "oo_tasks (o_pool w) \<noteq> [] \<or> busy n (o_pc w) \<noteq> {}" if "o_dropped w = [] \<and> o_cl w c = CWaiting timed" for c timed
    using oo_invD(4) [OF inv] that by (auto simp: wake_inv_def)
  fix c w'
  assume step: "caller_step c w w' \<and> o_cl w c \<noteq> CReturned True \<and> o_cl w' c = CReturned True"
  note I = oo_invD [OF oo_inv_client [OF inv step [THEN conjunct1]]]
  have "all_finished (o_pool w')"
    using step [THEN conjunct1] by cases (use step in \<open>auto split: if_splits\<close>)
  then show "o_accepted w' = o_started w' @ o_dropped w'" "busy n (o_pc w') = {}"
      "oo_completed_tasks (o_pool w') = of_nat (length (o_started w'))"
    using I(1,3) by (auto simp: all_finished_def history_inv_def shape_inv_def of_nat_card_busy)
qed

text \<open>When \<open>shutdown_now\<close> throws away the last tasks nobody notifies \<open>finished\<close>: once the workers have left,
  a call of \<open>wait_for_completion\<close> that is blocked stays blocked, although nothing is left to wait for.\<close>

theorem oo_waiter_hangs_after_shutdown_now:
  assumes "oo_move\<^sup>*\<^sup>* w w'" "\<forall>i. o_pc w i = WExited \<or> o_pc w i = WAbsent" "o_cl w c = CWaiting False"
  shows "o_cl w' c = CWaiting False"
proof -
  have "o_cl w' c = CWaiting False \<and> (\<forall>i. o_pc w' i = WExited \<or> o_pc w' i = WAbsent)"
    using assms
  proof (induction rule: rtranclp_induct)
    case (step w1 w2)
    then have IH: "o_cl w1 c = CWaiting False" "o_pc w1 i = WExited \<or> o_pc w1 i = WAbsent" for i by auto
    from step.hyps(2) show ?case unfolding oo_move_def
    proof (elim disjE exE)
      fix i assume "worker_step i w1 w2"
      then show ?thesis using IH(2) [of i] by cases auto
    next
      fix d assume s: "caller_step d w1 w2"
      have nw: "o_pc w1 i \<noteq> WWaiting" for i using IH(2) [of i] by auto
      from s
      have "o_pc w2 = o_pc w1 \<or> o_pc w2 = wake_workers (o_pc w1)"
        by cases (auto simp: nw)
      moreover have "d \<noteq> c" using s IH(1) by cases (auto simp: may_call_def)
      with s have "o_cl w2 c = o_cl w1 c" by cases auto
      moreover have "wake_workers (o_pc w1) = o_pc w1" by (simp add: wake_workers_def nw)
      ultimately show ?thesis using IH by simp
    qed
  qed simp
  then show ?thesis by blast
qed

text \<open>The constructor sets \<open>stop\<close> without the mutex, so its notification can fall between a worker's test
  and its wait: then the constructor waits for that worker for ever instead of throwing.\<close>

theorem oo_constructor_may_hang:
  assumes "oo_move\<^sup>*\<^sup>* w w'" "oo_stop (o_pool w)" "o_pc w k = WWaiting" "o_cl w c = CJoin k"
    and "k < oo_workers (o_pool w)" "\<forall>d. o_cl w d \<notin> {CNotify, CCatch, CStopping}"
  shows "o_cl w' c = CJoin k"
proof -
  have "o_cl w' c = CJoin k \<and> oo_stop (o_pool w') \<and> o_pc w' k = WWaiting \<and> k < oo_workers (o_pool w')
      \<and> (\<forall>d. o_cl w' d \<notin> {CNotify, CCatch, CStopping})"
    using assms
  proof (induction rule: rtranclp_induct)
    case (step w1 w2)
    then have IH: "o_cl w1 c = CJoin k" "oo_stop (o_pool w1)" "o_pc w1 k = WWaiting" "k < oo_workers (o_pool w1)"
      "\<And>d. o_cl w1 d \<notin> {CNotify, CCatch, CStopping}" by auto
    from step.hyps(2) show ?case unfolding oo_move_def
    proof (elim disjE exE)
      fix i assume "worker_step i w1 w2"
      then show ?thesis
      proof cases
        case (ws_section p pc)
        from ws_section(4) show ?thesis
          by (cases rule: worker_section_cases) (use IH ws_section in auto)
      qed (use IH in \<open>auto simp: finish_section_def Let_def wake_clients_def split: client_pc.splits\<close>)
    next
      fix d assume "caller_step d w1 w2"
      then show ?thesis using IH(5) [of d]
        by cases (use IH in \<open>auto simp: section_defs may_call_def split: if_splits\<close>)
    qed
  qed simp
  then show ?thesis by blast
qed

subsection \<open>A concrete run\<close>

text \<open>One worker has gone to sleep; caller 1 submits the task 7, caller 2 waits for completion, caller 3 calls
  \<open>shutdown_now\<close>, and the worker leaves.\<close>

lemma oo_reach_move:
  assumes "oo_reach n w" "oo_move w w'"
  shows "oo_reach n w'"
proof -
  have "oo_step w w'" using assms(2) by (simp add: oo_step_def)
  then show ?thesis using assms(1) unfolding oo_reach_def by (meson rtranclp.rtrancl_into_rtrancl)
qed

lemma oo_reach_worker: "oo_reach n w \<Longrightarrow> worker_step i w w' \<Longrightarrow> w'' = w' \<Longrightarrow> oo_reach n w''"
  using oo_reach_move oo_move_def by blast

lemma oo_reach_client: "oo_reach n w \<Longrightarrow> caller_step c w w' \<Longrightarrow> w'' = w' \<Longrightarrow> oo_reach n w''"
  using oo_reach_move oo_move_def by blast

definition demo_pool :: "nat oo_pool" where
  "demo_pool = \<lparr>oo_workers = 1, oo_tasks = [], oo_stop = False, oo_active_threads = 0, oo_completed_tasks = 0\<rparr>"

definition demo :: "nat oo_pool \<Rightarrow> nat worker_pc \<Rightarrow> (nat \<Rightarrow> client_pc) \<Rightarrow> nat list \<Rightarrow> nat list \<Rightarrow> nat oo_world" where
  "demo p pc cls acc dr = \<lparr>o_pool = p, o_pc = (\<lambda>_. WAbsent)(0 := pc), o_cl = cls, o_lock = None,
     o_accepted = acc, o_started = [], o_dropped = dr\<rparr>"

lemma demo_start: "oo_reach 1 (demo demo_pool WLock (\<lambda>_. CIdle) [] [])"
proof -
  have "oo_create (\<lambda>_. True) 1 = CtorDone demo_pool" by (simp add: oo_create_def demo_pool_def)
  moreover have "oo_start demo_pool CIdle = demo demo_pool WLock (\<lambda>_. CIdle) [] []"
    by (auto simp: oo_start_def demo_def demo_pool_def)
  ultimately show ?thesis by (auto simp: oo_reach_def intro!: exI [of _ "\<lambda>_. True"] exI [of _ demo_pool])
qed

lemma demo_asleep: "oo_reach 1 (demo demo_pool WWaiting (\<lambda>_. CIdle) [] [])"
proof -
  let ?w = "demo demo_pool WBlocking (\<lambda>_. CIdle) [] []\<lparr>o_lock := Some 0\<rparr>"
  have "oo_reach 1 ?w"
    by (rule oo_reach_worker [OF demo_start ws_section [of _ 0 demo_pool WBlocking]])
      (simp_all add: demo_def demo_pool_def worker_section_def)
  then show ?thesis by (rule oo_reach_worker [OF _ ws_block [of _ 0]]) (simp_all add: demo_def)
qed

lemma demo_queued: "oo_reach 1 (demo (demo_pool\<lparr>oo_tasks := [7]\<rparr>) WWaiting ((\<lambda>_. CIdle)(1 := CNotify)) [7] [])"
  by (rule oo_reach_client [OF demo_asleep cs_enqueue [of _ 1 7 "demo_pool\<lparr>oo_tasks := [7]\<rparr>"]])
    (simp_all add: demo_def demo_pool_def oo_enqueue_def may_call_def)

lemma demo_blocked: "oo_reach 1 (demo (demo_pool\<lparr>oo_tasks := [7]\<rparr>) WWaiting
    ((\<lambda>_. CIdle)(1 := CNotify, 2 := CWaiting False)) [7] [])"
  by (rule oo_reach_client [OF demo_queued cs_wait [of _ 2 False]])
    (simp_all add: demo_def demo_pool_def all_finished_def may_call_def)

lemma demo_stopping: "oo_reach 1 (demo (demo_pool\<lparr>oo_stop := True\<rparr>) WWaiting
    ((\<lambda>_. CIdle)(1 := CNotify, 2 := CWaiting False, 3 := CStopping)) [7] [7])"
  by (rule oo_reach_client [OF demo_blocked cs_shutdown_now [of _ 3 "demo_pool\<lparr>oo_stop := True\<rparr>" "[7]"]])
    (simp_all add: demo_def demo_pool_def shutdown_now_section_def may_call_def)

lemma demo_woken: "oo_reach 1 (demo (demo_pool\<lparr>oo_stop := True\<rparr>) WLock
    ((\<lambda>_. CIdle)(1 := CNotify, 2 := CWaiting False, 3 := CJoin 0)) [7] [7])"
  by (rule oo_reach_client [OF demo_stopping cs_notify_all [of _ 3]])
    (auto simp: demo_def wake_workers_def)

lemma demo_leaves: "worker_step 0 (demo (demo_pool\<lparr>oo_stop := True\<rparr>) WLock cls [7] [7])
    (demo (demo_pool\<lparr>oo_stop := True\<rparr>) WExited cls [7] [7])"
  using ws_section [of "demo (demo_pool\<lparr>oo_stop := True\<rparr>) WLock cls [7] [7]" 0 "demo_pool\<lparr>oo_stop := True\<rparr>" WExited]
  by (simp add: demo_def demo_pool_def worker_section_def)

lemma demo_left: "oo_reach 1 (demo (demo_pool\<lparr>oo_stop := True\<rparr>) WExited
    ((\<lambda>_. CIdle)(1 := CNotify, 2 := CWaiting False, 3 := CJoin 0)) [7] [7])"
  by (rule oo_reach_worker [OF demo_woken demo_leaves]) simp

lemma demo_joined: "oo_reach 1 (demo (demo_pool\<lparr>oo_stop := True\<rparr>) WExited
    ((\<lambda>_. CIdle)(1 := CNotify, 2 := CWaiting False, 3 := CJoined)) [7] [7])"
proof -
  have "oo_reach 1 (demo (demo_pool\<lparr>oo_stop := True\<rparr>) WExited
      ((\<lambda>_. CIdle)(1 := CNotify, 2 := CWaiting False, 3 := CJoin 1)) [7] [7])"
    by (rule oo_reach_client [OF demo_left cs_join [of _ 3 0]]) (simp_all add: demo_def demo_pool_def)
  then show ?thesis by (rule oo_reach_client [OF _ cs_joined [of _ 3 1]]) (simp_all add: demo_def demo_pool_def)
qed

theorem oo_pool_conserves_tasks_witness:
  "active_count (o_pool (demo (demo_pool\<lparr>oo_tasks := [7]\<rparr>) WWaiting ((\<lambda>_. CIdle)(1 := CNotify)) [7] [])) = 0"
  using oo_pool_conserves_tasks [OF demo_queued] by (simp add: active_count_def demo_def demo_pool_def)

theorem oo_shutdown_completes_all_witness:
  "\<exists>w :: nat oo_world. oo_reach 1 w \<and> o_cl w 3 = CJoined \<and> o_accepted w = [7] \<and> o_dropped w = [7] \<and> o_pc w 0 = WExited"
  using oo_shutdown_completes_all [OF demo_joined, of 3] demo_joined by (auto simp: demo_def)

theorem oo_pool_never_stuck_witness:
  "\<exists>w :: nat oo_world. oo_reach 1 w \<and> oo_tasks (o_pool w) = [7] \<and> o_pc w 0 = WWaiting
     \<and> (\<exists>c w'. o_cl w c \<in> {CNotify, CStopping} \<and> caller_step c w w')"
proof -
  let ?w = "demo (demo_pool\<lparr>oo_tasks := [7]\<rparr>) WWaiting ((\<lambda>_. CIdle)(1 := CNotify)) [7] []"
  have "\<not> worker_step i ?w w'" for i w'
    by (auto simp: demo_def elim!: worker_step.cases split: if_splits)
  then show ?thesis using oo_pool_never_stuck [OF demo_queued] demo_queued
    by (intro exI [of _ ?w]) (auto simp: demo_def)
qed

theorem oo_shutdown_terminates_witness:
  "\<exists>w w' :: nat oo_world. oo_reach 1 w \<and> worker_step 0 w w' \<and> work_left 1 w' < work_left 1 w"
proof -
  let ?w = "\<lambda>pc. demo (demo_pool\<lparr>oo_stop := True\<rparr>) pc ((\<lambda>_. CIdle)(1 := CNotify, 2 := CWaiting False, 3 := CJoin 0)) [7] [7]"
  have "oo_step (?w WLock) (?w WExited)" using demo_leaves by (auto simp: oo_step_def oo_move_def)
  moreover have "oo_stop (o_pool (?w WLock))" by (simp add: demo_def)
  ultimately show ?thesis using oo_shutdown_terminates [OF demo_woken] demo_woken demo_leaves by blast
qed

theorem oo_wait_for_completion_correct_witness:
  "\<exists>w :: nat oo_world. oo_reach 1 w \<and> o_cl w 2 = CWaiting False \<and> oo_tasks (o_pool w) \<noteq> []"
proof -
  let ?w = "demo (demo_pool\<lparr>oo_tasks := [7]\<rparr>) WWaiting ((\<lambda>_. CIdle)(1 := CNotify, 2 := CWaiting False)) [7] []"
  have "busy 1 (o_pc ?w) = {}" by (auto simp: busy_def demo_def)
  moreover have "o_cl ?w 2 = CWaiting False" "o_dropped ?w = []" by (simp_all add: demo_def)
  ultimately have "oo_tasks (o_pool ?w) \<noteq> []" using oo_wait_for_completion_correct [OF demo_blocked] by blast
  then show ?thesis using demo_blocked \<open>o_cl ?w 2 = CWaiting False\<close> by blast
qed

theorem oo_waiter_hangs_after_shutdown_now_witness:
  "\<exists>w :: nat oo_world. oo_reach 1 w \<and> all_finished (o_pool w) \<and> o_dropped w = [7] \<and> o_cl w 2 = CWaiting False"
proof -
  let ?w = "demo (demo_pool\<lparr>oo_stop := True\<rparr>) WExited
    ((\<lambda>_. CIdle)(1 := CNotify, 2 := CWaiting False, 3 := CJoin 0)) [7] [7]"
  have "o_cl ?w 2 = CWaiting False"
    by (rule oo_waiter_hangs_after_shutdown_now [OF rtranclp.rtrancl_refl]) (simp_all add: demo_def)
  then show ?thesis using demo_left by (intro exI [of _ ?w]) (simp add: demo_def demo_pool_def all_finished_def)
qed

text \<open>The constructor could not create its second thread while the first was about to wait.\<close>

lemma demo_failing:
  "oo_create (\<lambda>i. i = 0) 2 = CtorFailing demo_pool"
  "oo_move\<^sup>*\<^sup>* (oo_start demo_pool CCatch) (demo (demo_pool\<lparr>oo_stop := True\<rparr>) WWaiting ((\<lambda>_. CIdle)(0 := CJoin 0)) [] [])"
proof -
  show "oo_create (\<lambda>i. i = 0) 2 = CtorFailing demo_pool"
    by (simp add: oo_create_def demo_pool_def numeral_2_eq_2)
  let ?w = "\<lambda>stop pc c lock. (demo (demo_pool\<lparr>oo_stop := stop\<rparr>) pc ((\<lambda>_. CIdle)(0 := c)) [] [])\<lparr>o_lock := lock\<rparr>"
  have start: "oo_start demo_pool CCatch = ?w False WLock CCatch None"
    by (auto simp: oo_start_def demo_def demo_pool_def)
  have "worker_step 0 (?w False WLock CCatch None) (?w False WBlocking CCatch (Some 0))"
    using ws_section [of "?w False WLock CCatch None" 0 "demo_pool\<lparr>oo_stop := False\<rparr>" WBlocking]
    by (simp add: demo_def demo_pool_def worker_section_def)
  moreover have "caller_step 0 (?w False WBlocking CCatch (Some 0)) (?w True WBlocking CStopping (Some 0))"
    using cs_catch [of "?w False WBlocking CCatch (Some 0)" 0] by (simp add: demo_def)
  moreover have "wake_workers ((\<lambda>_. WAbsent)(0 := WBlocking)) = (\<lambda>_. WAbsent)(0 := WBlocking :: nat worker_pc)"
    by (auto simp: wake_workers_def)
  then have "caller_step 0 (?w True WBlocking CStopping (Some 0)) (?w True WBlocking (CJoin 0) (Some 0))"
    using cs_notify_all [of "?w True WBlocking CStopping (Some 0)" 0] by (simp add: demo_def)
  moreover have "worker_step 0 (?w True WBlocking (CJoin 0) (Some 0)) (?w True WWaiting (CJoin 0) None)"
    using ws_block [of "?w True WBlocking (CJoin 0) (Some 0)" 0] by (simp add: demo_def)
  ultimately have "oo_move\<^sup>*\<^sup>* (?w False WLock CCatch None) (?w True WWaiting (CJoin 0) None)"
    by (meson oo_move_def converse_rtranclp_into_rtranclp rtranclp.rtrancl_refl)
  then show "oo_move\<^sup>*\<^sup>* (oo_start demo_pool CCatch) (demo (demo_pool\<lparr>oo_stop := True\<rparr>) WWaiting ((\<lambda>_. CIdle)(0 := CJoin 0)) [] [])"
    unfolding start by (simp add: demo_def)
qed

theorem oo_constructor_may_hang_witness:
  "\<exists>(p :: nat oo_pool) w. oo_create (\<lambda>i. i = 0) 2 = CtorFailing p \<and> oo_move\<^sup>*\<^sup>* (oo_start p CCatch) w
     \<and> o_cl w 0 = CJoin 0 \<and> o_pc w 0 = WWaiting \<and> oo_stop (o_pool w)"
proof -
  let ?w = "demo (demo_pool\<lparr>oo_stop := True\<rparr>) WWaiting ((\<lambda>_. CIdle)(0 := CJoin 0)) [] []"
  have "o_cl ?w 0 = CJoin 0"
    by (rule oo_constructor_may_hang [OF rtranclp.rtrancl_refl]) (simp_all add: demo_def demo_pool_def)
  then show ?thesis using demo_failing by (intro exI [of _ demo_pool] exI [of _ ?w]) (simp add: demo_def)
qed

end
