(* ===== verification/Wd_Thread_Pool.thy ===== *)
theory Wd_Thread_Pool
  imports Bounded_Queue "HOL-Library.Multiset"
begin

text \<open>
  The teaching thread pool: \<^verbatim>\<open>taskQueue.c\<close>, \<^verbatim>\<open>tidArr.c\<close>, \<^verbatim>\<open>threadPool.c\<close> and the loop of \<^verbatim>\<open>main.c\<close> under
  \<^verbatim>\<open>wd_ThreadPool/server\<close>. The queue is a linked list in a heap of nodes; a dereference of \<open>NULL\<close> or of
  a freed node is a \<open>Fault\<close>. The workers and the main thread interleave by critical sections, each of
  which is one step: every access to the pool happens under its mutex, and a waiting worker gives the
  mutex up. What a worker does with a connection is \<open>transFile\<close> of \<open>Train_Transfer\<close>; here it is the
  state \<open>Serving\<close>.
\<close>

subsection \<open>The task queue\<close>

record wd_node =
  nd_netfd :: int
  nd_next :: "nat option"

type_synonym node_heap = "nat \<rightharpoonup> wd_node"

record wd_queue =
  wq_front :: "nat option"
  wq_rear :: "nat option"
  wq_size :: int

definition taskQueueInit :: wd_queue where
  "taskQueueInit = \<lparr>wq_front = None, wq_rear = None, wq_size = 0\<rparr>"

text \<open>\<open>mem\<close> is the address \<open>calloc\<close> returns; the new node is zeroed.\<close>

definition enQueue :: "nat option \<Rightarrow> int \<Rightarrow> wd_queue \<times> node_heap \<Rightarrow> (wd_queue \<times> node_heap) outcome" where
  "enQueue mem netfd s =
     (case s of (q, h) \<Rightarrow> case mem of None \<Rightarrow> Fault
      | Some p \<Rightarrow>
          let h1 = h(p \<mapsto> \<lparr>nd_netfd = netfd, nd_next = None\<rparr>)
          in if wq_size q = 0
             then Done (q\<lparr>wq_front := Some p, wq_rear := Some p, wq_size := wq_size q + 1\<rparr>, h1)
             else case wq_rear q of None \<Rightarrow> Fault
               | Some r \<Rightarrow> (case h1 r of None \<Rightarrow> Fault
                   | Some nd \<Rightarrow> Done (q\<lparr>wq_rear := Some p, wq_size := wq_size q + 1\<rparr>,
                       h1(r \<mapsto> nd\<lparr>nd_next := Some p\<rparr>))))"

definition deQueue :: "wd_queue \<times> node_heap \<Rightarrow> (wd_queue \<times> node_heap) outcome" where
  "deQueue s =
     (case s of (q, h) \<Rightarrow> case wq_front q of None \<Rightarrow> Fault
      | Some p \<Rightarrow> (case h p of None \<Rightarrow> Fault
          | Some nd \<Rightarrow> Done (q\<lparr>wq_front := nd_next nd, wq_size := wq_size q - 1,
              wq_rear := (if nd_next nd = None then None else wq_rear q)\<rparr>, h(p := None))))"

text \<open>The connection at the front.\<close>

definition front_netfd :: "wd_queue \<times> node_heap \<Rightarrow> int outcome" where
  "front_netfd s =
     (case s of (q, h) \<Rightarrow> case wq_front q of None \<Rightarrow> Fault
      | Some p \<Rightarrow> (case h p of None \<Rightarrow> Fault | Some nd \<Rightarrow> Done (nd_netfd nd)))"

subsection \<open>The pool\<close>

record wd_pool =
  wp_arr :: "bool list option"
  wp_workerNum :: int
  wp_queue :: wd_queue
  wp_heap :: node_heap
  wp_exitFlag :: int

text \<open>An entry of the array of thread identifiers tells whether it holds a thread; \<open>None\<close>: \<open>calloc\<close> failed.\<close>

definition tidArrInit :: "bool \<Rightarrow> int \<Rightarrow> bool list option" where
  "tidArrInit mem workerNum = (if mem then Some (replicate (nat workerNum) False) else None)"

definition threadPoolInit :: "bool \<Rightarrow> int \<Rightarrow> wd_pool" where
  "threadPoolInit mem workerNum =
     \<lparr>wp_arr = tidArrInit mem workerNum, wp_workerNum = workerNum, wp_queue = taskQueueInit, wp_heap = Map.empty,
      wp_exitFlag = 0\<rparr>"

text \<open>\<open>makeWorker\<close> does not look at the results \<open>ok\<close> of \<open>pthread_create\<close>.\<close>

fun make_loop :: "(nat \<Rightarrow> bool) \<Rightarrow> nat \<Rightarrow> nat \<Rightarrow> bool list \<Rightarrow> bool list" where
  "make_loop ok i 0 arr = arr"
| "make_loop ok i (Suc k) arr = make_loop ok (Suc i) k (if ok i then arr[i := True] else arr)"

definition makeWorker :: "(nat \<Rightarrow> bool) \<Rightarrow> wd_pool \<Rightarrow> wd_pool outcome" where
  "makeWorker ok p =
     (if wp_workerNum p \<le> 0 then Done p
      else case wp_arr p of None \<Rightarrow> Fault
        | Some arr \<Rightarrow> Done (p\<lparr>wp_arr := Some (make_loop ok 0 (nat (wp_workerNum p)) arr)\<rparr>))"

datatype wd_pc = NotMade | AtLock | Waiting | Serving int | Left

text \<open>A worker from the moment it has the mutex until it gives it up.\<close>

definition threadFunc_section :: "wd_pool \<Rightarrow> (wd_pool \<times> wd_pc) outcome" where
  "threadFunc_section p =
     (if wp_exitFlag p = 0 \<and> wq_size (wp_queue p) = 0 then Done (p, Waiting)
      else if wp_exitFlag p = 1 then Done (p, Left)
      else bind_outcome (front_netfd (wp_queue p, wp_heap p)) (\<lambda>netfd.
           bind_outcome (deQueue (wp_queue p, wp_heap p)) (\<lambda>(q, h).
             Done (p\<lparr>wp_queue := q, wp_heap := h\<rparr>, Serving netfd))))"

text \<open>The main thread on a new connection, a descriptor or -1.\<close>

definition accept_section :: "nat option \<Rightarrow> int \<Rightarrow> wd_pool \<Rightarrow> wd_pool outcome" where
  "accept_section mem netfd p =
     bind_outcome (enQueue mem netfd (wp_queue p, wp_heap p)) (\<lambda>(q, h). Done (p\<lparr>wp_queue := q, wp_heap := h\<rparr>))"

definition exit_section :: "wd_pool \<Rightarrow> wd_pool" where
  "exit_section p = p\<lparr>wp_exitFlag := 1\<rparr>"

subsection \<open>Interleavings\<close>

datatype main_pc = MLoop | MJoin nat | MExited | MFault

record wd_world =
  wd_p :: wd_pool
  wd_pcs :: "nat \<Rightarrow> wd_pc"
  wd_main :: main_pc
  wd_accepted :: "int list"
  wd_started :: "int list"
  wd_closed :: "int list"

definition broadcast :: "(nat \<Rightarrow> wd_pc) \<Rightarrow> nat \<Rightarrow> wd_pc" where
  "broadcast pcs = (\<lambda>i. if pcs i = Waiting then AtLock else pcs i)"

inductive wd_worker_step :: "nat \<Rightarrow> wd_world \<Rightarrow> wd_world \<Rightarrow> bool" where
  wd_section:
    "wd_pcs w i = AtLock \<Longrightarrow> threadFunc_section (wd_p w) = Done (p, pc)
       \<Longrightarrow> wd_worker_step i w (w\<lparr>wd_p := p, wd_pcs := (wd_pcs w)(i := pc),
             wd_started := wd_started w @ (case pc of Serving fd \<Rightarrow> [fd] | _ \<Rightarrow> [])\<rparr>)"
| wd_served:
    "wd_pcs w i = Serving fd
       \<Longrightarrow> wd_worker_step i w (w\<lparr>wd_pcs := (wd_pcs w)(i := AtLock), wd_closed := wd_closed w @ [fd]\<rparr>)"
| wd_spurious: "wd_pcs w i = Waiting \<Longrightarrow> wd_worker_step i w (w\<lparr>wd_pcs := (wd_pcs w)(i := AtLock)\<rparr>)"

inductive wd_main_step :: "wd_world \<Rightarrow> wd_world \<Rightarrow> bool" where
  wd_accept:
    "wd_main w = MLoop \<Longrightarrow> wp_heap (wd_p w) a = None \<Longrightarrow> accept_section (Some a) fd (wd_p w) = Done p
       \<Longrightarrow> wd_main_step w (w\<lparr>wd_p := p, wd_pcs := broadcast (wd_pcs w), wd_accepted := wd_accepted w @ [fd]\<rparr>)"
| wd_exit:
    "wd_main w = MLoop
       \<Longrightarrow> wd_main_step w (w\<lparr>wd_p := exit_section (wd_p w), wd_pcs := broadcast (wd_pcs w), wd_main := MJoin 0\<rparr>)"
| wd_join:
    "wd_main w = MJoin k \<Longrightarrow> int k < wp_workerNum (wd_p w) \<Longrightarrow> wd_pcs w k = Left
       \<Longrightarrow> wd_main_step w (w\<lparr>wd_main := MJoin (Suc k)\<rparr>)"
| wd_join_fault:
    "wd_main w = MJoin k \<Longrightarrow> int k < wp_workerNum (wd_p w) \<Longrightarrow> wd_pcs w k = NotMade
       \<Longrightarrow> wd_main_step w (w\<lparr>wd_main := MFault\<rparr>)"
| wd_done:
    "wd_main w = MJoin k \<Longrightarrow> \<not> int k < wp_workerNum (wd_p w) \<Longrightarrow> wd_main_step w (w\<lparr>wd_main := MExited\<rparr>)"

definition wd_step :: "wd_world \<Rightarrow> wd_world \<Rightarrow> bool" where
  "wd_step w w' \<longleftrightarrow> (\<exists>i. wd_worker_step i w w') \<or> wd_main_step w w'"

definition wd_start :: "wd_pool \<Rightarrow> wd_world" where
  "wd_start p = \<lparr>wd_p = p,
     wd_pcs = (\<lambda>i. case wp_arr p of None \<Rightarrow> NotMade
        | Some arr \<Rightarrow> if i < length arr \<and> arr ! i then AtLock else NotMade),
     wd_main = MLoop, wd_accepted = [], wd_started = [], wd_closed = []\<rparr>"

text \<open>\<open>main\<close> with the outcomes of \<open>calloc\<close> and \<open>pthread_create\<close>.\<close>

definition wd_reach :: "(nat \<Rightarrow> bool) \<Rightarrow> int \<Rightarrow> wd_world \<Rightarrow> bool" where
  "wd_reach ok workerNum w \<longleftrightarrow>
     (\<exists>p. makeWorker ok (threadPoolInit True workerNum) = Done p \<and> wd_step\<^sup>*\<^sup>* (wd_start p) w)"

subsection \<open>The list behind the pointers\<close>

fun chain :: "node_heap \<Rightarrow> nat option \<Rightarrow> nat list \<Rightarrow> bool" where
  "chain h p [] \<longleftrightarrow> p = None"
| "chain h p (a # as) \<longleftrightarrow> p = Some a \<and> (\<exists>nd. h a = Some nd \<and> chain h (nd_next nd) as)"

definition queue_ok :: "nat list \<Rightarrow> wd_queue \<times> node_heap \<Rightarrow> bool" where
  "queue_ok as s \<longleftrightarrow> chain (snd s) (wq_front (fst s)) as \<and> distinct as \<and> dom (snd s) = set as
     \<and> wq_size (fst s) = int (length as) \<and> wq_rear (fst s) = (if as = [] then None else Some (last as))"

text \<open>The connections in the queue, read along the pointers; the size says how many.\<close>

fun walk :: "nat \<Rightarrow> nat option \<Rightarrow> node_heap \<Rightarrow> int list" where
  "walk 0 p h = []"
| "walk (Suc n) p h =
     (case p of None \<Rightarrow> [] | Some a \<Rightarrow> (case h a of None \<Rightarrow> []
        | Some nd \<Rightarrow> nd_netfd nd # walk n (nd_next nd) h))"

definition wd_contents :: "wd_queue \<times> node_heap \<Rightarrow> int list" where
  "wd_contents s = walk (nat (wq_size (fst s))) (wq_front (fst s)) (snd s)"

lemma chain_cong: "chain h p as \<Longrightarrow> (\<And>a. a \<in> set as \<Longrightarrow> h' a = h a) \<Longrightarrow> chain h' p as"
  by (induction as arbitrary: p) auto

lemma chain_dom: "chain h p as \<Longrightarrow> set as \<subseteq> dom h"
  by (induction as arbitrary: p) auto

lemma chain_extend:
  assumes "chain h p (as @ [r])" "distinct (as @ [r])" "a \<notin> set (as @ [r])" "h r = Some nd"
  shows "chain (h(a \<mapsto> \<lparr>nd_netfd = fd, nd_next = None\<rparr>, r \<mapsto> nd\<lparr>nd_next := Some a\<rparr>)) p (as @ [r, a])"
  using assms by (induction as arbitrary: p) auto

lemma walk_chain: "chain h p as \<Longrightarrow> walk (length as) p h = map (\<lambda>a. nd_netfd (the (h a))) as"
  by (induction as arbitrary: p) auto

lemma wd_contents_eq:
  "queue_ok as (q, h) \<Longrightarrow> wd_contents (q, h) = map (\<lambda>a. nd_netfd (the (h a))) as"
  by (simp add: queue_ok_def wd_contents_def walk_chain)

lemma enQueue_ok:
  assumes "queue_ok as (q, h)" "h a = None"
  shows "\<exists>q' h'. enQueue (Some a) fd (q, h) = Done (q', h') \<and> queue_ok (as @ [a]) (q', h')
    \<and> wd_contents (q', h') = wd_contents (q, h) @ [fd]"
proof -
  have ok: "chain h (wq_front q) as" "distinct as" "dom h = set as" "wq_size q = int (length as)"
    "wq_rear q = (if as = [] then None else Some (last as))"
    using assms(1) by (simp_all add: queue_ok_def)
  have a: "a \<notin> set as" using ok(3) assms(2) by blast
  show ?thesis
  proof (cases as rule: rev_cases)
    case Nil
    then have "enQueue (Some a) fd (q, h) = Done (q\<lparr>wq_front := Some a, wq_rear := Some a, wq_size := 1\<rparr>,
        h(a \<mapsto> \<lparr>nd_netfd = fd, nd_next = None\<rparr>))"
      using ok(4) by (simp add: enQueue_def Let_def)
    then show ?thesis using Nil ok by (auto simp: queue_ok_def wd_contents_def)
  next
    case (snoc bs r)
    then have "r \<in> dom h" using ok(3) by simp
    then obtain nd where nd: "h r = Some nd" by blast
    have ra: "r \<noteq> a" using a snoc by auto
    let ?q = "q\<lparr>wq_rear := Some a, wq_size := wq_size q + 1\<rparr>"
    let ?h = "h(a \<mapsto> \<lparr>nd_netfd = fd, nd_next = None\<rparr>, r \<mapsto> nd\<lparr>nd_next := Some a\<rparr>)"
    have e: "enQueue (Some a) fd (q, h) = Done (?q, ?h)"
      using ok(4,5) snoc nd ra by (simp add: enQueue_def Let_def)
    have "queue_ok (as @ [a]) (?q, ?h)"
      using chain_extend [of h "wq_front q" bs r a nd fd] ok a snoc nd ra by (auto simp: queue_ok_def)
    moreover have "map (\<lambda>b. nd_netfd (the (?h b))) (as @ [a]) = map (\<lambda>b. nd_netfd (the (h b))) as @ [fd]"
      using a ra nd by auto
    ultimately show ?thesis using e wd_contents_eq [OF assms(1)] by (auto simp: wd_contents_eq)
  qed
qed

lemma deQueue_ok:
  assumes "queue_ok (a # as) (q, h)"
  shows "\<exists>fd q'. front_netfd (q, h) = Done fd \<and> deQueue (q, h) = Done (q', h(a := None))
    \<and> queue_ok as (q', h(a := None)) \<and> wd_contents (q, h) = fd # wd_contents (q', h(a := None))"
proof -
  from assms obtain nd where nd: "wq_front q = Some a" "h a = Some nd" "chain h (nd_next nd) as" "a \<notin> set as"
    "distinct as" "dom h = insert a (set as)" "wq_size q = int (Suc (length as))" "wq_rear q = Some (last (a # as))"
    by (auto simp: queue_ok_def)
  let ?q = "q\<lparr>wq_front := nd_next nd, wq_size := wq_size q - 1, wq_rear := (if nd_next nd = None then None else wq_rear q)\<rparr>"
  have d: "deQueue (q, h) = Done (?q, h(a := None))" "front_netfd (q, h) = Done (nd_netfd nd)"
    using nd(1,2) by (simp_all add: deQueue_def front_netfd_def)
  have "chain (h(a := None)) (nd_next nd) as" by (rule chain_cong [OF nd(3)]) (use nd(4) in auto)
  moreover have "nd_next nd = None \<longleftrightarrow> as = []" using nd(3) by (cases as) auto
  ultimately have ok: "queue_ok as (?q, h(a := None))" using nd by (auto simp: queue_ok_def)
  have "map (\<lambda>b. nd_netfd (the ((h(a := None)) b))) as = map (\<lambda>b. nd_netfd (the (h b))) as" using nd(4) by auto
  then have "wd_contents (q, h) = nd_netfd nd # wd_contents (?q, h(a := None))"
    using wd_contents_eq [OF assms] wd_contents_eq [OF ok] nd(2) by simp
  then show ?thesis using d ok by blast
qed

lemma length_wd_contents: "queue_ok as s \<Longrightarrow> length (wd_contents s) = length as"
  by (cases s) (simp add: wd_contents_eq)

subsection \<open>The queue meets the contract of a queue\<close>

text \<open>The queue with a store of \<open>n\<close> nodes, of which \<open>calloc\<close> takes the first that is free.\<close>

definition first_free :: "nat \<Rightarrow> node_heap \<Rightarrow> nat option" where
  "first_free n h = find (\<lambda>a. h a = None) [0..<n]"

definition wd_put :: "nat \<Rightarrow> wd_queue \<times> node_heap \<Rightarrow> int \<Rightarrow> (wd_queue \<times> node_heap) option" where
  "wd_put n s fd = (case enQueue (first_free n (snd s)) fd s of Done s' \<Rightarrow> Some s' | _ \<Rightarrow> None)"

definition wd_get :: "wd_queue \<times> node_heap \<Rightarrow> (int \<times> (wd_queue \<times> node_heap)) option" where
  "wd_get s = (case bind_outcome (front_netfd s) (\<lambda>fd. bind_outcome (deQueue s) (\<lambda>s'. Done (fd, s'))) of
     Done r \<Rightarrow> Some r | _ \<Rightarrow> None)"

definition wd_wf :: "nat \<Rightarrow> wd_queue \<times> node_heap \<Rightarrow> bool" where
  "wd_wf n s \<longleftrightarrow> (\<exists>as. queue_ok as s \<and> set as \<subseteq> {..<n})"

lemma first_free_None: "first_free n h = None \<longleftrightarrow> {..<n} \<subseteq> dom h"
  by (auto simp: first_free_def find_None_iff)

lemma first_free_Some: "first_free n h = Some a \<Longrightarrow> a < n \<and> h a = None"
  by (auto simp: first_free_def find_Some_iff)

interpretation wdq: bounded_queue "wd_put n" wd_get wd_contents "wd_wf n" "\<lambda>_. n" "\<lambda>_. True" for n
proof (unfold_locales, goal_cases)
  case (1 q)
  then obtain as where as: "queue_ok as q" "set as \<subseteq> {..<n}" by (auto simp: wd_wf_def)
  then have "distinct as" by (cases q) (simp add: queue_ok_def)
  then have "length as \<le> n" using as(2) card_mono [of "{..<n}" "set as"] by (simp add: distinct_card)
  then show ?case using length_wd_contents [OF as(1)] by simp
next
  case (2 q x)
  then obtain as where as: "queue_ok as q" "set as \<subseteq> {..<n}" by (auto simp: wd_wf_def)
  obtain s h where q: "q = (s, h)" by (cases q)
  have "card (set as) = n" using 2(3) as(1) length_wd_contents [OF as(1)] q
    by (simp add: queue_ok_def distinct_card)
  then have "set as = {..<n}" using as(2) card_subset_eq [of "{..<n}" "set as"] by simp
  then have "first_free n h = None" using as(1) q by (auto simp: first_free_None queue_ok_def)
  then show ?case by (simp add: wd_put_def q enQueue_def)
next
  case (3 q x)
  then obtain as where as: "queue_ok as q" "set as \<subseteq> {..<n}" by (auto simp: wd_wf_def)
  obtain s h where q: "q = (s, h)" by (cases q)
  have "card (set as) < n" using 3(3) length_wd_contents [OF as(1)] card_length [of as] by simp
  then have "\<not> {..<n} \<subseteq> set as" using card_mono [of "set as" "{..<n}"] by auto
  then obtain a where a: "first_free n h = Some a" using as(1) q first_free_None [of n h]
    by (auto simp: queue_ok_def)
  note f = first_free_Some [OF a]
  have "set (as @ [a]) \<subseteq> {..<n}" using as(2) f by simp
  then show ?case using enQueue_ok [OF as(1) [unfolded q] conjunct2 [OF f], of x]
    unfolding wd_put_def wd_wf_def q by (auto simp: a simp del: set_append)
next
  case (4 q)
  then obtain as where as: "queue_ok as q" by (auto simp: wd_wf_def)
  then have "as = []" using 4(2) length_wd_contents [OF as] by simp
  then show ?case using as by (cases q) (simp add: wd_get_def front_netfd_def queue_ok_def)
next
  case (5 q x xs)
  then obtain as where as: "queue_ok as q" "set as \<subseteq> {..<n}" by (auto simp: wd_wf_def)
  then obtain a bs where ab: "as = a # bs" using 5(2) length_wd_contents [OF as(1)] by (cases as) auto
  obtain s h where q: "q = (s, h)" by (cases q)
  from deQueue_ok [OF as(1) [unfolded ab q]] show ?case
    using 5(2) as(2) ab by (auto simp: wd_get_def q wd_wf_def)
qed

subsection \<open>The invariant of the interleavings\<close>

definition pool_queue :: "wd_world \<Rightarrow> wd_queue \<times> node_heap" where
  "pool_queue w = (wp_queue (wd_p w), wp_heap (wd_p w))"

definition serving :: "wd_pc \<Rightarrow> int multiset" where
  "serving pc = (case pc of Serving fd \<Rightarrow> {#fd#} | _ \<Rightarrow> {#})"

lemma serving_simps [simp]:
  "serving (Serving fd) = {#fd#}" "serving AtLock = {#}" "serving Waiting = {#}" "serving Left = {#}" "serving NotMade = {#}"
  by (simp_all add: serving_def)

text \<open>The workers that were made, when they may wait and when they may have left.\<close>

definition worker_inv :: "nat set \<Rightarrow> wd_pool \<Rightarrow> (nat \<Rightarrow> wd_pc) \<Rightarrow> bool" where
  "worker_inv made p pcs \<longleftrightarrow> (\<forall>i. pcs i = NotMade \<longleftrightarrow> i \<notin> made)
     \<and> (\<forall>i. pcs i = Waiting \<longrightarrow> wp_exitFlag p = 0 \<and> wq_size (wp_queue p) = 0)
     \<and> (\<forall>i. pcs i = Left \<longrightarrow> wp_exitFlag p = 1) \<and> wp_exitFlag p \<in> {0, 1}"

definition main_inv :: "nat set \<Rightarrow> wd_pool \<Rightarrow> (nat \<Rightarrow> wd_pc) \<Rightarrow> main_pc \<Rightarrow> bool" where
  "main_inv made p pcs m \<longleftrightarrow> (m = MLoop \<longleftrightarrow> wp_exitFlag p = 0)
     \<and> (\<forall>k. m = MJoin k \<longrightarrow> (\<forall>j<k. pcs j = Left))
     \<and> (m = MExited \<longrightarrow> (\<forall>j. int j < wp_workerNum p \<longrightarrow> pcs j = Left))
     \<and> (m = MFault \<longrightarrow> (\<exists>k. int k < wp_workerNum p \<and> k \<notin> made))"

definition wd_inv :: "nat set \<Rightarrow> int \<Rightarrow> wd_world \<Rightarrow> bool" where
  "wd_inv made N w \<longleftrightarrow> (\<exists>as. queue_ok as (pool_queue w)) \<and> wp_workerNum (wd_p w) = N \<and> made \<subseteq> {..<nat N}
     \<and> worker_inv made (wd_p w) (wd_pcs w) \<and> main_inv made (wd_p w) (wd_pcs w) (wd_main w)
     \<and> wd_accepted w = wd_started w @ wd_contents (pool_queue w)
     \<and> mset (wd_started w) = mset (wd_closed w) + (\<Sum>i<nat N. serving (wd_pcs w i))"

lemma queue_empty_iff: "queue_ok as (q, h) \<Longrightarrow> wq_size q = 0 \<longleftrightarrow> as = []"
  by (simp add: queue_ok_def)

lemma section_cases:
  assumes "queue_ok as (wp_queue p, wp_heap p)" "wp_exitFlag p \<in> {0, 1}"
  obtains "wp_exitFlag p = 0" "wq_size (wp_queue p) = 0" "threadFunc_section p = Done (p, Waiting)"
    | "wp_exitFlag p = 1" "threadFunc_section p = Done (p, Left)"
    | fd p' bs where "wp_exitFlag p = 0" "wq_size (wp_queue p) \<noteq> 0" "threadFunc_section p = Done (p', Serving fd)"
        "queue_ok bs (wp_queue p', wp_heap p')" "wp_exitFlag p' = 0" "wp_workerNum p' = wp_workerNum p"
        "wd_contents (wp_queue p, wp_heap p) = fd # wd_contents (wp_queue p', wp_heap p')"
proof (cases as)
  case Nil
  then have "wq_size (wp_queue p) = 0" using assms(1) queue_empty_iff by blast
  then show thesis using assms(2) that(1,2) by (auto simp: threadFunc_section_def)
next
  case (Cons a bs)
  then have ne: "wq_size (wp_queue p) \<noteq> 0" using assms(1) queue_empty_iff by fastforce
  from deQueue_ok [OF assms(1) [unfolded Cons]] obtain fd q' where d: "front_netfd (wp_queue p, wp_heap p) = Done fd"
    "deQueue (wp_queue p, wp_heap p) = Done (q', (wp_heap p)(a := None))" "queue_ok bs (q', (wp_heap p)(a := None))"
    "wd_contents (wp_queue p, wp_heap p) = fd # wd_contents (q', (wp_heap p)(a := None))" by blast
  show thesis
  proof (cases "wp_exitFlag p = 0")
    case True
    then show thesis using that(3) [of "p\<lparr>wp_queue := q', wp_heap := (wp_heap p)(a := None)\<rparr>" fd bs] d ne
      by (simp add: threadFunc_section_def)
  next
    case False
    then show thesis using assms(2) that(2) by (simp add: threadFunc_section_def)
  qed
qed

lemma worker_inv_pc:
  assumes "worker_inv made p pcs" "pcs i \<noteq> NotMade" "pc \<noteq> NotMade"
    and "pc = Waiting \<Longrightarrow> wp_exitFlag p = 0 \<and> wq_size (wp_queue p) = 0" "pc = Left \<Longrightarrow> wp_exitFlag p = 1"
  shows "worker_inv made p (pcs(i := pc))"
  using assms unfolding worker_inv_def by (auto simp del: insert_iff)

lemma main_inv_pc:
  assumes "main_inv made p pcs m" "pcs i \<noteq> Left"
  shows "main_inv made p (pcs(i := pc)) m"
proof -
  have keep: "(pcs(i := pc)) j = Left" if "pcs j = Left" for j using that assms(2) by (cases "j = i") auto
  show ?thesis using assms(1) unfolding main_inv_def by (auto simp del: fun_upd_apply intro!: keep)
qed

lemma broadcast_pc [simp]:
  "broadcast pcs i = NotMade \<longleftrightarrow> pcs i = NotMade" "broadcast pcs i = Left \<longleftrightarrow> pcs i = Left" "broadcast pcs i \<noteq> Waiting"
  "serving (broadcast pcs i) = serving (pcs i)"
  by (auto simp: broadcast_def)

lemma wd_inv_worker:
  assumes inv: "wd_inv made N w" and step: "wd_worker_step i w w'"
  shows "wd_inv made N w'"
proof -
  from inv obtain as where as: "queue_ok as (wp_queue (wd_p w), wp_heap (wd_p w))" by (auto simp: wd_inv_def pool_queue_def)
  have I: "wp_workerNum (wd_p w) = N" "made \<subseteq> {..<nat N}" "worker_inv made (wd_p w) (wd_pcs w)"
    "main_inv made (wd_p w) (wd_pcs w) (wd_main w)" "wd_accepted w = wd_started w @ wd_contents (pool_queue w)"
    "mset (wd_started w) = mset (wd_closed w) + (\<Sum>i<nat N. serving (wd_pcs w i))"
    using inv by (simp_all add: wd_inv_def)
  have lt: "i < nat N" if "wd_pcs w i \<noteq> NotMade" using I(2,3) that by (auto simp: worker_inv_def)
  from step show ?thesis
  proof cases
    case (wd_section p pc)
    have i: "i < nat N" using lt wd_section(2) by simp
    note S = sum_state_upd [OF i, of serving "wd_pcs w"]
    have flag: "wp_exitFlag (wd_p w) \<in> {0, 1}" using I(3) by (simp add: worker_inv_def)
    show ?thesis
    proof (cases rule: section_cases [OF as flag])
      case 1
      then have "worker_inv made (wd_p w) ((wd_pcs w)(i := Waiting))"
        using wd_section(2) by (intro worker_inv_pc [OF I(3)]) simp_all
      then show ?thesis using 1 wd_section I main_inv_pc [OF I(4), of i Waiting] as S [of Waiting]
        by (auto simp: wd_inv_def pool_queue_def simp del: fun_upd_apply)
    next
      case 2
      then have "worker_inv made (wd_p w) ((wd_pcs w)(i := Left))"
        using wd_section(2) by (intro worker_inv_pc [OF I(3)]) simp_all
      then show ?thesis using 2 wd_section I main_inv_pc [OF I(4), of i Left] as S [of Left]
        by (auto simp: wd_inv_def pool_queue_def simp del: fun_upd_apply)
    next
      case (3 fd p' bs)
      have p: "p = p'" "pc = Serving fd" using 3(3) wd_section(3) by auto
      have "worker_inv made p' (wd_pcs w)" using I(3) 3(1,2,5) by (auto simp: worker_inv_def)
      then have "worker_inv made p' ((wd_pcs w)(i := Serving fd))"
        using wd_section(2) by (intro worker_inv_pc) simp_all
      moreover have "main_inv made p' (wd_pcs w) (wd_main w)" using I(4) 3(1,5,6) by (simp add: main_inv_def)
      then have "main_inv made p' ((wd_pcs w)(i := Serving fd)) (wd_main w)"
        using wd_section(2) by (intro main_inv_pc) simp_all
      ultimately show ?thesis using 3 p wd_section I(1,2,5,6) S [of "Serving fd"]
        by (auto simp: wd_inv_def pool_queue_def simp del: fun_upd_apply)
    qed
  next
    case (wd_served fd)
    have i: "i < nat N" using lt wd_served(2) by simp
    have "worker_inv made (wd_p w) ((wd_pcs w)(i := AtLock))"
      using wd_served(2) by (intro worker_inv_pc [OF I(3)]) simp_all
    then show ?thesis using wd_served I main_inv_pc [OF I(4), of i AtLock] as sum_state_upd [OF i, of serving "wd_pcs w" AtLock]
      by (auto simp: wd_inv_def pool_queue_def simp del: fun_upd_apply)
  next
    case wd_spurious
    have i: "i < nat N" using lt wd_spurious(2) by simp
    have "worker_inv made (wd_p w) ((wd_pcs w)(i := AtLock))"
      using wd_spurious(2) by (intro worker_inv_pc [OF I(3)]) simp_all
    then show ?thesis using wd_spurious I main_inv_pc [OF I(4), of i AtLock] as sum_state_upd [OF i, of serving "wd_pcs w" AtLock]
      by (auto simp: wd_inv_def pool_queue_def simp del: fun_upd_apply)
  qed
qed

lemma wd_inv_main:
  assumes inv: "wd_inv made N w" and step: "wd_main_step w w'"
  shows "wd_inv made N w'"
proof -
  from inv obtain as where as: "queue_ok as (wp_queue (wd_p w), wp_heap (wd_p w))" by (auto simp: wd_inv_def pool_queue_def)
  have I: "wp_workerNum (wd_p w) = N" "made \<subseteq> {..<nat N}" "worker_inv made (wd_p w) (wd_pcs w)"
    "main_inv made (wd_p w) (wd_pcs w) (wd_main w)" "wd_accepted w = wd_started w @ wd_contents (pool_queue w)"
    "mset (wd_started w) = mset (wd_closed w) + (\<Sum>i<nat N. serving (wd_pcs w i))"
    using inv by (simp_all add: wd_inv_def)
  from step show ?thesis
  proof cases
    case (wd_accept a fd p)
    obtain q' h' where e: "enQueue (Some a) fd (wp_queue (wd_p w), wp_heap (wd_p w)) = Done (q', h')"
      "queue_ok (as @ [a]) (q', h')"
      "wd_contents (q', h') = wd_contents (wp_queue (wd_p w), wp_heap (wd_p w)) @ [fd]"
      using enQueue_ok [OF as wd_accept(3)] by blast
    then have p: "p = (wd_p w)\<lparr>wp_queue := q', wp_heap := h'\<rparr>" using wd_accept(4) by (simp add: accept_section_def)
    have "worker_inv made p (broadcast (wd_pcs w))" using I(3) p by (auto simp: worker_inv_def)
    moreover have "main_inv made p (broadcast (wd_pcs w)) (wd_main w)" using I(4) p by (simp add: main_inv_def)
    ultimately show ?thesis using wd_accept(1) I(1,2,5,6) e p
      by (auto simp: wd_inv_def pool_queue_def)
  next
    case wd_exit
    have "worker_inv made (exit_section (wd_p w)) (broadcast (wd_pcs w))"
      using I(3) by (auto simp: worker_inv_def exit_section_def)
    moreover have "main_inv made (exit_section (wd_p w)) (broadcast (wd_pcs w)) (MJoin 0)"
      by (simp add: main_inv_def exit_section_def)
    ultimately show ?thesis using wd_exit(1) I(1,2,5,6) as by (auto simp: wd_inv_def pool_queue_def exit_section_def)
  next
    case (wd_join k)
    then have "main_inv made (wd_p w) (wd_pcs w) (MJoin (Suc k))" using I(4) by (auto simp: main_inv_def less_Suc_eq)
    then show ?thesis using wd_join(1) I as by (auto simp: wd_inv_def pool_queue_def)
  next
    case (wd_join_fault k)
    then have "main_inv made (wd_p w) (wd_pcs w) MFault" using I(3,4) by (auto simp: main_inv_def worker_inv_def)
    then show ?thesis using wd_join_fault(1) I as by (auto simp: wd_inv_def pool_queue_def)
  next
    case (wd_done k)
    then have "main_inv made (wd_p w) (wd_pcs w) MExited" using I(4) by (auto simp: main_inv_def)
    then show ?thesis using wd_done(1) I as by (auto simp: wd_inv_def pool_queue_def)
  qed
qed

lemma make_loop_nth:
  "length (make_loop ok i k arr) = length arr
   \<and> (\<forall>j < length arr. make_loop ok i k arr ! j \<longleftrightarrow> arr ! j \<or> i \<le> j \<and> j < i + k \<and> ok j)"
proof (induction ok i k arr rule: make_loop.induct)
  case (2 ok i k arr)
  let ?arr = "if ok i then arr[i := True] else arr"
  have l: "length ?arr = length arr" by simp
  have n: "?arr ! j \<longleftrightarrow> arr ! j \<or> j = i \<and> ok j" if "j < length arr" for j
    using that by (cases "j = i") simp_all
  have s: "make_loop ok i (Suc k) arr = make_loop ok (Suc i) k ?arr" by (simp only: make_loop.simps)
  have "make_loop ok i (Suc k) arr ! j \<longleftrightarrow> arr ! j \<or> i \<le> j \<and> j < i + Suc k \<and> ok j" if "j < length arr" for j
  proof -
    have "make_loop ok (Suc i) k ?arr ! j \<longleftrightarrow> (arr ! j \<or> j = i \<and> ok j) \<or> Suc i \<le> j \<and> j < Suc i + k \<and> ok j"
      using 2 l n [OF that] that by metis
    moreover have "(j = i \<or> Suc i \<le> j \<and> j < Suc i + k) \<longleftrightarrow> i \<le> j \<and> j < i + Suc k" by auto
    ultimately show ?thesis unfolding s by blast
  qed
  then show ?case using 2 l unfolding s by simp
qed auto

definition made_workers :: "(nat \<Rightarrow> bool) \<Rightarrow> int \<Rightarrow> nat set" where
  "made_workers ok N = {i. i < nat N \<and> ok i}"

lemma wd_inv_start:
  assumes "makeWorker ok (threadPoolInit True N) = Done p"
  shows "wd_inv (made_workers ok N) N (wd_start p)"
proof -
  obtain arr where p: "wp_arr p = Some arr" "length arr = nat N" "\<forall>j < nat N. arr ! j \<longleftrightarrow> ok j"
    "p\<lparr>wp_arr := None\<rparr> = \<lparr>wp_arr = None, wp_workerNum = N, wp_queue = taskQueueInit, wp_heap = Map.empty, wp_exitFlag = 0\<rparr>"
    using assms make_loop_nth [of ok 0 "nat N" "replicate (nat N) False"]
    by (auto simp: makeWorker_def threadPoolInit_def tidArrInit_def split: if_splits)
  then have s: "wp_workerNum p = N" "wp_queue p = taskQueueInit" "wp_heap p = Map.empty" "wp_exitFlag p = 0"
    by (cases p; simp)+
  have pcs: "wd_pcs (wd_start p) i = (if i \<in> made_workers ok N then AtLock else NotMade)" for i
    using p(1-3) by (auto simp: wd_start_def made_workers_def)
  have "queue_ok [] (pool_queue (wd_start p))" using s by (simp add: queue_ok_def pool_queue_def wd_start_def taskQueueInit_def)
  moreover have "worker_inv (made_workers ok N) p (wd_pcs (wd_start p))" using s by (auto simp: worker_inv_def pcs)
  moreover have "main_inv (made_workers ok N) p (wd_pcs (wd_start p)) MLoop" using s by (simp add: main_inv_def)
  moreover have "(\<Sum>i<nat N. serving (wd_pcs (wd_start p) i)) = {#}" by (intro sum.neutral) (simp add: pcs)
  moreover have "wd_contents (pool_queue (wd_start p)) = []"
    using s by (simp add: wd_contents_def pool_queue_def wd_start_def taskQueueInit_def)
  ultimately show ?thesis using s
    by (auto simp: wd_inv_def wd_start_def made_workers_def)
qed

lemma wd_reach_inv:
  assumes "wd_reach ok N w"
  shows "wd_inv (made_workers ok N) N w"
proof -
  from assms obtain p where p: "makeWorker ok (threadPoolInit True N) = Done p" "wd_step\<^sup>*\<^sup>* (wd_start p) w"
    by (auto simp: wd_reach_def)
  from p(2) show ?thesis
    by (induction rule: rtranclp_induct)
      (use wd_inv_start [OF p(1)] in \<open>auto simp: wd_step_def intro: wd_inv_worker wd_inv_main\<close>)
qed

lemma section_exit: "wp_exitFlag p = 1 \<Longrightarrow> threadFunc_section p = Done (p, Left)"
  by (simp add: threadFunc_section_def)

text \<open>What is left to do after the exit was asked for: a worker that serves has two steps, one at the lock
  has one, and the main thread joins the rest.\<close>

definition worker_work :: "wd_pc \<Rightarrow> nat" where
  "worker_work pc = (case pc of Serving _ \<Rightarrow> 2 | AtLock \<Rightarrow> 1 | _ \<Rightarrow> 0)"

lemma worker_work_simps [simp]:
  "worker_work (Serving fd) = 2" "worker_work AtLock = 1" "worker_work Waiting = 0" "worker_work Left = 0"
  "worker_work NotMade = 0"
  by (simp_all add: worker_work_def)

definition main_work :: "nat \<Rightarrow> main_pc \<Rightarrow> nat" where
  "main_work n m = (case m of MLoop \<Rightarrow> n + 2 | MJoin k \<Rightarrow> Suc (n - k) | MExited \<Rightarrow> 0 | MFault \<Rightarrow> 0)"

definition wd_work :: "int \<Rightarrow> wd_world \<Rightarrow> nat" where
  "wd_work N w = (\<Sum>i<nat N. worker_work (wd_pcs w i)) + main_work (nat N) (wd_main w)"

lemma wd_worker_work:
  assumes inv: "wd_inv made N w" and m: "wd_main w \<noteq> MLoop" and step: "wd_worker_step i w w'"
  shows "wd_work N w' < wd_work N w \<and> wd_main w' = wd_main w"
proof -
  have I: "worker_inv made (wd_p w) (wd_pcs w)" "made \<subseteq> {..<nat N}" and flag: "wp_exitFlag (wd_p w) = 1"
    using inv m by (auto simp: wd_inv_def main_inv_def worker_inv_def)
  have "wd_pcs w i \<noteq> NotMade" using step by cases auto
  then have i: "i < nat N" using I by (auto simp: worker_inv_def)
  note S = sum_state_upd [OF i, of worker_work "wd_pcs w"]
  from step show ?thesis
  proof cases
    case (wd_section p pc)
    then have "pc = Left" using section_exit [OF flag] by simp
    then show ?thesis using wd_section(1,2) S [of Left] by (simp add: wd_work_def del: fun_upd_apply)
  next
    case (wd_served fd)
    then show ?thesis using S [of AtLock] by (simp add: wd_work_def del: fun_upd_apply)
  next
    case wd_spurious
    then show ?thesis using I(1) flag by (simp add: worker_inv_def)
  qed
qed

lemma wd_main_work:
  assumes "wp_workerNum (wd_p w) = N" "wd_main w \<noteq> MLoop" "wd_main_step w w'"
  shows "wd_work N w' < wd_work N w \<and> wd_main w' \<noteq> MLoop"
  using assms(3,1,2) by cases (auto simp: wd_work_def main_work_def)

text \<open>After the exit was asked for the main thread waits only for a worker that can move.\<close>

lemma wd_join_moves:
  assumes inv: "wd_inv made N w" and m: "wd_main w = MJoin k"
  shows "\<exists>w'. wd_step w w'"
proof (cases "int k < N")
  case False
  then show ?thesis using inv m by (auto simp: wd_step_def wd_inv_def intro: wd_main_step.wd_done)
next
  case True
  have I: "worker_inv made (wd_p w) (wd_pcs w)" "wp_workerNum (wd_p w) = N" and flag: "wp_exitFlag (wd_p w) = 1"
    using inv m by (auto simp: wd_inv_def main_inv_def worker_inv_def)
  show ?thesis
  proof (cases "wd_pcs w k")
    case AtLock
    then show ?thesis using section_exit [OF flag] by (auto simp: wd_step_def intro: wd_worker_step.wd_section)
  next
    case Waiting
    then show ?thesis using I flag by (simp add: worker_inv_def)
  qed (use True m I in \<open>auto simp: wd_step_def intro: wd_worker_step.wd_served wd_main_step.intros\<close>)
qed

subsection \<open>Properties\<close>


text \<open>C30. In every interleaving, whichever threads could be created, connections are served once each in the
  order in which they were accepted; those not started are in the queue, each one started is being
  served or closed; and no worker waits while a connection is queued.\<close>

theorem wd_pool_serves_in_order:
  assumes "wd_reach ok N w"
  shows "wd_accepted w = wd_started w @ wd_contents (pool_queue w)
    \<and> mset (wd_started w) = mset (wd_closed w) + (\<Sum>i<nat N. serving (wd_pcs w i))
    \<and> ((\<exists>i. wd_pcs w i = Waiting) \<longrightarrow> wd_contents (pool_queue w) = [])"
proof -
  from wd_reach_inv [OF assms] have "wd_accepted w = wd_started w @ wd_contents (pool_queue w)"
    "mset (wd_started w) = mset (wd_closed w) + (\<Sum>i<nat N. serving (wd_pcs w i))"
    "\<forall>i. wd_pcs w i = Waiting \<longrightarrow> wq_size (wp_queue (wd_p w)) = 0"
    by (auto simp: wd_inv_def worker_inv_def)
  then show ?thesis by (auto simp: wd_contents_def pool_queue_def)
qed

text \<open>While a connection is queued and the pool is not asked to exit, every worker that was created can
  move.\<close>

theorem wd_pool_never_stuck:
  assumes "wd_reach ok N w" "wd_contents (pool_queue w) \<noteq> []" "wd_main w = MLoop" "i < nat N" "ok i"
  shows "\<exists>w'. wd_worker_step i w w'"
proof -
  note inv = wd_reach_inv [OF assms(1)]
  from inv obtain as where as: "queue_ok as (wp_queue (wd_p w), wp_heap (wd_p w))"
    by (auto simp: wd_inv_def pool_queue_def)
  have W: "worker_inv (made_workers ok N) (wd_p w) (wd_pcs w)" and flag: "wp_exitFlag (wd_p w) = 0"
    using inv assms(3) by (simp_all add: wd_inv_def main_inv_def)
  have "wd_pcs w i \<noteq> NotMade" using W assms(4,5) by (auto simp: worker_inv_def made_workers_def)
  moreover have "wd_pcs w i \<noteq> Left" using W flag by (auto simp: worker_inv_def)
  moreover have "\<exists>w'. wd_worker_step i w w'" if "wd_pcs w i = AtLock"
  proof -
    have f: "wp_exitFlag (wd_p w) \<in> {0, 1}" using flag by simp
    show ?thesis by (cases rule: section_cases [OF as f]) (use wd_section [OF that] in blast)+
  qed
  ultimately show ?thesis by (cases "wd_pcs w i") (auto intro: wd_served wd_spurious)
qed

text \<open>Once the exit was asked for, no queued connection is taken any more, by no interleaving: the workers
  finish what they are serving and leave, and what is queued is dropped.\<close>

theorem wd_exit_drops_queue:
  assumes "wd_reach ok N w" "wd_main w \<noteq> MLoop" "wd_step\<^sup>*\<^sup>* w w'"
  shows "wd_started w' = wd_started w \<and> wd_accepted w' = wd_accepted w
    \<and> wd_contents (pool_queue w') = wd_contents (pool_queue w)"
proof -
  have "wd_inv (made_workers ok N) N w' \<and> wd_main w' \<noteq> MLoop \<and> wd_started w' = wd_started w
    \<and> wd_accepted w' = wd_accepted w \<and> wd_p w' = wd_p w"
    using assms(3)
  proof (induction rule: rtranclp_induct)
    case base
    then show ?case using wd_reach_inv [OF assms(1)] assms(2) by simp
  next
    case (step w1 w2)
    then have inv: "wd_inv (made_workers ok N) N w1" and m: "wd_main w1 \<noteq> MLoop" by auto
    have "wd_inv (made_workers ok N) N w2"
      using step.hyps(2) inv by (auto simp: wd_step_def intro: wd_inv_worker wd_inv_main)
    moreover have "wp_exitFlag (wd_p w1) = 1" using inv m by (auto simp: wd_inv_def main_inv_def worker_inv_def)
    then have "threadFunc_section (wd_p w1) = Done (wd_p w1, Left)" by (simp add: threadFunc_section_def)
    then have "wd_main w2 \<noteq> MLoop \<and> wd_started w2 = wd_started w1 \<and> wd_accepted w2 = wd_accepted w1 \<and> wd_p w2 = wd_p w1"
      using step.hyps(2) m unfolding wd_step_def
      by (auto elim!: wd_worker_step.cases wd_main_step.cases)
    ultimately show ?case using step.IH by simp
  qed
  then show ?thesis by (simp add: pool_queue_def)
qed

text \<open>C31. Once the exit was asked for, every interleaving comes to an end within the work that is left, and where
  it ends the main thread has joined every worker and exited, provided every worker could be created;
  otherwise it has used the identifier of a thread that does not exist.\<close>

theorem wd_exit_terminates:
  assumes "wd_reach ok N w" "wd_main w \<noteq> MLoop"
  shows "(\<forall>n w'. (wd_step ^^ n) w w' \<longrightarrow> n \<le> wd_work N w)
    \<and> (\<forall>w'. wd_step\<^sup>*\<^sup>* w w' \<and> (\<nexists>v. wd_step w' v)
        \<longrightarrow> wd_main w' = MExited \<or> wd_main w' = MFault \<and> (\<exists>i < nat N. \<not> ok i))"
proof -
  let ?I = "\<lambda>w. wd_inv (made_workers ok N) N w \<and> wd_main w \<noteq> MLoop"
  have step: "?I v' \<and> wd_work N v' < wd_work N v" if "?I v" "wd_step v v'" for v v'
  proof -
    have n: "wp_workerNum (wd_p v) = N" using that(1) by (simp add: wd_inv_def)
    show ?thesis using that(2) unfolding wd_step_def
    proof (elim disjE exE)
      fix i assume "wd_worker_step i v v'"
      then show ?thesis using that(1) wd_inv_worker wd_worker_work by metis
    next
      assume "wd_main_step v v'"
      then show ?thesis using that(1) wd_inv_main wd_main_work [OF n] by blast
    qed
  qed
  have I: "?I w" using wd_reach_inv [OF assms(1)] assms(2) by simp
  have bound: "?I v \<and> n + wd_work N v \<le> wd_work N w" if "(wd_step ^^ n) w v" for n v
    using that
  proof (induction n arbitrary: v)
    case (Suc n)
    then obtain u where "(wd_step ^^ n) w u" "wd_step u v" by auto
    then show ?case using Suc.IH [of u] step [of u v] by simp
  qed (use I in simp)
  have "wd_main v = MExited \<or> wd_main v = MFault \<and> (\<exists>i < nat N. \<not> ok i)"
    if "wd_step\<^sup>*\<^sup>* w v" "\<nexists>u. wd_step v u" for v
  proof -
    have v: "?I v" using that(1) bound by (auto simp: rtranclp_power)
    then have "wd_main v = MExited \<or> wd_main v = MFault" using wd_join_moves that(2) by (cases "wd_main v") blast+
    moreover have "wd_main v = MFault \<Longrightarrow> \<exists>i < nat N. \<not> ok i"
      using v by (auto simp: wd_inv_def main_inv_def made_workers_def)
    ultimately show ?thesis by blast
  qed
  then show ?thesis using bound by (meson le_add1 le_trans)
qed

subsection \<open>A pool of one worker\<close>

definition single_pool :: "int list \<Rightarrow> int \<Rightarrow> wd_pool" where
  "single_pool fds flag = \<lparr>wp_arr = Some [True], wp_workerNum = 1,
     wp_queue = (if fds = [] then taskQueueInit else \<lparr>wq_front = Some 0, wq_rear = Some 0, wq_size = 1\<rparr>),
     wp_heap = (if fds = [] then Map.empty else [0 \<mapsto> \<lparr>nd_netfd = hd fds, nd_next = None\<rparr>]), wp_exitFlag = flag\<rparr>"

definition one_world :: "int list \<Rightarrow> int \<Rightarrow> main_pc \<Rightarrow> wd_world" where
  "one_world fds flag m = \<lparr>wd_p = single_pool fds flag, wd_pcs = (\<lambda>i. if i = 0 then AtLock else NotMade), wd_main = m,
     wd_accepted = fds, wd_started = [], wd_closed = []\<rparr>"

lemma one_start: "makeWorker (\<lambda>_. True) (threadPoolInit True 1) = Done (single_pool [] 0)"
  by (simp add: makeWorker_def threadPoolInit_def tidArrInit_def single_pool_def numeral_eq_Suc)

lemma one_world_start: "wd_start (single_pool [] 0) = one_world [] 0 MLoop"
  by (auto simp: wd_start_def one_world_def single_pool_def)

lemma broadcast_one: "broadcast (\<lambda>i. if i = 0 then AtLock else NotMade) = (\<lambda>i. if i = 0 then AtLock else NotMade)"
  by (auto simp: broadcast_def)

lemma one_accept: "wd_main_step (one_world [] 0 MLoop) (one_world [5] 0 MLoop)"
proof -
  have "accept_section (Some 0) 5 (single_pool [] 0) = Done (single_pool [5] 0)"
    by (simp add: accept_section_def enQueue_def single_pool_def taskQueueInit_def Let_def)
  then show ?thesis
    using wd_main_step.wd_accept [of "one_world [] 0 MLoop" 0 5 "single_pool [5] 0"]
    by (simp add: one_world_def broadcast_one) (simp add: single_pool_def)
qed

lemma one_exit: "wd_main_step (one_world [5] 0 MLoop) (one_world [5] 1 (MJoin 0))"
  using wd_main_step.wd_exit [of "one_world [5] 0 MLoop"]
  by (simp add: one_world_def broadcast_one exit_section_def single_pool_def)

lemma wd_reach_main: "wd_reach ok N w \<Longrightarrow> wd_main_step w w' \<Longrightarrow> wd_reach ok N w'"
  unfolding wd_reach_def by (meson rtranclp.rtrancl_into_rtrancl wd_step_def)

lemma one_accepted: "wd_reach (\<lambda>_. True) 1 (one_world [5] 0 MLoop)"
proof -
  have "wd_reach (\<lambda>_. True) 1 (one_world [] 0 MLoop)"
    unfolding wd_reach_def by (intro exI conjI, rule one_start) (simp add: one_world_start)
  then show ?thesis by (rule wd_reach_main [OF _ one_accept])
qed

lemmas one_exiting = wd_reach_main [OF one_accepted one_exit]

lemma one_contents: "wd_contents (pool_queue (one_world [5] f m)) = [5]"
  by (simp add: wd_contents_def pool_queue_def one_world_def single_pool_def)

theorem wd_pool_serves_in_order_witness:
  "wd_accepted (one_world [5] 0 MLoop)
     = wd_started (one_world [5] 0 MLoop) @ wd_contents (pool_queue (one_world [5] 0 MLoop))
   \<and> wd_contents (pool_queue (one_world [5] 0 MLoop)) = [5]"
  using wd_pool_serves_in_order [OF one_accepted] by (simp add: one_contents)

theorem wd_pool_never_stuck_witness: "\<exists>w'. wd_worker_step 0 (one_world [5] 0 MLoop) w'"
  by (rule wd_pool_never_stuck [OF one_accepted]) (simp_all add: one_contents, simp add: one_world_def)

lemma one_leaves:
  "wd_step (one_world [5] 1 (MJoin 0)) ((one_world [5] 1 (MJoin 0))\<lparr>wd_pcs := (\<lambda>i. if i = 0 then AtLock else NotMade)(0 := Left)\<rparr>)"
  using wd_worker_step.wd_section [of "one_world [5] 1 (MJoin 0)" 0 "single_pool [5] 1" Left]
  by (simp add: wd_step_def one_world_def section_exit single_pool_def del: fun_upd_apply) blast

theorem wd_exit_drops_queue_witness:
  "\<exists>w'. wd_step (one_world [5] 1 (MJoin 0)) w' \<and> wd_started w' = [] \<and> wd_contents (pool_queue w') = [5]"
proof -
  let ?w = "one_world [5] 1 (MJoin 0)"
  have m: "wd_main ?w \<noteq> MLoop" "wd_started ?w = []" by (simp_all add: one_world_def)
  obtain w' where w': "wd_step ?w w'" using one_leaves by blast
  then have "wd_step\<^sup>*\<^sup>* ?w w'" by (rule r_into_rtranclp)
  from wd_exit_drops_queue [OF one_exiting m(1) this] show ?thesis using w' m(2) one_contents by auto
qed

theorem wd_exit_terminates_witness:
  "wd_work 1 (one_world [5] 1 (MJoin 0)) = 3 \<and> (\<nexists>w'. (wd_step ^^ 4) (one_world [5] 1 (MJoin 0)) w')"
proof -
  have m: "wd_main (one_world [5] 1 (MJoin 0)) \<noteq> MLoop" by (simp add: one_world_def)
  have w: "wd_work 1 (one_world [5] 1 (MJoin 0)) = 3" by (simp add: wd_work_def one_world_def main_work_def)
  have "n \<le> 3" if "(wd_step ^^ n) (one_world [5] 1 (MJoin 0)) w'" for n w'
    using wd_exit_terminates [OF one_exiting m] w that by metis
  from this [of 4] w show ?thesis by auto
qed

end
