(* ===== verification/Cond_Var.thy ===== *)
theory Cond_Var
  imports Main
begin

text \<open>
  Condition variables as the step relations of the pools use them. The threads that may wait have the
  states \<open>f 0, f 1, \<dots>\<close>; \<open>waiting\<close> says which states are blocked on the condition variable and \<open>wake\<close> where a
  blocked thread goes on. The contract of a client that signals once for each unit it makes
  available, and whose woken threads are \<open>ready\<close> to take one, is the locale \<open>cond_var\<close>: while a thread is blocked,
  there are at least as many ready threads as units (\<open>covered\<close>), so no unit is left to threads that sleep.
\<close>

definition notify_one :: "('s \<Rightarrow> bool) \<Rightarrow> ('s \<Rightarrow> 's) \<Rightarrow> (nat \<Rightarrow> 's) \<Rightarrow> (nat \<Rightarrow> 's) \<Rightarrow> bool" where
  "notify_one waiting wake f f' \<longleftrightarrow>
     (if \<exists>i. waiting (f i) then \<exists>i. waiting (f i) \<and> f' = f(i := wake (f i)) else f' = f)"

definition notify_all :: "('s \<Rightarrow> bool) \<Rightarrow> ('s \<Rightarrow> 's) \<Rightarrow> (nat \<Rightarrow> 's) \<Rightarrow> nat \<Rightarrow> 's" where
  "notify_all waiting wake f = (\<lambda>i. if waiting (f i) then wake (f i) else f i)"

definition covered :: "('s \<Rightarrow> bool) \<Rightarrow> ('s \<Rightarrow> bool) \<Rightarrow> nat \<Rightarrow> (nat \<Rightarrow> 's) \<Rightarrow> bool" where
  "covered waiting ready m f \<longleftrightarrow> (\<exists>i. waiting (f i)) \<longrightarrow> m \<le> card {i. ready (f i)}"

lemma finite_state_upd:
  assumes "finite {i. P (f i)}"
  shows "finite {j. P ((f(i := x)) j)}"
proof (rule finite_subset)
  show "{j. P ((f(i := x)) j)} \<subseteq> insert i {j. P (f j)}" by auto
qed (simp add: assms)

lemma card_state_upd:
  assumes "finite {j. P (f j)}"
  shows "card {j. P ((f(i := x)) j)} + of_bool (P (f i)) = card {j. P (f j)} + of_bool (P x)"
proof -
  obtain A where A: "A = {j. P (f j)} - {i}" by blast
  have fin: "finite A" "i \<notin> A" using assms A by auto
  have "{j. P (f j)} = (if P (f i) then insert i A else A)" using A by auto
  then have "card {j. P (f j)} = card A + of_bool (P (f i))" using fin by (cases "P (f i)") simp_all
  moreover have "{j. P ((f(i := x)) j)} = (if P x then insert i A else A)" using A by (auto split: if_splits)
  then have "card {j. P ((f(i := x)) j)} = card A + of_bool (P x)" using fin by (cases "P x") simp_all
  ultimately show ?thesis by simp
qed

lemma covered_zero [simp]: "covered waiting ready 0 f"
  by (simp add: covered_def)

lemma covered_all_awake: "(\<And>i. \<not> waiting (f i)) \<Longrightarrow> covered waiting ready m f"
  by (simp add: covered_def)

locale cond_var =
  fixes waiting ready :: "'s \<Rightarrow> bool" and wake :: "'s \<Rightarrow> 's"
  assumes wake_ready: "waiting s \<Longrightarrow> ready (wake s)"
    and wake_awake: "waiting s \<Longrightarrow> \<not> waiting (wake s)"
    and waiting_not_ready: "waiting s \<Longrightarrow> \<not> ready s"
begin

text \<open>A thread that stays ready, or was not, goes anywhere but to sleep.\<close>

lemma covered_move:
  assumes "covered waiting ready m f" "finite {i. ready (f i)}" "\<not> waiting x" "ready (f i) \<Longrightarrow> ready x"
  shows "covered waiting ready m (f(i := x))"
proof -
  have "\<exists>j. waiting (f j)" if "waiting ((f(i := x)) j)" for j using that assms(3) by (cases "j = i") auto
  then show ?thesis using assms(1,4) card_state_upd [where P = ready and f = f, OF assms(2), of i x]
    by (cases "ready (f i)") (auto simp: covered_def simp del: fun_upd_apply)
qed

text \<open>A ready thread takes a unit.\<close>

lemma covered_take:
  assumes "covered waiting ready (Suc m) f" "finite {i. ready (f i)}" "\<not> waiting x"
  shows "covered waiting ready m (f(i := x))"
proof -
  have "\<exists>j. waiting (f j)" if "waiting ((f(i := x)) j)" for j using that assms(3) by (cases "j = i") auto
  then show ?thesis using assms(1) card_state_upd [where P = ready and f = f, OF assms(2), of i x]
    by (cases "ready (f i)"; cases "ready x") (fastforce simp: covered_def simp del: fun_upd_apply)+
qed

text \<open>A new unit and a signal.\<close>

lemma covered_signal:
  assumes "covered waiting ready m f" "finite {i. ready (f i)}" "notify_one waiting wake f f'"
  shows "covered waiting ready (Suc m) f'"
proof (cases "\<exists>i. waiting (f i)")
  case True
  then obtain i where i: "waiting (f i)" "f' = f(i := wake (f i))" using assms(3) by (auto simp: notify_one_def)
  have "m \<le> card {i. ready (f i)}" using assms(1) True by (auto simp: covered_def)
  then show ?thesis using card_state_upd [where P = ready and f = f, OF assms(2), of i "wake (f i)"] i(2) wake_ready [OF i(1)]
      waiting_not_ready [OF i(1)] by (simp add: covered_def del: fun_upd_apply)
next
  case False
  then show ?thesis using assms(3) by (auto simp: notify_one_def intro: covered_all_awake)
qed

lemma notify_all_awake: "\<not> waiting (notify_all waiting wake f i)"
  by (simp add: notify_all_def wake_awake)

text \<open>What the contract gives: a unit is left over only when a thread is ready or none sleeps.\<close>

lemma covered_ready:
  assumes "covered waiting ready m f" "waiting (f i)" "0 < m"
  shows "\<exists>j. ready (f j)"
proof -
  have "0 < card {j. ready (f j)}" using assms by (fastforce simp: covered_def)
  then show ?thesis by (auto simp: card_gt_0_iff)
qed

end

lemma notify_one_same:
  "notify_one waiting wake f f' \<Longrightarrow> \<not> waiting (f i) \<Longrightarrow> f' i = f i"
  by (auto simp: notify_one_def split: if_splits)

lemma notify_one_cases:
  assumes "notify_one waiting wake f f'"
  obtains "f' = f" | i where "waiting (f i)" "f' = f(i := wake (f i))"
  using assms by (auto simp: notify_one_def split: if_splits)

end
