(* ===== verification/Cpp_Task_Pool.thy ===== *)
theory Cpp_Task_Pool
  imports Bounded_Queue Cond_Var "HOL-Library.Multiset"
begin

text \<open>
  The producer-consumer thread pool of \<^verbatim>\<open>CPP_ThreadPool\<close>, in its object-oriented version (\<^verbatim>\<open>OO_threadPool\<close>) and
  its version with function objects (\<^verbatim>\<open>BO_threadPool\<close>): \<^verbatim>\<open>TaskQueue.cpp\<close> and \<^verbatim>\<open>ThreadPool.cpp\<close>. The two differ in \<^verbatim>\<open>doTask\<close>
  after an empty task; the argument \<open>bo\<close> tells which one it is. Workers, producers and the thread that
  calls \<^verbatim>\<open>stop\<close> interleave. A thread that holds the mutex reads \<^verbatim>\<open>m_flag\<close> twice in \<^verbatim>\<open>pop\<close> while \<^verbatim>\<open>wakeup\<close> writes it without the
  mutex, so \<^verbatim>\<open>pop\<close> is two steps with the mutex held in between; \<^verbatim>\<open>push\<close> reads only data that the mutex protects and
  is one step. \<^verbatim>\<open>stop\<close> reads the size of the queue without the mutex, one step each time.
\<close>

subsection \<open>The queue\<close>

record 'a tq =
  tq_capacity :: nat
  tq_que :: "'a list"
  tq_flag :: bool

definition TaskQueue_new :: "nat \<Rightarrow> 'a tq" where
  "TaskQueue_new cap = \<lparr>tq_capacity = cap, tq_que = [], tq_flag = True\<rparr>"

definition tq_empty :: "'a tq \<Rightarrow> bool" where
  "tq_empty q \<longleftrightarrow> length (tq_que q) = 0"

definition tq_full :: "'a tq \<Rightarrow> bool" where
  "tq_full q \<longleftrightarrow> length (tq_que q) = tq_capacity q"

text \<open>\<^verbatim>\<open>push\<close> with the mutex: \<open>None\<close> when the caller has to wait.\<close>

definition tq_push :: "'a \<Rightarrow> 'a tq \<Rightarrow> 'a tq option" where
  "tq_push t q = (if tq_full q then None else Some (q\<lparr>tq_que := tq_que q @ [t]\<rparr>))"

text \<open>\<^verbatim>\<open>pop\<close>: the condition of its loop, and what follows the loop; \<^verbatim>\<open>front\<close> of an empty queue is undefined.\<close>

definition tq_pop_waits :: "'a tq \<Rightarrow> bool" where
  "tq_pop_waits q \<longleftrightarrow> tq_empty q \<and> tq_flag q"

definition tq_pop_take :: "'a tq \<Rightarrow> ('a option \<times> 'a tq) outcome" where
  "tq_pop_take q =
     (if tq_flag q
      then (case tq_que q of [] \<Rightarrow> Fault | t # ts \<Rightarrow> Done (Some t, q\<lparr>tq_que := ts\<rparr>))
      else Done (None, q))"

subsection \<open>The pool\<close>

record 'a cpp_pool =
  cp_threadNum :: nat
  cp_taskQue :: "'a tq"
  cp_isExit :: bool

definition ThreadPool_new :: "nat \<Rightarrow> nat \<Rightarrow> 'a cpp_pool" where
  "ThreadPool_new threadNum queSize =
     \<lparr>cp_threadNum = threadNum, cp_taskQue = TaskQueue_new queSize, cp_isExit = False\<rparr>"

text \<open>A worker in \<^verbatim>\<open>doTask\<close>: at the test of \<^verbatim>\<open>m_isExit\<close>, at the mutex in \<^verbatim>\<open>pop\<close>, with the mutex and about to wait or to
  leave the loop, waiting, running a task, with an empty task, returned.\<close>

datatype 'a dpc = DAbsent | DCheck | DLock | DPark | DTake | DWaiting | DRun 'a | DNull | DLeft

datatype 'a ppc = PIdle | PLock 'a | PWaiting 'a

datatype stop_pc = SIdle | SPoll | SExit | SFlag | SNotify | SJoin nat | SDone

text \<open>\<^verbatim>\<open>addTask\<close> ignores an empty task.\<close>

definition addTask_pc :: "'a option \<Rightarrow> 'a ppc" where
  "addTask_pc task = (case task of Some t \<Rightarrow> PLock t | None \<Rightarrow> PIdle)"

text \<open>\<^verbatim>\<open>doTask\<close> after an empty task.\<close>

definition null_pc :: "bool \<Rightarrow> bool \<Rightarrow> 'a dpc" where
  "null_pc bo isExit = (if bo \<and> isExit then DLeft else DCheck)"

record 'a cpp_world =
  k_pool :: "'a cpp_pool"
  k_pc :: "nat \<Rightarrow> 'a dpc"
  k_prod :: "nat \<Rightarrow> 'a ppc"
  k_stop :: stop_pc
  k_lock :: "nat option"
  k_pushed :: "'a list"
  k_started :: "'a list"
  k_executed :: "'a list"

abbreviation k_que :: "'a cpp_world \<Rightarrow> 'a list" where
  "k_que w \<equiv> tq_que (cp_taskQue (k_pool w))"

subsection \<open>Interleavings\<close>

text \<open>The threads blocked on \<^verbatim>\<open>m_notEmpty\<close> and on \<^verbatim>\<open>m_notFull\<close>, and where they go on: they take the mutex again.\<close>

definition worker_waits :: "'a dpc \<Rightarrow> bool" where
  "worker_waits pc \<longleftrightarrow> (case pc of DWaiting \<Rightarrow> True | _ \<Rightarrow> False)"

definition worker_wakes :: "'a dpc \<Rightarrow> 'a dpc" where
  "worker_wakes pc = DLock"

definition producer_waits :: "'a ppc \<Rightarrow> bool" where
  "producer_waits pc \<longleftrightarrow> (case pc of PWaiting t \<Rightarrow> True | _ \<Rightarrow> False)"

definition producer_wakes :: "'a ppc \<Rightarrow> 'a ppc" where
  "producer_wakes pc = (case pc of PWaiting t \<Rightarrow> PLock t | _ \<Rightarrow> pc)"

inductive doTask_step :: "bool \<Rightarrow> nat \<Rightarrow> 'a cpp_world \<Rightarrow> 'a cpp_world \<Rightarrow> bool" for bo where
  dt_check:
    "k_pc w i = DCheck
       \<Longrightarrow> doTask_step bo i w (w\<lparr>k_pc := (k_pc w)(i := (if cp_isExit (k_pool w) then DLeft else DLock))\<rparr>)"
| dt_lock:
    "k_pc w i = DLock \<Longrightarrow> k_lock w = None
       \<Longrightarrow> doTask_step bo i w (w\<lparr>k_pc := (k_pc w)(i := (if tq_pop_waits (cp_taskQue (k_pool w)) then DPark else DTake)),
             k_lock := Some i\<rparr>)"
| dt_park: "k_pc w i = DPark \<Longrightarrow> doTask_step bo i w (w\<lparr>k_pc := (k_pc w)(i := DWaiting), k_lock := None\<rparr>)"
| dt_task:
    "k_pc w i = DTake \<Longrightarrow> tq_pop_take (cp_taskQue (k_pool w)) = Done (Some t, q)
       \<Longrightarrow> notify_one producer_waits producer_wakes (k_prod w) ps
       \<Longrightarrow> doTask_step bo i w (w\<lparr>k_pool := (k_pool w)\<lparr>cp_taskQue := q\<rparr>, k_pc := (k_pc w)(i := DRun t), k_prod := ps,
             k_lock := None, k_started := k_started w @ [t]\<rparr>)"
| dt_nothing:
    "k_pc w i = DTake \<Longrightarrow> tq_pop_take (cp_taskQue (k_pool w)) = Done (None, q)
       \<Longrightarrow> doTask_step bo i w (w\<lparr>k_pool := (k_pool w)\<lparr>cp_taskQue := q\<rparr>, k_pc := (k_pc w)(i := DNull), k_lock := None\<rparr>)"
| dt_run:
    "k_pc w i = DRun t \<Longrightarrow> doTask_step bo i w (w\<lparr>k_pc := (k_pc w)(i := DCheck), k_executed := k_executed w @ [t]\<rparr>)"
| dt_null:
    "k_pc w i = DNull \<Longrightarrow> doTask_step bo i w (w\<lparr>k_pc := (k_pc w)(i := null_pc bo (cp_isExit (k_pool w)))\<rparr>)"

inductive addTask_step :: "nat \<Rightarrow> 'a cpp_world \<Rightarrow> 'a cpp_world \<Rightarrow> bool" where
  at_call: "k_prod w c = PIdle \<Longrightarrow> addTask_step c w (w\<lparr>k_prod := (k_prod w)(c := addTask_pc task)\<rparr>)"
| at_push:
    "k_prod w c = PLock t \<Longrightarrow> k_lock w = None \<Longrightarrow> tq_push t (cp_taskQue (k_pool w)) = Some q 
       \<Longrightarrow> notify_one worker_waits worker_wakes (k_pc w) pcs
       \<Longrightarrow> addTask_step c w (w\<lparr>k_pool := (k_pool w)\<lparr>cp_taskQue := q\<rparr>, k_pc := pcs, k_prod := (k_prod w)(c := PIdle),
             k_pushed := k_pushed w @ [t]\<rparr>)"
| at_full:
    "k_prod w c = PLock t \<Longrightarrow> k_lock w = None \<Longrightarrow> tq_push t (cp_taskQue (k_pool w)) = None
       \<Longrightarrow> addTask_step c w (w\<lparr>k_prod := (k_prod w)(c := PWaiting t)\<rparr>)"

inductive stop_step :: "'a cpp_world \<Rightarrow> 'a cpp_world \<Rightarrow> bool" where
  st_call: "k_stop w = SIdle \<Longrightarrow> stop_step w (w\<lparr>k_stop := SPoll\<rparr>)"
| st_poll:
    "k_stop w = SPoll \<Longrightarrow> stop_step w (w\<lparr>k_stop := (if tq_empty (cp_taskQue (k_pool w)) then SExit else SPoll)\<rparr>)"
| st_exit: "k_stop w = SExit \<Longrightarrow> stop_step w (w\<lparr>k_pool := (k_pool w)\<lparr>cp_isExit := True\<rparr>, k_stop := SFlag\<rparr>)"
| st_flag:
    "k_stop w = SFlag
       \<Longrightarrow> stop_step w (w\<lparr>k_pool := (k_pool w)\<lparr>cp_taskQue := (cp_taskQue (k_pool w))\<lparr>tq_flag := False\<rparr>\<rparr>, k_stop := SNotify\<rparr>)"
| st_notify: "k_stop w = SNotify \<Longrightarrow> stop_step w (w\<lparr>k_pc := notify_all worker_waits worker_wakes (k_pc w), k_stop := SJoin 0\<rparr>)"
| st_join:
    "k_stop w = SJoin k \<Longrightarrow> k < cp_threadNum (k_pool w) \<Longrightarrow> k_pc w k = DLeft \<Longrightarrow> stop_step w (w\<lparr>k_stop := SJoin (Suc k)\<rparr>)"
| st_done: "k_stop w = SJoin k \<Longrightarrow> \<not> k < cp_threadNum (k_pool w) \<Longrightarrow> stop_step w (w\<lparr>k_stop := SDone\<rparr>)"

inductive cpp_spurious :: "'a cpp_world \<Rightarrow> 'a cpp_world \<Rightarrow> bool" where
  sp_consumer: "k_pc w i = DWaiting \<Longrightarrow> cpp_spurious w (w\<lparr>k_pc := (k_pc w)(i := DLock)\<rparr>)"
| sp_producer: "k_prod w c = PWaiting t \<Longrightarrow> cpp_spurious w (w\<lparr>k_prod := (k_prod w)(c := PLock t)\<rparr>)"

text \<open>\<open>cpp_quiet\<close>: nobody adds tasks and no wait ends by itself.\<close>

definition cpp_quiet :: "bool \<Rightarrow> 'a cpp_world \<Rightarrow> 'a cpp_world \<Rightarrow> bool" where
  "cpp_quiet bo w w' \<longleftrightarrow> (\<exists>i. doTask_step bo i w w') \<or> stop_step w w'"

definition cpp_step :: "bool \<Rightarrow> 'a cpp_world \<Rightarrow> 'a cpp_world \<Rightarrow> bool" where
  "cpp_step bo w w' \<longleftrightarrow> cpp_quiet bo w w' \<or> (\<exists>c. addTask_step c w w') \<or> cpp_spurious w w'"

text \<open>After \<^verbatim>\<open>start\<close>.\<close>

definition cpp_start :: "'a cpp_pool \<Rightarrow> 'a cpp_world" where
  "cpp_start p = \<lparr>k_pool = p, k_pc = (\<lambda>i. if i < cp_threadNum p then DCheck else DAbsent), k_prod = (\<lambda>_. PIdle),
     k_stop = SIdle, k_lock = None, k_pushed = [], k_started = [], k_executed = []\<rparr>"

definition cpp_reach :: "bool \<Rightarrow> nat \<Rightarrow> nat \<Rightarrow> 'a cpp_world \<Rightarrow> bool" where
  "cpp_reach bo n cap w \<longleftrightarrow> (cpp_step bo)\<^sup>*\<^sup>* (cpp_start (ThreadPool_new n cap)) w"

subsection \<open>The queue meets the contract of a queue\<close>

definition tq_pop :: "'a tq \<Rightarrow> ('a \<times> 'a tq) option" where
  "tq_pop q = (if tq_pop_waits q then None else case tq_pop_take q of Done (Some t, q') \<Rightarrow> Some (t, q') | _ \<Rightarrow> None)"

definition tq_wf :: "nat \<Rightarrow> 'a tq \<Rightarrow> bool" where
  "tq_wf cap q \<longleftrightarrow> tq_capacity q = cap \<and> length (tq_que q) \<le> cap \<and> tq_flag q"

lemmas tq_defs = tq_push_def tq_pop_def tq_pop_waits_def tq_pop_take_def tq_full_def tq_empty_def tq_wf_def

interpretation ctq: bounded_queue "\<lambda>q t. tq_push t q" tq_pop tq_que "tq_wf cap" "\<lambda>_. cap" "\<lambda>_. True" for cap
  by unfold_locales (auto simp: tq_defs)

subsection \<open>The contract of the condition variables\<close>

definition worker_ready :: "'a dpc \<Rightarrow> bool" where
  "worker_ready pc \<longleftrightarrow> (case pc of DLock \<Rightarrow> True | DTake \<Rightarrow> True | _ \<Rightarrow> False)"

definition producer_ready :: "'a ppc \<Rightarrow> bool" where
  "producer_ready pc \<longleftrightarrow> (case pc of PLock t \<Rightarrow> True | _ \<Rightarrow> False)"

lemma worker_states [simp]:
  "worker_waits pc \<longleftrightarrow> pc = DWaiting" "worker_wakes pc = DLock" "worker_ready pc \<longleftrightarrow> pc = DLock \<or> pc = DTake"
  by (auto simp: worker_waits_def worker_wakes_def worker_ready_def split: dpc.split)

lemma producer_states [simp]:
  "\<not> producer_waits PIdle" "\<not> producer_waits (PLock t)" "producer_waits (PWaiting t)" "producer_wakes (PWaiting t) = PLock t"
  "\<not> producer_ready PIdle" "producer_ready (PLock t)" "\<not> producer_ready (PWaiting t)"
  by (simp_all add: producer_waits_def producer_wakes_def producer_ready_def)

interpretation not_empty: cond_var worker_waits worker_ready worker_wakes
  by unfold_locales auto

interpretation not_full: cond_var producer_waits producer_ready producer_wakes
  by unfold_locales (auto simp: producer_waits_def split: ppc.splits)

subsection \<open>The invariant\<close>

definition running :: "'a dpc \<Rightarrow> 'a multiset" where
  "running pc = (case pc of DRun t \<Rightarrow> {#t#} | _ \<Rightarrow> {#})"

lemma running_simps [simp]:
  "running (DRun t) = {#t#}" "running DAbsent = {#}" "running DCheck = {#}" "running DLock = {#}" "running DPark = {#}"
  "running DTake = {#}" "running DWaiting = {#}" "running DNull = {#}" "running DLeft = {#}"
  by (simp_all add: running_def)

text \<open>The mutex, and what the thread that holds it has seen.\<close>

definition lock_inv :: "nat \<Rightarrow> 'a list \<Rightarrow> bool \<Rightarrow> (nat \<Rightarrow> 'a dpc) \<Rightarrow> nat option \<Rightarrow> bool" where
  "lock_inv n que flag pcs lock \<longleftrightarrow> (\<forall>i. pcs i = DAbsent \<longleftrightarrow> n \<le> i)
     \<and> (\<forall>i. lock = Some i \<longleftrightarrow> pcs i = DPark \<or> pcs i = DTake)
     \<and> (\<forall>i. pcs i = DPark \<longrightarrow> que = []) \<and> (\<forall>i. pcs i = DTake \<longrightarrow> que \<noteq> [] \<or> \<not> flag)"

text \<open>The two flags and the progress of \<^verbatim>\<open>stop\<close>.\<close>

definition stop_order :: "nat \<Rightarrow> bool \<Rightarrow> bool \<Rightarrow> (nat \<Rightarrow> 'a dpc) \<Rightarrow> stop_pc \<Rightarrow> bool" where
  "stop_order n isExit flag pcs st \<longleftrightarrow> (isExit \<longleftrightarrow> st \<notin> {SIdle, SPoll, SExit}) \<and> (flag \<longleftrightarrow> st \<in> {SIdle, SPoll, SExit, SFlag})
     \<and> (\<forall>i. pcs i = DLeft \<longrightarrow> isExit) \<and> (\<forall>i. pcs i = DNull \<longrightarrow> \<not> flag)
     \<and> (\<forall>k. st = SJoin k \<longrightarrow> (\<forall>i<k. pcs i = DLeft)) \<and> (st = SDone \<longrightarrow> (\<forall>i<n. pcs i = DLeft))"

definition tasks_inv ::
  "nat \<Rightarrow> 'a list \<Rightarrow> (nat \<Rightarrow> 'a dpc) \<Rightarrow> 'a list \<Rightarrow> 'a list \<Rightarrow> 'a list \<Rightarrow> bool" where
  "tasks_inv n que pcs pushed started executed \<longleftrightarrow> pushed = started @ que
     \<and> mset started = mset executed + (\<Sum>i<n. running (pcs i))"

text \<open>No task is left to workers that sleep, no free place to producers that sleep.\<close>

definition cover_inv :: "nat \<Rightarrow> 'a list \<Rightarrow> bool \<Rightarrow> (nat \<Rightarrow> 'a dpc) \<Rightarrow> (nat \<Rightarrow> 'a ppc) \<Rightarrow> bool" where
  "cover_inv cap que flag pcs prods \<longleftrightarrow> (flag \<longrightarrow> covered worker_waits worker_ready (length que) pcs)
     \<and> finite {c. producer_ready (prods c)} \<and> covered producer_waits producer_ready (cap - length que) prods"

definition cpp_inv :: "nat \<Rightarrow> nat \<Rightarrow> 'a cpp_world \<Rightarrow> bool" where
  "cpp_inv n cap w \<longleftrightarrow> cp_threadNum (k_pool w) = n \<and> tq_capacity (cp_taskQue (k_pool w)) = cap \<and> length (k_que w) \<le> cap
     \<and> lock_inv n (k_que w) (tq_flag (cp_taskQue (k_pool w))) (k_pc w) (k_lock w)
     \<and> stop_order n (cp_isExit (k_pool w)) (tq_flag (cp_taskQue (k_pool w))) (k_pc w) (k_stop w)
     \<and> tasks_inv n (k_que w) (k_pc w) (k_pushed w) (k_started w) (k_executed w)
     \<and> cover_inv cap (k_que w) (tq_flag (cp_taskQue (k_pool w))) (k_pc w) (k_prod w)"

lemma lock_inv_lt: "lock_inv n que flag pcs lock \<Longrightarrow> pcs i \<noteq> DAbsent \<Longrightarrow> i < n"
  by (auto simp: lock_inv_def not_le [symmetric])

lemma lock_inv_finite:
  assumes "lock_inv n que flag pcs lock"
  shows "finite {i. worker_ready (pcs i)}"
proof (rule finite_subset)
  have "pc \<noteq> DAbsent" if "worker_ready pc" for pc :: "'a dpc" using that by auto
  then show "{i. worker_ready (pcs i)} \<subseteq> {..<n}" using lock_inv_lt [OF assms] by blast
qed simp

lemma lock_inv_move:
  assumes "lock_inv n que flag pcs lock" "pcs i \<notin> {DAbsent, DPark, DTake}" "pc \<notin> {DAbsent, DPark, DTake}"
  shows "lock_inv n que flag (pcs(i := pc)) lock"
  using assms unfolding lock_inv_def by (auto simp del: insert_iff)

lemma lock_inv_acquire:
  assumes "lock_inv n que flag pcs None" "pcs i \<noteq> DAbsent" "pc = (if que = [] \<and> flag then DPark else DTake)"
  shows "lock_inv n que flag (pcs(i := pc)) (Some i)"
  using assms unfolding lock_inv_def by auto

lemma lock_inv_release:
  assumes "lock_inv n que flag pcs lock" "pcs i = DPark \<or> pcs i = DTake" "pc \<notin> {DAbsent, DPark, DTake}"
  shows "lock_inv n que' flag (pcs(i := pc)) None"
proof -
  have "lock = Some i" using assms(1,2) by (simp add: lock_inv_def)
  then have "pcs j \<noteq> DPark \<and> pcs j \<noteq> DTake" if "j \<noteq> i" for j using assms(1) that by (auto simp: lock_inv_def)
  moreover have "i < n" by (rule lock_inv_lt [OF assms(1)]) (use assms(2) in auto)
  ultimately show ?thesis using assms by (auto simp: lock_inv_def)
qed

lemma stop_order_move:
  assumes "stop_order n isExit flag pcs st" "pcs i \<noteq> DLeft" "pc = DLeft \<Longrightarrow> isExit" "pc = DNull \<Longrightarrow> \<not> flag"
  shows "stop_order n isExit flag (pcs(i := pc)) st"
proof -
  have keep: "(pcs(i := pc)) j = DLeft" if "pcs j = DLeft" for j using that assms(2) by (cases "j = i") auto
  have "\<forall>j. (pcs(i := pc)) j = DLeft \<longrightarrow> isExit" "\<forall>j. (pcs(i := pc)) j = DNull \<longrightarrow> \<not> flag"
    using assms by (auto simp: stop_order_def)
  then show ?thesis using assms(1) keep unfolding stop_order_def by (simp del: fun_upd_apply)
qed

lemma tasks_inv_move:
  assumes "tasks_inv n que pcs pushed started executed" "i < n" "running pc = running (pcs i)"
  shows "tasks_inv n que (pcs(i := pc)) pushed started executed"
  using assms(1,3) sum_state_upd [OF assms(2), of running pcs pc] by (simp add: tasks_inv_def)

lemma cover_inv_move:
  assumes "cover_inv cap que flag pcs prods" "finite {i. worker_ready (pcs i)}"
    and "pc = DWaiting \<Longrightarrow> que = []" "worker_ready (pcs i) \<Longrightarrow> flag \<Longrightarrow> worker_ready pc \<or> que = []"
  shows "cover_inv cap que flag (pcs(i := pc)) prods"
proof (cases "que = []")
  case False
  then have "\<not> worker_waits pc" using assms(3) by auto
  then show ?thesis using False assms(1,2,4) not_empty.covered_move [of "length que" pcs pc i]
    by (auto simp: cover_inv_def simp del: worker_states)
qed (use assms(1) in \<open>simp add: cover_inv_def\<close>)

lemma worker_inv_wake:
  assumes "notify_one worker_waits worker_wakes pcs pcs'" "lock_inv n que flag pcs None" "stop_order n isExit flag pcs st"
    and "tasks_inv n que pcs pushed started executed"
  shows "lock_inv n que' flag pcs' None \<and> stop_order n isExit flag pcs' st \<and> tasks_inv n que pcs' pushed started executed"
  using assms(1)
proof (cases rule: notify_one_cases)
  case 1
  then show ?thesis using assms(2-4) by (simp add: lock_inv_def)
next
  case (2 i)
  then have i: "pcs i = DWaiting" "pcs' = pcs(i := DLock)" by simp_all
  have lt: "i < n" by (rule lock_inv_lt [OF assms(2)]) (simp add: i)
  have "lock_inv n que flag pcs' None" unfolding i by (rule lock_inv_move [OF assms(2)]) (simp_all add: i)
  moreover have "stop_order n isExit flag pcs' st" unfolding i by (rule stop_order_move [OF assms(3)]) (simp_all add: i)
  moreover have "tasks_inv n que pcs' pushed started executed" unfolding i
    by (rule tasks_inv_move [OF assms(4) lt]) (simp add: i)
  ultimately show ?thesis by (simp add: lock_inv_def)
qed

lemma cover_inv_take:
  assumes "cover_inv cap (t # ts) True pcs prods" "finite {i. worker_ready (pcs i)}" "length (t # ts) \<le> cap"
    and "notify_one producer_waits producer_wakes prods prods'"
  shows "cover_inv cap ts True (pcs(i := DRun u)) prods'"
proof -
  have w: "covered worker_waits worker_ready (Suc (length ts)) pcs" and fin: "finite {c. producer_ready (prods c)}"
    and p: "covered producer_waits producer_ready (cap - Suc (length ts)) prods"
    using assms(1) by (simp_all add: cover_inv_def)
  have "covered worker_waits worker_ready (length ts) (pcs(i := DRun u))"
    by (rule not_empty.covered_take [OF w assms(2)]) simp
  moreover have "cap - length ts = Suc (cap - Suc (length ts))" using assms(3) by simp
  then have "covered producer_waits producer_ready (cap - length ts) prods'"
    using not_full.covered_signal [OF p fin assms(4)] by simp
  moreover have "finite {c. producer_ready (prods' c)}"
    using assms(4) by (cases rule: notify_one_cases) (use fin in \<open>auto intro: finite_state_upd simp del: fun_upd_apply\<close>)
  ultimately show ?thesis by (simp add: cover_inv_def)
qed

lemma cover_inv_push:
  assumes "cover_inv cap que flag pcs prods" "finite {i. worker_ready (pcs i)}" "length que < cap"
    and "notify_one worker_waits worker_wakes pcs pcs'" "producer_ready (prods c)"
  shows "cover_inv cap (que @ [t]) flag pcs' (prods(c := PIdle))"
proof -
  have fin: "finite {c. producer_ready (prods c)}"
    and p: "covered producer_waits producer_ready (Suc (cap - Suc (length que))) prods"
    using assms(1,3) by (simp_all add: cover_inv_def Suc_diff_Suc)
  have "flag \<longrightarrow> covered worker_waits worker_ready (Suc (length que)) pcs'"
    using assms(1) not_empty.covered_signal [OF _ assms(2,4)] by (simp add: cover_inv_def)
  moreover have "covered producer_waits producer_ready (cap - Suc (length que)) (prods(c := PIdle))"
    by (rule not_full.covered_take [OF p fin]) simp
  ultimately show ?thesis using finite_state_upd [where P = producer_ready and f = prods, OF fin]
    by (simp add: cover_inv_def del: fun_upd_apply)
qed

lemma cover_inv_producer:
  assumes "cover_inv cap que flag pcs prods" "producer_waits pc \<Longrightarrow> length que = cap"
    and "producer_ready (prods c) \<Longrightarrow> producer_ready pc \<or> length que = cap"
  shows "cover_inv cap que flag pcs (prods(c := pc))"
proof -
  have fin: "finite {c. producer_ready (prods c)}" using assms(1) by (simp add: cover_inv_def)
  have "covered producer_waits producer_ready (cap - length que) (prods(c := pc))"
  proof (cases "length que = cap")
    case False
    then show ?thesis using assms fin by (intro not_full.covered_move) (auto simp: cover_inv_def)
  qed simp
  then show ?thesis using assms(1) finite_state_upd [where P = producer_ready and f = prods, OF fin]
    by (simp add: cover_inv_def del: fun_upd_apply)
qed

subsection \<open>Every step keeps the invariant\<close>

lemma move_units:
  fixes a b r x s s' :: "'b :: cancel_comm_monoid_add"
  assumes "a + x = b + r" "s' + r = s + x"
  shows "b + s = a + s'"
proof -
  have "(b + s) + r = s + (b + r)" by (simp add: ac_simps)
  also have "\<dots> = a + (s + x)" unfolding assms(1) [symmetric] by (simp add: ac_simps)
  also have "\<dots> = (a + s') + r" unfolding assms(2) [symmetric] by (simp add: ac_simps)
  finally show ?thesis by simp
qed

text \<open>A worker moves without touching the mutex or the queue.\<close>

lemma cpp_inv_move:
  assumes inv: "cpp_inv n cap w" and i: "k_pc w i \<notin> {DAbsent, DPark, DTake, DLock, DLeft}" and pc: "pc \<notin> {DAbsent, DPark, DTake, DWaiting, DNull}"
    and left: "pc = DLeft \<Longrightarrow> cp_isExit (k_pool w)" and ex: "mset ex + running pc = mset (k_executed w) + running (k_pc w i)"
  shows "cpp_inv n cap (w\<lparr>k_pc := (k_pc w)(i := pc), k_executed := ex\<rparr>)"
proof -
  let ?q = "k_que w" and ?f = "tq_flag (cp_taskQue (k_pool w))"
  have L: "lock_inv n ?q ?f (k_pc w) (k_lock w)" using inv by (simp add: cpp_inv_def)
  have lt: "i < n" by (rule lock_inv_lt [OF L]) (use i in auto)
  have "lock_inv n ?q ?f ((k_pc w)(i := pc)) (k_lock w)" by (rule lock_inv_move [OF L]) (use i pc in auto)
  moreover have "stop_order n (cp_isExit (k_pool w)) ?f ((k_pc w)(i := pc)) (k_stop w)"
    by (rule stop_order_move) (use inv i pc left in \<open>auto simp: cpp_inv_def\<close>)
  moreover have "tasks_inv n ?q ((k_pc w)(i := pc)) (k_pushed w) (k_started w) ex"
    using inv move_units [OF ex sum_state_upd [OF lt, of running "k_pc w" pc]] by (simp add: cpp_inv_def tasks_inv_def del: fun_upd_apply)
  moreover have "cover_inv cap ?q ?f ((k_pc w)(i := pc)) (k_prod w)"
    by (rule cover_inv_move) (use inv i pc lock_inv_finite [OF L] in \<open>auto simp: cpp_inv_def\<close>)
  ultimately show ?thesis using inv by (simp add: cpp_inv_def)
qed

lemma cpp_inv_acquire:
  assumes inv: "cpp_inv n cap w" and i: "k_pc w i = DLock" "k_lock w = None"
    and pc: "pc = (if tq_pop_waits (cp_taskQue (k_pool w)) then DPark else DTake)"
  shows "cpp_inv n cap (w\<lparr>k_pc := (k_pc w)(i := pc), k_lock := Some i\<rparr>)"
proof -
  let ?q = "k_que w" and ?f = "tq_flag (cp_taskQue (k_pool w))"
  have pc': "pc = (if ?q = [] \<and> ?f then DPark else DTake)" using pc by (simp add: tq_defs)
  then have d: "pc = DPark \<and> ?q = [] \<or> pc = DTake" by auto
  have L: "lock_inv n ?q ?f (k_pc w) None" using inv i by (simp add: cpp_inv_def)
  have lt: "i < n" by (rule lock_inv_lt [OF L]) (simp add: i)
  have "lock_inv n ?q ?f ((k_pc w)(i := pc)) (Some i)" by (rule lock_inv_acquire [OF L _ pc']) (simp add: i)
  moreover have "stop_order n (cp_isExit (k_pool w)) ?f ((k_pc w)(i := pc)) (k_stop w)"
    by (rule stop_order_move) (use inv i d in \<open>auto simp: cpp_inv_def\<close>)
  moreover have "tasks_inv n ?q ((k_pc w)(i := pc)) (k_pushed w) (k_started w) (k_executed w)"
    by (rule tasks_inv_move) (use inv i d lt in \<open>auto simp: cpp_inv_def\<close>)
  moreover have "cover_inv cap ?q ?f ((k_pc w)(i := pc)) (k_prod w)"
    by (rule cover_inv_move) (use inv i d lock_inv_finite [OF L] in \<open>auto simp: cpp_inv_def\<close>)
  ultimately show ?thesis using inv by (simp add: cpp_inv_def)
qed

text \<open>A worker gives the mutex up without a task.\<close>

lemma cpp_inv_release:
  assumes inv: "cpp_inv n cap w" and i: "k_pc w i = DPark \<and> pc = DWaiting
      \<or> k_pc w i = DTake \<and> pc = DNull \<and> \<not> tq_flag (cp_taskQue (k_pool w))"
  shows "cpp_inv n cap (w\<lparr>k_pc := (k_pc w)(i := pc), k_lock := None\<rparr>)"
proof -
  let ?q = "k_que w" and ?f = "tq_flag (cp_taskQue (k_pool w))"
  have L: "lock_inv n ?q ?f (k_pc w) (k_lock w)" using inv by (simp add: cpp_inv_def)
  have lt: "i < n" by (rule lock_inv_lt [OF L]) (use i in auto)
  have empty: "?q = []" if "pc = DWaiting" using L i that by (auto simp: lock_inv_def)
  have "lock_inv n ?q ?f ((k_pc w)(i := pc)) None" by (rule lock_inv_release [OF L]) (use i in auto)
  moreover have "stop_order n (cp_isExit (k_pool w)) ?f ((k_pc w)(i := pc)) (k_stop w)"
    by (rule stop_order_move) (use inv i in \<open>auto simp: cpp_inv_def\<close>)
  moreover have "tasks_inv n ?q ((k_pc w)(i := pc)) (k_pushed w) (k_started w) (k_executed w)"
    by (rule tasks_inv_move) (use inv i lt in \<open>auto simp: cpp_inv_def\<close>)
  moreover have "cover_inv cap ?q ?f ((k_pc w)(i := pc)) (k_prod w)"
    by (rule cover_inv_move) (use inv i empty lock_inv_finite [OF L] in \<open>auto simp: cpp_inv_def\<close>)
  ultimately show ?thesis using inv by (simp add: cpp_inv_def)
qed

lemma pop_take_cases:
  assumes "tq_pop_take q = Done (r, q')"
  obtains t ts where "tq_flag q" "tq_que q = t # ts" "r = Some t" "q' = q\<lparr>tq_que := ts\<rparr>"
    | "\<not> tq_flag q" "r = None" "q' = q"
  using assms by (auto simp: tq_pop_take_def split: if_splits list.splits)

lemma cpp_inv_take:
  assumes inv: "cpp_inv n cap w" and i: "k_pc w i = DTake" and q: "tq_flag (cp_taskQue (k_pool w))" "k_que w = t # ts"
    and wake: "notify_one producer_waits producer_wakes (k_prod w) ps"
  shows "cpp_inv n cap (w\<lparr>k_pool := (k_pool w)\<lparr>cp_taskQue := (cp_taskQue (k_pool w))\<lparr>tq_que := ts\<rparr>\<rparr>,
    k_pc := (k_pc w)(i := DRun t), k_prod := ps, k_lock := None, k_started := k_started w @ [t]\<rparr>)"
proof -
  have L: "lock_inv n (t # ts) True (k_pc w) (k_lock w)" using inv q by (simp add: cpp_inv_def)
  have lt: "i < n" by (rule lock_inv_lt [OF L]) (simp add: i)
  have "lock_inv n ts True ((k_pc w)(i := DRun t)) None" by (rule lock_inv_release [OF L]) (simp_all add: i)
  moreover have "stop_order n (cp_isExit (k_pool w)) True ((k_pc w)(i := DRun t)) (k_stop w)"
    by (rule stop_order_move) (use inv i q in \<open>auto simp: cpp_inv_def\<close>)
  moreover have "tasks_inv n ts ((k_pc w)(i := DRun t)) (k_pushed w) (k_started w @ [t]) (k_executed w)"
    using inv q i sum_state_upd [OF lt, of running "k_pc w" "DRun t"]
    by (simp add: cpp_inv_def tasks_inv_def del: fun_upd_apply)
  moreover have "cover_inv cap ts True ((k_pc w)(i := DRun t)) ps"
    by (rule cover_inv_take [where t = t, OF _ lock_inv_finite [OF L] _ wake]) (use inv q in \<open>simp_all add: cpp_inv_def\<close>)
  ultimately show ?thesis using inv q by (simp add: cpp_inv_def)
qed

lemma cpp_inv_worker:
  assumes inv: "cpp_inv n cap w" and step: "doTask_step bo i w w'"
  shows "cpp_inv n cap w'"
  using step
proof cases
  case dt_check
  then show ?thesis using cpp_inv_move [OF inv, of i "if cp_isExit (k_pool w) then DLeft else DLock" "k_executed w"]
    by (simp split: if_splits)
next
  case dt_lock
  then show ?thesis using cpp_inv_acquire [OF inv] by simp
next
  case dt_park
  then show ?thesis using cpp_inv_release [OF inv, of i DWaiting] by simp
next
  case (dt_task t q ps)
  then show ?thesis using cpp_inv_take [OF inv] by (auto elim!: pop_take_cases)
next
  case (dt_nothing q)
  then show ?thesis using cpp_inv_release [OF inv, of i DNull] by (auto elim!: pop_take_cases)
next
  case (dt_run t)
  then show ?thesis using cpp_inv_move [OF inv, of i DCheck "k_executed w @ [t]"] by simp
next
  case dt_null
  then show ?thesis using cpp_inv_move [OF inv, of i "null_pc bo (cp_isExit (k_pool w))" "k_executed w"]
    by (auto simp: null_pc_def split: if_splits)
qed

lemma cpp_inv_producer:
  assumes inv: "cpp_inv n cap w" and step: "addTask_step c w w'"
  shows "cpp_inv n cap w'"
  using step
proof cases
  case (at_call task)
  have "cover_inv cap (k_que w) (tq_flag (cp_taskQue (k_pool w))) (k_pc w) ((k_prod w)(c := addTask_pc task))"
    by (rule cover_inv_producer) (use inv at_call in \<open>auto simp: cpp_inv_def addTask_pc_def split: option.splits\<close>)
  then show ?thesis using inv at_call by (simp add: cpp_inv_def)
next
  case (at_push t q pcs)
  let ?q = "k_que w" and ?f = "tq_flag (cp_taskQue (k_pool w))"
  have q: "length ?q < cap" "q = (cp_taskQue (k_pool w))\<lparr>tq_que := ?q @ [t]\<rparr>"
    using at_push(4) inv by (auto simp: tq_defs cpp_inv_def split: if_splits)
  have L: "lock_inv n ?q ?f (k_pc w) None" using inv at_push(3) by (simp add: cpp_inv_def)
  note W = worker_inv_wake [OF at_push(5) L, of "cp_isExit (k_pool w)" "k_stop w" "k_pushed w" "k_started w" "k_executed w" "?q @ [t]"]
  have "cover_inv cap (?q @ [t]) ?f pcs ((k_prod w)(c := PIdle))"
    by (rule cover_inv_push [OF _ lock_inv_finite [OF L] q(1) at_push(5)]) (use inv at_push(2) in \<open>simp_all add: cpp_inv_def\<close>)
  then show ?thesis using inv at_push(1,3) q W by (simp add: cpp_inv_def tasks_inv_def)
next
  case (at_full t)
  then have "length (k_que w) = cap" using inv by (auto simp: tq_defs cpp_inv_def split: if_splits)
  then have "cover_inv cap (k_que w) (tq_flag (cp_taskQue (k_pool w))) (k_pc w) ((k_prod w)(c := PWaiting t))"
    by (intro cover_inv_producer) (use inv in \<open>simp_all add: cpp_inv_def\<close>)
  then show ?thesis using inv at_full by (simp add: cpp_inv_def)
qed

lemma cpp_inv_spurious:
  assumes inv: "cpp_inv n cap w" and step: "cpp_spurious w w'"
  shows "cpp_inv n cap w'"
  using step
proof cases
  case (sp_consumer i)
  then show ?thesis using cpp_inv_move [OF inv, of i DLock "k_executed w"] by simp
next
  case (sp_producer c t)
  have "cover_inv cap (k_que w) (tq_flag (cp_taskQue (k_pool w))) (k_pc w) ((k_prod w)(c := PLock t))"
    by (rule cover_inv_producer) (use inv in \<open>simp_all add: cpp_inv_def\<close>)
  then show ?thesis using inv sp_producer by (simp add: cpp_inv_def)
qed

lemma notify_all_workers [simp]:
  "notify_all worker_waits worker_wakes pcs i = DAbsent \<longleftrightarrow> pcs i = DAbsent"
  "notify_all worker_waits worker_wakes pcs i = DPark \<longleftrightarrow> pcs i = DPark"
  "notify_all worker_waits worker_wakes pcs i = DTake \<longleftrightarrow> pcs i = DTake"
  "notify_all worker_waits worker_wakes pcs i = DLeft \<longleftrightarrow> pcs i = DLeft"
  "notify_all worker_waits worker_wakes pcs i = DNull \<longleftrightarrow> pcs i = DNull"
  "running (notify_all worker_waits worker_wakes pcs i) = running (pcs i)"
  by (auto simp: notify_all_def)

lemma cpp_inv_stop:
  assumes inv: "cpp_inv n cap w" and step: "stop_step w w'"
  shows "cpp_inv n cap w'"
  using step
proof cases
  case st_notify
  then show ?thesis using inv by (simp add: cpp_inv_def lock_inv_def stop_order_def tasks_inv_def cover_inv_def)
next
  case (st_join k)
  then show ?thesis using inv by (auto simp: cpp_inv_def stop_order_def less_Suc_eq)
next
  case st_flag
  then show ?thesis using inv by (auto simp: cpp_inv_def stop_order_def lock_inv_def cover_inv_def)
qed (use inv in \<open>auto simp: cpp_inv_def stop_order_def\<close>)

lemma cpp_inv_step: "cpp_inv n cap w \<Longrightarrow> cpp_step bo w w' \<Longrightarrow> cpp_inv n cap w'"
  unfolding cpp_step_def cpp_quiet_def
  using cpp_inv_worker cpp_inv_producer cpp_inv_spurious cpp_inv_stop by blast

lemma cpp_inv_start: "cpp_inv n cap (cpp_start (ThreadPool_new n cap))"
  by (auto simp: cpp_inv_def cpp_start_def ThreadPool_new_def TaskQueue_new_def lock_inv_def stop_order_def
      tasks_inv_def cover_inv_def covered_def intro!: sum.neutral)

lemma cpp_reach_inv: "cpp_reach bo n cap w \<Longrightarrow> cpp_inv n cap w"
  unfolding cpp_reach_def
  by (induction rule: rtranclp_induct) (auto intro: cpp_inv_start cpp_inv_step)

subsection \<open>Progress\<close>

lemma notify_one_possible: "\<exists>f'. notify_one waiting wake f f'"
  by (auto simp: notify_one_def)

lemma producer_iff:
  "producer_waits pc \<longleftrightarrow> (\<exists>t. pc = PWaiting t)" "producer_ready pc \<longleftrightarrow> (\<exists>t. pc = PLock t)"
  by (cases pc; simp)+

lemma cpp_take_moves:
  assumes "cpp_inv n cap w" "k_pc w i = DTake"
  shows "\<exists>w'. doTask_step bo i w w'"
proof (cases "tq_flag (cp_taskQue (k_pool w))")
  case True
  then obtain t ts where "k_que w = t # ts" using assms by (fastforce simp: cpp_inv_def lock_inv_def neq_Nil_conv)
  then have "tq_pop_take (cp_taskQue (k_pool w)) = Done (Some t, (cp_taskQue (k_pool w))\<lparr>tq_que := ts\<rparr>)"
    using True by (simp add: tq_pop_take_def)
  moreover obtain ps where "notify_one producer_waits producer_wakes (k_prod w) ps" using notify_one_possible by blast
  ultimately show ?thesis by (intro exI) (rule dt_task [OF assms(2)])
next
  case False
  then have "tq_pop_take (cp_taskQue (k_pool w)) = Done (None, cp_taskQue (k_pool w))" by (simp add: tq_pop_take_def)
  then show ?thesis by (intro exI) (rule dt_nothing [OF assms(2)])
qed

text \<open>A worker that is at work, and neither blocked nor returned, can move, or the thread with the mutex can.\<close>

lemma cpp_worker_moves:
  assumes inv: "cpp_inv n cap w" and i: "k_pc w i \<notin> {DAbsent, DWaiting, DLeft}"
  shows "\<exists>j w'. doTask_step bo j w w'"
proof (cases "k_lock w")
  case None
  then have "k_pc w i \<noteq> DPark" "k_pc w i \<noteq> DTake" using inv by (auto simp: cpp_inv_def lock_inv_def)
  then show ?thesis using i None by (cases "k_pc w i") (blast intro: doTask_step.intros)+
next
  case (Some j)
  then have "k_pc w j = DPark \<or> k_pc w j = DTake" using inv by (auto simp: cpp_inv_def lock_inv_def)
  then show ?thesis using cpp_take_moves [OF inv] by (blast intro: doTask_step.intros)
qed

subsection \<open>Properties\<close>

text \<open>C14. In every interleaving tasks are started in the order in which they were added and once, the rest is in
  the queue, which never exceeds its capacity; a task that was started is running or was
  executed; and no thread takes the front of an empty queue.\<close>

theorem cpp_pool_serves_in_order:
  assumes "cpp_reach bo n cap w"
  shows "k_pushed w = k_started w @ k_que w \<and> length (k_que w) \<le> cap
    \<and> mset (k_started w) = mset (k_executed w) + (\<Sum>i<n. running (k_pc w i))
    \<and> (\<forall>i. k_pc w i = DTake \<longrightarrow> tq_pop_take (cp_taskQue (k_pool w)) \<noteq> Fault)"
proof -
  note inv = cpp_reach_inv [OF assms]
  have "tq_pop_take (cp_taskQue (k_pool w)) \<noteq> Fault" if "k_pc w i = DTake" for i
    using inv that by (auto simp: cpp_inv_def lock_inv_def tq_pop_take_def split: list.split)
  then show ?thesis using inv by (simp add: cpp_inv_def tasks_inv_def)
qed


text \<open>While a task is queued and the pool is not stopping, some worker can move.\<close>

theorem cpp_pool_never_stuck:
  assumes "cpp_reach bo n cap w" "k_que w \<noteq> []" "\<not> cp_isExit (k_pool w)" "0 < n"
  shows "\<exists>i w'. doTask_step bo i w w'"
proof -
  note inv = cpp_reach_inv [OF assms(1)]
  have flag: "tq_flag (cp_taskQue (k_pool w))" using inv assms(3) by (auto simp: cpp_inv_def stop_order_def)
  have zero: "k_pc w 0 \<noteq> DAbsent" "k_pc w 0 \<noteq> DLeft"
    using inv assms(3,4) by (auto simp: cpp_inv_def lock_inv_def stop_order_def)
  show ?thesis
  proof (cases "k_pc w 0 = DWaiting")
    case True
    have "covered worker_waits worker_ready (length (k_que w)) (k_pc w)" using inv flag by (simp add: cpp_inv_def cover_inv_def)
    then obtain j where "worker_ready (k_pc w j)" using not_empty.covered_ready [of _ "k_pc w" 0] True assms(2) by auto
    then show ?thesis by (intro cpp_worker_moves [OF inv, of j]) auto
  next
    case False
    then show ?thesis using zero by (intro cpp_worker_moves [OF inv, of 0]) simp
  qed
qed

text \<open>C16. When nobody adds tasks from the call of \<^verbatim>\<open>stop\<close> on and it returns, every task was executed.\<close>

theorem cpp_stop_completes_all:
  assumes "cpp_reach bo n cap w" "k_stop w = SIdle \<or> k_stop w = SPoll" "(cpp_quiet bo)\<^sup>*\<^sup>* w w'" "k_stop w' = SDone"
  shows "k_pushed w' = k_pushed w \<and> mset (k_executed w') = mset (k_pushed w)"
proof -
  have run: "cpp_inv n cap w' \<and> k_pushed w' = k_pushed w \<and> (k_stop w' \<in> {SIdle, SPoll} \<or> k_que w' = [])"
    using assms(3)
  proof (induction rule: rtranclp_induct)
    case base
    then show ?case using cpp_reach_inv [OF assms(1)] assms(2) by auto
  next
    case (step v v')
    then have "cpp_inv n cap v'" using cpp_inv_step [of n cap v bo v'] by (auto simp: cpp_step_def)
    moreover have "k_pushed v' = k_pushed v \<and> (k_stop v' \<in> {SIdle, SPoll} \<or> k_que v' = [])"
      using step.hyps(2) step.IH unfolding cpp_quiet_def
      by (auto elim!: doTask_step.cases stop_step.cases pop_take_cases simp: tq_empty_def)
    ultimately show ?case using step.IH by simp
  qed
  then have left: "\<forall>i<n. k_pc w' i = DLeft" using assms(4) by (simp add: cpp_inv_def stop_order_def)
  have "(\<Sum>i<n. running (k_pc w' i)) = {#}" using left by (intro sum.neutral) simp
  then show ?thesis using run assms(4) by (auto simp: cpp_inv_def tasks_inv_def)
qed

text \<open>From the moment \<^verbatim>\<open>wakeup\<close> clears the flag no task is started any more, however the threads go on: a task
  added then is accepted and never executed.\<close>

theorem cpp_late_tasks_dropped:
  assumes "\<not> tq_flag (cp_taskQue (k_pool w))" "(cpp_step bo)\<^sup>*\<^sup>* w w'"
  shows "k_started w' = k_started w"
proof -
  have "\<not> tq_flag (cp_taskQue (k_pool w')) \<and> k_started w' = k_started w"
    using assms(2)
  proof (induction rule: rtranclp_induct)
    case (step v v')
    then show ?case unfolding cpp_step_def cpp_quiet_def
      by (auto elim!: doTask_step.cases stop_step.cases addTask_step.cases cpp_spurious.cases pop_take_cases
          simp: tq_push_def split: if_splits)
  qed (use assms(1) in simp)
  then show ?thesis ..
qed

text \<open>A worker that tested the flag before it was cleared and sleeps after the notification is never woken:
  \<^verbatim>\<open>stop\<close> waits for it for ever.\<close>

theorem cpp_stop_may_hang:
  assumes "(cpp_quiet bo)\<^sup>*\<^sup>* w w'" "k_stop w = SJoin k" "k < cp_threadNum (k_pool w)" "k_pc w k = DWaiting"
  shows "k_stop w' = SJoin k \<and> k_pc w' k = DWaiting"
proof -
  have "k_stop w' = SJoin k \<and> k < cp_threadNum (k_pool w') \<and> k_pc w' k = DWaiting"
    using assms(1)
  proof (induction rule: rtranclp_induct)
    case (step v v')
    then show ?case unfolding cpp_quiet_def
      by (auto elim!: doTask_step.cases stop_step.cases)
  qed (use assms in simp)
  then show ?thesis by simp
qed

subsection \<open>Stopping\<close>

text \<open>The steps a worker has left once both flags tell it to go.\<close>

definition leaving_work :: "'a dpc \<Rightarrow> nat" where
  "leaving_work pc = (case pc of DCheck \<Rightarrow> 1 | DRun t \<Rightarrow> 2 | DNull \<Rightarrow> 2 | DTake \<Rightarrow> 3 | DLock \<Rightarrow> 4 | _ \<Rightarrow> 0)"

lemma leaving_work_simps [simp]:
  "leaving_work DCheck = 1" "leaving_work (DRun t) = 2" "leaving_work DNull = 2" "leaving_work DTake = 3"
  "leaving_work DLock = 4" "leaving_work DLeft = 0"
  by (simp_all add: leaving_work_def)

definition join_work :: "nat \<Rightarrow> stop_pc \<Rightarrow> nat" where
  "join_work n st = (case st of SJoin k \<Rightarrow> Suc (n - k) | _ \<Rightarrow> 0)"

definition stop_work :: "nat \<Rightarrow> 'a cpp_world \<Rightarrow> nat" where
  "stop_work n w = (\<Sum>i<n. leaving_work (k_pc w i)) + join_work n (k_stop w)"

text \<open>\<^verbatim>\<open>stop\<close> is joining and no worker sleeps or is about to.\<close>

definition all_leaving :: "'a cpp_world \<Rightarrow> bool" where
  "all_leaving w \<longleftrightarrow> (k_stop w = SDone \<or> (\<exists>k. k_stop w = SJoin k)) \<and> (\<forall>i. k_pc w i \<noteq> DPark \<and> k_pc w i \<noteq> DWaiting)"

lemma leaving_worker:
  assumes inv: "cpp_inv n cap w" and l: "all_leaving w" and step: "doTask_step bo i w w'"
  shows "all_leaving w' \<and> stop_work n w' < stop_work n w"
proof -
  have flags: "cp_isExit (k_pool w)" "\<not> tq_flag (cp_taskQue (k_pool w))"
    using inv l by (auto simp: cpp_inv_def stop_order_def all_leaving_def)
  have "k_pc w i \<noteq> DAbsent" using step by cases auto
  then have lt: "i < n" by (intro lock_inv_lt) (use inv in \<open>auto simp: cpp_inv_def\<close>)
  note S = sum_state_upd [OF lt, of leaving_work "k_pc w"]
  have keep: "all_leaving (w\<lparr>k_pc := (k_pc w)(i := pc)\<rparr>)" if "pc \<noteq> DPark" "pc \<noteq> DWaiting" for pc
    using l that by (simp add: all_leaving_def)
  from step show ?thesis
  proof cases
    case dt_check
    then show ?thesis using S [of DLeft] keep [of DLeft] flags by (simp add: stop_work_def del: fun_upd_apply)
  next
    case dt_lock
    then have "\<not> tq_pop_waits (cp_taskQue (k_pool w))" using flags by (simp add: tq_defs)
    then show ?thesis using dt_lock S [of DTake] keep [of DTake] by (simp add: stop_work_def all_leaving_def del: fun_upd_apply)
  next
    case dt_park
    then show ?thesis using l by (simp add: all_leaving_def)
  next
    case (dt_task t q ps)
    then show ?thesis using flags by (simp add: tq_pop_take_def)
  next
    case (dt_nothing q)
    then show ?thesis using S [of DNull] keep [of DNull] by (simp add: stop_work_def all_leaving_def del: fun_upd_apply)
  next
    case (dt_run t)
    then show ?thesis using S [of DCheck] keep [of DCheck] by (simp add: stop_work_def all_leaving_def del: fun_upd_apply)
  next
    case dt_null
    then show ?thesis using S [of "null_pc bo True"] keep [of "null_pc bo True"] flags
      by (cases bo) (simp_all add: stop_work_def null_pc_def del: fun_upd_apply)
  qed
qed

lemma leaving_stop:
  assumes "cpp_inv n cap w" "all_leaving w" "stop_step w w'"
  shows "all_leaving w' \<and> stop_work n w' < stop_work n w"
  using assms(3,1,2) by cases (auto simp: all_leaving_def stop_work_def join_work_def cpp_inv_def)

lemma leaving_moves:
  assumes inv: "cpp_inv n cap w" and l: "all_leaving w" and nd: "k_stop w \<noteq> SDone"
  shows "\<exists>w'. cpp_quiet bo w w'"
proof -
  obtain k where k: "k_stop w = SJoin k" using l nd by (auto simp: all_leaving_def)
  consider "\<not> k < cp_threadNum (k_pool w)" | "k < n" "k_pc w k = DLeft" | "k < n" "k_pc w k \<noteq> DLeft"
    using inv by (auto simp: cpp_inv_def)
  then show ?thesis
  proof cases
    case 1
    then show ?thesis using st_done [OF k] by (auto simp: cpp_quiet_def)
  next
    case 2
    then show ?thesis using st_join [OF k] inv by (auto simp: cpp_quiet_def cpp_inv_def)
  next
    case 3
    then have "k_pc w k \<notin> {DAbsent, DWaiting, DLeft}" using inv l by (auto simp: cpp_inv_def lock_inv_def all_leaving_def)
    then show ?thesis using cpp_worker_moves [OF inv, of k bo] unfolding cpp_quiet_def by blast
  qed
qed

text \<open>C32. When no worker slept through the notification, \<^verbatim>\<open>stop\<close> returns: every run in which nobody adds tasks ends within
  the work that is left, at most four steps and a join for each worker, and it ends with all workers joined.\<close>

theorem cpp_stop_terminates:
  fixes w :: "'a cpp_world"
  assumes "cpp_reach bo n cap w" "all_leaving w"
  shows "stop_work n w \<le> 5 * n + 1 \<and> (\<forall>m w'. (cpp_quiet bo ^^ m) w w' \<longrightarrow> m \<le> stop_work n w)
    \<and> (\<forall>w'. (cpp_quiet bo)\<^sup>*\<^sup>* w w' \<and> (\<nexists>v. cpp_quiet bo w' v) \<longrightarrow> k_stop w' = SDone)"
proof -
  let ?I = "\<lambda>v. cpp_inv n cap v \<and> all_leaving v"
  have step: "?I v' \<and> stop_work n v' < stop_work n v" if "?I v" "cpp_quiet bo v v'" for v v' :: "'a cpp_world"
    using that leaving_worker leaving_stop cpp_inv_worker cpp_inv_stop unfolding cpp_quiet_def by metis
  have I: "?I w" using cpp_reach_inv [OF assms(1)] assms(2) by simp
  have bound: "?I v \<and> m + stop_work n v \<le> stop_work n w" if "(cpp_quiet bo ^^ m) w v" for m v
    using that
  proof (induction m arbitrary: v)
    case (Suc m)
    then obtain u where "(cpp_quiet bo ^^ m) w u" "cpp_quiet bo u v" by auto
    then show ?case using Suc.IH [of u] step [of u v] by simp
  qed (use I in simp)
  have "k_stop v = SDone" if "(cpp_quiet bo)\<^sup>*\<^sup>* w v" "\<nexists>u. cpp_quiet bo v u" for v
  proof -
    have "?I v" using that(1) bound by (auto simp: rtranclp_power)
    then show ?thesis using leaving_moves [of n cap v bo] that(2) by blast
  qed
  moreover have "stop_work n w \<le> 5 * n + 1"
  proof -
    have "(\<Sum>i<n. leaving_work (k_pc w i)) \<le> (\<Sum>i<n. 4)"
      by (intro sum_mono) (simp add: leaving_work_def split: dpc.split)
    moreover have "join_work n (k_stop w) \<le> Suc n" by (simp add: join_work_def split: stop_pc.split)
    ultimately show ?thesis by (simp add: stop_work_def)
  qed
  ultimately show ?thesis using bound by (meson le_add1 le_trans)
qed

subsection \<open>A pool of one worker and one place\<close>

definition cw ::
  "nat list \<Rightarrow> bool \<Rightarrow> bool \<Rightarrow> nat dpc \<Rightarrow> stop_pc \<Rightarrow> nat option \<Rightarrow> nat list \<Rightarrow> nat list \<Rightarrow> nat cpp_world" where
  "cw que flag isExit pc st lock started executed =
     \<lparr>k_pool = \<lparr>cp_threadNum = 1, cp_taskQue = \<lparr>tq_capacity = 1, tq_que = que, tq_flag = flag\<rparr>, cp_isExit = isExit\<rparr>,
      k_pc = (\<lambda>i. if i = 0 then pc else DAbsent), k_prod = (\<lambda>_. PIdle), k_stop = st, k_lock = lock,
      k_pushed = started @ que, k_started = started, k_executed = executed\<rparr>"

lemma only_worker: "(\<lambda>i. if i = 0 then pc else DAbsent)(0 := pc') = (\<lambda>i. if i = 0 then pc' else DAbsent)"
  by auto

lemma cw_start: "cpp_start (ThreadPool_new 1 1) = cw [] True False DCheck SIdle None [] []"
  by (auto simp: cpp_start_def cw_def ThreadPool_new_def TaskQueue_new_def)

lemma cw_sel [simp]:
  "k_pool (cw q f x pc st l s e) = \<lparr>cp_threadNum = 1, cp_taskQue = \<lparr>tq_capacity = 1, tq_que = q, tq_flag = f\<rparr>, cp_isExit = x\<rparr>"
  "k_pc (cw q f x pc st l s e) = (\<lambda>i. if i = 0 then pc else DAbsent)" "k_prod (cw q f x pc st l s e) = (\<lambda>_. PIdle)"
  "k_stop (cw q f x pc st l s e) = st" "k_lock (cw q f x pc st l s e) = l" "k_pushed (cw q f x pc st l s e) = s @ q"
  "k_started (cw q f x pc st l s e) = s" "k_executed (cw q f x pc st l s e) = e"
  by (simp_all add: cw_def)

lemma quiet_worker: "doTask_step bo i w w' \<Longrightarrow> w' = w'' \<Longrightarrow> cpp_quiet bo w w''"
  by (auto simp: cpp_quiet_def)

lemma cw_check:
  "cpp_quiet bo (cw q f x DCheck st l s e) (cw q f x (if x then DLeft else DLock) st l s e)"
  by (rule quiet_worker, rule dt_check [of _ 0]) (simp_all add: only_worker cw_def)

lemma cw_lock:
  "cpp_quiet bo (cw q f x DLock st None s e) (cw q f x (if q = [] \<and> f then DPark else DTake) st (Some 0) s e)"
  by (rule quiet_worker, rule dt_lock [of _ 0]) (simp_all add: only_worker tq_defs cw_def)

lemma cw_park: "cpp_quiet bo (cw q f x DPark st (Some 0) s e) (cw q f x DWaiting st None s e)"
  using dt_park [of "cw q f x DPark st (Some 0) s e" 0 bo] by (auto simp: cpp_quiet_def only_worker cw_def)

lemma cw_task: "cpp_quiet bo (cw (t # q) True x DTake st (Some 0) s e) (cw q True x (DRun t) st None (s @ [t]) e)"
  using dt_task [of "cw (t # q) True x DTake st (Some 0) s e" 0 t "\<lparr>tq_capacity = 1, tq_que = q, tq_flag = True\<rparr>" "\<lambda>_. PIdle" bo]
  by (auto simp: cpp_quiet_def only_worker tq_defs notify_one_def cw_def)

lemma cw_run: "cpp_quiet bo (cw q f x (DRun t) st l s e) (cw q f x DCheck st l s (e @ [t]))"
  using dt_run [of "cw q f x (DRun t) st l s e" 0 t bo] by (auto simp: cpp_quiet_def only_worker cw_def)

lemma cw_stop:
  "cpp_quiet bo (cw q f x pc SIdle l s e) (cw q f x pc SPoll l s e)"
  "cpp_quiet bo (cw [] f x pc SPoll l s e) (cw [] f x pc SExit l s e)"
  "cpp_quiet bo (cw q f x pc SExit l s e) (cw q f True pc SFlag l s e)"
  "cpp_quiet bo (cw q f x pc SFlag l s e) (cw q False x pc SNotify l s e)"
  using st_call [of "cw q f x pc SIdle l s e"] st_poll [of "cw [] f x pc SPoll l s e"]
    st_exit [of "cw q f x pc SExit l s e"] st_flag [of "cw q f x pc SFlag l s e"]
  by (simp_all add: cpp_quiet_def tq_defs) (simp_all add: cw_def)

lemma cw_notify: "pc \<noteq> DWaiting \<Longrightarrow> cpp_quiet bo (cw q f x pc SNotify l s e) (cw q f x pc (SJoin 0) l s e)"
  using st_notify [of "cw q f x pc SNotify l s e"]
  by (simp add: cpp_quiet_def) (simp add: cw_def notify_all_def if_distrib [of "\<lambda>pc. pc = DWaiting"] cong: if_cong)

lemma cw_join: "cpp_quiet bo (cw q f x DLeft (SJoin 0) l s e) (cw q f x DLeft (SJoin 1) l s e)"
  "cpp_quiet bo (cw q f x DLeft (SJoin 1) l s e) (cw q f x DLeft SDone l s e)"
  using st_join [of "cw q f x DLeft (SJoin 0) l s e" 0] st_done [of "cw q f x DLeft (SJoin 1) l s e" 1]
  by (simp_all add: cpp_quiet_def) (simp_all add: cw_def)

lemma step_star: "cpp_quiet bo w w' \<Longrightarrow> (cpp_quiet bo)\<^sup>*\<^sup>* w w'"
  by (rule r_into_rtranclp)

lemma quiet_reach: "cpp_reach bo n cap w \<Longrightarrow> (cpp_quiet bo)\<^sup>*\<^sup>* w w' \<Longrightarrow> cpp_reach bo n cap w'"
  unfolding cpp_reach_def by (erule rtranclp_trans) (erule rtranclp_mono [THEN predicate2D, rotated], auto simp: cpp_step_def)

lemma cw_add:
  assumes "pc \<noteq> DWaiting"
  shows "(cpp_step bo)\<^sup>*\<^sup>* (cw [] f x pc st None s e) (cw [t] f x pc st None s e)"
proof -
  let ?w = "cw [] f x pc st None s e" and ?w' = "(cw [] f x pc st None s e)\<lparr>k_prod := (\<lambda>_. PIdle)(0 := PLock t)\<rparr>"
  have "addTask_step 0 ?w ?w'" using at_call [of ?w 0 "Some t"] by (simp add: addTask_pc_def)
  moreover have "addTask_step 0 ?w' (cw [t] f x pc st None s e)"
  proof -
    have "notify_one worker_waits worker_wakes (k_pc ?w') (k_pc ?w')" using assms by (auto simp: notify_one_def)
    moreover have "(\<lambda>_. PIdle)((0::nat) := PIdle) = (\<lambda>_. PIdle :: nat ppc)" by auto
    ultimately show ?thesis
      using at_push [of ?w' 0 t "\<lparr>tq_capacity = 1, tq_que = [t], tq_flag = f\<rparr>" "k_pc ?w'"] by (simp add: tq_defs cw_def)
  qed
  ultimately show ?thesis
    by (meson cpp_step_def converse_rtranclp_into_rtranclp r_into_rtranclp)
qed

lemma cw_reach_start: "cpp_reach bo 1 1 (cw [] True False DCheck SIdle None [] [])"
  unfolding cpp_reach_def cw_start by (rule rtranclp.rtrancl_refl)

lemma cw_reach_added: "cpp_reach bo 1 1 (cw [7] True False DCheck SIdle None [] [])"
  unfolding cpp_reach_def cw_start by (rule cw_add) simp

text \<open>The worker executes the task and the pool stops.\<close>

lemma cw_full_run:
  "(cpp_quiet bo)\<^sup>*\<^sup>* (cw [7] True False DCheck SIdle None [] []) (cw [] False True DCheck (SJoin 0) None [7] [7])"
proof -
  have "(cpp_quiet bo)\<^sup>*\<^sup>* (cw [7] True False DCheck SIdle None [] []) (cw [7] True False DLock SIdle None [] [])"
    by (rule step_star) (use cw_check [of bo "[7]" True False] in simp)
  also have "(cpp_quiet bo)\<^sup>*\<^sup>* \<dots> (cw [7] True False DTake SIdle (Some 0) [] [])"
    by (rule step_star) (use cw_lock [of bo "[7]" True False] in simp)
  also have "(cpp_quiet bo)\<^sup>*\<^sup>* \<dots> (cw [] True False (DRun 7) SIdle None [7] [])"
    by (rule step_star) (use cw_task [of bo 7 "[]" False SIdle "[]" "[]"] in simp)
  also have "(cpp_quiet bo)\<^sup>*\<^sup>* \<dots> (cw [] True False DCheck SIdle None [7] [7])"
    by (rule step_star) (use cw_run [of bo "[]" True False 7 SIdle None "[7]" "[]"] in simp)
  also have "(cpp_quiet bo)\<^sup>*\<^sup>* \<dots> (cw [] True False DCheck SPoll None [7] [7])" by (rule step_star, rule cw_stop)
  also have "(cpp_quiet bo)\<^sup>*\<^sup>* \<dots> (cw [] True False DCheck SExit None [7] [7])" by (rule step_star, rule cw_stop)
  also have "(cpp_quiet bo)\<^sup>*\<^sup>* \<dots> (cw [] True True DCheck SFlag None [7] [7])" by (rule step_star, rule cw_stop)
  also have "(cpp_quiet bo)\<^sup>*\<^sup>* \<dots> (cw [] False True DCheck SNotify None [7] [7])" by (rule step_star, rule cw_stop)
  also have "(cpp_quiet bo)\<^sup>*\<^sup>* \<dots> (cw [] False True DCheck (SJoin 0) None [7] [7])"
    by (rule step_star, rule cw_notify) simp
  finally show ?thesis .
qed

lemma cw_last_steps:
  "(cpp_quiet bo)\<^sup>*\<^sup>* (cw [] False True DCheck (SJoin 0) None [7] [7]) (cw [] False True DLeft SDone None [7] [7])"
proof -
  have "(cpp_quiet bo)\<^sup>*\<^sup>* (cw [] False True DCheck (SJoin 0) None [7] [7]) (cw [] False True DLeft (SJoin 0) None [7] [7])"
    by (rule step_star) (use cw_check [of bo "[]" False True] in simp)
  also have "(cpp_quiet bo)\<^sup>*\<^sup>* \<dots> (cw [] False True DLeft (SJoin 1) None [7] [7])" by (rule step_star, rule cw_join)
  also have "(cpp_quiet bo)\<^sup>*\<^sup>* \<dots> (cw [] False True DLeft SDone None [7] [7])" by (rule step_star, rule cw_join)
  finally show ?thesis .
qed

text \<open>The worker tests the flag, \<^verbatim>\<open>stop\<close> clears it and notifies, the worker goes to sleep.\<close>

lemma cw_hang_run:
  "(cpp_quiet bo)\<^sup>*\<^sup>* (cw [] True False DCheck SIdle None [] []) (cw [] False True DWaiting (SJoin 0) None [] [])"
proof -
  have "(cpp_quiet bo)\<^sup>*\<^sup>* (cw [] True False DCheck SIdle None [] []) (cw [] True False DLock SIdle None [] [])"
    by (rule step_star) (use cw_check [of bo "[]" True False] in simp)
  also have "(cpp_quiet bo)\<^sup>*\<^sup>* \<dots> (cw [] True False DPark SIdle (Some 0) [] [])"
    by (rule step_star) (use cw_lock [of bo "[]" True False] in simp)
  also have "(cpp_quiet bo)\<^sup>*\<^sup>* \<dots> (cw [] True False DPark SPoll (Some 0) [] [])" by (rule step_star, rule cw_stop)
  also have "(cpp_quiet bo)\<^sup>*\<^sup>* \<dots> (cw [] True False DPark SExit (Some 0) [] [])" by (rule step_star, rule cw_stop)
  also have "(cpp_quiet bo)\<^sup>*\<^sup>* \<dots> (cw [] True True DPark SFlag (Some 0) [] [])" by (rule step_star, rule cw_stop)
  also have "(cpp_quiet bo)\<^sup>*\<^sup>* \<dots> (cw [] False True DPark SNotify (Some 0) [] [])" by (rule step_star, rule cw_stop)
  also have "(cpp_quiet bo)\<^sup>*\<^sup>* \<dots> (cw [] False True DPark (SJoin 0) (Some 0) [] [])"
    by (rule step_star, rule cw_notify) simp
  also have "(cpp_quiet bo)\<^sup>*\<^sup>* \<dots> (cw [] False True DWaiting (SJoin 0) None [] [])" by (rule step_star, rule cw_park)
  finally show ?thesis .
qed

theorem cpp_pool_serves_in_order_witness:
  "k_pushed (cw [7] True False DCheck SIdle None [] []) = [] @ [7] \<and> length (k_que (cw [7] True False DCheck SIdle None [] [])) \<le> 1"
  using cpp_pool_serves_in_order [OF cw_reach_added [of False]] by simp


theorem cpp_pool_never_stuck_witness: "\<exists>i w'. doTask_step True i (cw [7] True False DCheck SIdle None [] []) w'"
  by (rule cpp_pool_never_stuck [OF cw_reach_added]) simp_all

theorem cpp_stop_completes_all_witness:
  "mset (k_executed (cw [] False True DLeft SDone None [7] [7])) = mset (k_pushed (cw [7] True False DCheck SIdle None [] []))"
  using cpp_stop_completes_all [OF cw_reach_added [of True] _ rtranclp_trans [OF cw_full_run cw_last_steps]] by simp

theorem cpp_late_tasks_dropped_witness:
  "k_started (cw [9] False True DLeft SDone None [7] [7]) = [7]"
  using cpp_late_tasks_dropped [OF _ cw_add [of DLeft True False True SDone "[7]" "[7]" 9]] by simp

theorem cpp_stop_may_hang_witness:
  "\<forall>bo. \<exists>w :: nat cpp_world. cpp_reach bo 1 1 w \<and> k_stop w = SJoin 0 \<and> k_pc w 0 = DWaiting"
proof
  fix bo
  have "k_stop (cw [] False True DWaiting (SJoin 0) None [] []) = SJoin 0 \<and> k_pc (cw [] False True DWaiting (SJoin 0) None [] []) 0 = DWaiting"
    by (rule cpp_stop_may_hang [OF rtranclp.rtrancl_refl]) simp_all
  then show "\<exists>w :: nat cpp_world. cpp_reach bo 1 1 w \<and> k_stop w = SJoin 0 \<and> k_pc w 0 = DWaiting"
    using quiet_reach [OF cw_reach_start cw_hang_run] by blast
qed

theorem cpp_stop_terminates_witness:
  "stop_work 1 (cw [] False True DCheck (SJoin 0) None [7] [7]) = 3
   \<and> (\<nexists>w'. (cpp_quiet True ^^ 4) (cw [] False True DCheck (SJoin 0) None [7] [7]) w')"
proof -
  let ?w = "cw [] False True DCheck (SJoin 0) None [7] [7]"
  have l: "all_leaving ?w" by (simp add: all_leaving_def)
  have w: "stop_work 1 ?w = 3" by (simp add: stop_work_def join_work_def)
  have "m \<le> 3" if "(cpp_quiet True ^^ m) ?w w'" for m w'
    using cpp_stop_terminates [OF quiet_reach [OF cw_reach_added cw_full_run] l] w that by metis
  from this [of 4] w show ?thesis by auto
qed

end
