(* ===== verification/Wd_Process_Pool.thy ===== *)
theory Wd_Process_Pool
  imports Pool_Prelude "HOL-Library.Multiset"
begin

text \<open>
  The teaching process pool: \<^verbatim>\<open>pool.c\<close>, \<^verbatim>\<open>local.c\<close>, \<^verbatim>\<open>worker.c\<close> and the loop of \<^verbatim>\<open>main.c\<close> under \<^verbatim>\<open>wd_ProcessPool/serve\<close>. The
  parent and the sons interleave; they share no memory and exchange messages over one local socket for each son.
  A message is the four bytes of a flag with a file description attached, and a son answers with three bytes.
  What a son does with a connection is the state \<open>ServingFile\<close>; the sends in it raise \<open>SIGPIPE\<close> when the client
  is gone, which kills the son (\<open>Killed\<close>). A son that could not be forked is \<open>NotForked\<close>. The other end of the socket
  of a son that is not there is closed: the parent reads end of file, and a send raises \<open>SIGPIPE\<close> in the parent.
\<close>

subsection \<open>Messages\<close>

datatype file_ref = Conn nat | Stdout

type_synonym son_msg = "int \<times> file_ref"

text \<open>\<^verbatim>\<open>sendMsg\<close>, \<open>None\<close>: \<open>SIGPIPE\<close>. \<^verbatim>\<open>recvMsg\<close>, \<open>None\<close>: it blocks.\<close>

definition sendMsg :: "bool \<Rightarrow> son_msg list \<Rightarrow> file_ref \<Rightarrow> int \<Rightarrow> son_msg list option" where
  "sendMsg peer_gone chan net_fd flag = (if peer_gone then None else Some (chan @ [(flag, net_fd)]))"

definition recvMsg :: "son_msg list \<Rightarrow> (file_ref \<times> int \<times> son_msg list) option" where
  "recvMsg chan = (case chan of [] \<Rightarrow> None | (num, fd) # rest \<Rightarrow> Some (fd, num, rest))"

subsection \<open>The pool\<close>

datatype son_flag = BUSY | FREE

datatype son_pc = NotForked | Receiving | ServingFile file_ref | Replying | Exited | Killed

definition gone :: "son_pc \<Rightarrow> bool" where
  "gone pc \<longleftrightarrow> (case pc of NotForked \<Rightarrow> True | Exited \<Rightarrow> True | Killed \<Rightarrow> True | _ \<Rightarrow> False)"

text \<open>The parent: in its loop, sending the request to exit to son \<open>j\<close>, waiting after \<open>k\<close> calls of \<^verbatim>\<open>wait\<close>, exited,
  killed.\<close>

datatype parent_pc = PLoop | PExit nat | PWait nat | PDone | PKilled

record son_world =
  sw_flag :: "nat \<Rightarrow> son_flag"
  sw_chan :: "nat \<Rightarrow> son_msg list"
  sw_replies :: "nat \<Rightarrow> nat"
  sw_son :: "nat \<Rightarrow> son_pc"
  sw_main :: parent_pc
  sw_reaped :: "nat set"
  sw_accepted :: "nat list"
  sw_refused :: "nat list"
  sw_served :: "nat list"
  sw_lost :: "nat list"

text \<open>\<open>ok i\<close>: the fork of son \<open>i\<close> succeeds. The parent fills its entry either way.\<close>

definition initPool :: "(nat \<Rightarrow> bool) \<Rightarrow> nat \<Rightarrow> son_world" where
  "initPool ok num =
     \<lparr>sw_flag = (\<lambda>_. FREE), sw_chan = (\<lambda>_. []), sw_replies = (\<lambda>_. 0),
      sw_son = (\<lambda>i. if i < num \<and> ok i then Receiving else NotForked), sw_main = PLoop, sw_reaped = {},
      sw_accepted = [], sw_refused = [], sw_served = [], sw_lost = []\<rparr>"

datatype dispatched = NoneFree | SentTo nat "son_msg list" | Broken

definition toSonNetFd :: "nat \<Rightarrow> son_world \<Rightarrow> file_ref \<Rightarrow> dispatched" where
  "toSonNetFd num w net_fd =
     (case find (\<lambda>i. sw_flag w i = FREE) [0..<num] of None \<Rightarrow> NoneFree
      | Some i \<Rightarrow> (case sendMsg (gone (sw_son w i)) (sw_chan w i) net_fd 0 of None \<Rightarrow> Broken
          | Some chan \<Rightarrow> SentTo i chan))"

subsection \<open>Interleavings\<close>

text \<open>A connection accepted is handed to a son, and the parent closes its own descriptor: a connection no son got
  is closed unserved.\<close>

definition accept_event :: "nat \<Rightarrow> nat \<Rightarrow> son_world \<Rightarrow> son_world" where
  "accept_event num c w =
     (let w1 = w\<lparr>sw_accepted := sw_accepted w @ [c]\<rparr>
      in case toSonNetFd num w (Conn c) of
           NoneFree \<Rightarrow> w1\<lparr>sw_refused := sw_refused w @ [c]\<rparr>
         | Broken \<Rightarrow> w1\<lparr>sw_lost := sw_lost w @ [c], sw_main := PKilled\<rparr>
         | SentTo i chan \<Rightarrow> w1\<lparr>sw_chan := (sw_chan w)(i := chan), sw_flag := (sw_flag w)(i := BUSY)\<rparr>)"

text \<open>The socket of son \<open>i\<close> is readable: a buffer of sixty bytes holds twenty answers of three bytes.\<close>

definition answer_event :: "nat \<Rightarrow> son_world \<Rightarrow> son_world" where
  "answer_event i w = w\<lparr>sw_replies := (sw_replies w)(i := sw_replies w i - 20), sw_flag := (sw_flag w)(i := FREE)\<rparr>"

text \<open>The descriptor that comes with a request to exit is the parent's standard output.\<close>

definition exit_event :: "nat \<Rightarrow> son_world \<Rightarrow> son_world" where
  "exit_event j w =
     (case sendMsg (gone (sw_son w j)) (sw_chan w j) Stdout (- 1) of
        None \<Rightarrow> w\<lparr>sw_main := PKilled\<rparr>
      | Some chan \<Rightarrow> w\<lparr>sw_chan := (sw_chan w)(j := chan), sw_main := PExit (Suc j)\<rparr>)"

definition conn_of :: "file_ref \<Rightarrow> nat list" where
  "conn_of f = (case f of Conn c \<Rightarrow> [c] | Stdout \<Rightarrow> [])"

inductive son_step :: "nat \<Rightarrow> son_world \<Rightarrow> son_world \<Rightarrow> bool" where
  sn_receive:
    "sw_son w i = Receiving \<Longrightarrow> recvMsg (sw_chan w i) = Some (net_fd, flag, chan)
       \<Longrightarrow> son_step i w (w\<lparr>sw_chan := (sw_chan w)(i := chan),
             sw_son := (sw_son w)(i := (if flag = - 1 then Exited else ServingFile net_fd))\<rparr>)"
| sn_served:
    "sw_son w i = ServingFile net_fd
       \<Longrightarrow> son_step i w (w\<lparr>sw_son := (sw_son w)(i := Replying), sw_served := sw_served w @ conn_of net_fd\<rparr>)"
| sn_killed:
    "sw_son w i = ServingFile net_fd
       \<Longrightarrow> son_step i w (w\<lparr>sw_son := (sw_son w)(i := Killed), sw_lost := sw_lost w @ conn_of net_fd\<rparr>)"
| sn_reply:
    "sw_son w i = Replying
       \<Longrightarrow> son_step i w (w\<lparr>sw_son := (sw_son w)(i := Receiving), sw_replies := (sw_replies w)(i := Suc (sw_replies w i))\<rparr>)"

inductive parent_step :: "nat \<Rightarrow> son_world \<Rightarrow> son_world \<Rightarrow> bool" for num where
  pa_accept: "sw_main w = PLoop \<Longrightarrow> parent_step num w (accept_event num c w)"
| pa_answer:
    "sw_main w = PLoop \<Longrightarrow> i < num \<Longrightarrow> 0 < sw_replies w i \<or> gone (sw_son w i) \<Longrightarrow> parent_step num w (answer_event i w)"
| pa_signal: "sw_main w = PLoop \<Longrightarrow> parent_step num w (w\<lparr>sw_main := PExit 0\<rparr>)"
| pa_exit: "sw_main w = PExit j \<Longrightarrow> j < num \<Longrightarrow> parent_step num w (exit_event j w)"
| pa_told: "sw_main w = PExit j \<Longrightarrow> \<not> j < num \<Longrightarrow> parent_step num w (w\<lparr>sw_main := PWait 0\<rparr>)"
| pa_reap:
    "sw_main w = PWait k \<Longrightarrow> k < num \<Longrightarrow> i < num \<Longrightarrow> sw_son w i = Exited \<or> sw_son w i = Killed \<Longrightarrow> i \<notin> sw_reaped w
       \<Longrightarrow> parent_step num w (w\<lparr>sw_main := PWait (Suc k), sw_reaped := insert i (sw_reaped w)\<rparr>)"
| pa_no_child:
    "sw_main w = PWait k \<Longrightarrow> k < num \<Longrightarrow> \<forall>i<num. sw_son w i = NotForked \<or> i \<in> sw_reaped w
       \<Longrightarrow> parent_step num w (w\<lparr>sw_main := PWait (Suc k)\<rparr>)"
| pa_done: "sw_main w = PWait k \<Longrightarrow> \<not> k < num \<Longrightarrow> parent_step num w (w\<lparr>sw_main := PDone\<rparr>)"

definition sons_step :: "nat \<Rightarrow> son_world \<Rightarrow> son_world \<Rightarrow> bool" where
  "sons_step num w w' \<longleftrightarrow> (\<exists>i<num. son_step i w w') \<or> parent_step num w w'"

definition sons_reach :: "(nat \<Rightarrow> bool) \<Rightarrow> nat \<Rightarrow> son_world \<Rightarrow> bool" where
  "sons_reach ok num w \<longleftrightarrow> (sons_step num)\<^sup>*\<^sup>* (initPool ok num) w"

subsection \<open>The invariant\<close>

lemma gone_simps [simp]:
  "gone NotForked" "gone Exited" "gone Killed" "\<not> gone Receiving" "\<not> gone (ServingFile f)" "\<not> gone Replying"
  by (simp_all add: gone_def)

lemma conn_of_simps [simp]: "conn_of (Conn c) = [c]" "conn_of Stdout = []"
  by (simp_all add: conn_of_def)

text \<open>The connections on their way to a son and with it.\<close>

definition held :: "son_msg list \<Rightarrow> son_pc \<Rightarrow> nat multiset" where
  "held chan pc = mset (concat (map (\<lambda>m. conn_of (snd m)) chan))
     + (case pc of ServingFile f \<Rightarrow> mset (conn_of f) | _ \<Rightarrow> {#})"

definition busy_son :: "son_pc \<Rightarrow> nat" where
  "busy_son pc = (case pc of ServingFile f \<Rightarrow> 1 | Replying \<Rightarrow> 1 | _ \<Rightarrow> 0)"

lemma busy_son_simps [simp]:
  "busy_son (ServingFile f) = 1" "busy_son Replying = 1" "busy_son Receiving = 0" "busy_son Exited = 0"
  "busy_son Killed = 0" "busy_son NotForked = 0"
  by (simp_all add: busy_son_def)

definition task_msgs :: "nat list \<Rightarrow> son_msg list" where
  "task_msgs cs = map (\<lambda>c. (0, Conn c)) cs"

text \<open>A son that is there has one task when its entry says busy and none otherwise, and after that the request to
  exit, when it was sent.\<close>

definition son_ok :: "bool \<Rightarrow> son_flag \<Rightarrow> son_msg list \<Rightarrow> nat \<Rightarrow> son_pc \<Rightarrow> bool" where
  "son_ok told flag chan replies pc \<longleftrightarrow>
     (if gone pc then pc = Exited \<longrightarrow> told \<and> chan = []
      else \<exists>cs. chan = task_msgs cs @ (if told then [(- 1, Stdout)] else [])
             \<and> length cs + busy_son pc + replies = of_bool (flag = BUSY))"

definition told :: "parent_pc \<Rightarrow> nat \<Rightarrow> bool" where
  "told m i \<longleftrightarrow> (case m of PLoop \<Rightarrow> False | PExit j \<Rightarrow> i < j | _ \<Rightarrow> True)"

lemma told_simps [simp]:
  "\<not> told PLoop i" "told (PExit j) i \<longleftrightarrow> i < j" "told (PWait k) i" "told PDone i"
  by (simp_all add: told_def)

definition msgs_ok :: "(nat \<Rightarrow> son_msg list) \<Rightarrow> bool" where
  "msgs_ok chans \<longleftrightarrow> (\<forall>i. \<forall>m \<in> set (chans i). fst m = - 1 \<longrightarrow> snd m = Stdout)"

definition wait_inv :: "nat \<Rightarrow> parent_pc \<Rightarrow> (nat \<Rightarrow> son_pc) \<Rightarrow> nat set \<Rightarrow> bool" where
  "wait_inv num m sons reaped \<longleftrightarrow> reaped \<subseteq> {i. i < num \<and> (sons i = Exited \<or> sons i = Killed)}
     \<and> (\<forall>k. m = PWait k \<longrightarrow> k \<le> card reaped \<or> (\<forall>i<num. sons i = NotForked \<or> i \<in> reaped))
     \<and> (m = PDone \<longrightarrow> (\<forall>i<num. gone (sons i))) \<and> (m = PKilled \<longrightarrow> (\<exists>i<num. sons i = Killed \<or> sons i = NotForked))"

definition sons_inv :: "(nat \<Rightarrow> bool) \<Rightarrow> nat \<Rightarrow> son_world \<Rightarrow> bool" where
  "sons_inv ok num w \<longleftrightarrow>
     mset (sw_accepted w) = mset (sw_served w) + mset (sw_refused w) + mset (sw_lost w)
       + (\<Sum>i<num. held (sw_chan w i) (sw_son w i))
     \<and> msgs_ok (sw_chan w) \<and> (\<forall>i<num. sw_son w i = NotForked \<longleftrightarrow> \<not> ok i)
     \<and> (sw_main w \<noteq> PKilled \<longrightarrow> (\<forall>i<num. son_ok (told (sw_main w) i) (sw_flag w i) (sw_chan w i) (sw_replies w i) (sw_son w i)))
     \<and> wait_inv num (sw_main w) (sw_son w) (sw_reaped w)"

lemma held_send [simp]: "held (chan @ [(flag, f)]) pc = held chan pc + mset (conn_of f)"
  by (simp add: held_def)

lemma sum_held_upd:
  fixes chans :: "nat \<Rightarrow> son_msg list"
  assumes "i < num"
  shows "(\<Sum>j<num. held ((chans(i := chan)) j) ((sons(i := pc)) j)) + held (chans i) (sons i)
    = (\<Sum>j<num. held (chans j) (sons j)) + held chan pc"
proof -
  have "(\<lambda>j. (chans j, sons j))(i := (chan, pc)) = (\<lambda>j. ((chans(i := chan)) j, (sons(i := pc)) j))" by auto
  then show ?thesis
    using sum_state_upd [OF assms, of "\<lambda>(ch, s). held ch s" "\<lambda>j. (chans j, sons j)" "(chan, pc)"] by simp
qed

lemma son_ok_gone: "gone pc \<Longrightarrow> pc \<noteq> Exited \<Longrightarrow> son_ok t flag chan replies pc"
  by (auto simp: son_ok_def)

lemma son_ok_replies: "son_ok t flag chan replies pc \<Longrightarrow> 0 < replies \<Longrightarrow> \<not> gone pc
    \<Longrightarrow> replies = 1 \<and> son_ok t FREE chan 0 pc"
proof -
  assume ok: "son_ok t flag chan replies pc" and r: "0 < replies" and pc: "\<not> gone pc"
  then obtain cs where cs: "chan = task_msgs cs @ (if t then [(- 1, Stdout)] else [])"
    "length cs + busy_son pc + replies = of_bool (flag = BUSY)" by (auto simp: son_ok_def)
  have "flag = BUSY" using cs(2) r by (cases flag) auto
  then have d: "replies = 1" "cs = []" "busy_son pc = 0" using cs(2) r by (simp_all add: add_is_1)
  then show ?thesis using cs(1) pc by (auto simp: son_ok_def)
qed

text \<open>A son receives.\<close>

lemma son_ok_receive:
  assumes "son_ok t flag ((num, f) # rest) replies Receiving"
  shows "son_ok t flag rest replies (if num = - 1 then Exited else ServingFile f)"
proof -
  from assms obtain cs where cs: "(num, f) # rest = task_msgs cs @ (if t then [(- 1, Stdout)] else [])"
    "length cs + replies = of_bool (flag = BUSY)" by (auto simp: son_ok_def)
  show ?thesis
  proof (cases cs)
    case Nil
    then show ?thesis using cs by (auto simp: son_ok_def task_msgs_def split: if_splits)
  next
    case (Cons c ds)
    then have "num = 0" "rest = task_msgs ds @ (if t then [(- 1, Stdout)] else [])" using cs(1) by (auto simp: task_msgs_def)
    then show ?thesis using cs(2) Cons by (cases flag) (auto simp: son_ok_def)
  qed
qed

lemma wait_inv_son:
  assumes "wait_inv num m sons reaped" "\<not> gone (sons i)" "pc \<noteq> NotForked"
  shows "wait_inv num m (sons(i := pc)) reaped"
proof -
  have keep: "(sons(i := pc)) j = sons j" if "gone (sons j)" for j using that assms(2) by (cases "j = i") auto
  have i: "i \<notin> reaped" using assms(1,2) by (auto simp: wait_inv_def)
  have "gone (sons j)" if "j \<in> reaped" for j using that assms(1) by (auto simp: wait_inv_def)
  then have r: "(sons(i := pc)) j = sons j" if "j \<in> reaped" for j using that keep by blast
  have "sons i \<noteq> NotForked" using assms(2) by auto
  then have nf: "(\<forall>j<n. (sons(i := pc)) j = NotForked \<or> j \<in> reaped)" if "\<forall>j<n. sons j = NotForked \<or> j \<in> reaped" for n
    using that i keep by (metis gone_simps(1))
  let ?s = "sons(i := pc)"
  show ?thesis unfolding wait_inv_def
  proof (intro conjI allI impI)
    show "reaped \<subseteq> {j. j < num \<and> (?s j = Exited \<or> ?s j = Killed)}"
      using assms(1) r by (auto simp: wait_inv_def simp del: fun_upd_apply)
  next
    fix k assume "m = PWait k"
    then have "k \<le> card reaped \<or> (\<forall>j<num. sons j = NotForked \<or> j \<in> reaped)" using assms(1) by (simp add: wait_inv_def)
    then show "k \<le> card reaped \<or> (\<forall>j<num. ?s j = NotForked \<or> j \<in> reaped)" using nf by blast
  next
    fix j assume "m = PDone" "j < num"
    then have "gone (sons j)" using assms(1) by (simp add: wait_inv_def)
    then show "gone (?s j)" using keep by simp
  next
    assume "m = PKilled"
    then obtain j where "j < num" "sons j = Killed \<or> sons j = NotForked" using assms(1) by (auto simp: wait_inv_def)
    then show "\<exists>j<num. ?s j = Killed \<or> ?s j = NotForked" using keep [of j] by (intro exI [of _ j]) auto
  qed
qed

lemma sons_inv_son:
  assumes inv: "sons_inv ok num w" and i: "i < num" and step: "son_step i w w'"
  shows "sons_inv ok num w'"
proof -
  have C: "mset (sw_accepted w) = mset (sw_served w) + mset (sw_refused w) + mset (sw_lost w)
       + (\<Sum>i<num. held (sw_chan w i) (sw_son w i))" and M: "msgs_ok (sw_chan w)"
    and F: "\<forall>i<num. sw_son w i = NotForked \<longleftrightarrow> \<not> ok i" and W: "wait_inv num (sw_main w) (sw_son w) (sw_reaped w)"
    and S: "sw_main w \<noteq> PKilled \<Longrightarrow> j < num
      \<Longrightarrow> son_ok (told (sw_main w) j) (sw_flag w j) (sw_chan w j) (sw_replies w j) (sw_son w j)" for j
    using inv by (simp_all add: sons_inv_def)
  note H = sum_held_upd [OF i, of "sw_chan w" _ "sw_son w"]
  from step show ?thesis
  proof cases
    case (sn_receive net_fd flag chan)
    let ?pc = "if flag = - 1 then Exited else ServingFile net_fd"
    have ch: "sw_chan w i = (flag, net_fd) # chan" using sn_receive(3) by (auto simp: recvMsg_def split: list.splits)
    have out: "flag = - 1 \<Longrightarrow> net_fd = Stdout" using M unfolding msgs_ok_def by (metis ch fst_conv list.set_intros(1) snd_conv)
    have "held (sw_chan w i) (sw_son w i) = held chan ?pc" using ch out sn_receive(2) by (auto simp: held_def)
    then have "(\<Sum>j<num. held (((sw_chan w)(i := chan)) j) (((sw_son w)(i := ?pc)) j)) = (\<Sum>j<num. held (sw_chan w j) (sw_son w j))"
      using H [of chan ?pc] by simp
    moreover have "msgs_ok ((sw_chan w)(i := chan))" using M ch unfolding msgs_ok_def by (metis fun_upd_apply list.set_intros(2))
    moreover have "wait_inv num (sw_main w) ((sw_son w)(i := ?pc)) (sw_reaped w)"
      by (rule wait_inv_son [OF W]) (use sn_receive(2) in auto)
    moreover have "son_ok (told (sw_main w) i) (sw_flag w i) chan (sw_replies w i) ?pc" if "sw_main w \<noteq> PKilled"
      using S [OF that i] ch sn_receive(2) son_ok_receive by metis
    ultimately show ?thesis using C F S i sn_receive(1,2) by (auto simp: sons_inv_def)
  next
    case (sn_served net_fd)
    have "wait_inv num (sw_main w) ((sw_son w)(i := Replying)) (sw_reaped w)"
      by (rule wait_inv_son [OF W]) (use sn_served(2) in auto)
    moreover have "son_ok (told (sw_main w) i) (sw_flag w i) (sw_chan w i) (sw_replies w i) Replying" if "sw_main w \<noteq> PKilled"
      using S [OF that i] sn_served(2) by (simp add: son_ok_def)
    moreover have "held (sw_chan w i) (sw_son w i) = held (sw_chan w i) Replying + mset (conn_of net_fd)"
      using sn_served(2) by (simp add: held_def)
    then have "(\<Sum>j<num. held (sw_chan w j) (sw_son w j))
        = mset (conn_of net_fd) + (\<Sum>j<num. held (sw_chan w j) (((sw_son w)(i := Replying)) j))"
      using H [of "sw_chan w i" Replying] by (simp add: ac_simps del: fun_upd_apply)
    ultimately show ?thesis using C F M S i sn_served(1,2) by (auto simp: sons_inv_def)
  next
    case (sn_killed net_fd)
    have "wait_inv num (sw_main w) ((sw_son w)(i := Killed)) (sw_reaped w)"
      by (rule wait_inv_son [OF W]) (use sn_killed(2) in auto)
    moreover have "held (sw_chan w i) (sw_son w i) = held (sw_chan w i) Killed + mset (conn_of net_fd)"
      using sn_killed(2) by (simp add: held_def)
    then have "(\<Sum>j<num. held (sw_chan w j) (sw_son w j))
        = mset (conn_of net_fd) + (\<Sum>j<num. held (sw_chan w j) (((sw_son w)(i := Killed)) j))"
      using H [of "sw_chan w i" Killed] by (simp add: ac_simps del: fun_upd_apply)
    ultimately show ?thesis using C F M S i sn_killed(1,2) son_ok_gone [of Killed]
      by (auto simp: sons_inv_def)
  next
    case sn_reply
    have "wait_inv num (sw_main w) ((sw_son w)(i := Receiving)) (sw_reaped w)"
      by (rule wait_inv_son [OF W]) (use sn_reply(2) in auto)
    moreover have "son_ok (told (sw_main w) i) (sw_flag w i) (sw_chan w i) (Suc (sw_replies w i)) Receiving" if "sw_main w \<noteq> PKilled"
      using S [OF that i] sn_reply(2) by (simp add: son_ok_def)
    moreover have "held (sw_chan w i) (sw_son w i) = held (sw_chan w i) Receiving"
      using sn_reply(2) by (simp add: held_def)
    ultimately show ?thesis using C F M S i sn_reply(1,2) H [of "sw_chan w i" Receiving] by (auto simp: sons_inv_def)
  qed
qed

subsection \<open>The steps of the parent\<close>

lemma toSonNetFd_cases:
  obtains "toSonNetFd num w f = NoneFree" "\<forall>i<num. sw_flag w i = BUSY"
    | i where "i < num" "sw_flag w i = FREE" "\<forall>j<i. sw_flag w j = BUSY" "gone (sw_son w i)" "toSonNetFd num w f = Broken"
    | i where "i < num" "sw_flag w i = FREE" "\<forall>j<i. sw_flag w j = BUSY" "\<not> gone (sw_son w i)"
        "toSonNetFd num w f = SentTo i (sw_chan w i @ [(0, f)])"
proof (cases "find (\<lambda>i. sw_flag w i = FREE) [0..<num]")
  case None
  then have "\<forall>i<num. sw_flag w i \<noteq> FREE" by (simp add: find_None_iff)
  then have "\<forall>i<num. sw_flag w i = BUSY" using son_flag.exhaust by blast
  then show thesis using that(1) None by (simp add: toSonNetFd_def)
next
  case (Some i)
  then have i: "i < num" "sw_flag w i = FREE" "\<forall>j<i. sw_flag w j \<noteq> FREE" by (auto simp: find_Some_iff)
  then have "\<forall>j<i. sw_flag w j = BUSY" using son_flag.exhaust by blast
  then show thesis using that(2,3) Some i by (cases "gone (sw_son w i)") (simp_all add: toSonNetFd_def sendMsg_def)
qed

lemma wait_inv_loop: "wait_inv num PLoop sons reaped \<Longrightarrow> wait_inv num (PExit 0) sons reaped"
  by (simp add: wait_inv_def)

lemma sum_held_send:
  fixes chans :: "nat \<Rightarrow> son_msg list"
  assumes "i < num"
  shows "(\<Sum>j<num. held ((chans(i := chans i @ [(flag, f)])) j) (sons j)) = mset (conn_of f) + (\<Sum>j<num. held (chans j) (sons j))"
proof -
  have "sons(i := sons i) = sons" by simp
  then show ?thesis using sum_held_upd [OF assms, of chans "chans i @ [(flag, f)]" sons "sons i"]
    by (simp add: ac_simps del: fun_upd_apply)
qed

lemma sons_inv_accept:
  assumes inv: "sons_inv ok num w" and m: "sw_main w = PLoop"
  shows "sons_inv ok num (accept_event num c w)"
proof (cases rule: toSonNetFd_cases [of num w "Conn c"])
  case 1
  then show ?thesis using inv by (simp add: accept_event_def sons_inv_def Let_def)
next
  case (2 i)
  have "sw_son w i = Killed \<or> sw_son w i = NotForked"
    using inv m 2(1,4) by (cases "sw_son w i") (auto simp: sons_inv_def son_ok_def)
  then have "wait_inv num PKilled (sw_son w) (sw_reaped w)" using inv m 2(1) by (auto simp: sons_inv_def wait_inv_def)
  then show ?thesis using inv 2 by (simp add: accept_event_def sons_inv_def Let_def)
next
  case (3 i)
  have "son_ok False FREE (sw_chan w i) (sw_replies w i) (sw_son w i)" using inv m 3(1,2) by (auto simp: sons_inv_def)
  then have "son_ok False BUSY (sw_chan w i @ [(0, Conn c)]) (sw_replies w i) (sw_son w i)"
    using 3(4) by (auto simp: son_ok_def task_msgs_def intro!: exI [of _ "[c]"])
  moreover have "msgs_ok ((sw_chan w)(i := sw_chan w i @ [(0, Conn c)]))" using inv by (auto simp: sons_inv_def msgs_ok_def)
  ultimately show ?thesis using inv m 3(1,5) sum_held_send [OF 3(1), of "sw_chan w" 0 "Conn c" "sw_son w"]
    by (auto simp: accept_event_def sons_inv_def Let_def simp del: fun_upd_apply) (auto simp: fun_upd_def)
qed

lemma sons_inv_answer:
  assumes inv: "sons_inv ok num w" and m: "sw_main w = PLoop" and i: "i < num" "0 < sw_replies w i \<or> gone (sw_son w i)"
  shows "sons_inv ok num (answer_event i w)"
proof -
  have ok: "son_ok False (sw_flag w i) (sw_chan w i) (sw_replies w i) (sw_son w i)" using inv m i by (auto simp: sons_inv_def)
  have "son_ok False FREE (sw_chan w i) (sw_replies w i - 20) (sw_son w i)"
  proof (cases "gone (sw_son w i)")
    case True
    then show ?thesis using ok by (auto simp: son_ok_def)
  next
    case False
    then show ?thesis using son_ok_replies [OF ok] i(2) by simp
  qed
  then show ?thesis using inv m by (auto simp: answer_event_def sons_inv_def)
qed

lemma sons_inv_exit:
  assumes inv: "sons_inv ok num w" and m: "sw_main w = PExit j" and j: "j < num"
  shows "sons_inv ok num (exit_event j w)"
proof (cases "gone (sw_son w j)")
  case True
  then have "sw_son w j = Killed \<or> sw_son w j = NotForked"
    using inv m j by (cases "sw_son w j") (auto simp: sons_inv_def son_ok_def)
  then have "wait_inv num PKilled (sw_son w) (sw_reaped w)" using inv m j by (auto simp: sons_inv_def wait_inv_def)
  then show ?thesis using inv True by (simp add: exit_event_def sendMsg_def sons_inv_def)
next
  case False
  have "son_ok False (sw_flag w j) (sw_chan w j) (sw_replies w j) (sw_son w j)" using inv m j by (auto simp: sons_inv_def)
  then have ok: "son_ok True (sw_flag w j) (sw_chan w j @ [(- 1, Stdout)]) (sw_replies w j) (sw_son w j)"
    using False by (auto simp: son_ok_def)
  have old: "son_ok (i < j) (sw_flag w i) (sw_chan w i) (sw_replies w i) (sw_son w i)" if "i < num" for i
    using inv m that by (auto simp: sons_inv_def)
  have "msgs_ok ((sw_chan w)(j := sw_chan w j @ [(- 1, Stdout)]))" using inv by (auto simp: sons_inv_def msgs_ok_def)
  moreover have "wait_inv num (PExit (Suc j)) (sw_son w) (sw_reaped w)" using inv m by (simp add: sons_inv_def wait_inv_def)
  moreover have "son_ok (i < Suc j) (sw_flag w i) (((sw_chan w)(j := sw_chan w j @ [(- 1, Stdout)])) i) (sw_replies w i) (sw_son w i)"
    if "i < num" for i using ok old [OF that] by (cases "i = j") (auto simp: less_Suc_eq)
  ultimately show ?thesis using inv False sum_held_send [OF j, of "sw_chan w" "- 1" Stdout "sw_son w"]
    by (simp add: exit_event_def sendMsg_def sons_inv_def del: fun_upd_apply)
qed

lemma sons_inv_parent:
  assumes inv: "sons_inv ok num w" and step: "parent_step num w w'"
  shows "sons_inv ok num w'"
  using step
proof cases
  case (pa_accept c)
  then show ?thesis using sons_inv_accept [OF inv] by simp
next
  case (pa_answer i)
  then show ?thesis using sons_inv_answer [OF inv] by simp
next
  case pa_signal
  then show ?thesis using inv by (auto simp: sons_inv_def wait_inv_def)
next
  case (pa_exit j)
  then show ?thesis using sons_inv_exit [OF inv] by simp
next
  case (pa_told j)
  then show ?thesis using inv by (auto simp: sons_inv_def wait_inv_def)
next
  case (pa_reap k i)
  have "finite (sw_reaped w)" by (rule finite_subset [of _ "{..<num}"]) (use inv in \<open>auto simp: sons_inv_def wait_inv_def\<close>)
  then have "wait_inv num (PWait (Suc k)) (sw_son w) (insert i (sw_reaped w))"
    using inv pa_reap by (auto simp: sons_inv_def wait_inv_def)
  then show ?thesis using inv pa_reap(1,2) by (auto simp: sons_inv_def)
next
  case (pa_no_child k)
  then show ?thesis using inv by (auto simp: sons_inv_def wait_inv_def)
next
  case (pa_done k)
  have W: "wait_inv num (PWait k) (sw_son w) (sw_reaped w)" using inv pa_done(2) by (simp add: sons_inv_def)
  have sub: "sw_reaped w \<subseteq> {..<num}" using W by (auto simp: wait_inv_def)
  have "sw_son w i = NotForked \<or> i \<in> sw_reaped w" if "i < num" for i
  proof (cases "k \<le> card (sw_reaped w)")
    case True
    have "card (sw_reaped w) \<le> num" using card_mono [OF _ sub] by simp
    then have "sw_reaped w = {..<num}" using sub True pa_done(3) by (intro card_subset_eq) auto
    then show ?thesis using that by simp
  next
    case False
    then show ?thesis using W that by (simp add: wait_inv_def)
  qed
  then have "\<forall>i<num. gone (sw_son w i)" using W by (fastforce simp: wait_inv_def)
  then show ?thesis using inv pa_done(1,2) by (auto simp: sons_inv_def wait_inv_def)
qed

lemma sons_inv_start: "sons_inv ok num (initPool ok num)"
  by (auto simp: sons_inv_def initPool_def wait_inv_def msgs_ok_def son_ok_def task_msgs_def held_def intro!: sum.neutral)

lemma sons_reach_inv: "sons_reach ok num w \<Longrightarrow> sons_inv ok num w"
  unfolding sons_reach_def
proof (induction rule: rtranclp_induct)
  case (step w w')
  then show ?case by (auto simp: sons_step_def intro: sons_inv_son sons_inv_parent)
qed (rule sons_inv_start)

subsection \<open>The work that is left after the request to exit\<close>

definition msg_work :: "son_msg list \<Rightarrow> nat" where
  "msg_work chan = sum_list (map (\<lambda>m. if fst m = - 1 then 1 else 3) chan)"

definition son_work :: "son_pc \<Rightarrow> nat" where
  "son_work pc = (case pc of ServingFile f \<Rightarrow> 2 | Replying \<Rightarrow> 1 | _ \<Rightarrow> 0)"

definition parent_work :: "nat \<Rightarrow> parent_pc \<Rightarrow> nat" where
  "parent_work num m = (case m of PExit j \<Rightarrow> 2 * (num - j) + num + 3 | PWait k \<Rightarrow> num - k + 1 | _ \<Rightarrow> 0)"

definition exit_work :: "nat \<Rightarrow> son_world \<Rightarrow> nat" where
  "exit_work num w = (\<Sum>i<num. msg_work (sw_chan w i) + son_work (sw_son w i)) + parent_work num (sw_main w)"

lemma msg_work_simps [simp]:
  "msg_work (m # ms) = (if fst m = - 1 then 1 else 3) + msg_work ms" "msg_work [] = 0"
  "msg_work (ms @ [m]) = msg_work ms + (if fst m = - 1 then 1 else 3)"
  by (simp_all add: msg_work_def)

lemma son_work_simps [simp]:
  "son_work (ServingFile f) = 2" "son_work Replying = 1" "son_work Receiving = 0" "son_work Exited = 0" "son_work Killed = 0"
  by (simp_all add: son_work_def)

lemma sum_work_upd:
  fixes chans :: "nat \<Rightarrow> son_msg list"
  assumes "i < num"
  shows "(\<Sum>j<num. msg_work ((chans(i := chan)) j) + son_work ((sons(i := pc)) j)) + (msg_work (chans i) + son_work (sons i))
    = (\<Sum>j<num. msg_work (chans j) + son_work (sons j)) + (msg_work chan + son_work pc)"
proof -
  have "(\<lambda>j. (chans j, sons j))(i := (chan, pc)) = (\<lambda>j. ((chans(i := chan)) j, (sons(i := pc)) j))" by auto
  then show ?thesis
    using sum_state_upd [OF assms, of "\<lambda>(ch, s). msg_work ch + son_work s" "\<lambda>j. (chans j, sons j)" "(chan, pc)"] by simp
qed

lemma exit_work_son:
  assumes i: "i < num" and step: "son_step i w w'"
  shows "exit_work num w' < exit_work num w \<and> sw_main w' = sw_main w"
proof -
  note S = sum_work_upd [OF i, of "sw_chan w" _ "sw_son w"]
  from step show ?thesis
  proof cases
    case (sn_receive net_fd flag chan)
    then have "sw_chan w i = (flag, net_fd) # chan" by (auto simp: recvMsg_def split: list.splits)
    then show ?thesis using sn_receive S [of chan "if flag = - 1 then Exited else ServingFile net_fd"]
      by (auto simp: exit_work_def simp del: fun_upd_apply split: if_splits)
  next
    case (sn_served net_fd)
    then show ?thesis using S [of "sw_chan w i" Replying] by (simp add: exit_work_def del: fun_upd_apply)
  next
    case (sn_killed net_fd)
    then show ?thesis using S [of "sw_chan w i" Killed] by (simp add: exit_work_def del: fun_upd_apply)
  next
    case sn_reply
    then show ?thesis using S [of "sw_chan w i" Receiving] by (simp add: exit_work_def del: fun_upd_apply)
  qed
qed

lemma exit_work_parent:
  assumes "sw_main w \<noteq> PLoop" "parent_step num w w'"
  shows "exit_work num w' < exit_work num w \<and> sw_main w' \<noteq> PLoop"
  using assms(2)
proof cases
  case (pa_exit j)
  then show ?thesis
    using sum_work_upd [OF pa_exit(3), of "sw_chan w" "sw_chan w j @ [(- 1, Stdout)]" "sw_son w" "sw_son w j"]
    by (auto simp: exit_work_def exit_event_def sendMsg_def parent_work_def simp del: fun_upd_apply split: if_splits)
qed (use assms(1) in \<open>auto simp: exit_work_def parent_work_def\<close>)

lemma exit_moves:
  assumes inv: "sons_inv ok num w" and m: "sw_main w \<notin> {PLoop, PDone, PKilled}"
  shows "\<exists>w'. sons_step num w w'"
proof -
  consider j where "sw_main w = PExit j" | k where "sw_main w = PWait k" "\<not> k < num"
    | k where "sw_main w = PWait k" "k < num" "\<forall>i<num. sw_son w i = NotForked \<or> i \<in> sw_reaped w"
    | k i where "sw_main w = PWait k" "k < num" "i < num" "sw_son w i \<noteq> NotForked" "i \<notin> sw_reaped w"
    using m by (cases "sw_main w") auto
  then show ?thesis
  proof cases
    case (1 j)
    then show ?thesis unfolding sons_step_def by (cases "j < num") (blast intro: parent_step.intros)+
  next
    case 2
    then show ?thesis unfolding sons_step_def by (blast intro: parent_step.intros)
  next
    case 3
    then show ?thesis unfolding sons_step_def by (blast intro: parent_step.intros)
  next
    case (4 k i)
    have ok: "son_ok True (sw_flag w i) (sw_chan w i) (sw_replies w i) (sw_son w i)"
      using inv 4(1,3) by (fastforce simp: sons_inv_def)
    show ?thesis
    proof (cases "sw_son w i")
      case Receiving
      then obtain m ms where "sw_chan w i = m # ms" using ok by (cases "sw_chan w i") (auto simp: son_ok_def)
      then have "recvMsg (sw_chan w i) = Some (snd m, fst m, ms)" by (cases m) (simp add: recvMsg_def)
      then show ?thesis using sn_receive [OF Receiving] 4(3) unfolding sons_step_def by blast
    qed (use 4 in \<open>auto simp: sons_step_def intro: son_step.intros parent_step.intros\<close>)
  qed
qed

lemma event_simps [simp]:
  "sw_son (accept_event num c w) = sw_son w" "sw_son (answer_event i w) = sw_son w" "sw_son (exit_event j w) = sw_son w"
  "sw_lost (answer_event i w) = sw_lost w" "sw_lost (exit_event j w) = sw_lost w"
  by (simp_all add: accept_event_def answer_event_def exit_event_def Let_def split: dispatched.split option.split)

lemma accept_loses: "sw_lost (accept_event num c w) = sw_lost w \<or> sw_main (accept_event num c w) = PKilled"
  by (simp add: accept_event_def Let_def split: dispatched.split)

text \<open>A connection is lost only with a son or the parent that is killed.\<close>

lemma sons_lost: "sons_reach ok num w \<Longrightarrow> sw_lost w = [] \<or> sw_main w = PKilled \<or> (\<exists>i. sw_son w i = Killed)"
  unfolding sons_reach_def
proof (induction rule: rtranclp_induct)
  case (step v w)
  have kept: "sw_son w i = Killed" if "sw_son v i = Killed" for i
    using step.hyps(2) that unfolding sons_step_def by (auto elim!: son_step.cases parent_step.cases)
  have "sw_lost w = sw_lost v \<or> sw_main w = PKilled \<or> (\<exists>i. sw_son w i = Killed)"
    using step.hyps(2) accept_loses unfolding sons_step_def by (auto elim!: son_step.cases parent_step.cases)
  moreover have "sw_main v = PKilled \<Longrightarrow> sw_main w = PKilled"
    using step.hyps(2) unfolding sons_step_def by (auto elim!: son_step.cases parent_step.cases)
  ultimately show ?case using step.IH kept by metis
qed (simp add: initPool_def)

lemma held_son_ok:
  assumes "son_ok t flag chan replies pc" "\<not> gone pc"
  shows "size (held chan pc) \<le> 1 \<and> (flag = FREE \<longrightarrow> held chan pc = {#})"
proof -
  from assms obtain cs where cs: "chan = task_msgs cs @ (if t then [(- 1, Stdout)] else [])"
    "length cs + busy_son pc + replies = of_bool (flag = BUSY)" by (auto simp: son_ok_def)
  have "concat (map (\<lambda>m. conn_of (snd m)) (task_msgs cs)) = cs" by (induction cs) (simp_all add: task_msgs_def)
  then have "mset (concat (map (\<lambda>m. conn_of (snd m)) chan)) = mset cs" by (simp add: cs(1))
  moreover have "size (case pc of ServingFile f \<Rightarrow> mset (conn_of f) | _ \<Rightarrow> {#}) \<le> busy_son pc"
    by (auto simp: conn_of_def split: son_pc.split file_ref.split)
  ultimately have "size (held chan pc) \<le> length cs + busy_son pc" by (simp add: held_def)
  then show ?thesis using cs(2) by (cases flag) auto
qed

subsection \<open>Properties\<close>

text \<open>A connection that is accepted goes to the first free son; it is closed unserved exactly when all sons are
  busy.\<close>

theorem sons_dispatch_first_free:
  "(sw_refused (accept_event num c w) \<noteq> sw_refused w \<longleftrightarrow> (\<forall>i<num. sw_flag w i = BUSY))
   \<and> (\<forall>i chan. toSonNetFd num w (Conn c) = SentTo i chan
        \<longrightarrow> i < num \<and> sw_flag w i = FREE \<and> (\<forall>j<i. sw_flag w j = BUSY) \<and> chan = sw_chan w i @ [(0, Conn c)])"
proof (cases rule: toSonNetFd_cases [of num w "Conn c"])
  case 1
  then show ?thesis by (simp add: accept_event_def Let_def)
next
  case (2 i)
  then have "\<not> (\<forall>i<num. sw_flag w i = BUSY)" by auto
  then show ?thesis using 2 by (simp add: accept_event_def Let_def)
next
  case (3 i)
  then have "\<not> (\<forall>i<num. sw_flag w i = BUSY)" by auto
  then show ?thesis using 3 by (simp add: accept_event_def Let_def)
qed

text \<open>C17. In every interleaving each accepted connection is served, refused, lost with the son or the parent that was
  killed, or held by one son; and a son that is there holds at most one connection, none when its
  entry says free.\<close>

theorem sons_serve_each_once:
  assumes "sons_reach ok num w"
  shows "mset (sw_accepted w) = mset (sw_served w) + mset (sw_refused w) + mset (sw_lost w)
       + (\<Sum>i<num. held (sw_chan w i) (sw_son w i))
    \<and> (sw_main w \<noteq> PKilled \<longrightarrow> (\<forall>i<num. \<not> gone (sw_son w i) \<longrightarrow> size (held (sw_chan w i) (sw_son w i)) \<le> 1
         \<and> (sw_flag w i = FREE \<longrightarrow> held (sw_chan w i) (sw_son w i) = {#})))"
  using sons_reach_inv [OF assms] held_son_ok unfolding sons_inv_def by blast

text \<open>C34. When the parent has exited all sons are gone, and when no son was killed every connection was served or
  refused: the sons finish what they have before they exit.\<close>

theorem sons_exit_graceful:
  assumes "sons_reach ok num w" "sw_main w = PDone" "\<forall>i. sw_son w i \<noteq> Killed" "\<forall>i<num. ok i"
  shows "(\<forall>i<num. sw_son w i = Exited) \<and> mset (sw_accepted w) = mset (sw_served w) + mset (sw_refused w)"
proof -
  note inv = sons_reach_inv [OF assms(1)]
  have ex: "sw_son w i = Exited" if "i < num" for i
  proof -
    have "gone (sw_son w i)" "sw_son w i \<noteq> NotForked" using inv assms(2,4) that by (auto simp: sons_inv_def wait_inv_def)
    then show ?thesis using assms(3) by (cases "sw_son w i") auto
  qed
  have "held (sw_chan w i) (sw_son w i) = {#}" if "i < num" for i
    using inv assms(2) ex [OF that] that by (auto simp: sons_inv_def son_ok_def held_def)
  then have "(\<Sum>i<num. held (sw_chan w i) (sw_son w i)) = {#}" by (intro sum.neutral) simp
  then show ?thesis using inv ex sons_lost [OF assms(1)] assms(2,3) by (simp add: sons_inv_def)
qed

text \<open>C33. After the request to exit every interleaving ends within the work that is left, and it ends with the parent
  exited or killed, and killed only when a son was killed or could not be forked.\<close>

theorem sons_exit_terminates:
  assumes "sons_reach ok num w" "sw_main w \<noteq> PLoop"
  shows "(\<forall>n w'. (sons_step num ^^ n) w w' \<longrightarrow> n \<le> exit_work num w)
    \<and> (\<forall>w'. (sons_step num)\<^sup>*\<^sup>* w w' \<and> (\<nexists>v. sons_step num w' v)
        \<longrightarrow> sw_main w' = PDone \<or> sw_main w' = PKilled \<and> (\<exists>i<num. sw_son w' i = Killed \<or> sw_son w' i = NotForked))"
proof -
  let ?I = "\<lambda>v. sons_inv ok num v \<and> sw_main v \<noteq> PLoop"
  have step: "?I v' \<and> exit_work num v' < exit_work num v" if "?I v" "sons_step num v v'" for v v'
    using that unfolding sons_step_def
    by (metis exit_work_parent exit_work_son sons_inv_parent sons_inv_son)
  have I: "?I w" using sons_reach_inv [OF assms(1)] assms(2) by simp
  have bound: "?I v \<and> n + exit_work num v \<le> exit_work num w" if "(sons_step num ^^ n) w v" for n v
    using that
  proof (induction n arbitrary: v)
    case (Suc n)
    then obtain u where "(sons_step num ^^ n) w u" "sons_step num u v" by auto
    then show ?case using Suc.IH [of u] step [of u v] by simp
  qed (use I in simp)
  have "sw_main v = PDone \<or> sw_main v = PKilled \<and> (\<exists>i<num. sw_son v i = Killed \<or> sw_son v i = NotForked)"
    if "(sons_step num)\<^sup>*\<^sup>* w v" "\<nexists>u. sons_step num v u" for v
  proof -
    have v: "?I v" using that(1) bound by (auto simp: rtranclp_power)
    then have "sw_main v = PDone \<or> sw_main v = PKilled" using exit_moves [of ok num v] that(2) by auto
    then show ?thesis using v by (auto simp: sons_inv_def wait_inv_def)
  qed
  then show ?thesis using bound by (meson le_add1 le_trans)
qed

text \<open>A client that breaks its connection off can take the server down: the son that serves it is killed by
  \<^verbatim>\<open>SIGPIPE\<close>, the parent takes the end of file of its socket for an answer and enters it as free, and the
  next connection that is sent to it kills the parent.\<close>

theorem sons_dead_worker_kills_server:
  assumes "sw_main w = PLoop" "i < num" "gone (sw_son w i)" "\<forall>j<i. sw_flag w j = BUSY"
  shows "parent_step num w (answer_event i w) \<and> parent_step num (answer_event i w) (accept_event num c (answer_event i w))
    \<and> sw_main (accept_event num c (answer_event i w)) = PKilled"
proof -
  let ?w = "answer_event i w"
  have m: "sw_main ?w = PLoop" "gone (sw_son ?w i)" "sw_flag ?w i = FREE" "\<forall>j<i. sw_flag ?w j = BUSY"
    using assms by (auto simp: answer_event_def)
  have "toSonNetFd num ?w (Conn c) = Broken"
  proof (cases rule: toSonNetFd_cases [of num ?w "Conn c"])
    case 1
    then show ?thesis using m(3) assms(2) by auto
  next
    case (3 k)
    have "k = i" using 3(2,3) m(3,4) by (metis linorder_neqE_nat son_flag.distinct(1))
    then show ?thesis using 3(4) m(2) by simp
  qed
  then have "sw_main (accept_event num c ?w) = PKilled" by (simp add: accept_event_def Let_def)
  moreover have "parent_step num w ?w" by (rule pa_answer) (use assms in simp_all)
  ultimately show ?thesis using pa_accept [OF m(1)] by simp
qed

subsection \<open>A pool of one son\<close>

definition sd ::
  "son_msg list \<Rightarrow> son_pc \<Rightarrow> son_flag \<Rightarrow> nat \<Rightarrow> parent_pc \<Rightarrow> nat set \<Rightarrow> nat list \<Rightarrow> nat list \<Rightarrow> nat list \<Rightarrow> son_world" where
  "sd chan pc flag replies m reaped accepted served lost =
     \<lparr>sw_flag = (\<lambda>_. FREE)(0 := flag), sw_chan = (\<lambda>_. [])(0 := chan), sw_replies = (\<lambda>_. 0)(0 := replies),
      sw_son = (\<lambda>_. NotForked)(0 := pc), sw_main = m, sw_reaped = reaped, sw_accepted = accepted, sw_refused = [],
      sw_served = served, sw_lost = lost\<rparr>"

lemma sd_start: "initPool (\<lambda>_. True) 1 = sd [] Receiving FREE 0 PLoop {} [] [] []"
  by (auto simp: initPool_def sd_def)

lemma reach_son: "sons_reach ok 1 w \<Longrightarrow> son_step 0 w w' \<Longrightarrow> w' = w'' \<Longrightarrow> sons_reach ok 1 w''"
  unfolding sons_reach_def by (meson rtranclp.rtrancl_into_rtrancl sons_step_def zero_less_one)

lemma reach_parent: "sons_reach ok 1 w \<Longrightarrow> parent_step 1 w w' \<Longrightarrow> w' = w'' \<Longrightarrow> sons_reach ok 1 w''"
  unfolding sons_reach_def by (meson rtranclp.rtrancl_into_rtrancl sons_step_def)

lemma sd_accepted: "sons_reach (\<lambda>_. True) 1 (sd [(0, Conn 5)] Receiving BUSY 0 PLoop {} [5] [] [])"
proof -
  have "sons_reach (\<lambda>_. True) 1 (sd [] Receiving FREE 0 PLoop {} [] [] [])"
    unfolding sons_reach_def sd_start by (rule rtranclp.rtrancl_refl)
  then show ?thesis
    by (rule reach_parent) (rule pa_accept [of _ _ 5], simp_all add: sd_def accept_event_def toSonNetFd_def sendMsg_def)
qed

lemma sd_serving: "sons_reach (\<lambda>_. True) 1 (sd [] (ServingFile (Conn 5)) BUSY 0 PLoop {} [5] [] [])"
  by (rule reach_son [OF sd_accepted], rule sn_receive [of _ _ "Conn 5" 0 "[]"])
    (simp_all add: sd_def recvMsg_def)

lemma sd_killed: "sons_reach (\<lambda>_. True) 1 (sd [] Killed BUSY 0 PLoop {} [5] [] [5])"
  by (rule reach_son [OF sd_serving], rule sn_killed [of _ _ "Conn 5"]) (simp_all add: sd_def)

lemma sd_exiting: "sons_reach (\<lambda>_. True) 1 (sd [] Replying BUSY 0 (PExit 0) {} [5] [5] [])"
proof -
  have "sons_reach (\<lambda>_. True) 1 (sd [] Replying BUSY 0 PLoop {} [5] [5] [])"
    by (rule reach_son [OF sd_serving], rule sn_served [of _ _ "Conn 5"]) (simp_all add: sd_def)
  then show ?thesis by (rule reach_parent) (rule pa_signal, simp_all add: sd_def)
qed

lemma sd_done: "sons_reach (\<lambda>_. True) 1 (sd [] Exited BUSY 1 PDone {0} [5] [5] [])"
proof -
  have "sons_reach (\<lambda>_. True) 1 (sd [(- 1, Stdout)] Replying BUSY 0 (PExit 1) {} [5] [5] [])"
    by (rule reach_parent [OF sd_exiting], rule pa_exit [of _ 0])
      (simp_all add: sd_def exit_event_def sendMsg_def)
  then have "sons_reach (\<lambda>_. True) 1 (sd [(- 1, Stdout)] Replying BUSY 0 (PWait 0) {} [5] [5] [])"
    by (rule reach_parent) (rule pa_told [of _ 1], simp_all add: sd_def)
  then have "sons_reach (\<lambda>_. True) 1 (sd [(- 1, Stdout)] Receiving BUSY 1 (PWait 0) {} [5] [5] [])"
    by (rule reach_son) (rule sn_reply, simp_all add: sd_def)
  then have "sons_reach (\<lambda>_. True) 1 (sd [] Exited BUSY 1 (PWait 0) {} [5] [5] [])"
    by (rule reach_son) (rule sn_receive [of _ _ Stdout "- 1" "[]"], simp_all add: sd_def recvMsg_def)
  then have "sons_reach (\<lambda>_. True) 1 (sd [] Exited BUSY 1 (PWait 1) {0} [5] [5] [])"
    by (rule reach_parent) (rule pa_reap [of _ 0 _ 0], simp_all add: sd_def)
  then show ?thesis by (rule reach_parent) (rule pa_done [of _ 1], simp_all add: sd_def)
qed

theorem sons_dispatch_first_free_witness:
  "toSonNetFd 1 (sd [] Receiving FREE 0 PLoop {} [] [] []) (Conn 5) = SentTo 0 [(0, Conn 5)]
   \<and> sw_flag (sd [] Receiving FREE 0 PLoop {} [] [] []) 0 = FREE"
proof -
  have t: "toSonNetFd 1 (sd [] Receiving FREE 0 PLoop {} [] [] []) (Conn 5) = SentTo 0 [(0, Conn 5)]"
    by (simp add: sd_def toSonNetFd_def sendMsg_def)
  show ?thesis using sons_dispatch_first_free [of 1 5 "sd [] Receiving FREE 0 PLoop {} [] [] []"] t by blast
qed

theorem sons_serve_each_once_witness:
  "size (held (sw_chan (sd [] (ServingFile (Conn 5)) BUSY 0 PLoop {} [5] [] []) 0) (ServingFile (Conn 5))) \<le> 1"
  using sons_serve_each_once [OF sd_serving] by (simp add: sd_def)

theorem sons_exit_graceful_witness: "mset [5] = mset (sw_served (sd [] Exited BUSY 1 PDone {0} [5] [5] []))"
  using sons_exit_graceful [OF sd_done] by (simp add: sd_def)

theorem sons_exit_terminates_witness:
  "exit_work 1 (sd [] Replying BUSY 0 (PExit 0) {} [5] [5] []) = 7
   \<and> (\<nexists>w'. (sons_step 1 ^^ 8) (sd [] Replying BUSY 0 (PExit 0) {} [5] [5] []) w')"
proof -
  let ?w = "sd [] Replying BUSY 0 (PExit 0) {} [5] [5] []"
  have m: "sw_main ?w \<noteq> PLoop" by (simp add: sd_def)
  have e: "exit_work 1 ?w = 7" by (simp add: exit_work_def sd_def parent_work_def)
  have "n \<le> 7" if "(sons_step 1 ^^ n) ?w w'" for n w'
    using sons_exit_terminates [OF sd_exiting m] e that by metis
  from this [of 8] e show ?thesis by auto
qed

theorem sons_dead_worker_kills_server_witness:
  "\<exists>w. sons_reach (\<lambda>_. True) 1 w \<and> sw_main (accept_event 1 6 (answer_event 0 w)) = PKilled"
proof -
  let ?w = "sd [] Killed BUSY 0 PLoop {} [5] [] [5]"
  have "sw_main (accept_event 1 6 (answer_event 0 ?w)) = PKilled"
    using sons_dead_worker_kills_server [of ?w 0 1 6] by (simp add: sd_def)
  then show ?thesis using sd_killed by blast
qed

end
