(* ===== verification/Wd_Send_File.thy ===== *)
theory Wd_Send_File
  imports Train_Transfer
begin

text \<open>
  The file transfer of the teaching process pool: \<open>sendFile\<close> of \<^verbatim>\<open>wd_ProcessPool/serve/sendFile.c\<close> and the client
  \<^verbatim>\<open>wd_ProcessPool/client/client.c\<close>. The server sends a name with its length, the size of the file and its contents; the
  client maps the file into memory and receives into the mapping. What each call takes or delivers is an argument.
\<close>

subsection \<open>The server\<close>

definition file_name_1b :: "u8 list" where "file_name_1b = [49, 98, 46, 116, 120, 116]"

text \<open>What the sends of the name, of the size and of the contents take; \<open>None\<close>: the connection is broken. \<open>ss_open\<close>: the
  contents of the file, \<open>None\<close> when it cannot be opened, and then \<open>st_size\<close> stays zero.\<close>

record send_env =
  ss_name_acc :: "nat option"
  ss_open :: "u8 list option"
  ss_size_acc :: "nat option"
  ss_data_acc :: "nat option"

text \<open>Whether the process survives and the bytes sent: the first send and \<open>sendfile\<close> raise \<open>SIGPIPE\<close>, the second send
  does not.\<close>

definition sendFile :: "send_env \<Rightarrow> bool \<times> u8 list" where
  "sendFile env =
     (case ss_name_acc env of None \<Rightarrow> (False, [])
      | Some a \<Rightarrow>
          let out1 = take a (enc32 (of_nat (length file_name_1b)) @ file_name_1b);
              st_size = (case ss_open env of None \<Rightarrow> 0 | Some bs \<Rightarrow> of_nat (length bs));
              out2 = out1 @ (case ss_size_acc env of None \<Rightarrow> [] | Some b \<Rightarrow> take b (enc64 st_size))
          in case ss_open env of None \<Rightarrow> (True, out2)
             | Some bs \<Rightarrow> (case ss_data_acc env of None \<Rightarrow> (False, out2) | Some d \<Rightarrow> (True, out2 @ take d bs)))"

subsection \<open>The client\<close>

text \<open>One call of \<open>recv\<close>, and one with \<open>MSG_WAITALL\<close>, which goes on until all is there, the stream ends or
  an error occurs.\<close>

definition recv_once :: "nat \<Rightarrow> conn \<Rightarrow> (u8 list \<times> conn) outcome" where
  "recv_once n c =
     (case snd c of [] \<Rightarrow> Blocked
      | None # ks \<Rightarrow> Done ([], fst c, ks)
      | Some k # ks \<Rightarrow> Done (take (min k n) (fst c), drop (min k n) (fst c), ks))"

fun recv_waitall :: "nat option list \<Rightarrow> nat \<Rightarrow> u8 list \<Rightarrow> (u8 list \<times> conn) outcome" where
  "recv_waitall ks n inp =
     (if n = 0 then Done ([], inp, ks)
      else case ks of [] \<Rightarrow> Blocked
        | None # ks' \<Rightarrow> Done ([], inp, ks')
        | Some k # ks' \<Rightarrow>
            (let bs = take (min k n) inp
             in if bs = [] then Done ([], inp, ks')
                else bind_outcome (recv_waitall ks' (n - length bs) (drop (length bs) inp)) (\<lambda>(r, c). Done (bs @ r, c))))"

declare recv_waitall.simps [simp del]

text \<open>\<open>cl_len\<close>: the indeterminate bytes of \<open>file_name_len\<close>; \<open>cl_old\<close>: the file before, empty when it is created;
  \<open>cl_mmap\<close>: whether a mapping of a positive size succeeds.\<close>

record client_env =
  cl_len :: "u8 list"
  cl_old :: "u8 list"
  cl_mmap :: bool

text \<open>The name: its length is trusted, and its buffer of sixty bytes is read up to a zero.\<close>

definition recv_name :: "client_env \<Rightarrow> conn \<Rightarrow> (u8 list \<times> conn) outcome" where
  "recv_name env c =
     bind_outcome (recv_once 4 c) (\<lambda>(bs, c1).
       let file_name_len = dec32 (overwrite bs (cl_len env))
       in bind_outcome (recv_once (unat (scast file_name_len :: u64)) c1) (\<lambda>(bs, c2).
            if length bs > 60 \<or> 0 \<notin> set (overwrite bs (replicate 60 0)) then Fault
            else Done (takeWhile (\<lambda>b. b \<noteq> 0) (overwrite bs (replicate 60 0)), c2)))"

definition resize_file :: "int \<Rightarrow> u8 list \<Rightarrow> u8 list" where
  "resize_file sz old = (if sz < 0 then old else take (nat sz) old @ replicate (nat sz - length old) 0)"

text \<open>A receive into a mapping that failed fails; the results of the calls are ignored.\<close>

definition client_main :: "client_env \<Rightarrow> conn \<Rightarrow> (u8 list \<times> int \<times> u8 list) outcome" where
  "client_main env c =
     bind_outcome (recv_name env c) (\<lambda>(file_name, c2).
     bind_outcome (recv_waitall (snd c2) 8 (fst c2)) (\<lambda>(bs, c3).
       let file_size = sint (dec64 (overwrite bs (replicate 8 0)));
           file = resize_file file_size (cl_old env)
       in if file_size \<le> 0 \<or> \<not> cl_mmap env then Done (file_name, file_size, file)
          else bind_outcome (recv_waitall (snd c3) (nat file_size) (fst c3)) (\<lambda>(bs, _).
                 Done (file_name, file_size, overwrite bs file))))"

subsection \<open>Receiving all that was asked for\<close>

lemma recv_waitall_enough:
  assumes "steady ks" "n \<le> length ks" "n \<le> length inp"
  shows "\<exists>ks'. recv_waitall ks n inp = Done (take n inp, drop n inp, ks') \<and> steady ks' \<and> length ks \<le> length ks' + n"
  using assms
proof (induction ks arbitrary: n inp)
  case Nil
  then show ?case by (simp add: recv_waitall.simps steady_def)
next
  case (Cons k ks)
  show ?case
  proof (cases "n = 0")
    case True
    then show ?thesis using Cons.prems by (auto simp: recv_waitall.simps)
  next
    case False
    obtain p where p: "k = Some p" "0 < p" "steady ks" using Cons.prems(1) by (cases k) (auto simp: steady_def)
    let ?m = "min p n"
    have m: "0 < ?m" "?m \<le> n" using p False by auto
    have "length (take ?m inp) = ?m" using Cons.prems(3) by simp
    moreover obtain ks' where ks': "recv_waitall ks (n - ?m) (drop ?m inp) = Done (take (n - ?m) (drop ?m inp), drop (n - ?m) (drop ?m inp), ks')"
      "steady ks'" "length ks \<le> length ks' + (n - ?m)"
      using Cons.IH [OF p(3), of "n - ?m" "drop ?m inp"] Cons.prems m by fastforce
    ultimately have "recv_waitall (k # ks) n inp
        = Done (take ?m inp @ take (n - ?m) (drop ?m inp), drop (n - ?m) (drop ?m inp), ks')"
      using False p(1) m(1) Cons.prems(3) by (subst recv_waitall.simps) (auto simp: Let_def)
    moreover have "take ?m inp @ take (n - ?m) (drop ?m inp) = take n inp" using m(2) by (metis le_add_diff_inverse take_add)
    moreover have "drop (n - ?m) (drop ?m inp) = drop n inp" using m(2) by simp
    ultimately show ?thesis using ks'(2,3) m by auto
  qed
qed

subsection \<open>Properties\<close>

definition whole_send :: "u8 list \<Rightarrow> send_env" where
  "whole_send content = \<lparr>ss_name_acc = Some 10, ss_open = Some content, ss_size_acc = Some 8, ss_data_acc = Some (length content)\<rparr>"

lemma name_header: "enc32 (of_nat (length file_name_1b)) = [6, 0, 0, 0]"
  by code_simp

lemma name_length: "unat (scast (dec32 [6, 0, 0, 0]) :: u64) = 6"
  by code_simp

lemma whole_send_bytes:
  "sendFile (whole_send content) = (True, [6, 0, 0, 0] @ file_name_1b @ enc64 (of_nat (length content)) @ content)"
  by (simp add: sendFile_def whole_send_def name_header Let_def) (simp add: file_name_1b_def)

lemma sint_file_size: "n < 2 ^ 63 \<Longrightarrow> sint (of_nat n :: u64) = int n"
  by (simp add: signed_of_nat signed_take_bit_int_eq_self)

lemma recv_name_whole:
  assumes "length (cl_len env) = 4" "4 \<le> a" "6 \<le> b"
  shows "recv_name env ([6, 0, 0, 0] @ file_name_1b @ rest, Some a # Some b # ks) = Done (file_name_1b, rest, ks)"
proof -
  have "min a 4 = 4" "min b 6 = 6" using assms(2,3) by auto
  then show ?thesis using assms(1)
    by (simp add: recv_name_def recv_once_def overwrite_def name_length file_name_1b_def)
qed

text \<open>A file that is sent whole arrives whole under its name, however the receives of the size and of the contents
  split the stream and whatever the file was before, provided the first two receives are not short.\<close>

theorem file_copy_roundtrip:
  assumes "length content < 2 ^ 63" "length (cl_len env) = 4" "cl_mmap env" "4 \<le> a" "6 \<le> b" "steady ks"
    and "8 + length content \<le> length ks"
  shows "fst (sendFile (whole_send content))
    \<and> client_main env (snd (sendFile (whole_send content)), Some a # Some b # ks)
      = Done (file_name_1b, int (length content), content)"
proof -
  let ?sz = "enc64 (of_nat (length content))"
  obtain ks1 where k1: "recv_waitall ks 8 (?sz @ content) = Done (?sz, content, ks1)" "steady ks1" "length ks \<le> length ks1 + 8"
    using recv_waitall_enough [OF assms(6), of 8 "?sz @ content"] assms(7) by auto
  obtain ks2 where k2: "recv_waitall ks1 (length content) content = Done (content, [], ks2)"
    using recv_waitall_enough [OF k1(2), of "length content" content] k1(3) assms(7) by auto
  have size: "sint (dec64 (overwrite ?sz (replicate 8 0))) = int (length content)"
    using assms(1) by (simp add: overwrite_def dec_enc64 sint_file_size)
  have written: "overwrite content (resize_file (int (length content)) old) = content" for old
    by (simp add: overwrite_def resize_file_def)
  have empty: "resize_file 0 old = []" for old by (simp add: resize_file_def)
  show ?thesis using recv_name_whole [OF assms(2,4,5), of "?sz @ content" ks] k1(1) k2 size written empty assms(3)
    by (cases "content = []") (simp_all add: whole_send_bytes client_main_def Let_def)
qed

theorem file_copy_roundtrip_witness:
  "client_main \<lparr>cl_len = [1, 2, 3, 4], cl_old = [9, 9, 9, 9, 9], cl_mmap = True\<rparr>
      (snd (sendFile (whole_send [7, 8])), Some 100 # Some 100 # replicate 10 (Some 1))
   = Done (file_name_1b, 2, [7, 8])"
  using file_copy_roundtrip [of "[7, 8]" "\<lparr>cl_len = [1, 2, 3, 4], cl_old = [9, 9, 9, 9, 9], cl_mmap = True\<rparr>" 100 100
      "replicate 10 (Some 1)"] by (simp add: steady_def)

text \<open>The first two receives do not wait for all bytes: when the first one delivers only a part of the length, the rest of
  it is taken for the start of the name, and the client opens a file with an empty name.\<close>

theorem short_recv_loses_name:
  assumes "cl_len env = replicate 4 0" "0 < k" "k < 4" "6 \<le> b"
  shows "\<exists>c. recv_name env (snd (sendFile (whole_send content)), Some k # Some b # ks) = Done ([], c)"
proof -
  have "k = 1 \<or> k = 2 \<or> k = 3" using assms(2,3) by auto
  moreover have "min b 6 = 6" using assms(4) by simp
  moreover have "unat (scast (dec32 (overwrite (take k [6, 0, 0, 0]) (replicate 4 0))) :: u64) = 6" if "k = 1 \<or> k = 2 \<or> k = 3"
    using that name_length by (auto simp: overwrite_def numeral_eq_Suc)
  ultimately show ?thesis using assms(1)
    by (auto simp: whole_send_bytes recv_name_def recv_once_def file_name_1b_def overwrite_def numeral_eq_Suc)
qed

theorem short_recv_loses_name_witness:
  "\<exists>c. recv_name \<lparr>cl_len = [0, 0, 0, 0], cl_old = [], cl_mmap = True\<rparr>
     (snd (sendFile (whole_send [7])), [Some 2, Some 60]) = Done ([], c)"
  by (rule short_recv_loses_name) (simp_all add: numeral_eq_Suc)

end
