(* ===== verification/Benchmarks.thy ===== *)
theory Benchmarks
  imports Lockfree_Queue Shared_Memory Complex_Main
begin

text \<open>
  The benchmarks of the library's two queues: \<open>queue_benchmark\<close> of \<^verbatim>\<open>new_ProcessPool/src/core/lockfree_queue.c\<close> and
  \<open>shm_benchmark\<close> of \<^verbatim>\<open>new_ProcessPool/src/ipc/shared_memory.c\<close>, run by one thread on a queue no other thread uses. Clock
  readings are arguments and throughputs exact reals; printing is left out. A loop that retries until it
  succeeds gets fuel: it is \<open>Blocked\<close> when the fuel runs out.
\<close>

subsection \<open>The lock-free queue\<close>

record queue_perf =
  qp_enqueue_ops :: u64
  qp_dequeue_ops :: u64
  qp_enqueue_time :: u64
  qp_dequeue_time :: u64
  qp_enqueue_throughput :: real
  qp_dequeue_throughput :: real

fun bench_enqueue :: "nat \<Rightarrow> 'a \<Rightarrow> u64 \<Rightarrow> 'a lfq \<Rightarrow> u64 \<times> 'a lfq" where
  "bench_enqueue 0 t ops q = (ops, q)"
| "bench_enqueue (Suc n) t ops q =
     (let (ops1, q1) = (case lf_enqueue q (Some t) of None \<Rightarrow> (ops, q) | Some q' \<Rightarrow> (ops + 1, q'))
      in bench_enqueue n t ops1 (if queue_is_full (Some q1) then snd (lf_dequeue q1) else q1))"

lemma lf_dequeue_shrinks:
  assumes "\<not> queue_is_empty (Some q)"
  shows "unat (lf_tail (snd (lf_dequeue q)) - lf_head (snd (lf_dequeue q))) < unat (lf_tail q - lf_head q)"
proof -
  have "lf_tail q - lf_head q \<noteq> 0" using assms by auto
  then have "unat (lf_tail q - lf_head q - 1) < unat (lf_tail q - lf_head q)" by (rule measure_unat)
  then show ?thesis using assms by (simp add: lf_dequeue_def Let_def diff_diff_eq)
qed

function bench_drain :: "'a lfq \<Rightarrow> 'a lfq" where
  "bench_drain q = (if queue_is_empty (Some q) then q else bench_drain (snd (lf_dequeue q)))"
  by pat_completeness auto
termination
  by (relation "measure (\<lambda>q. unat (lf_tail q - lf_head q))") (use lf_dequeue_shrinks in auto)

declare bench_drain.simps [simp del]

fun bench_fill :: "nat \<Rightarrow> 'a \<Rightarrow> 'a lfq \<Rightarrow> 'a lfq" where
  "bench_fill 0 t q = q"
| "bench_fill (Suc n) t q =
     (if queue_is_full (Some q) then q
      else bench_fill n t (case lf_enqueue q (Some t) of None \<Rightarrow> q | Some q' \<Rightarrow> q'))"

fun bench_dequeue :: "nat \<Rightarrow> 'a \<Rightarrow> u64 \<Rightarrow> 'a lfq \<Rightarrow> u64 \<times> 'a lfq" where
  "bench_dequeue 0 t ops q = (ops, q)"
| "bench_dequeue (Suc n) t ops q =
     (let (r, q1) = lf_dequeue q;
          ops1 = (case r of None \<Rightarrow> ops | Some _ \<Rightarrow> ops + 1)
      in bench_dequeue n t ops1
           (if queue_is_empty (Some q1) then (case lf_enqueue q1 (Some t) of None \<Rightarrow> q1 | Some q' \<Rightarrow> q') else q1))"

definition throughput :: "u64 \<Rightarrow> u64 \<Rightarrow> real" where
  "throughput ops time = (if time > 0 then real (unat ops) * 1000000000 / real (unat time) else 0)"

text \<open>\<open>t\<close> is the task on the stack of the call; \<open>c1\<close> to \<open>c4\<close> are the clock readings. \<open>None\<close>: nothing was done.\<close>

definition queue_benchmark ::
  "u64 \<Rightarrow> u64 \<Rightarrow> u64 \<Rightarrow> u64 \<Rightarrow> 'a \<Rightarrow> 'a lfq option \<Rightarrow> u32 \<Rightarrow> (queue_perf \<times> 'a lfq) option" where
  "queue_benchmark c1 c2 c3 c4 t queue iterations =
     (case queue of None \<Rightarrow> None | Some q \<Rightarrow>
      if iterations = 0 then None
      else let (eops, q1) = bench_enqueue (unat iterations) t 0 q;
               q2 = bench_fill (unat iterations) t (bench_drain q1);
               (dops, q3) = bench_dequeue (unat iterations) t 0 q2
           in Some (\<lparr>qp_enqueue_ops = eops, qp_dequeue_ops = dops, qp_enqueue_time = c2 - c1, qp_dequeue_time = c4 - c3,
                     qp_enqueue_throughput = throughput eops (c2 - c1),
                     qp_dequeue_throughput = throughput dops (c4 - c3)\<rparr>, q3))"

subsection \<open>The shared-memory queue\<close>

fun shm_bench_write :: "nat \<Rightarrow> nat \<Rightarrow> u8 list \<Rightarrow> shm \<Rightarrow> shm outcome" where
  "shm_bench_write fuel 0 d s = Done s"
| "shm_bench_write 0 (Suc n) d s = Blocked"
| "shm_bench_write (Suc fuel) (Suc n) d s =
     bind_outcome (shm_queue_try_enqueue True (Some s) (Some d)) (\<lambda>(r, s').
       case s' of None \<Rightarrow> Fault
       | Some s1 \<Rightarrow> shm_bench_write fuel (if r = 0 then n else Suc n) d s1)"

fun shm_bench_read :: "nat \<Rightarrow> nat \<Rightarrow> u64 \<Rightarrow> shm \<Rightarrow> shm outcome" where
  "shm_bench_read fuel 0 sz s = Done s"
| "shm_bench_read 0 (Suc n) sz s = Blocked"
| "shm_bench_read (Suc fuel) (Suc n) sz s =
     bind_outcome (shm_queue_try_dequeue True (Some s) (Some sz)) (\<lambda>(r, _, _, s').
       case s' of None \<Rightarrow> Fault
       | Some s1 \<Rightarrow> shm_bench_read fuel (if r = 0 then n else Suc n) sz s1)"

definition shm_benchmark ::
  "nat \<Rightarrow> bool \<Rightarrow> bool \<Rightarrow> shm option \<Rightarrow> u64 \<Rightarrow> u64 \<Rightarrow> (int \<times> shm option) outcome" where
  "shm_benchmark fuel mem1 mem2 shm num_operations data_size =
     (case shm of None \<Rightarrow> Done (- 1, None) | Some s \<Rightarrow>
      if num_operations = 0 \<or> data_size = 0 \<or> data_size > ucast MAX_TASK_DATA_SIZE then Done (- 1, shm)
      else if \<not> mem1 then Done (- 1, shm)
      else bind_outcome (shm_bench_write fuel (unat num_operations) (replicate (unat data_size) 170) s) (\<lambda>s1.
           if \<not> mem2 then Done (- 1, Some s1)
           else bind_outcome (shm_bench_read fuel (unat num_operations) data_size s1) (\<lambda>s2. Done (0, Some s2))))"

subsection \<open>What the benchmark of the lock-free queue does\<close>

lemma bench_enqueue_spec:
  assumes "lf_wf q" "length (lf_contents q) < lf_bound q"
  shows "\<exists>q'. bench_enqueue n t ops q = (ops + of_nat n, q') \<and> lf_wf q' \<and> lf_bound q' = lf_bound q"
  using assms
proof (induction n arbitrary: ops q)
  case (Suc n)
  obtain q1 where q1: "lf_enqueue q (Some t) = Some q1" "lf_wf q1"
    "lf_contents q1 = lf_contents q @ [t]" "lf_bound q1 = lf_bound q"
    using lf_enqueue_room [OF Suc.prems] by blast
  obtain q2 where q2: "(if queue_is_full (Some q1) then snd (lf_dequeue q1) else q1) = q2" by blast
  have "lf_wf q2 \<and> lf_bound q2 = lf_bound q \<and> length (lf_contents q2) < lf_bound q"
  proof (cases "queue_is_full (Some q1)")
    case True
    obtain y ys where ys: "lf_contents q1 = y # ys" using q1(3) by (metis Nil_is_append_conv neq_Nil_conv not_Cons_self2)
    then show ?thesis using lf_dequeue_nonempty [OF q1(2) ys] True q1 q2 Suc.prems(2)
      by (auto dest: arg_cong [of _ _ length])
  next
    case False
    then show ?thesis using lf_full_iff [OF q1(2)] q1 q2 Suc.prems(2) by auto
  qed
  then show ?case using Suc.IH [of q2 "ops + 1"] q1(1) q2 by (simp add: add.assoc)
qed simp

lemma bench_drain_spec:
  "lf_wf q \<Longrightarrow> lf_wf (bench_drain q) \<and> lf_contents (bench_drain q) = [] \<and> lf_bound (bench_drain q) = lf_bound q"
proof (induction q rule: bench_drain.induct)
  case (1 q)
  show ?case
  proof (cases "lf_contents q")
    case Nil
    then show ?thesis using lf_empty_iff [OF "1.prems"] "1.prems" by (simp add: bench_drain.simps)
  next
    case (Cons x xs)
    then have "\<not> queue_is_empty (Some q)" using lf_empty_iff [OF "1.prems"] by simp
    then show ?thesis using lf_dequeue_nonempty [OF "1.prems" Cons] "1.IH"
      by (auto simp: bench_drain.simps [of q])
  qed
qed

lemma bench_fill_spec:
  assumes "lf_wf q" "lf_contents q = replicate k t" "k \<le> lf_bound q"
  shows "lf_wf (bench_fill n t q) \<and> lf_bound (bench_fill n t q) = lf_bound q
       \<and> lf_contents (bench_fill n t q) = replicate (min (k + n) (lf_bound q)) t"
  using assms
proof (induction n arbitrary: k q)
  case (Suc n)
  show ?case
  proof (cases "k = lf_bound q")
    case True
    then have "queue_is_full (Some q)" using lf_full_iff [OF Suc.prems(1)] Suc.prems(2) by simp
    then show ?thesis using Suc.prems True by simp
  next
    case False
    then obtain q' where q': "lf_enqueue q (Some t) = Some q'" "lf_wf q'"
      "lf_contents q' = replicate (Suc k) t" "lf_bound q' = lf_bound q"
      using lf_enqueue_room [of q t] Suc.prems by (auto simp: replicate_append_same)
    have "\<not> queue_is_full (Some q)" using False lf_full_iff [OF Suc.prems(1)] Suc.prems(2) by simp
    then show ?thesis using Suc.IH [OF q'(2,3)] q' Suc.prems(3) False by simp
  qed
qed simp

lemma bench_dequeue_spec:
  assumes "lf_wf q" "lf_contents q = replicate k t" "0 < k" "0 < lf_bound q"
  shows "\<exists>q'. bench_dequeue n t ops q = (ops + of_nat n, q') \<and> lf_wf q'
       \<and> lf_contents q' = replicate (max 1 (k - n)) t"
  using assms
proof (induction n arbitrary: ops k q)
  case (Suc n)
  obtain j where j: "k = Suc j" using Suc.prems(3) by (cases k) auto
  obtain q1 where q1: "lf_dequeue q = (Some t, q1)" "lf_wf q1" "lf_contents q1 = replicate j t"
    "lf_bound q1 = lf_bound q"
    using lf_dequeue_nonempty [of q t "replicate j t"] Suc.prems j by auto
  show ?case
  proof (cases j)
    case 0
    then have e: "queue_is_empty (Some q1)" using lf_empty_iff [OF q1(2)] q1(3) by simp
    obtain q2 where q2: "lf_enqueue q1 (Some t) = Some q2" "lf_wf q2" "lf_contents q2 = replicate 1 t"
      "lf_bound q2 = lf_bound q"
      using lf_enqueue_room [OF q1(2), of t] q1 0 Suc.prems(4) by auto
    show ?thesis using Suc.IH [OF q2(2,3), of "ops + 1"] q2 e q1(1) Suc.prems(4) 0 j
      by (simp add: add.assoc)
  next
    case (Suc i)
    then have e: "\<not> queue_is_empty (Some q1)" using lf_empty_iff [OF q1(2)] q1(3) by simp
    show ?thesis using Suc.IH [OF q1(2,3), of "ops + 1"] e q1 Suc.prems(4) Suc j
      by (simp add: add.assoc)
  qed
qed simp

text \<open>On a well-formed queue with room, \<open>queue_benchmark\<close> counts one successful enqueue and one successful dequeue
  per iteration, whatever the length of the run: the queue never fills up nor runs empty. What was in the queue
  before is gone, and one pointer to the benchmark's own stack variable stays behind in it.
\<close>

theorem queue_benchmark_counts:
  assumes "lf_wf q" "length (lf_contents q) < lf_bound q" "iterations \<noteq> 0"
  shows "\<exists>p q'. queue_benchmark c1 c2 c3 c4 t (Some q) iterations = Some (p, q')
       \<and> qp_enqueue_ops p = ucast iterations \<and> qp_dequeue_ops p = ucast iterations
       \<and> lf_wf q' \<and> lf_contents q' = [t]"
proof -
  let ?n = "unat iterations"
  have n: "0 < ?n" using assms(3) by (simp add: unat_gt_0)
  obtain q1 where q1: "bench_enqueue ?n t 0 q = (of_nat ?n, q1)" "lf_wf q1" "lf_bound q1 = lf_bound q"
    using bench_enqueue_spec [OF assms(1,2), of ?n t 0] by auto
  have d: "lf_wf (bench_drain q1)" "lf_contents (bench_drain q1) = replicate 0 t"
    "lf_bound (bench_drain q1) = lf_bound q"
    using bench_drain_spec [OF q1(2)] q1(3) by auto
  have f: "lf_wf (bench_fill ?n t (bench_drain q1))"
    "lf_contents (bench_fill ?n t (bench_drain q1)) = replicate (min ?n (lf_bound q)) t"
    "lf_bound (bench_fill ?n t (bench_drain q1)) = lf_bound q"
    using bench_fill_spec [OF d(1,2), of ?n] d(3) by auto
  obtain q3 where q3: "bench_dequeue ?n t 0 (bench_fill ?n t (bench_drain q1)) = (of_nat ?n, q3)" "lf_wf q3"
    "lf_contents q3 = replicate (max 1 (min ?n (lf_bound q) - ?n)) t"
    using bench_dequeue_spec [OF f(1,2), of ?n 0] n assms(2) f(3) by auto
  then show ?thesis using assms(3) q1(1) by (simp add: queue_benchmark_def)
qed

theorem queue_benchmark_counts_witness:
  "\<exists>p q'. queue_benchmark 10 30 40 80 9
       (Some \<lparr>lf_head = 4294967294, lf_tail = 4294967295, lf_capacity = 4, lf_mask = 3,
              lf_tasks = [None, None, Some (5::nat), None]\<rparr>) 1000 = Some (p, q')
     \<and> qp_enqueue_ops p = 1000 \<and> lf_contents q' = [9]"
proof -
  let ?q = "\<lparr>lf_head = 4294967294, lf_tail = 4294967295, lf_capacity = 4, lf_mask = 3,
              lf_tasks = [None, None, Some (5::nat), None]\<rparr>"
  have "length (lf_contents ?q) < lf_bound ?q" by (simp add: lf_bound_def length_lf_contents)
  moreover have "(1000 :: u32) \<noteq> 0" by simp
  ultimately obtain p q' where "queue_benchmark 10 30 40 80 9 (Some ?q) 1000 = Some (p, q')"
    "qp_enqueue_ops p = ucast (1000::u32)" "lf_contents q' = [9]"
    using queue_benchmark_counts [OF lf_wf_example] by blast
  then show ?thesis by auto
qed

subsection \<open>What the benchmark of the shared-memory queue does\<close>

lemma shm_try_enqueue_room:
  assumes "shm_wf s" "message_ok d" "length (shm_messages s) < shm_bound s"
  shows "\<exists>s'. shm_queue_try_enqueue True (Some s) (Some d) = Done (0, Some s') \<and> shm_wf s'
       \<and> shm_messages s' = shm_messages s @ [d] \<and> shm_bound s' = shm_bound s"
proof -
  have l: "length (shm_messages s) = shm_count s" by (simp add: shm_messages_def)
  then have "length d \<le> 65532" "shm_count s < shm_bound s" using assms by (auto simp: message_ok_def)
  from shm_store_contents [OF assms(1) this] show ?thesis
    using shm_full_iff [OF assms(1)] message_ok_args [OF assms(2)] assms(3) l
    by (auto simp: shm_queue_try_enqueue_def)
qed

lemma shm_try_enqueue_full:
  assumes "shm_wf s" "message_ok d" "length (shm_messages s) = shm_bound s"
  shows "shm_queue_try_enqueue True (Some s) (Some d) = Done (- 1, Some s)"
  using assms shm_full_iff [OF assms(1)] message_ok_args [OF assms(2)]
  by (simp add: shm_queue_try_enqueue_def shm_messages_def)

lemma shm_try_dequeue_first:
  assumes "shm_wf s" "shm_messages s = d # ds" "of_nat (length d) \<le> cap"
  shows "\<exists>n s'. shm_queue_try_dequeue True (Some s) (Some cap) = Done (0, Some d, n, Some s') \<and> shm_wf s'
       \<and> shm_messages s' = ds"
proof -
  have "shm_count s \<noteq> 0" using arg_cong [OF assms(2), of length] by (simp add: shm_messages_def)
  then have "\<not> shm_queue_is_empty s" using shm_empty_iff [OF assms(1)] by simp
  then show ?thesis using shm_fetch_contents [OF assms] by (auto simp: shm_queue_try_dequeue_def)
qed

lemma shm_bench_write_fits:
  assumes "shm_wf s" "message_ok d" "length (shm_messages s) + n \<le> shm_bound s" "n \<le> fuel"
  shows "\<exists>s'. shm_bench_write fuel n d s = Done s' \<and> shm_wf s' \<and> shm_messages s' = shm_messages s @ replicate n d"
  using assms
proof (induction n arbitrary: fuel s)
  case (Suc n)
  obtain f where f: "fuel = Suc f" using Suc.prems(4) by (cases fuel) auto
  obtain s1 where "shm_queue_try_enqueue True (Some s) (Some d) = Done (0, Some s1)" "shm_wf s1"
    "shm_messages s1 = shm_messages s @ [d]" "shm_bound s1 = shm_bound s"
    using shm_try_enqueue_room [OF Suc.prems(1,2)] Suc.prems(3) by auto
  then show ?case using Suc.IH [of s1 f] Suc.prems f by auto
qed simp

lemma shm_bench_write_stuck:
  assumes "shm_wf s" "message_ok d" "shm_bound s < length (shm_messages s) + n"
  shows "shm_bench_write fuel n d s = Blocked"
  using assms
proof (induction fuel arbitrary: n s)
  case 0
  then have "0 < n" using shmq.length_bound [OF 0(1)] by (cases n) auto
  then show ?case by (cases n) auto
next
  case (Suc fuel)
  obtain m where m: "n = Suc m" using Suc.prems(3) shmq.length_bound [OF Suc.prems(1)] by (cases n) auto
  show ?case
  proof (cases "length (shm_messages s) < shm_bound s")
    case True
    then obtain s1 where "shm_queue_try_enqueue True (Some s) (Some d) = Done (0, Some s1)" "shm_wf s1"
      "shm_messages s1 = shm_messages s @ [d]" "shm_bound s1 = shm_bound s"
      using shm_try_enqueue_room [OF Suc.prems(1,2)] by auto
    then show ?thesis using Suc.IH [of s1 m] Suc.prems m by simp
  next
    case False
    then have "shm_queue_try_enqueue True (Some s) (Some d) = Done (- 1, Some s)"
      using shm_try_enqueue_full [OF Suc.prems(1,2)] shmq.length_bound [OF Suc.prems(1)] by simp
    then show ?thesis using Suc.IH [OF Suc.prems] m by simp
  qed
qed

lemma shm_bench_read_all:
  assumes "shm_wf s" "shm_messages s = replicate n d" "of_nat (length d) \<le> sz" "n \<le> fuel"
  shows "\<exists>s'. shm_bench_read fuel n sz s = Done s' \<and> shm_wf s' \<and> shm_messages s' = []"
  using assms
proof (induction n arbitrary: fuel s)
  case (Suc n)
  obtain f where f: "fuel = Suc f" using Suc.prems(4) by (cases fuel) auto
  obtain m s1 where "shm_queue_try_dequeue True (Some s) (Some sz) = Done (0, Some d, m, Some s1)" "shm_wf s1"
    "shm_messages s1 = replicate n d"
    using shm_try_dequeue_first [OF Suc.prems(1), of d "replicate n d" sz] Suc.prems(2,3) by auto
  then show ?case using Suc.IH [of s1 f] Suc.prems f by auto
qed simp

text \<open>On an empty shared queue, \<open>shm_benchmark\<close> returns, after exactly one successful attempt per operation and with
  an empty queue, if all its messages fit in the ring at once; if they do not it never returns: the writing loop
  retries for ever, since nothing reads until it is over.
\<close>

theorem shm_benchmark_outcome:
  assumes "shm_wf s" "shm_messages s = []" "num_operations \<noteq> 0" "data_size \<noteq> 0" "data_size \<le> 65532"
  shows "(if unat num_operations \<le> shm_bound s
          then (\<exists>s'. shm_wf s' \<and> shm_messages s' = []
                 \<and> shm_benchmark (unat num_operations + k) True True (Some s) num_operations data_size
                   = Done (0, Some s'))
          else shm_benchmark k True mem2 (Some s) num_operations data_size = Blocked)"
proof -
  let ?d = "replicate (unat data_size) (170 :: u8)" and ?n = "unat num_operations"
  have sz: "unat data_size \<le> 65532" using assms(5) by (simp add: word_le_nat_alt)
  have ok: "message_ok ?d" using sz assms(4) by (simp add: message_ok_def unat_eq_0)
  have go: "shm_benchmark fuel True m (Some s) num_operations data_size
      = bind_outcome (shm_bench_write fuel ?n ?d s) (\<lambda>s1.
          if \<not> m then Done (- 1, Some s1)
          else bind_outcome (shm_bench_read fuel ?n data_size s1) (\<lambda>s2. Done (0, Some s2)))" for fuel m
    using assms(3,4) sz by (simp add: shm_benchmark_def MAX_TASK_DATA_SIZE_def word_less_nat_alt)
  show ?thesis
  proof (cases "?n \<le> shm_bound s")
    case True
    then obtain s1 where s1: "shm_bench_write (?n + k) ?n ?d s = Done s1" "shm_wf s1"
      "shm_messages s1 = replicate ?n ?d"
      using shm_bench_write_fits [OF assms(1) ok, of ?n "?n + k"] assms(2) by auto
    obtain s2 where "shm_bench_read (?n + k) ?n data_size s1 = Done s2" "shm_wf s2" "shm_messages s2 = []"
      using shm_bench_read_all [OF s1(2,3), of data_size "?n + k"] by auto
    then show ?thesis using True s1(1) by (simp add: go)
  next
    case False
    then show ?thesis using shm_bench_write_stuck [OF assms(1) ok] assms(2) by (simp add: go)
  qed
qed

theorem shm_benchmark_outcome_witness:
  "\<exists>s'. shm_benchmark 4 True True (Some region_4) 3 100 = Done (0, Some s')"
proof -
  have a: "shm_messages region_4 = []" "(3::u64) \<noteq> 0" "(100::u64) \<noteq> 0" "(100::u64) \<le> 65532" "unat (3::u64) \<le> shm_bound region_4"
    by (simp_all add: region_4_def shm_messages_def shm_count_def shm_bound_def)
  from shm_benchmark_outcome [OF region_4_wf(1) a(1-4), where k = 1] a(5) show ?thesis
    by (auto split: if_splits)
qed

end
