(* ===== verification/Decimal_Text.thy ===== *)
theory Decimal_Text
  imports Pool_Prelude
begin

text \<open>
  Numbers as text: the digits that \<^verbatim>\<open>printf\<close> writes with \<^verbatim>\<open>%lu\<close> and \<^verbatim>\<open>%d\<close> (\<open>decimal\<close>, \<open>decimal_int\<close>), and how \<^verbatim>\<open>scanf\<close> reads them
  back. The reports and parsers of the metrics use them.
\<close>

subsection \<open>Digits\<close>

definition is_digit :: "char \<Rightarrow> bool" where
  "is_digit c \<longleftrightarrow> 48 \<le> (of_char c :: nat) \<and> (of_char c :: nat) \<le> 57"

definition digit_val :: "char \<Rightarrow> nat" where
  "digit_val c = of_char c - 48"

definition number_of :: "string \<Rightarrow> nat" where
  "number_of ds = foldl (\<lambda>n d. 10 * n + digit_val d) 0 ds"

definition decimal_int :: "int \<Rightarrow> string" where
  "decimal_int i = (if i < 0 then CHR ''-'' # decimal (nat (- i)) else decimal (nat i))"

lemma digit_char [simp]:
  assumes "d < 10"
  shows "is_digit (char_of (48 + d))" "digit_val (char_of (48 + d)) = d"
proof -
  have "of_char (char_of (48 + d) :: char) = 48 + d" using assms by simp
  then show "is_digit (char_of (48 + d))" "digit_val (char_of (48 + d)) = d"
    using assms by (simp_all add: is_digit_def digit_val_def)
qed

lemma number_of_snoc [simp]: "number_of (ds @ [d]) = 10 * number_of ds + digit_val d"
  by (simp add: number_of_def)

lemma number_of_Nil [simp]: "number_of [] = 0"
  by (simp add: number_of_def)

lemma decimal_small: "n < 10 \<Longrightarrow> decimal n = [char_of (48 + n)]"
  by (simp add: decimal.simps)

lemma decimal_large: "\<not> n < 10 \<Longrightarrow> decimal n = decimal (n div 10) @ [char_of (48 + n mod 10)]"
  by (subst decimal.simps) simp

lemma decimal_facts: "number_of (decimal n) = n \<and> decimal n \<noteq> [] \<and> list_all is_digit (decimal n)"
proof (induction n rule: decimal.induct)
  case (1 n)
  show ?case
  proof (cases "n < 10")
    case True
    then show ?thesis using number_of_snoc [of "[]" "char_of (48 + n)"] by (simp add: decimal_small)
  next
    case False
    then show ?thesis using 1 by (simp add: decimal_large)
  qed
qed

lemmas number_of_decimal [simp] = decimal_facts [THEN conjunct1]
lemmas decimal_nonempty [simp] = decimal_facts [THEN conjunct2, THEN conjunct1]
lemmas decimal_digits = decimal_facts [THEN conjunct2, THEN conjunct2]

text \<open>No leading zero.\<close>

lemma decimal_leading: "hd (decimal n) = CHR ''0'' \<Longrightarrow> decimal n = ''0''"
proof (induction n rule: decimal.induct)
  case (1 n)
  show ?case
  proof (cases "n < 10")
    case True
    then show ?thesis using 1(2) by (simp add: decimal_small)
  next
    case False
    then have "hd (decimal (n div 10)) = CHR ''0''" using 1(2) by (simp add: decimal_large)
    then have "decimal (n div 10) = ''0''" using 1(1) False by simp
    then have "n div 10 = 0" using number_of_decimal [of "n div 10"] digit_char(2) [of 0] number_of_snoc [of "[]" "CHR ''0''"]
      by (simp add: digit_val_def)
    then show ?thesis using False by simp
  qed
qed

lemma takeWhile_digits:
  assumes "list_all is_digit ds" "s = [] \<or> \<not> is_digit (hd s)"
  shows "takeWhile is_digit (ds @ s) = ds" "dropWhile is_digit (ds @ s) = s"
proof -
  have a: "\<forall>c\<in>set ds. is_digit c" using assms(1) by (simp add: list_all_iff)
  have t: "takeWhile is_digit s = []" "dropWhile is_digit s = s" using assms(2) by (cases s; auto)+
  show "takeWhile is_digit (ds @ s) = ds" "dropWhile is_digit (ds @ s) = s"
    using a t by (simp_all add: takeWhile_append2 dropWhile_append2)
qed

lemma length_decimal: "n < 10 ^ Suc k \<Longrightarrow> length (decimal n) \<le> Suc k"
proof (induction k arbitrary: n)
  case 0
  then show ?case by (simp add: decimal_small)
next
  case (Suc k)
  show ?case
  proof (cases "n < 10")
    case True
    then show ?thesis by (simp add: decimal_small)
  next
    case False
    have "n div 10 < 10 ^ Suc k" using Suc.prems by (simp add: less_mult_imp_div_less)
    then show ?thesis using Suc.IH [of "n div 10"] False by (simp add: decimal_large)
  qed
qed

end
