(* ===== verification/Metrics_Json.thy ===== *)
theory Metrics_Json
  imports Metrics Decimal_Text
begin

text \<open>
  \<^verbatim>\<open>metrics_export_json\<close> of \<^verbatim>\<open>new_ProcessPool/src/utils/metrics.c\<close> as the text it writes, and a reader for the part of
  JSON it uses (objects, unsigned numbers, strings without escapes) to state what the text means.
\<close>

subsection \<open>The report\<close>

text \<open>The fields of \<^verbatim>\<open>resource_usage_t\<close> as \<^verbatim>\<open>get_resource_usage\<close> fills them (\<open>Proc_Stats\<close>).\<close>

record resource_usage =
  ru_user_cpu_time :: u64
  ru_system_cpu_time :: u64
  ru_max_resident_set_size :: u64
  ru_page_faults :: u64
  ru_voluntary_context_switches :: u64
  ru_involuntary_context_switches :: u64
  ru_current_rss :: u64
  ru_virtual_memory_size :: u64
  ru_timestamp :: u64

abbreviation dquote :: char where "dquote \<equiv> CHR 0x22"

abbreviation linefeed :: char where "linefeed \<equiv> CHR 0x0A"

definition key_open :: "nat \<Rightarrow> string \<Rightarrow> string" where
  "key_open indent key = replicate indent CHR '' '' @ [dquote] @ key @ [dquote] @ '': ''"

definition key_number :: "nat \<Rightarrow> string \<Rightarrow> u64 \<Rightarrow> string" where
  "key_number indent key v = key_open indent key @ decimal (unat v)"

text \<open>The loop around the entries of an object: a comma after each but the last.\<close>

fun entries :: "('e \<Rightarrow> string) \<Rightarrow> 'e list \<Rightarrow> string" where
  "entries f [] = []"
| "entries f (x # xs) = f x @ (if xs \<noteq> [] then '','' else []) @ [linefeed] @ entries f xs"

definition counter_entry :: "perf_counter \<Rightarrow> string" where
  "counter_entry c = key_number 4 (ct_name c) (ct_value c)"

definition latency_entry :: "metrics \<Rightarrow> nat \<Rightarrow> string" where
  "latency_entry m i =
     (let s = metrics_latency_get (int i) m
      in key_open 4 (lt_name (mx_latencies m ! i)) @ ''{'' @ [linefeed]
         @ key_number 6 ''count'' (ls_count s) @ '','' @ [linefeed]
         @ key_number 6 ''total_time'' (ls_total_time s) @ '','' @ [linefeed]
         @ key_number 6 ''min_time'' (ls_min_time s) @ '','' @ [linefeed]
         @ key_number 6 ''max_time'' (ls_max_time s) @ '','' @ [linefeed]
         @ key_number 6 ''avg_time'' (ls_avg_time s) @ [linefeed] @ ''    }'')"

definition usage_text :: "resource_usage \<Rightarrow> string" where
  "usage_text u =
     key_number 4 ''current_rss'' (ru_current_rss u) @ '','' @ [linefeed]
     @ key_number 4 ''max_rss'' (ru_max_resident_set_size u) @ '','' @ [linefeed]
     @ key_number 4 ''virtual_memory'' (ru_virtual_memory_size u) @ '','' @ [linefeed]
     @ key_number 4 ''user_cpu_time'' (ru_user_cpu_time u) @ '','' @ [linefeed]
     @ key_number 4 ''system_cpu_time'' (ru_system_cpu_time u) @ '','' @ [linefeed]
     @ key_number 4 ''page_faults'' (ru_page_faults u) @ '','' @ [linefeed]
     @ key_number 4 ''voluntary_context_switches'' (ru_voluntary_context_switches u) @ '','' @ [linefeed]
     @ key_number 4 ''involuntary_context_switches'' (ru_involuntary_context_switches u) @ [linefeed]"

text \<open>What is written; \<open>output\<close> tells whether the file is not null.\<close>

definition metrics_export_json :: "bool \<Rightarrow> u64 \<Rightarrow> resource_usage \<Rightarrow> metrics \<Rightarrow> string" where
  "metrics_export_json output now u m =
     (if \<not> output \<or> \<not> mx_initialized m then []
      else ''{'' @ [linefeed]
        @ key_number 2 ''timestamp'' now @ '','' @ [linefeed]
        @ key_number 2 ''uptime_ns'' (now - mx_start_time m) @ '','' @ [linefeed]
        @ key_open 2 ''counters'' @ ''{'' @ [linefeed]
        @ entries counter_entry (mx_counters m) @ ''  },'' @ [linefeed]
        @ key_open 2 ''latencies'' @ ''{'' @ [linefeed]
        @ entries (latency_entry m) [0..<length (mx_latencies m)] @ ''  },'' @ [linefeed]
        @ key_open 2 ''resource_usage'' @ ''{'' @ [linefeed]
        @ usage_text u @ ''  }'' @ [linefeed] @ ''}'' @ [linefeed])"

subsection \<open>A reader\<close>

datatype token = LBrace | RBrace | Colon | Comma | TStr string | TNum nat

text \<open>The characters of a name that a JSON string carries as they are.\<close>

definition plain_char :: "char \<Rightarrow> bool" where
  "plain_char c \<longleftrightarrow> c \<noteq> dquote \<and> c \<noteq> CHR 0x5C \<and> 32 \<le> (of_char c :: nat)"

definition punctuation :: "char \<Rightarrow> token option" where
  "punctuation c =
     (if c = CHR ''{'' then Some LBrace else if c = CHR ''}'' then Some RBrace
      else if c = CHR '':'' then Some Colon else if c = CHR '','' then Some Comma else None)"

definition blank :: "char \<Rightarrow> bool" where
  "blank c \<longleftrightarrow> c \<in> set [CHR '' '', CHR 0x09, linefeed, CHR 0x0D]"

function lex_json :: "string \<Rightarrow> token list option" where
  "lex_json s =
     (case s of [] \<Rightarrow> Some []
      | c # s' \<Rightarrow>
         if blank c then lex_json s'
         else if c = dquote then
           (case dropWhile plain_char s' of
              d # rest \<Rightarrow> if d = dquote then map_option ((#) (TStr (takeWhile plain_char s'))) (lex_json rest) else None
            | [] \<Rightarrow> None)
         else if is_digit c then
           (if c = CHR ''0'' \<and> takeWhile is_digit s' \<noteq> [] then None
            else map_option ((#) (TNum (number_of (c # takeWhile is_digit s')))) (lex_json (dropWhile is_digit s')))
         else (case punctuation c of None \<Rightarrow> None | Some t \<Rightarrow> map_option ((#) t) (lex_json s')))"
  by pat_completeness auto
termination
proof (relation "measure length", goal_cases)
  case (3 s c s' d rest)
  then show ?case using length_dropWhile_le [of plain_char s'] by simp
qed (auto simp: le_imp_less_Suc length_dropWhile_le)

declare lex_json.simps [simp del]

datatype json = JNum nat | JObj "(string \<times> json) list"

text \<open>An object and its members; \<open>fuel\<close> bounds the nesting and the number of members.\<close>

fun parse_value :: "nat \<Rightarrow> token list \<Rightarrow> (json \<times> token list) option"
and parse_members :: "nat \<Rightarrow> token list \<Rightarrow> ((string \<times> json) list \<times> token list) option" where
  "parse_value 0 ts = None"
| "parse_value (Suc f) (TNum n # ts) = Some (JNum n, ts)"
| "parse_value (Suc f) (LBrace # RBrace # ts) = Some (JObj [], ts)"
| "parse_value (Suc f) (LBrace # ts) =
     (case parse_members f ts of Some (ms, RBrace # ts') \<Rightarrow> Some (JObj ms, ts') | _ \<Rightarrow> None)"
| "parse_value (Suc f) ts = None"
| "parse_members 0 ts = None"
| "parse_members (Suc f) (TStr k # Colon # ts) =
     (case parse_value f ts of
        None \<Rightarrow> None
      | Some (v, Comma # ts') \<Rightarrow> map_option (\<lambda>(ms, r). ((k, v) # ms, r)) (parse_members f ts')
      | Some (v, ts') \<Rightarrow> Some ([(k, v)], ts'))"
| "parse_members (Suc f) ts = None"

definition json_parse :: "string \<Rightarrow> json option" where
  "json_parse s =
     (case lex_json s of None \<Rightarrow> None
      | Some ts \<Rightarrow> (case parse_value (length ts) ts of Some (v, []) \<Rightarrow> Some v | _ \<Rightarrow> None))"

subsection \<open>What the report stands for\<close>

definition json_u64 :: "string \<Rightarrow> u64 \<Rightarrow> string \<times> json" where
  "json_u64 k v = (k, JNum (unat v))"

definition latency_json :: "string \<Rightarrow> latency_stats \<Rightarrow> string \<times> json" where
  "latency_json name s = (name, JObj [json_u64 ''count'' (ls_count s), json_u64 ''total_time'' (ls_total_time s),
     json_u64 ''min_time'' (ls_min_time s), json_u64 ''max_time'' (ls_max_time s), json_u64 ''avg_time'' (ls_avg_time s)])"

definition usage_json :: "resource_usage \<Rightarrow> json" where
  "usage_json u = JObj [json_u64 ''current_rss'' (ru_current_rss u), json_u64 ''max_rss'' (ru_max_resident_set_size u),
     json_u64 ''virtual_memory'' (ru_virtual_memory_size u), json_u64 ''user_cpu_time'' (ru_user_cpu_time u),
     json_u64 ''system_cpu_time'' (ru_system_cpu_time u), json_u64 ''page_faults'' (ru_page_faults u),
     json_u64 ''voluntary_context_switches'' (ru_voluntary_context_switches u),
     json_u64 ''involuntary_context_switches'' (ru_involuntary_context_switches u)]"

definition metrics_json :: "u64 \<Rightarrow> resource_usage \<Rightarrow> metrics \<Rightarrow> json" where
  "metrics_json now u m = JObj
     [json_u64 ''timestamp'' now, json_u64 ''uptime_ns'' (now - mx_start_time m),
      (''counters'', JObj (map (\<lambda>c. json_u64 (ct_name c) (ct_value c)) (mx_counters m))),
      (''latencies'', JObj (map (\<lambda>t. latency_json (lt_name t) (tracker_stats t)) (mx_latencies m))),
      (''resource_usage'', usage_json u)]"

subsection \<open>Printing objects as tokens and reading them back\<close>

fun toks :: "json \<Rightarrow> token list" and member_toks :: "(string \<times> json) list \<Rightarrow> token list" where
  "toks (JNum n) = [TNum n]"
| "toks (JObj ms) = LBrace # member_toks ms @ [RBrace]"
| "member_toks [] = []"
| "member_toks ((k, v) # ms) = TStr k # Colon # toks v @ (if ms \<noteq> [] then [Comma] else []) @ member_toks ms"

lemma parse_value_members:
  "parse_value (Suc f) (LBrace # TStr k # ts) =
     (case parse_members f (TStr k # ts) of Some (ms, RBrace # ts') \<Rightarrow> Some (JObj ms, ts') | _ \<Rightarrow> None)"
  by simp

lemma parse_toks:
  "length (toks v) \<le> fuel \<Longrightarrow> parse_value fuel (toks v @ rest) = Some (v, rest)"
  "length (member_toks ms) \<le> fuel \<Longrightarrow> ms \<noteq> [] \<Longrightarrow> parse_members fuel (member_toks ms @ RBrace # rest) = Some (ms, RBrace # rest)"
proof (induction v and ms arbitrary: fuel rest and fuel rest rule: toks_member_toks.induct)
  case (1 n)
  then show ?case by (cases fuel) auto
next
  case (2 ms)
  obtain f where f: "fuel = Suc f" using "2.prems" by (cases fuel) auto
  show ?case
  proof (cases ms)
    case Nil
    then show ?thesis by (simp add: f)
  next
    case (Cons kv ms')
    obtain k v where kv: "kv = (k, v)" by (cases kv)
    have "parse_members f (member_toks ms @ RBrace # rest) = Some (ms, RBrace # rest)"
      using "2.IH" [of f rest] "2.prems" Cons f by simp
    then show ?thesis by (simp add: f Cons kv)
  qed
next
  case 3
  then show ?case by simp
next
  case (4 k v ms)
  obtain f where f: "fuel = Suc f" using "4.prems" by (cases fuel) auto
  have v: "parse_value f (toks v @ r) = Some (v, r)" for r
    using "4.IH"(1) [of f r] "4.prems" f by simp
  show ?case
  proof (cases "ms = []")
    case True
    then show ?thesis using v [of "RBrace # rest"] by (simp add: f)
  next
    case False
    have "parse_members f (member_toks ms @ RBrace # rest) = Some (ms, RBrace # rest)"
      using "4.IH"(2) [of f rest] "4.prems" False f by simp
    then show ?thesis using v [of "Comma # member_toks ms @ RBrace # rest"] False by (simp add: f)
  qed
qed

lemma json_parse_toks: "lex_json s = Some (toks v) \<Longrightarrow> json_parse s = Some v"
  using parse_toks(1) [of v "length (toks v)" "[]"] by (simp add: json_parse_def)

subsection \<open>The tokens of the report\<close>

lemma lex_Nil [simp]: "lex_json [] = Some []"
  by (simp add: lex_json.simps)

lemma lex_blank: "blank c \<Longrightarrow> lex_json (c # s) = lex_json s"
  by (simp add: lex_json.simps [of "c # s"])

lemma lex_blanks [simp]:
  "lex_json (CHR '' '' # s) = lex_json s" "lex_json (linefeed # s) = lex_json s"
  by (simp_all add: lex_blank blank_def)

lemma lex_indent [simp]: "lex_json (replicate k CHR '' '' @ s) = lex_json s"
  by (induction k) auto

lemma lex_punct:
  assumes "punctuation c = Some t"
  shows "lex_json (c # s) = map_option ((#) t) (lex_json s)"
proof -
  have "c \<in> {CHR ''{'', CHR ''}'', CHR '':'', CHR '',''}" using assms by (auto simp: punctuation_def split: if_splits)
  then have "\<not> blank c \<and> c \<noteq> dquote \<and> \<not> is_digit c" by (auto simp: blank_def is_digit_def)
  then show ?thesis using assms by (simp add: lex_json.simps [of "c # s"])
qed

lemma lex_puncts [simp]:
  "lex_json (CHR ''{'' # s) = map_option ((#) LBrace) (lex_json s)" "lex_json (CHR ''}'' # s) = map_option ((#) RBrace) (lex_json s)"
  "lex_json (CHR '':'' # s) = map_option ((#) Colon) (lex_json s)" "lex_json (CHR '','' # s) = map_option ((#) Comma) (lex_json s)"
  by (simp_all add: lex_punct punctuation_def)

lemma lex_name:
  assumes "list_all plain_char nm"
  shows "lex_json (dquote # nm @ dquote # s) = map_option ((#) (TStr nm)) (lex_json s)"
proof -
  have p: "\<forall>c\<in>set nm. plain_char c" "\<not> plain_char dquote" using assms by (simp_all add: list_all_iff plain_char_def)
  have "takeWhile plain_char (nm @ dquote # s) = nm" "dropWhile plain_char (nm @ dquote # s) = dquote # s"
    using p by (simp_all add: takeWhile_append2 dropWhile_append2)
  moreover have "\<not> blank dquote" by (simp add: blank_def)
  ultimately show ?thesis by (simp add: lex_json.simps [of "dquote # nm @ dquote # s"])
qed

lemma lex_decimal:
  assumes "s = [] \<or> \<not> is_digit (hd s)"
  shows "lex_json (decimal n @ s) = map_option ((#) (TNum n)) (lex_json s)"
proof -
  obtain c ds where d: "decimal n = c # ds" using decimal_nonempty [of n] by (cases "decimal n") auto
  have dig: "is_digit c" "list_all is_digit ds" using decimal_digits [of n] d by simp_all
  have "\<not> blank c" "c \<noteq> dquote" using dig(1) by (auto simp: blank_def is_digit_def)
  moreover have "c = CHR ''0'' \<Longrightarrow> ds = []" using decimal_leading [of n] d by simp
  ultimately show ?thesis
    using dig takeWhile_digits [OF dig(2) assms] number_of_decimal [of n] d by (auto simp: lex_json.simps [of "c # ds @ s"])
qed

lemma lex_key_open:
  assumes "list_all plain_char k"
  shows "lex_json (key_open i k @ s) = map_option (\<lambda>ts. TStr k # Colon # ts) (lex_json s)"
  using lex_name [OF assms, of "'': '' @ s"] by (simp add: key_open_def option.map_comp comp_def)

lemma lex_key_number:
  assumes "list_all plain_char k" "s = [] \<or> \<not> is_digit (hd s)"
  shows "lex_json (key_number i k v @ s) = map_option (\<lambda>ts. TStr k # Colon # TNum (unat v) # ts) (lex_json s)"
  using lex_key_open [OF assms(1), of i "decimal (unat v) @ s"] lex_decimal [OF assms(2)]
  by (simp add: key_number_def option.map_comp comp_def)

lemma lex_entries:
  assumes "\<And>x s. x \<in> set xs \<Longrightarrow> s \<noteq> [] \<Longrightarrow> \<not> is_digit (hd s)
             \<Longrightarrow> lex_json (f x @ s) = map_option (\<lambda>ts. TStr (fst (g x)) # Colon # toks (snd (g x)) @ ts) (lex_json s)"
  shows "lex_json (entries f xs @ s) = map_option ((@) (member_toks (map g xs))) (lex_json s)"
  using assms
proof (induction xs)
  case (Cons x xs)
  have d: "\<not> is_digit CHR '',''" "\<not> is_digit linefeed" by (simp_all add: is_digit_def)
  have IH: "lex_json (entries f xs @ s) = map_option ((@) (member_toks (map g xs))) (lex_json s)"
    using Cons by simp
  obtain k v where g: "g x = (k, v)" by (cases "g x")
  show ?case
    using Cons.prems [of x "'','' @ linefeed # entries f xs @ s"] Cons.prems [of x "linefeed # entries f xs @ s"] IH d
    by (cases "xs = []") (simp_all add: g option.map_comp comp_def)
next
  case Nil
  show ?case by (cases "lex_json s") simp_all
qed

definition plain_latencies :: "metrics \<Rightarrow> bool" where
  "plain_latencies m \<longleftrightarrow> list_all (\<lambda>t. list_all plain_char (lt_name t)) (mx_latencies m)"

definition plain_names :: "metrics \<Rightarrow> bool" where
  "plain_names m \<longleftrightarrow> list_all (\<lambda>c. list_all plain_char (ct_name c)) (mx_counters m) \<and> plain_latencies m"

lemma not_digits [simp]: "\<not> is_digit CHR '',''" "\<not> is_digit linefeed" "\<not> is_digit CHR ''}''" "\<not> is_digit CHR '' ''"
  by (simp_all add: is_digit_def)

lemma lex_latency_entry:
  assumes "mx_initialized m" "plain_latencies m" "i < length (mx_latencies m)" "s \<noteq> []" "\<not> is_digit (hd s)"
  shows "lex_json (latency_entry m i @ s) = (case latency_json (lt_name (mx_latencies m ! i)) (tracker_stats (mx_latencies m ! i)) of
           (k, v) \<Rightarrow> map_option (\<lambda>ts. TStr k # Colon # toks v @ ts) (lex_json s))"
proof -
  have "list_all plain_char (lt_name (mx_latencies m ! i))" using assms(2,3) by (auto simp: plain_latencies_def list_all_length)
  moreover have "metrics_latency_get (int i) m = tracker_stats (mx_latencies m ! i)"
    using assms(1,3) by (simp add: metrics_latency_get_def valid_id_def)
  ultimately show ?thesis
    by (simp add: latency_entry_def Let_def latency_json_def json_u64_def lex_key_open lex_key_number plain_char_def option.map_comp comp_def)
qed

lemma lex_usage_text: "lex_json (usage_text u @ CHR '' '' # s) = map_option (\<lambda>ts. tl (butlast (toks (usage_json u))) @ ts) (lex_json s)"
  by (simp add: usage_text_def usage_json_def json_u64_def lex_key_number plain_char_def option.map_comp comp_def)

text \<open>The counters of the text may read as others, \<open>cs\<close>, than those of the registry.\<close>

lemma lex_export:
  assumes "mx_initialized m" "plain_latencies m"
    and c: "\<And>s. lex_json (entries counter_entry (mx_counters m) @ s)
      = map_option ((@) (member_toks (map (\<lambda>c. json_u64 (ct_name c) (ct_value c)) cs))) (lex_json s)"
  shows "lex_json (metrics_export_json True now u m) = Some (toks (metrics_json now u (m\<lparr>mx_counters := cs\<rparr>)))"
proof -
  have "lex_json (entries (latency_entry m) [0..<length (mx_latencies m)] @ s)
      = map_option ((@) (member_toks (map (\<lambda>i. latency_json (lt_name (mx_latencies m ! i)) (tracker_stats (mx_latencies m ! i)))
          [0..<length (mx_latencies m)]))) (lex_json s)" for s
    by (rule lex_entries) (use lex_latency_entry [OF assms(1,2)] in \<open>auto split: prod.splits\<close>)
  moreover have "map (\<lambda>i. latency_json (lt_name (mx_latencies m ! i)) (tracker_stats (mx_latencies m ! i))) [0..<length (mx_latencies m)]
      = map (\<lambda>t. latency_json (lt_name t) (tracker_stats t)) (mx_latencies m)"
    by (rule nth_equalityI) auto
  ultimately have l: "lex_json (entries (latency_entry m) [0..<length (mx_latencies m)] @ s)
      = map_option ((@) (member_toks (map (\<lambda>t. latency_json (lt_name t) (tracker_stats t)) (mx_latencies m)))) (lex_json s)" for s
    by simp
  show ?thesis
    using assms(1) lex_usage_text [of u "'' }'' @ [linefeed] @ ''}'' @ [linefeed]"]
    by (simp add: metrics_export_json_def metrics_json_def json_u64_def lex_key_number lex_key_open c l plain_char_def
        usage_json_def option.map_comp comp_def)
qed

lemma lex_counters:
  assumes "plain_names m"
  shows "lex_json (entries counter_entry (mx_counters m) @ s)
      = map_option ((@) (member_toks (map (\<lambda>c. json_u64 (ct_name c) (ct_value c)) (mx_counters m)))) (lex_json s)"
  by (rule lex_entries) (use assms in \<open>auto simp: counter_entry_def lex_key_number json_u64_def plain_names_def list_all_iff\<close>)

lemma json_parse_export:
  assumes "mx_initialized m" "plain_names m"
  shows "json_parse (metrics_export_json True now u m) = Some (metrics_json now u m)"
proof -
  have "plain_latencies m" using assms(2) by (simp add: plain_names_def)
  from lex_export [OF assms(1) this lex_counters [OF assms(2)]] show ?thesis by (simp add: json_parse_toks)
qed

text \<open>C24. The JSON report of an initialised registry whose names contain no quote, backslash or control character
  is an object that reads back as the time, the uptime, all counters with their values, all latency trackers with
  their statistics, in the order of registration, and the resource usage; separators and braces are right for
  every number of entries, none included.
\<close>

theorem metrics_json_roundtrip:
  assumes "mx_initialized m" "plain_names m"
  shows "json_parse (metrics_export_json True now u m) = Some (metrics_json now u m)"
  by (rule json_parse_export [OF assms])

definition example_usage :: resource_usage where
  "example_usage = \<lparr>ru_user_cpu_time = 1, ru_system_cpu_time = 2, ru_max_resident_set_size = 4096, ru_page_faults = 4,
     ru_voluntary_context_switches = 5, ru_involuntary_context_switches = 6, ru_current_rss = 2048,
     ru_virtual_memory_size = 8192, ru_timestamp = 9\<rparr>"

definition example_registry :: "perf_counter list \<Rightarrow> metrics" where
  "example_registry cs = \<lparr>mx_initialized = True, mx_counters = cs, mx_latencies = [fresh_tracker 1 ''ipc''],
     mx_histograms = [], mx_start_time = 20\<rparr>"

lemma example_registry_plain: "mx_initialized (example_registry cs)" "plain_latencies (example_registry cs)"
  by (simp_all add: example_registry_def fresh_tracker_def plain_latencies_def plain_char_def)

theorem metrics_json_roundtrip_witness:
  "json_parse (metrics_export_json True 100 example_usage
       (example_registry [\<lparr>ct_value = 7, ct_reset_time = 0, ct_name = ''submitted''\<rparr>, \<lparr>ct_value = 3, ct_reset_time = 0, ct_name = ''done''\<rparr>]))
   = Some (JObj [(''timestamp'', JNum 100), (''uptime_ns'', JNum 80),
       (''counters'', JObj [(''submitted'', JNum 7), (''done'', JNum 3)]),
       (''latencies'', JObj [(''ipc'', JObj [(''count'', JNum 0), (''total_time'', JNum 0), (''min_time'', JNum 0),
          (''max_time'', JNum 0), (''avg_time'', JNum 0)])]),
       (''resource_usage'', usage_json example_usage)])"
proof -
  let ?m = "example_registry [\<lparr>ct_value = 7, ct_reset_time = 0, ct_name = ''submitted''\<rparr>,
      \<lparr>ct_value = 3, ct_reset_time = 0, ct_name = ''done''\<rparr>]"
  have "plain_names ?m" using example_registry_plain(2) [of "mx_counters ?m"]
    by (simp add: plain_names_def example_registry_def plain_char_def)
  from metrics_json_roundtrip [OF example_registry_plain(1) this, of 100 example_usage] show ?thesis
    by (simp add: metrics_json_def example_registry_def json_u64_def latency_json_def fresh_tracker_def tracker_stats_def)
qed

text \<open>Names are written as they are: a registry with one counter whose name contains quotes gives a report that
  reads as that of a registry with two counters, one of them made up with any value.
\<close>

theorem metrics_json_injection:
  assumes "mx_initialized m" "plain_latencies m" "list_all plain_char k1" "list_all plain_char k2"
    "mx_counters m = [c]" "ct_name c = k1 @ [dquote] @ '': '' @ decimal (unat n) @ '', '' @ [dquote] @ k2"
  shows "json_parse (metrics_export_json True now u m)
       = Some (metrics_json now u (m\<lparr>mx_counters := [c\<lparr>ct_name := k1, ct_value := n\<rparr>, c\<lparr>ct_name := k2\<rparr>]\<rparr>))"
proof -
  have "entries counter_entry (mx_counters m) @ s
      = key_number 4 k1 n @ '', '' @ key_number 0 k2 (ct_value c) @ linefeed # s" for s
    by (simp add: assms(5,6) counter_entry_def key_number_def key_open_def)
  then have "lex_json (entries counter_entry (mx_counters m) @ s) = map_option ((@) (member_toks
      (map (\<lambda>c. json_u64 (ct_name c) (ct_value c)) [c\<lparr>ct_name := k1, ct_value := n\<rparr>, c\<lparr>ct_name := k2\<rparr>]))) (lex_json s)" for s
    by (cases "lex_json s") (simp_all add: lex_key_number assms(3,4) json_u64_def)
  from lex_export [OF assms(1,2) this] show ?thesis by (simp add: json_parse_toks)
qed

theorem metrics_json_injection_witness:
  "json_parse (metrics_export_json True 100 example_usage
     (example_registry [\<lparr>ct_value = 7, ct_reset_time = 0, ct_name = ''a'' @ [dquote] @ '': '' @ decimal 5 @ '', '' @ [dquote] @ ''b''\<rparr>]))
   = Some (metrics_json 100 example_usage (example_registry [\<lparr>ct_value = 5, ct_reset_time = 0, ct_name = ''a''\<rparr>,
       \<lparr>ct_value = 7, ct_reset_time = 0, ct_name = ''b''\<rparr>]))"
proof -
  let ?c = "\<lparr>ct_value = 7, ct_reset_time = 0, ct_name = ''a'' @ [dquote] @ '': '' @ decimal 5 @ '', '' @ [dquote] @ ''b''\<rparr>"
  have "list_all plain_char ''a''" "list_all plain_char ''b''" "mx_counters (example_registry [?c]) = [?c]"
    "ct_name ?c = ''a'' @ [dquote] @ '': '' @ decimal (unat (5::u64)) @ '', '' @ [dquote] @ ''b''"
    by (simp_all add: plain_char_def example_registry_def)
  from metrics_json_injection [OF example_registry_plain this, of 100 example_usage] show ?thesis
    by (simp add: example_registry_def)
qed

end
