(* ===== verification/Proc_Stats.thy ===== *)
theory Proc_Stats
  imports Metrics_Json Utils_Strings
begin

text \<open>
  The reading of the process's own resource usage in \<^verbatim>\<open>new_ProcessPool/src/utils/metrics.c\<close>: \<^verbatim>\<open>get_resource_usage\<close> over the
  answer of \<^verbatim>\<open>getrusage\<close> and the text of \<^verbatim>\<open>/proc/self/status\<close>, and \<^verbatim>\<open>get_process_stats\<close> over the text of \<^verbatim>\<open>/proc/<pid>/stat\<close>. The
  texts are arguments (\<open>None\<close> when the file cannot be opened); \<^verbatim>\<open>fgets\<close> and \<^verbatim>\<open>scanf\<close> are modelled as far as the code uses them.
\<close>

subsection \<open>Reading text\<close>

text \<open>\<^verbatim>\<open>%d\<close>, \<^verbatim>\<open>%ld\<close>, \<^verbatim>\<open>%lu\<close>: white space, an optional sign, at least one digit. The number and what follows.\<close>

definition scan_sign :: "string \<Rightarrow> bool \<times> string" where
  "scan_sign s = (case s of [] \<Rightarrow> (False, [])
     | c # s' \<Rightarrow> if c = CHR ''-'' then (True, s') else if c = CHR ''+'' then (False, s') else (False, s))"

definition scan_int :: "string \<Rightarrow> (int \<times> string) option" where
  "scan_int s =
     (case scan_sign (skip_space s) of (neg, s1) \<Rightarrow>
        if takeWhile is_digit s1 = [] then None
        else Some ((if neg then -1 else 1) * int (number_of (takeWhile is_digit s1)), dropWhile is_digit s1))"

text \<open>\<^verbatim>\<open>fgets\<close> with a buffer of \<open>n\<close> bytes, and the loop that calls it until the end of the file.\<close>

definition fgets :: "nat \<Rightarrow> string \<Rightarrow> string" where
  "fgets n s = take (n - 1) (takeWhile (\<lambda>c. c \<noteq> linefeed) s @ take 1 (dropWhile (\<lambda>c. c \<noteq> linefeed) s))"

function read_lines :: "string \<Rightarrow> string list" where
  "read_lines s = (if s = [] then [] else fgets 256 s # read_lines (drop (length (fgets 256 s)) s))"
  by pat_completeness auto
termination
proof (relation "measure length", goal_cases)
  case (2 s)
  then have "fgets 256 s \<noteq> []" by (cases s) (auto simp: fgets_def)
  then show ?case using 2 by (cases "fgets 256 s") (auto simp: less_Suc_eq_le)
qed auto

declare read_lines.simps [simp del]

subsection \<open>get_resource_usage\<close>

text \<open>The fields of \<^verbatim>\<open>struct rusage\<close> the code reads.\<close>

record rusage =
  utime_sec :: u64
  utime_usec :: u64
  stime_sec :: u64
  stime_usec :: u64
  maxrss :: u64
  majflt :: u64
  minflt :: u64
  nvcsw :: u64
  nivcsw :: u64

definition zero_usage :: resource_usage where
  "zero_usage = \<lparr>ru_user_cpu_time = 0, ru_system_cpu_time = 0, ru_max_resident_set_size = 0, ru_page_faults = 0,
     ru_voluntary_context_switches = 0, ru_involuntary_context_switches = 0, ru_current_rss = 0,
     ru_virtual_memory_size = 0, ru_timestamp = 0\<rparr>"

definition usage_of_rusage :: "rusage \<Rightarrow> resource_usage \<Rightarrow> resource_usage" where
  "usage_of_rusage r u = u\<lparr>
     ru_user_cpu_time := utime_sec r * 1000000000 + utime_usec r * 1000,
     ru_system_cpu_time := stime_sec r * 1000000000 + stime_usec r * 1000,
     ru_max_resident_set_size := maxrss r * 1024,
     ru_page_faults := majflt r + minflt r,
     ru_voluntary_context_switches := nvcsw r,
     ru_involuntary_context_switches := nivcsw r\<rparr>"

text \<open>\<^verbatim>\<open>sscanf(line, "<key> %lu kB", &field)\<close> for a line that starts with the key: the new value of the field.\<close>

definition scan_kb :: "string \<Rightarrow> string \<Rightarrow> u64 \<Rightarrow> u64" where
  "scan_kb key line old =
     (case scan_int (drop (length key) line) of Some (v, _) \<Rightarrow> word_of_int v | None \<Rightarrow> old)"

definition status_line :: "string \<Rightarrow> resource_usage \<Rightarrow> resource_usage" where
  "status_line line u =
     (if take 6 line = ''VmRSS:'' then u\<lparr>ru_current_rss := scan_kb ''VmRSS:'' line (ru_current_rss u) * 1024\<rparr>
      else if take 7 line = ''VmSize:'' then u\<lparr>ru_virtual_memory_size := scan_kb ''VmSize:'' line (ru_virtual_memory_size u) * 1024\<rparr>
      else u)"

definition get_resource_usage :: "rusage option \<Rightarrow> string option \<Rightarrow> u64 \<Rightarrow> resource_usage" where
  "get_resource_usage r status now =
     (let u1 = (case r of Some x \<Rightarrow> usage_of_rusage x zero_usage | None \<Rightarrow> zero_usage);
          u2 = (case status of Some s \<Rightarrow> fold status_line (read_lines s) u1 | None \<Rightarrow> u1)
      in u2\<lparr>ru_timestamp := now\<rparr>)"

subsection \<open>get_process_stats\<close>

datatype conversion = CInt | CWord | CChar

datatype scanned = SInt int | SWord string | SChar char

text \<open>\<^verbatim>\<open>fscanf\<close> with a format of these conversions separated by blanks; the list of the items assigned.\<close>

fun scan_items :: "conversion list \<Rightarrow> string \<Rightarrow> scanned list" where
  "scan_items [] s = []"
| "scan_items (CInt # cs) s = (case scan_int s of None \<Rightarrow> [] | Some (i, s') \<Rightarrow> SInt i # scan_items cs s')"
| "scan_items (CWord # cs) s =
     (let s1 = skip_space s; w = takeWhile (\<lambda>c. \<not> isspace c) s1
      in if w = [] then [] else SWord w # scan_items cs (drop (length w) s1))"
| "scan_items (CChar # cs) s = (case skip_space s of [] \<Rightarrow> [] | c # s' \<Rightarrow> SChar c # scan_items cs s')"

definition stat_format :: "conversion list" where
  "stat_format = [CInt, CWord, CChar] @ replicate 21 CInt"

record process_stats =
  st_pid :: int
  st_state :: char
  st_ppid :: int
  st_num_threads :: int
  st_priority :: int
  st_nice :: int
  st_user_time :: int
  st_system_time :: int
  st_virtual_memory :: int
  st_resident_memory :: int
  st_minor_faults :: int
  st_major_faults :: int
  st_start_time :: int
  st_timestamp :: u64

definition empty_process_stats :: process_stats where
  "empty_process_stats = \<lparr>st_pid = 0, st_state = CHR 0x00, st_ppid = 0, st_num_threads = 0, st_priority = 0, st_nice = 0,
     st_user_time = 0, st_system_time = 0, st_virtual_memory = 0, st_resident_memory = 0, st_minor_faults = 0,
     st_major_faults = 0, st_start_time = 0, st_timestamp = 0\<rparr>"

fun int_item :: "scanned \<Rightarrow> int" where
  "int_item (SInt i) = i"
| "int_item _ = 0"

fun char_item :: "scanned \<Rightarrow> char" where
  "char_item (SChar c) = c"
| "char_item _ = CHR 0x00"

fun word_item :: "scanned \<Rightarrow> string" where
  "word_item (SWord w) = w"
| "word_item _ = []"

text \<open>The copy of the fields, made when all 24 items were read; item \<open>k\<close> of the format is \<open>xs ! k\<close>.\<close>

definition stats_of_items :: "int \<Rightarrow> scanned list \<Rightarrow> process_stats \<Rightarrow> process_stats" where
  "stats_of_items pagesize xs st =
     (if length xs < 24 then st
      else (let n = (\<lambda>k. int_item (xs ! k)) in st\<lparr>
        st_state := char_item (xs ! 2), st_ppid := n 3,
        st_num_threads := n 19, st_priority := n 17, st_nice := n 18,
        st_user_time := n 13, st_system_time := n 14,
        st_virtual_memory := n 22, st_resident_memory := n 23 * pagesize,
        st_minor_faults := n 9, st_major_faults := n 11, st_start_time := n 21\<rparr>))"

text \<open>The command name goes to an array of 256 bytes without a bound.\<close>

definition get_process_stats :: "string option \<Rightarrow> int \<Rightarrow> u64 \<Rightarrow> process_stats outcome" where
  "get_process_stats stat pagesize now =
     (case stat of None \<Rightarrow> Done empty_process_stats
      | Some s \<Rightarrow>
          let xs = scan_items stat_format s
          in if length xs \<ge> 2 \<and> length (word_item (xs ! 1)) > 255 then Fault
             else Done ((stats_of_items pagesize xs (empty_process_stats\<lparr>st_pid := (if xs = [] then 0 else int_item (xs ! 0))\<rparr>))
                          \<lparr>st_timestamp := now\<rparr>))"

subsection \<open>Scanning what was printed\<close>

lemma not_space_digit: "is_digit c \<Longrightarrow> \<not> isspace c"
  by (auto simp: is_digit_def isspace_def)

lemma skip_space_append: "list_all isspace a \<Longrightarrow> s = [] \<or> \<not> isspace (hd s) \<Longrightarrow> skip_space (a @ s) = s"
  by (induction a) (cases s; auto)+

lemma scan_int_decimal:
  assumes "list_all isspace ws" "s = [] \<or> \<not> is_digit (hd s)"
  shows "scan_int (ws @ decimal_int i @ s) = Some (i, s)"
proof -
  have digits: "takeWhile is_digit (decimal n @ s) = decimal n" "dropWhile is_digit (decimal n @ s) = s" for n
    using takeWhile_digits [OF decimal_digits assms(2)] by auto
  obtain c ds where d: "decimal (nat i) = c # ds" "is_digit c"
    using decimal_nonempty [of "nat i"] decimal_digits [of "nat i"] by (cases "decimal (nat i)") auto
  have c: "c \<noteq> CHR ''-''" "c \<noteq> CHR ''+''" "\<not> isspace c" using d(2) not_space_digit by (auto simp: is_digit_def)
  have m: "\<not> isspace CHR ''-''" by (simp add: isspace_def)
  show ?thesis
  proof (cases "i < 0")
    case True
    then have "skip_space (ws @ decimal_int i @ s) = CHR ''-'' # decimal (nat (- i)) @ s"
      using skip_space_append [OF assms(1), of "decimal_int i @ s"] m by (simp add: decimal_int_def)
    then show ?thesis using True digits [of "nat (- i)"] by (simp add: scan_int_def scan_sign_def)
  next
    case False
    then have "skip_space (ws @ decimal_int i @ s) = decimal (nat i) @ s"
      using skip_space_append [OF assms(1), of "decimal_int i @ s"] d c by (simp add: decimal_int_def)
    moreover have "scan_sign (decimal (nat i) @ s) = (False, decimal (nat i) @ s)"
      using d c by (simp add: scan_sign_def)
    ultimately show ?thesis using False digits [of "nat i"] by (simp add: scan_int_def)
  qed
qed

text \<open>A list of numbers, each after a blank.\<close>

definition blank_separated :: "int list \<Rightarrow> string" where
  "blank_separated is = concat (map (\<lambda>i. CHR '' '' # decimal_int i) is)"

lemma scan_items_ints:
  assumes "s = [] \<or> \<not> is_digit (hd s)"
  shows "scan_items (replicate (length is) CInt) (blank_separated is @ s) = map SInt is"
proof (induction "is")
  case (Cons i "is")
  have "\<not> is_digit CHR '' ''" by (simp add: is_digit_def)
  then have "blank_separated is @ s = [] \<or> \<not> is_digit (hd (blank_separated is @ s))"
    using assms by (cases "is") (auto simp: blank_separated_def)
  then have "scan_int ('' '' @ decimal_int i @ blank_separated is @ s) = Some (i, blank_separated is @ s)"
    by (rule scan_int_decimal [rotated]) (simp add: isspace_def)
  then show ?case using Cons.IH by (simp add: blank_separated_def)
qed (simp add: blank_separated_def)

text \<open>The file as the kernel writes it: \<open>pid\<close>, the name, the state, and 21 numbers, then whatever follows.\<close>

definition stat_text :: "int \<Rightarrow> string \<Rightarrow> char \<Rightarrow> int list \<Rightarrow> string \<Rightarrow> string" where
  "stat_text pid comm state ns rest = decimal_int pid @ '' '' @ comm @ '' '' @ [state] @ blank_separated ns @ rest"

lemma scan_stat_prefix:
  assumes "list_all (\<lambda>c. \<not> isspace c) w" "w \<noteq> []" "\<not> isspace c"
  shows "scan_items stat_format (decimal_int pid @ '' '' @ w @ '' '' @ c # s)
       = SInt pid # SWord w # SChar c # scan_items (replicate 21 CInt) s"
proof -
  have p: "scan_int (decimal_int pid @ '' '' @ w @ '' '' @ c # s) = Some (pid, '' '' @ w @ '' '' @ c # s)"
    using scan_int_decimal [of "[]" "'' '' @ w @ '' '' @ c # s" pid] by (simp add: is_digit_def)
  have sp: "isspace CHR '' ''" by (simp add: isspace_def)
  have "\<not> isspace (hd (w @ '' '' @ c # s))" using assms(1,2) by (cases w) auto
  then have "skip_space ('' '' @ w @ '' '' @ c # s) = w @ '' '' @ c # s"
    using skip_space_append [of "'' ''" "w @ '' '' @ c # s"] sp by simp
  moreover have "takeWhile (\<lambda>c. \<not> isspace c) (w @ '' '' @ c # s) = w"
    using assms(1) sp by (simp add: takeWhile_append2 list_all_iff)
  ultimately show ?thesis using p assms sp by (simp add: stat_format_def Let_def)
qed

text \<open>\<open>get_process_stats\<close> reports the fields of the kernel's line, each from its own column, for every process whose
  name has no white space.
\<close>

theorem process_stats_roundtrip:
  assumes "list_all (\<lambda>c. \<not> isspace c) comm" "comm \<noteq> []" "length comm \<le> 255" "\<not> isspace state"
    "length ns = 21" "rest = [] \<or> \<not> is_digit (hd rest)"
  shows "get_process_stats (Some (stat_text pid comm state ns rest)) pagesize now
       = Done \<lparr>st_pid = pid, st_state = state, st_ppid = ns ! 0, st_num_threads = ns ! 16, st_priority = ns ! 14,
           st_nice = ns ! 15, st_user_time = ns ! 10, st_system_time = ns ! 11, st_virtual_memory = ns ! 19,
           st_resident_memory = ns ! 20 * pagesize, st_minor_faults = ns ! 6, st_major_faults = ns ! 8,
           st_start_time = ns ! 18, st_timestamp = now\<rparr>"
proof -
  have "scan_items stat_format (stat_text pid comm state ns rest) = SInt pid # SWord comm # SChar state # map SInt ns"
    using scan_stat_prefix [OF assms(1,2,4), of pid "blank_separated ns @ rest"] scan_items_ints [OF assms(6), of ns] assms(5)
    by (simp add: stat_text_def)
  then show ?thesis using assms(3,5) by (simp add: get_process_stats_def Let_def stats_of_items_def empty_process_stats_def)
qed

theorem process_stats_roundtrip_witness:
  "get_process_stats (Some (stat_text 42 ''(worker)'' CHR ''S'' [1, 42, 42, 0, -1, 4194560, 130, 0, 2, 0, 17, 5, 0, 0, 20, 0, 3, 0, 8812, 9000000, 512]
       '' 18446744073709551615'')) 4096 7
   = Done \<lparr>st_pid = 42, st_state = CHR ''S'', st_ppid = 1, st_num_threads = 3, st_priority = 20, st_nice = 0, st_user_time = 17,
       st_system_time = 5, st_virtual_memory = 9000000, st_resident_memory = 2097152, st_minor_faults = 130,
       st_major_faults = 2, st_start_time = 8812, st_timestamp = 7\<rparr>"
proof -
  let ?ns = "[1, 42, 42, 0, -1, 4194560, 130, 0, 2, 0, 17, 5, 0, 0, 20, 0, 3, 0, 8812, 9000000, 512] :: int list"
  have "list_all (\<lambda>c. \<not> isspace c) ''(worker)''" "''(worker)'' \<noteq> []" "length ''(worker)'' \<le> 255" "\<not> isspace CHR ''S''"
    "length ?ns = 21" "'' 18446744073709551615'' = [] \<or> \<not> is_digit (hd '' 18446744073709551615'')"
    by (simp_all add: isspace_def is_digit_def)
  from process_stats_roundtrip [OF this] show ?thesis by simp
qed

text \<open>When the name of the process contains a blank and the second character after it is neither a digit, a sign nor
  white space, the columns shift, the scan stops at the fourth item, and all fields but the pid are reported as zero.
\<close>

theorem process_stats_blank_in_name:
  assumes "list_all (\<lambda>c. \<not> isspace c) w" "w \<noteq> []" "length w \<le> 255" "\<not> isspace c"
    "\<not> isspace d" "\<not> is_digit d" "d \<noteq> CHR ''-''" "d \<noteq> CHR ''+''"
  shows "get_process_stats (Some (stat_text pid (w @ '' '' @ c # d # w') state ns rest)) pagesize now
       = Done (empty_process_stats\<lparr>st_pid := pid, st_timestamp := now\<rparr>)"
proof -
  have "scan_int (d # r) = None" for r using assms(5-8) by (simp add: scan_int_def scan_sign_def)
  then have "scan_items (replicate 21 CInt) (d # r) = []" for r by (simp add: eval_nat_numeral)
  then have "scan_items stat_format (stat_text pid (w @ '' '' @ c # d # w') state ns rest) = [SInt pid, SWord w, SChar c]"
    using scan_stat_prefix [OF assms(1,2,4), of pid "d # w' @ '' '' @ [state] @ blank_separated ns @ rest"]
    by (simp add: stat_text_def)
  then show ?thesis using assms(3) by (simp add: get_process_stats_def Let_def stats_of_items_def)
qed

theorem process_stats_blank_in_name_witness:
  "get_process_stats (Some (stat_text 42 ''(my worker)'' CHR ''S'' (replicate 21 5) [linefeed])) 4096 7
   = Done (empty_process_stats\<lparr>st_pid := 42, st_timestamp := 7\<rparr>)"
proof -
  have "list_all (\<lambda>c. \<not> isspace c) ''(my''" "''(my'' \<noteq> []" "length ''(my'' \<le> 255" "\<not> isspace CHR ''w''"
    "\<not> isspace CHR ''o''" "\<not> is_digit CHR ''o''" "CHR ''o'' \<noteq> CHR ''-''" "CHR ''o'' \<noteq> CHR ''+''"
    by (simp_all add: isspace_def is_digit_def)
  from process_stats_blank_in_name [OF this, of 42 "''rker)''"] show ?thesis by simp
qed

subsection \<open>The lines of the status file\<close>

text \<open>A line that fits in the buffer.\<close>

definition short_line :: "string \<Rightarrow> bool" where
  "short_line l \<longleftrightarrow> (\<exists>b. l = b @ [linefeed] \<and> linefeed \<notin> set b \<and> length b < 255)"

lemma fgets_short_line:
  assumes "short_line l"
  shows "fgets 256 (l @ s) = l"
proof -
  obtain b where b: "l = b @ [linefeed]" "linefeed \<notin> set b" "length b < 255" using assms by (auto simp: short_line_def)
  have "c \<noteq> linefeed" if "c \<in> set b" for c using b(2) that by metis
  then have "takeWhile (\<lambda>c. c \<noteq> linefeed) (l @ s) = b" "dropWhile (\<lambda>c. c \<noteq> linefeed) (l @ s) = linefeed # s" unfolding b(1)
    by (simp_all add: takeWhile_append2 dropWhile_append2)
  then show ?thesis using b by (simp add: fgets_def)
qed

lemma read_lines_short: "list_all short_line ls \<Longrightarrow> read_lines (concat ls) = ls"
proof (induction ls)
  case (Cons l ls)
  then have l: "short_line l" by simp
  then have "l \<noteq> []" by (auto simp: short_line_def)
  then show ?case using Cons fgets_short_line [OF l, of "concat ls"] by (simp add: read_lines.simps [of "l @ concat ls"])
qed (simp add: read_lines.simps)

definition other_line :: "string \<Rightarrow> bool" where
  "other_line l \<longleftrightarrow> take 6 l \<noteq> ''VmRSS:'' \<and> take 7 l \<noteq> ''VmSize:''"

lemma status_other_lines: "list_all other_line ls \<Longrightarrow> fold status_line ls u = u"
  by (induction ls arbitrary: u) (auto simp: status_line_def other_line_def)

text \<open>The two lines that are read, as the kernel writes them: a tab, the number padded with blanks, the unit.\<close>

definition kb_line :: "string \<Rightarrow> string \<Rightarrow> nat \<Rightarrow> string" where
  "kb_line key pad n = key @ pad @ decimal n @ '' kB'' @ [linefeed]"

lemma scan_kb_line:
  assumes "list_all isspace pad"
  shows "scan_kb key (kb_line key pad n) old = of_nat n"
proof -
  have "scan_int (pad @ decimal_int (int n) @ '' kB'' @ [linefeed]) = Some (int n, '' kB'' @ [linefeed])"
    by (rule scan_int_decimal [OF assms]) (simp add: is_digit_def)
  then show ?thesis by (simp add: scan_kb_def kb_line_def decimal_int_def)
qed

text \<open>On a status file of lines that fit in the buffer, with one line for the size and one for the resident set,
  \<open>get_resource_usage\<close> reports both numbers in bytes, whatever the padding, and the rest as \<^verbatim>\<open>getrusage\<close> gives it.
\<close>

theorem resource_usage_reads_status:
  assumes "list_all short_line (a @ kb_line ''VmSize:'' p1 v # b @ kb_line ''VmRSS:'' p2 r # c)"
    "list_all other_line (a @ b @ c)" "list_all isspace (p1 @ p2)"
  shows "get_resource_usage (Some x) (Some (concat (a @ kb_line ''VmSize:'' p1 v # b @ kb_line ''VmRSS:'' p2 r # c))) now
       = (usage_of_rusage x zero_usage)\<lparr>ru_virtual_memory_size := of_nat v * 1024, ru_current_rss := of_nat r * 1024,
            ru_timestamp := now\<rparr>"
proof -
  have sz: "status_line (kb_line ''VmSize:'' p1 v) u = u\<lparr>ru_virtual_memory_size := of_nat v * 1024\<rparr>" for u
    using assms(3) scan_kb_line [of p1 "''VmSize:''" v] by (simp add: status_line_def kb_line_def)
  have rs: "status_line (kb_line ''VmRSS:'' p2 r) u = u\<lparr>ru_current_rss := of_nat r * 1024\<rparr>" for u
    using assms(3) scan_kb_line [of p2 "''VmRSS:''" r] by (simp add: status_line_def kb_line_def)
  have "fold status_line (a @ kb_line ''VmSize:'' p1 v # b @ kb_line ''VmRSS:'' p2 r # c) u
      = u\<lparr>ru_virtual_memory_size := of_nat v * 1024, ru_current_rss := of_nat r * 1024\<rparr>" for u
    using assms(2) by (simp add: status_other_lines sz rs)
  then show ?thesis using read_lines_short [OF assms(1)] by (simp add: get_resource_usage_def Let_def del: concat_append)
qed

theorem resource_usage_reads_status_witness:
  "get_resource_usage
     (Some \<lparr>utime_sec = 2, utime_usec = 500, stime_sec = 1, stime_usec = 0, maxrss = 900, majflt = 1, minflt = 80, nvcsw = 7, nivcsw = 3\<rparr>)
     (Some (''Name:'' @ [CHR 0x09] @ ''pool'' @ [linefeed] @ kb_line ''VmSize:'' ([CHR 0x09] @ ''    '') 9120 @ kb_line ''VmRSS:'' [CHR 0x09] 1400)) 55
   = \<lparr>ru_user_cpu_time = 2000500000, ru_system_cpu_time = 1000000000, ru_max_resident_set_size = 921600, ru_page_faults = 81,
      ru_voluntary_context_switches = 7, ru_involuntary_context_switches = 3, ru_current_rss = 1433600,
      ru_virtual_memory_size = 9338880, ru_timestamp = 55\<rparr>"
proof -
  let ?n = "''Name:'' @ [CHR 0x09] @ ''pool'' @ [linefeed]" and ?p = "[CHR 0x09] @ ''    ''" and ?q = "[CHR 0x09]"
  have d: "decimal 9120 = ''9120''" "decimal 1400 = ''1400''"
    by (simp_all add: decimal_small decimal_large char_of_def bit_Suc_0_iff)
  have b: "short_line (w @ [linefeed])" if "linefeed \<notin> set w" "length w < 255" for w
    using that by (auto simp: short_line_def)
  have "short_line ?n" "short_line (kb_line ''VmSize:'' ?p 9120)" "short_line (kb_line ''VmRSS:'' ?q 1400)"
    using b [of "''Name:'' @ [CHR 0x09] @ ''pool''"] b [of "''VmSize:'' @ ?p @ ''9120'' @ '' kB''"] b [of "''VmRSS:'' @ ?q @ ''1400'' @ '' kB''"]
    by (simp_all add: kb_line_def d)
  then have s: "list_all short_line ([?n] @ kb_line ''VmSize:'' ?p 9120 # [] @ kb_line ''VmRSS:'' ?q 1400 # [])" by simp
  have o: "list_all other_line ([?n] @ [] @ [])" by (simp add: other_line_def)
  have w: "list_all isspace (?p @ ?q)" by (simp add: isspace_def)
  from resource_usage_reads_status [OF s o w] show ?thesis by (simp add: usage_of_rusage_def zero_usage_def)
qed

end
