(* ===== verification/Metrics_Summary.thy ===== *)
theory Metrics_Summary
  imports Proc_Stats
begin

text \<open>
  The printed report \<^verbatim>\<open>metrics_print_summary\<close> of \<^verbatim>\<open>new_ProcessPool/src/utils/metrics.c\<close> as the text it writes, and
  \<^verbatim>\<open>format_time_ns\<close> of \<^verbatim>\<open>utils/utils.c\<close>, which it uses. Doubles are exact reals, as everywhere, so \<^verbatim>\<open>%.2f\<close> rounds the exact value,
  to even in the middle. The same trackers and histograms are read that \<open>Metrics\<close> updates.
\<close>

subsection \<open>Numbers with two decimals\<close>

definition round_even :: "real \<Rightarrow> int" where
  "round_even x =
     (let f = \<lfloor>x\<rfloor>; d = x - of_int f
      in if d < 1 / 2 \<or> d = 1 / 2 \<and> even f then f else f + 1)"

definition two_digits :: "nat \<Rightarrow> string" where
  "two_digits n = [char_of (48 + n div 10), char_of (48 + n mod 10)]"

definition hundredths :: "nat \<Rightarrow> string" where
  "hundredths n = decimal (n div 100) @ ''.'' @ two_digits (n mod 100)"

text \<open>\<^verbatim>\<open>%.2f\<close> of a number that is not negative.\<close>

definition fixed2 :: "real \<Rightarrow> string" where
  "fixed2 r = hundredths (nat (round_even (100 * r)))"

subsection \<open>format_time_ns\<close>

text \<open>\<^verbatim>\<open>snprintf\<close> keeps one byte less than the size of the buffer. The unit of the second case is the UTF-8 text of a micro second.\<close>

definition format_time_ns :: "u64 \<Rightarrow> nat \<Rightarrow> string option" where
  "format_time_ns ns buffer_size =
     (if buffer_size = 0 then None
      else Some (take (buffer_size - 1)
        (if ns < 1000 then decimal (unat ns) @ '' ns''
         else if ns < 1000000 then fixed2 (real (unat ns) / 1000) @ '' '' @ [CHR 0xCE, CHR 0xBC] @ ''s''
         else if ns < 1000000000 then fixed2 (real (unat ns) / 1000000) @ '' ms''
         else fixed2 (real (unat ns) / 1000000000) @ '' s'')))"

subsection \<open>The report\<close>

definition text_line :: "string \<Rightarrow> string" where
  "text_line s = s @ [linefeed]"

definition counter_line :: "u64 \<Rightarrow> perf_counter \<Rightarrow> string" where
  "counter_line now c =
     (let age = now - ct_reset_time c;
          rate = (if age > 0 then real (unat (ct_value c)) / (real (unat age) / 1000000000) else 0)
      in text_line (''  '' @ ct_name c @ '': '' @ decimal (unat (ct_value c)) @ '' ('' @ fixed2 rate @ ''/sec)''))"

definition latency_line :: "metrics \<Rightarrow> nat \<Rightarrow> string" where
  "latency_line m i =
     (let s = metrics_latency_get (int i) m; fmt = (\<lambda>t. the (format_time_ns t 32))
      in if ls_count s > 0
         then text_line (''  '' @ lt_name (mx_latencies m ! i) @ '': count='' @ decimal (unat (ls_count s))
                @ '', min='' @ fmt (ls_min_time s) @ '', max='' @ fmt (ls_max_time s) @ '', avg='' @ fmt (ls_avg_time s))
         else [])"

text \<open>The loop over the buckets ends at the first boundary that is \<^verbatim>\<open>UINT64_MAX\<close>; the rows it prints.\<close>

fun bucket_rows :: "u64 list \<Rightarrow> u64 list \<Rightarrow> (u64 \<times> u64) list" where
  "bucket_rows (b # bs) (v # vs) =
     (if b = - 1 then [] else (if v > 0 then [(b, v)] else []) @ bucket_rows bs vs)"
| "bucket_rows bs vs = []"

definition bucket_line :: "u64 \<times> u64 \<Rightarrow> string" where
  "bucket_line r = text_line (''    <= '' @ decimal (unat (fst r)) @ '': '' @ decimal (unat (snd r)))"

definition histogram_lines :: "limits \<Rightarrow> metrics \<Rightarrow> nat \<Rightarrow> string" where
  "histogram_lines l m i =
     (let s = metrics_histogram_get l (int i) m
      in if hs_total_count s > 0
         then text_line (''  '' @ hg_name (mx_histograms m ! i) @ '': count='' @ decimal (unat (hs_total_count s))
                @ '', sum='' @ decimal (unat (hs_total_sum s)) @ '', avg='' @ fixed2 (hs_average s))
              @ concat (map bucket_line (bucket_rows (hs_bucket_boundaries s) (hs_buckets s)))
         else [])"

text \<open>A section: its title when the registry has entries of the kind, and the text of each.\<close>

definition section_text :: "string \<Rightarrow> string list \<Rightarrow> string" where
  "section_text title ls = (if ls \<noteq> [] then text_line ([linefeed] @ ''--- '' @ title @ '' ---'') @ concat ls else [])"

definition megabytes :: "u64 \<Rightarrow> string" where
  "megabytes v = fixed2 (real (unat v) / (1024 * 1024)) @ '' MB''"

definition seconds :: "u64 \<Rightarrow> string" where
  "seconds v = fixed2 (real (unat v) / 1000000000) @ '' seconds''"

definition metrics_print_summary :: "limits \<Rightarrow> bool \<Rightarrow> u64 \<Rightarrow> resource_usage \<Rightarrow> metrics \<Rightarrow> string" where
  "metrics_print_summary l output now u m =
     (if \<not> output \<or> \<not> mx_initialized m then []
      else text_line ([linefeed] @ ''=== Process Pool Metrics Summary ==='')
        @ text_line (''Uptime: '' @ seconds (now - mx_start_time m))
        @ text_line (''Timestamp: '' @ decimal (unat now) @ '' ns'')
        @ section_text ''Counters'' (map (counter_line now) (mx_counters m))
        @ section_text ''Latencies'' (map (latency_line m) [0..<length (mx_latencies m)])
        @ section_text ''Histograms'' (map (histogram_lines l m) [0..<length (mx_histograms m)])
        @ text_line ([linefeed] @ ''--- Resource Usage ---'')
        @ text_line (''  Current RSS: '' @ megabytes (ru_current_rss u))
        @ text_line (''  Max RSS: '' @ megabytes (ru_max_resident_set_size u))
        @ text_line (''  Virtual Memory: '' @ megabytes (ru_virtual_memory_size u))
        @ text_line (''  User CPU Time: '' @ seconds (ru_user_cpu_time u))
        @ text_line (''  System CPU Time: '' @ seconds (ru_system_cpu_time u))
        @ text_line (''  Page Faults: '' @ decimal (unat (ru_page_faults u)))
        @ text_line (''  Context Switches: '' @ decimal (unat (ru_voluntary_context_switches u)) @ '' voluntary, ''
                     @ decimal (unat (ru_involuntary_context_switches u)) @ '' involuntary'')
        @ text_line ([linefeed] @ replicate 37 CHR ''='' @ [linefeed]))"

subsection \<open>Accuracy of the times\<close>

lemma round_even_close: "\<bar>x - of_int (round_even x)\<bar> \<le> 1 / 2"
proof -
  have "of_int \<lfloor>x\<rfloor> \<le> x" "x < of_int \<lfloor>x\<rfloor> + 1" by linarith+
  then show ?thesis by (auto simp: round_even_def Let_def abs_le_iff)
qed

lemma round_even_nonneg: "0 \<le> x \<Longrightarrow> 0 \<le> round_even x"
  by (auto simp: round_even_def Let_def)

lemma fixed2_reads:
  assumes "0 \<le> r"
  shows "\<exists>n. fixed2 r = hundredths n \<and> \<bar>r - real n / 100\<bar> \<le> 1 / 200"
proof -
  obtain n where n: "n = nat (round_even (100 * r))" by blast
  have "\<bar>100 * r - real n\<bar> \<le> 1 / 2"
    using round_even_close [of "100 * r"] round_even_nonneg [of "100 * r"] assms by (simp add: n)
  then have "\<bar>r - real n / 100\<bar> \<le> 1 / 200" by (simp add: abs_le_iff field_simps)
  then show ?thesis unfolding fixed2_def n by blast
qed

text \<open>The unit \<^verbatim>\<open>format_time_ns\<close> chooses: its length in nanoseconds and its name.\<close>

definition time_unit :: "u64 \<Rightarrow> nat \<times> string" where
  "time_unit ns =
     (if ns < 1000000 then (1000, '' '' @ [CHR 0xCE, CHR 0xBC] @ ''s'')
      else if ns < 1000000000 then (1000000, '' ms'') else (1000000000, '' s''))"

lemma length_hundredths: "n < 10 ^ 13 \<Longrightarrow> length (hundredths n) \<le> 14"
  using length_decimal [of "n div 100" 10] by (simp add: hundredths_def two_digits_def less_mult_imp_div_less)

lemma time_unit_range:
  "real (unat ns) / real (fst (time_unit ns)) < 10 ^ 11 - 1" "length (snd (time_unit ns)) \<le> 4"
proof -
  have "unat ns < 2 ^ 64" using unsigned_less [of ns] by simp
  then have "real (unat ns) < 2 ^ 64" by (metis of_nat_less_iff of_nat_numeral of_nat_power)
  moreover have lt: "real k < numeral m" if "k < numeral m" for k m
    using that by (metis of_nat_less_iff of_nat_numeral)
  have "real (unat ns) < 1000000" if "ns < 1000000" by (rule lt) (use that in \<open>simp add: word_less_nat_alt\<close>)
  moreover have "real (unat ns) < 1000000000" if "ns < 1000000000" by (rule lt) (use that in \<open>simp add: word_less_nat_alt\<close>)
  ultimately show "real (unat ns) / real (fst (time_unit ns)) < 10 ^ 11 - 1" by (auto simp: time_unit_def)
  show "length (snd (time_unit ns)) \<le> 4" by (simp add: time_unit_def)
qed


subsection \<open>The buckets that are printed\<close>

lemma bucket_rows_finite:
  assumes "length vs = length bs" "- 1 \<notin> set bs" "rest = [] \<or> hd rest = - 1"
  shows "bucket_rows (bs @ rest) (vs @ ws) = filter (\<lambda>r. snd r > 0) (zip bs vs)"
  using assms
proof (induction vs bs rule: list_induct2)
  case Nil
  then show ?case by (cases rest; cases ws) auto
qed auto

lemma sum_positive_rows:
  fixes rows :: "('b \<times> u64) list"
  shows "sum_list (map (\<lambda>r. unat (snd r)) (filter (\<lambda>r. snd r > 0) rows)) = sum_list (map (\<lambda>r. unat (snd r)) rows)"
  by (induction rows) (auto simp: word_gt_0)

lemma bucket_of_None: "bucket_of bs v = None \<longleftrightarrow> (\<forall>b\<in>set bs. \<not> v \<le> b)"
  by (auto simp: bucket_of_def find_None_iff in_set_conv_nth dest: nth_mem)

lemma fitting_append:
  assumes "i < length bs"
  shows "fitting (bs @ rest) i vs = fitting bs i vs"
proof -
  have "bucket_of (bs @ rest) v = Some i \<longleftrightarrow> bucket_of bs v = Some i" for v
    using assms by (auto simp: bucket_of_first nth_append)
  then show ?thesis by (simp add: fitting_def)
qed

text \<open>Of the values recorded in a histogram the report's rows add up to those within some boundary; a value above
  the last boundary is part of the total, and of a bucket in memory, but of no printed row.
\<close>

theorem summary_counts_bounded_values:
  assumes "length bs \<le> ml_buckets l" "- 1 \<notin> set bs" "length vs < 2 ^ 64"
    "h = fold observe vs (fresh_histogram l now nm bs (length bs))"
  shows "sum_list (map (\<lambda>r. unat (snd r)) (bucket_rows (hg_bounds h) (hg_values h)))
       = length (filter (\<lambda>v. \<exists>b\<in>set bs. v \<le> b) vs)
       \<and> unat (hg_count h) = length vs"
proof -
  let ?h = "fresh_histogram l now nm bs (length bs)" and ?n = "length bs"
  let ?rest = "replicate (ml_buckets l - ?n) (- 1 :: u64)"
  have b: "hg_bounds ?h = bs @ ?rest" using assms(1)
    by (intro nth_equalityI) (auto simp: fresh_histogram_sel nth_append)
  have h: "hg_bounds h = bs @ ?rest" "hg_count h = of_nat (length vs)"
      "hg_values h = map (\<lambda>i. of_nat (fitting (bs @ ?rest) i vs)) [0..<ml_buckets l]"
    using observe_many [of ?h vs] assms(1) unfolding assms(4) b by (simp_all add: fresh_histogram_sel(2-4) b cong: map_cong)
  let ?vals = "map (\<lambda>i. of_nat (fitting bs i vs)) [0..<?n] :: u64 list"
  have "[0..<ml_buckets l] = [0..<?n] @ [?n..<ml_buckets l]" 
    using upt_add_eq_append [of 0 ?n "ml_buckets l - ?n"] assms(1) by simp
  then obtain ws where ws: "hg_values h = ?vals @ ws" using h(3) by (auto simp: fitting_append)
  have "bucket_rows (hg_bounds h) (hg_values h) = filter (\<lambda>r. snd r > 0) (zip bs ?vals)"
    unfolding h(1) ws by (rule bucket_rows_finite) (use assms(2) in \<open>simp_all, cases "ml_buckets l - ?n", simp_all\<close>)
  moreover have "map (\<lambda>r. unat (snd r)) (zip bs ?vals) = map unat ?vals"
    by (rule nth_equalityI) simp_all
  ultimately have "sum_list (map (\<lambda>r. unat (snd r)) (bucket_rows (hg_bounds h) (hg_values h))) = sum_list (map unat ?vals)"
    by (simp only: sum_positive_rows)
  also have "\<dots> = (\<Sum>i<?n. fitting bs i vs)"
  proof -
    have "unat (of_nat (fitting bs i vs) :: u64) = fitting bs i vs" for i
      using fitting_le [of bs i vs] assms(3) by (simp add: unat_of_nat)
    then show ?thesis by (simp add: comp_def interv_sum_list_conv_sum_set_nat atLeast0LessThan)
  qed
  also have "\<dots> = length (filter (\<lambda>v. \<exists>b\<in>set bs. v \<le> b) vs)"
    by (simp add: sum_fitting bucket_of_None)
  finally show ?thesis using h(2) assms(3) by (simp add: unat_of_nat)
qed

theorem summary_counts_bounded_values_witness:
  "\<exists>h. h = fold observe [5, 20, 99, 10] (fresh_histogram \<lparr>ml_counters = 0, ml_latencies = 0, ml_histograms = 1, ml_buckets = 4\<rparr>
         0 ''h'' [10, 50] (length [10, 50 :: u64]))
     \<and> sum_list (map (\<lambda>r. unat (snd r)) (bucket_rows (hg_bounds h) (hg_values h))) = 3 \<and> unat (hg_count h) = 4"
proof -
  let ?l = "\<lparr>ml_counters = 0, ml_latencies = 0, ml_histograms = 1, ml_buckets = 4\<rparr>"
  obtain h where h: "h = fold observe [5, 20, 99, 10] (fresh_histogram ?l 0 ''h'' [10, 50] (length [10, 50 :: u64]))" by blast
  have "length [10, 50 :: u64] \<le> ml_buckets ?l" "- 1 \<notin> set [10, 50 :: u64]" "length [5, 20, 99, 10 :: u64] < 2 ^ 64" by simp_all
  from summary_counts_bounded_values [OF this h] show ?thesis using h by (intro exI [of _ h]) simp
qed

end
