(* ===== verification/Diagnostics.thy ===== *)
theory Diagnostics
  imports Decimal_Text
begin

text \<open>
  Diagnostic text of \<^verbatim>\<open>new_ProcessPool/src/utils/utils.c\<close>: \<^verbatim>\<open>dump_memory\<close> and \<^verbatim>\<open>format_timestamp\<close>. The address that is printed
  and the broken-down local time are arguments; the character class is that of the C locale.
\<close>

subsection \<open>Padded numbers\<close>

definition hex_digit :: "nat \<Rightarrow> char" where
  "hex_digit d = (if d < 10 then char_of (48 + d) else char_of (87 + d))"

fun hexadecimal :: "nat \<Rightarrow> string" where
  "hexadecimal n = (if n < 16 then [hex_digit n] else hexadecimal (n div 16) @ [hex_digit (n mod 16)])"

declare hexadecimal.simps [simp del]

definition zero_pad :: "nat \<Rightarrow> string \<Rightarrow> string" where
  "zero_pad w ds = replicate (w - length ds) CHR ''0'' @ ds"

text \<open>\<^verbatim>\<open>%0<w>d\<close>.\<close>

definition padded :: "nat \<Rightarrow> int \<Rightarrow> string" where
  "padded w i = (if i < 0 then CHR ''-'' # zero_pad (w - 1) (decimal (nat (- i))) else zero_pad w (decimal (nat i)))"

subsection \<open>dump_memory\<close>

definition isprint :: "char \<Rightarrow> bool" where
  "isprint c \<longleftrightarrow> 32 \<le> (of_char c :: nat) \<and> (of_char c :: nat) \<le> 126"

definition hex_cell :: "u8 list \<Rightarrow> nat \<Rightarrow> string" where
  "hex_cell bytes k =
     (if k < length bytes then zero_pad 2 (hexadecimal (unat (bytes ! k))) @ '' '' else ''   '')"

definition ascii_cell :: "u8 \<Rightarrow> char" where
  "ascii_cell b = (let c = char_of (unat b) in if isprint c then c else CHR ''.'')"

text \<open>The row for the bytes from \<open>i\<close> on.\<close>

definition dump_row :: "u8 list \<Rightarrow> nat \<Rightarrow> string" where
  "dump_row bytes i = zero_pad 8 (hexadecimal i) @ '': ''
     @ concat (map (\<lambda>j. hex_cell bytes (i + j)) [0..<16]) @ '' ''
     @ map ascii_cell (take 16 (drop i bytes)) @ [CHR 0x0A]"

text \<open>The loop over the rows.\<close>

function dump_rows :: "u8 list \<Rightarrow> nat \<Rightarrow> string list" where
  "dump_rows bytes i = (if i < length bytes then dump_row bytes i # dump_rows bytes (i + 16) else [])"
  by pat_completeness auto
termination by (relation "measure (\<lambda>(bytes, i). length bytes - i)") auto

declare dump_rows.simps [simp del]

definition dump_memory :: "string \<Rightarrow> u8 list option \<Rightarrow> string option \<Rightarrow> string" where
  "dump_memory address data title =
     (case data of None \<Rightarrow> []
      | Some bytes \<Rightarrow>
          if bytes = [] then []
          else ''=== Memory Dump: '' @ (case title of Some t \<Rightarrow> t | None \<Rightarrow> ''Unknown'') @ '' ==='' @ [CHR 0x0A]
            @ ''Address: '' @ address @ '', Size: '' @ decimal (length bytes) @ '' bytes'' @ [CHR 0x0A]
            @ concat (dump_rows bytes 0)
            @ replicate 24 CHR ''='' @ [CHR 0x0A])"

subsection \<open>format_timestamp\<close>

record local_time =
  tm_year :: int
  tm_mon :: int
  tm_mday :: int
  tm_hour :: int
  tm_min :: int
  tm_sec :: int

text \<open>\<open>localtime\<close> is the C function on seconds.\<close>

definition format_timestamp :: "(u64 \<Rightarrow> local_time option) \<Rightarrow> u64 \<Rightarrow> nat \<Rightarrow> string option" where
  "format_timestamp localtime timestamp_ns buffer_size =
     (if buffer_size = 0 then None
      else Some (take (buffer_size - 1)
        (case localtime (timestamp_ns div 1000000000) of None \<Rightarrow> ''Invalid timestamp''
         | Some tm \<Rightarrow> padded 4 (tm_year tm + 1900) @ ''-'' @ padded 2 (tm_mon tm + 1) @ ''-'' @ padded 2 (tm_mday tm) @ '' ''
             @ padded 2 (tm_hour tm) @ '':'' @ padded 2 (tm_min tm) @ '':'' @ padded 2 (tm_sec tm) @ ''.''
             @ zero_pad 9 (decimal (unat (timestamp_ns mod 1000000000))))))"

subsection \<open>Reading a dump back\<close>

definition hex_val :: "char \<Rightarrow> nat" where
  "hex_val c = (if is_digit c then digit_val c else of_char c - 87)"

fun read_cells :: "nat \<Rightarrow> string \<Rightarrow> u8 list" where
  "read_cells (Suc n) (a # b # c # s) =
     (if a = CHR '' '' then [] else [of_nat (16 * hex_val a + hex_val b)]) @ read_cells n s"
| "read_cells n s = []"

text \<open>The bytes of a row: 16 cells after the colon.\<close>

definition read_row :: "string \<Rightarrow> u8 list" where
  "read_row s = read_cells 16 (drop 2 (dropWhile (\<lambda>c. c \<noteq> CHR '':'') s))"

lemma hex_digit_facts:
  assumes "d < 16"
  shows "hex_val (hex_digit d) = d" "hex_digit d \<noteq> CHR '':''" "hex_digit d \<noteq> CHR '' ''" "isprint (hex_digit d)"
proof -
  have "(of_char (hex_digit d) :: nat) = (if d < 10 then 48 + d else 87 + d)" using assms by (simp add: hex_digit_def)
  then show "hex_val (hex_digit d) = d" "hex_digit d \<noteq> CHR '':''" "hex_digit d \<noteq> CHR '' ''" "isprint (hex_digit d)"
    using assms by (auto simp: hex_val_def is_digit_def digit_val_def isprint_def split: if_splits)
qed

lemma hexadecimal_no_colon: "list_all (\<lambda>c. c \<noteq> CHR '':'' \<and> isprint c) (hexadecimal n)"
proof (induction n rule: hexadecimal.induct)
  case (1 n)
  then show ?case by (cases "n < 16") (auto simp: hexadecimal.simps [of n] hex_digit_facts)
qed

lemma hex_padded: "c \<in> set (zero_pad w (hexadecimal n)) \<Longrightarrow> c \<noteq> CHR '':'' \<and> isprint c"
proof -
  assume "c \<in> set (zero_pad w (hexadecimal n))"
  then consider "c = CHR ''0''" | "c \<in> set (hexadecimal n)"
    unfolding zero_pad_def set_append by (metis UnE in_set_replicate)
  then show ?thesis
  proof cases
    case 1
    then show ?thesis by (simp add: isprint_def)
  next
    case 2
    then show ?thesis using hexadecimal_no_colon [of n] unfolding list_all_iff by blast
  qed
qed

lemma hex_byte:
  assumes "n < 256"
  shows "zero_pad 2 (hexadecimal n) = [hex_digit (n div 16), hex_digit (n mod 16)]"
proof (cases "n < 16")
  case True
  then show ?thesis by (simp add: zero_pad_def hexadecimal.simps [of n] hex_digit_def char_of_def bit_Suc_0_iff)
next
  case False
  then show ?thesis using assms
    by (simp add: zero_pad_def hexadecimal.simps [of n] hexadecimal.simps [of "n div 16"] less_mult_imp_div_less)
qed

lemma read_hex_cell:
  "read_cells (Suc n) (hex_cell bytes k @ s) = (if k < length bytes then [bytes ! k] else []) @ read_cells n s"
proof -
  have "unat (bytes ! k) < 256" using unsigned_less [of "bytes ! k"] by simp
  then have "16 * hex_val (hex_digit (unat (bytes ! k) div 16)) + hex_val (hex_digit (unat (bytes ! k) mod 16)) = unat (bytes ! k)"
      "zero_pad 2 (hexadecimal (unat (bytes ! k))) = [hex_digit (unat (bytes ! k) div 16), hex_digit (unat (bytes ! k) mod 16)]"
      "hex_digit (unat (bytes ! k) div 16) \<noteq> CHR '' ''"
    by (simp_all add: hex_digit_facts hex_byte less_mult_imp_div_less del: unsigned_less)
  then show ?thesis by (simp add: hex_cell_def)
qed

lemma read_hex_cells:
  "read_cells (length ks) (concat (map (hex_cell bytes) ks) @ s) = map ((!) bytes) (filter (\<lambda>k. k < length bytes) ks)"
proof (induction ks)
  case Nil
  then show ?case by (cases s) auto
qed (simp add: read_hex_cell)

lemma filter_upt_less: "filter (\<lambda>k. k < n) [i..<j] = [i..<min n j]"
  by (induction j) (auto simp: min_def not_less le_Suc_eq)

lemma read_dump_row: "read_row (dump_row bytes i) = take 16 (drop i bytes)"
proof -
  have c: "\<forall>c\<in>set (zero_pad 8 (hexadecimal i)). c \<noteq> CHR '':''"
    using hex_padded by blast
  obtain s where s: "s = '' '' @ map ascii_cell (take 16 (drop i bytes)) @ [CHR 0x0A]" by blast
  have cells: "concat (map (\<lambda>j. hex_cell bytes (i + j)) [0..<16]) = concat (map (hex_cell bytes) [i..<i + 16])"
    by (rule arg_cong [of _ _ concat]) (rule nth_equalityI; simp)
  have "read_row (dump_row bytes i) = read_cells 16 (concat (map (hex_cell bytes) [i..<i + 16]) @ s)"
    using c by (simp add: read_row_def dump_row_def dropWhile_append2 cells s del: upt_Suc)
  also have "\<dots> = map ((!) bytes) [i..<min (length bytes) (i + 16)]"
    using read_hex_cells [of "[i..<i + 16]" bytes s] by (simp add: filter_upt_less)
  also have "\<dots> = take 16 (drop i bytes)"
  proof (rule nth_equalityI)
    obtain m where m: "m = min (length bytes) (i + 16)" by blast
    have "map ((!) bytes) [i..<m] ! k = take 16 (drop i bytes) ! k" if "k < m - i" for k
    proof -
      have "i + k < m" using that by simp
      then have "[i..<m] ! k = i + k" "k < 16" "i \<le> length bytes" by (simp_all add: m)
      then show ?thesis using that by simp
    qed
    then show "map ((!) bytes) [i..<min (length bytes) (i + 16)] ! k = take 16 (drop i bytes) ! k"
      if "k < length (map ((!) bytes) [i..<min (length bytes) (i + 16)])" for k
      using that by (simp add: m)
  qed simp
  finally show ?thesis .
qed

lemma read_dump_rows: "concat (map read_row (dump_rows bytes i)) = drop i bytes"
proof (induction bytes i rule: dump_rows.induct)
  case (1 bytes i)
  show ?case
  proof (cases "i < length bytes")
    case True
    have "take 16 (drop i bytes) @ drop (i + 16) bytes = drop i bytes"
      using append_take_drop_id [of 16 "drop i bytes"] by (simp add: add.commute)
    then show ?thesis using 1 True by (simp add: dump_rows.simps [of bytes i] read_dump_row)
  qed (simp add: dump_rows.simps)
qed

lemma length_dump_rows: "length (dump_rows bytes i) = (length bytes - i + 15) div 16"
proof (induction bytes i rule: dump_rows.induct)
  case (1 bytes i)
  show ?case
  proof (cases "i < length bytes")
    case True
    then obtain r where r: "length bytes - i = Suc r" by (metis Suc_diff_Suc)
    then have "length bytes - (i + 16) + 15 = (if r < 15 then 15 else r)" by auto
    then show ?thesis using 1 True r by (auto simp: dump_rows.simps [of bytes i])
  qed (simp add: dump_rows.simps)
qed

lemma dump_row_prints: "list_all isprint (butlast (dump_row bytes i))"
proof -
  have z: "list_all isprint (zero_pad w (hexadecimal n))" for w n
    unfolding list_all_iff using hex_padded by blast
  have p: "isprint CHR '' ''" "isprint CHR '':''" by (simp_all add: isprint_def)
  have "list_all isprint (hex_cell bytes k)" for k using z [of 2 "unat (bytes ! k)"] p by (simp add: hex_cell_def)
  then have "list_all isprint (concat (map (\<lambda>j. hex_cell bytes (i + j)) ks))" for ks by (induction ks) auto
  moreover have "isprint (ascii_cell b)" for b by (simp add: ascii_cell_def Let_def isprint_def)
  then have "list_all isprint (map ascii_cell bs)" for bs by (induction bs) auto
  ultimately show ?thesis using z [of 8 i] p
    unfolding dump_row_def append_assoc [symmetric] butlast_snoc by simp
qed

text \<open>The rows \<open>dump_memory\<close> prints carry every byte of the memory, in order and once; there is one row for each 16
  bytes begun, and a row has only printable characters before its end, whatever the bytes.
\<close>

theorem dump_memory_readable:
  "concat (map read_row (dump_rows bytes 0)) = bytes
   \<and> length (dump_rows bytes 0) = (length bytes + 15) div 16
   \<and> list_all (\<lambda>r. list_all isprint (butlast r)) (dump_rows bytes 0)"
proof -
  have "list_all (\<lambda>r. list_all isprint (butlast r)) (dump_rows bytes i)" for i
  proof (induction bytes i rule: dump_rows.induct)
    case (1 bytes i)
    then show ?case by (cases "i < length bytes") (simp_all add: dump_rows.simps [of bytes i] dump_row_prints)
  qed
  then show ?thesis using read_dump_rows [of bytes 0] length_dump_rows [of bytes 0] by simp
qed

subsection \<open>Reading a time stamp back\<close>

lemma number_of_zeros: "number_of (replicate k CHR ''0'' @ ds) = number_of ds"
proof (induction k)
  case (Suc k)
  then show ?case by (simp add: number_of_def digit_val_def)
qed simp

lemma padded_field:
  assumes "n < 10 ^ Suc k"
  shows "length (zero_pad (Suc k) (decimal n)) = Suc k" "number_of (zero_pad (Suc k) (decimal n)) = n"
  using length_decimal [OF assms] by (simp_all add: zero_pad_def number_of_zeros)

text \<open>A date and time as \<^verbatim>\<open>localtime\<close> gives it, of the years 0 to 9999.\<close>

definition calendar_time :: "local_time \<Rightarrow> bool" where
  "calendar_time t \<longleftrightarrow> - 1900 \<le> tm_year t \<and> tm_year t < 8100 \<and> 0 \<le> tm_mon t \<and> tm_mon t < 12 \<and> 1 \<le> tm_mday t \<and> tm_mday t < 32
     \<and> 0 \<le> tm_hour t \<and> tm_hour t < 24 \<and> 0 \<le> tm_min t \<and> tm_min t < 60 \<and> 0 \<le> tm_sec t \<and> tm_sec t < 61"

text \<open>In a buffer of at least 30 bytes \<open>format_timestamp\<close> writes 29 characters for every date up to the year 9999,
  and each column reads back as its field, the last one as the nanoseconds within the second.
\<close>

theorem timestamp_columns:
  assumes "localtime (ns div 1000000000) = Some t" "calendar_time t" "30 \<le> buffer_size"
  shows "\<exists>s. format_timestamp localtime ns buffer_size = Some s \<and> length s = 29
       \<and> int (number_of (take 4 s)) = tm_year t + 1900 \<and> int (number_of (take 2 (drop 5 s))) = tm_mon t + 1
       \<and> int (number_of (take 2 (drop 8 s))) = tm_mday t \<and> int (number_of (take 2 (drop 11 s))) = tm_hour t
       \<and> int (number_of (take 2 (drop 14 s))) = tm_min t \<and> int (number_of (take 2 (drop 17 s))) = tm_sec t
       \<and> number_of (drop 20 s) = unat ns mod 1000000000"
proof -
  have f: "padded (Suc k) i = zero_pad (Suc k) (decimal (nat i))
        \<and> length (zero_pad (Suc k) (decimal (nat i))) = Suc k \<and> int (number_of (zero_pad (Suc k) (decimal (nat i)))) = i"
    if "0 \<le> i" "i < 10 ^ Suc k" for i k
  proof -
    have "nat i < 10 ^ Suc k" using that by (simp add: nat_less_iff)
    then show ?thesis using padded_field [of "nat i" k] that(1) by (simp add: padded_def)
  qed
  obtain y mo d h mi sec where t: "padded 4 (tm_year t + 1900) = y" "padded 2 (tm_mon t + 1) = mo" "padded 2 (tm_mday t) = d"
    "padded 2 (tm_hour t) = h" "padded 2 (tm_min t) = mi" "padded 2 (tm_sec t) = sec" by blast
  have c: "length y = 4 \<and> int (number_of y) = tm_year t + 1900" "length mo = 2 \<and> int (number_of mo) = tm_mon t + 1"
    "length d = 2 \<and> int (number_of d) = tm_mday t" "length h = 2 \<and> int (number_of h) = tm_hour t"
    "length mi = 2 \<and> int (number_of mi) = tm_min t" "length sec = 2 \<and> int (number_of sec) = tm_sec t"
    using assms(2) t f [of "tm_year t + 1900" 3] f [of "tm_mon t + 1" 1] f [of "tm_mday t" 1] f [of "tm_hour t" 1]
      f [of "tm_min t" 1] f [of "tm_sec t" 1]
    by (simp_all add: calendar_time_def numeral_2_eq_2 numeral_eq_Suc)
  obtain n where n: "zero_pad 9 (decimal (unat (ns mod 1000000000))) = n" by blast
  have nn: "length n = 9" "number_of n = unat ns mod 1000000000"
    using padded_field [of "unat ns mod 1000000000" 8] n by (simp_all add: unat_mod)
  have "format_timestamp localtime ns buffer_size
      = Some (take (buffer_size - 1) (y @ ''-'' @ mo @ ''-'' @ d @ '' '' @ h @ '':'' @ mi @ '':'' @ sec @ ''.'' @ n))"
    using assms(1,3) t n by (simp add: format_timestamp_def)
  moreover have "take (buffer_size - 1) (y @ ''-'' @ mo @ ''-'' @ d @ '' '' @ h @ '':'' @ mi @ '':'' @ sec @ ''.'' @ n)
      = y @ ''-'' @ mo @ ''-'' @ d @ '' '' @ h @ '':'' @ mi @ '':'' @ sec @ ''.'' @ n"
    by (rule take_all) (use c nn assms(3) in simp)
  ultimately show ?thesis using c nn
    by (intro exI [of _ "y @ ''-'' @ mo @ ''-'' @ d @ '' '' @ h @ '':'' @ mi @ '':'' @ sec @ ''.'' @ n"]) simp
qed

theorem timestamp_columns_witness:
  "\<exists>s. format_timestamp (\<lambda>_. Some \<lparr>tm_year = 124, tm_mon = 1, tm_mday = 29, tm_hour = 23, tm_min = 5, tm_sec = 0\<rparr>)
         1709247900000000042 32 = Some s \<and> length s = 29 \<and> number_of (take 4 s) = 2024 \<and> number_of (drop 20 s) = 42"
proof -
  let ?t = "\<lparr>tm_year = 124, tm_mon = 1, tm_mday = 29, tm_hour = 23, tm_min = 5, tm_sec = 0\<rparr>"
  have "(\<lambda>_::u64. Some ?t) (1709247900000000042 div 1000000000) = Some ?t" "calendar_time ?t" "(30::nat) \<le> 32"
    by (simp_all add: calendar_time_def)
  from timestamp_columns [where ns = 1709247900000000042, OF this] show ?thesis by auto
qed

end
