(* ===== verification/Signals.thy ===== *)
theory Signals
  imports Process_Pool
begin

text \<open>
  The signals of the process pools: what \<^verbatim>\<open>setup_master_signals\<close> and \<^verbatim>\<open>setup_worker_signals\<close> of \<^verbatim>\<open>ProcessPool\<close> and
  \<^verbatim>\<open>setup_worker_signals\<close> of \<^verbatim>\<open>new_ProcessPool/src/core/worker.c\<close> install, and what a process does with a signal afterwards.
  A handler runs when the signal arrives; that it may interrupt the code anywhere does not matter, since a handler only sets
  a flag. The answers of \<^verbatim>\<open>sigaction\<close> are arguments.
\<close>

definition SIGKILL :: int where "SIGKILL = 9"
definition SIGUSR1 :: int where "SIGUSR1 = 10"
definition SIGUSR2 :: int where "SIGUSR2 = 12"
definition SIGPIPE :: int where "SIGPIPE = 13"
definition SIGCHLD :: int where "SIGCHLD = 17"

lemmas signal_numbers = SIGINT_def SIGTERM_def SIGKILL_def SIGUSR1_def SIGUSR2_def SIGPIPE_def SIGCHLD_def

datatype handler_fun = MasterHandler | PoolWorkerHandler | WorkerHandler

datatype disposition = DefaultAction | Ignored | Handled handler_fun

text \<open>A process, with the flags \<^verbatim>\<open>pool_should_exit\<close> and \<^verbatim>\<open>worker_should_exit\<close> of the older pool.\<close>

record proc =
  pr_disp :: "int \<Rightarrow> disposition"
  pr_alive :: bool
  pr_pool_exit :: bool
  pr_worker_exit :: bool

subsection \<open>Handlers and their installation\<close>

definition pool_worker_signal_handler :: "int \<Rightarrow> bool \<Rightarrow> bool" where
  "pool_worker_signal_handler sig flag = (if sig = SIGTERM \<or> sig = SIGINT then True else flag)"

text \<open>The handler of the newer worker: every case of its switch is empty.\<close>

definition worker_signal_handler :: "int \<Rightarrow> proc \<Rightarrow> proc" where
  "worker_signal_handler sig p = p"

text \<open>Calls of \<^verbatim>\<open>sigaction\<close> one after the other, up to the first that fails.\<close>

fun sigactions :: "(int \<times> disposition \<times> bool) list \<Rightarrow> proc \<Rightarrow> int \<times> proc" where
  "sigactions [] p = (0, p)"
| "sigactions ((sig, d, ok) # calls) p =
     (if \<not> ok then (- 1, p) else sigactions calls (p\<lparr>pr_disp := (pr_disp p)(sig := d)\<rparr>))"

definition setup_master_signals :: "bool \<Rightarrow> bool \<Rightarrow> bool \<Rightarrow> bool \<Rightarrow> proc \<Rightarrow> int \<times> proc" where
  "setup_master_signals a b c d = sigactions
     [(SIGTERM, Handled MasterHandler, a), (SIGINT, Handled MasterHandler, b), (SIGCHLD, Handled MasterHandler, c),
      (SIGPIPE, Ignored, d)]"

definition setup_pool_worker_signals :: "bool \<Rightarrow> bool \<Rightarrow> bool \<Rightarrow> proc \<Rightarrow> int \<times> proc" where
  "setup_pool_worker_signals a b c = sigactions
     [(SIGTERM, Handled PoolWorkerHandler, a), (SIGINT, Handled PoolWorkerHandler, b), (SIGPIPE, Ignored, c)]"

text \<open>The newer worker; the last call, \<^verbatim>\<open>signal\<close>, is not checked.\<close>

definition setup_worker_signals :: "bool \<Rightarrow> bool \<Rightarrow> bool \<Rightarrow> bool \<Rightarrow> proc \<Rightarrow> int \<times> proc" where
  "setup_worker_signals a b c d p =
     (case sigactions [(SIGTERM, Handled WorkerHandler, a), (SIGINT, Handled WorkerHandler, b),
         (SIGUSR1, Handled WorkerHandler, c), (SIGUSR2, Handled WorkerHandler, d)] p of
        (r, p') \<Rightarrow> if r = - 1 then (- 1, p') else (0, p'\<lparr>pr_disp := (pr_disp p')(SIGPIPE := Ignored)\<rparr>))"

subsection \<open>Delivery\<close>

text \<open>\<^verbatim>\<open>SIGKILL\<close> cannot be caught; of the signals used here only \<^verbatim>\<open>SIGCHLD\<close> is harmless by default.\<close>

definition deliver :: "int \<Rightarrow> proc \<Rightarrow> proc" where
  "deliver sig p =
     (if \<not> pr_alive p then p
      else if sig = SIGKILL then p\<lparr>pr_alive := False\<rparr>
      else case pr_disp p sig of
             DefaultAction \<Rightarrow> if sig = SIGCHLD then p else p\<lparr>pr_alive := False\<rparr>
           | Ignored \<Rightarrow> p
           | Handled MasterHandler \<Rightarrow> p\<lparr>pr_pool_exit := master_signal_handler sig (pr_pool_exit p)\<rparr>
           | Handled PoolWorkerHandler \<Rightarrow> p\<lparr>pr_worker_exit := pool_worker_signal_handler sig (pr_worker_exit p)\<rparr>
           | Handled WorkerHandler \<Rightarrow> worker_signal_handler sig p)"

text \<open>A process with the default dispositions.\<close>

definition fresh_proc :: proc where
  "fresh_proc = \<lparr>pr_disp = (\<lambda>_. DefaultAction), pr_alive = True, pr_pool_exit = False, pr_worker_exit = False\<rparr>"

subsection \<open>Who reacts to the request to exit\<close>

lemma setup_worker_disp:
  assumes "setup_worker_signals a b c d p = (0, p')"
  shows "p' = p\<lparr>pr_disp := (pr_disp p)(SIGTERM := Handled WorkerHandler, SIGINT := Handled WorkerHandler,
      SIGUSR1 := Handled WorkerHandler, SIGUSR2 := Handled WorkerHandler, SIGPIPE := Ignored)\<rparr>"
  using assms by (auto simp: setup_worker_signals_def split: if_splits)

lemma setup_pool_worker_disp:
  assumes "setup_pool_worker_signals a b c p = (0, p')"
  shows "p' = p\<lparr>pr_disp := (pr_disp p)(SIGTERM := Handled PoolWorkerHandler, SIGINT := Handled PoolWorkerHandler,
      SIGPIPE := Ignored)\<rparr>"
  using assms by (auto simp: setup_pool_worker_signals_def split: if_splits)

lemma setup_master_disp:
  assumes "setup_master_signals a b c d p = (0, p')"
  shows "p' = p\<lparr>pr_disp := (pr_disp p)(SIGTERM := Handled MasterHandler, SIGINT := Handled MasterHandler,
      SIGCHLD := Handled MasterHandler, SIGPIPE := Ignored)\<rparr>"
  using assms by (auto simp: setup_master_signals_def split: if_splits)

text \<open>A worker of the newer pool that installed its handlers does not react at all to the signals it handles: whatever
  sequence arrives, \<^verbatim>\<open>SIGTERM\<close> included, it goes on unchanged; only \<^verbatim>\<open>SIGKILL\<close> ends it.
\<close>

theorem worker_survives_sigterm:
  assumes "setup_worker_signals a b c d p = (0, p')" "pr_alive p"
    "set sigs \<subseteq> {SIGTERM, SIGINT, SIGUSR1, SIGUSR2, SIGPIPE}"
  shows "fold deliver sigs p' = p' \<and> pr_alive p' \<and> \<not> pr_alive (fold deliver (sigs @ [SIGKILL]) p')"
proof -
  have p: "pr_alive p'" using assms(2) setup_worker_disp [OF assms(1)] by simp
  have "deliver sig p' = p'" if "sig \<in> {SIGTERM, SIGINT, SIGUSR1, SIGUSR2, SIGPIPE}" for sig
    using that setup_worker_disp [OF assms(1)] by (auto simp: deliver_def worker_signal_handler_def signal_numbers)
  then have "fold deliver sigs p' = p'" using assms(3) by (induction sigs) auto
  then show ?thesis using p by (simp add: deliver_def)
qed

theorem worker_survives_sigterm_witness:
  "\<exists>p'. setup_worker_signals True True True True fresh_proc = (0, p') \<and> fold deliver [SIGTERM, SIGINT] p' = p'"
proof -
  obtain p' where p: "setup_worker_signals True True True True fresh_proc = (0, p')" by (simp add: setup_worker_signals_def)
  have "pr_alive fresh_proc" "set [SIGTERM, SIGINT] \<subseteq> {SIGTERM, SIGINT, SIGUSR1, SIGUSR2, SIGPIPE}"
    by (simp_all add: fresh_proc_def)
  from worker_survives_sigterm [OF p this] p show ?thesis by blast
qed

text \<open>A worker of the older pool, once its handlers are in place, stays alive under every sequence of \<^verbatim>\<open>SIGTERM\<close>, \<^verbatim>\<open>SIGINT\<close>
  and \<^verbatim>\<open>SIGPIPE\<close> and has been told to exit exactly when one of the first two was among them.
\<close>

theorem pool_worker_told_to_exit:
  assumes "setup_pool_worker_signals a b c p = (0, p')" "pr_alive p" "\<not> pr_worker_exit p"
    "set sigs \<subseteq> {SIGTERM, SIGINT, SIGPIPE}"
  shows "pr_alive (fold deliver sigs p')
       \<and> (pr_worker_exit (fold deliver sigs p') \<longleftrightarrow> SIGTERM \<in> set sigs \<or> SIGINT \<in> set sigs)"
proof -
  have "pr_disp (fold deliver sigs p') = pr_disp p' \<and> pr_alive (fold deliver sigs p')
       \<and> (pr_worker_exit (fold deliver sigs p') \<longleftrightarrow> SIGTERM \<in> set sigs \<or> SIGINT \<in> set sigs)"
    using assms(4)
  proof (induction sigs rule: rev_induct)
    case Nil
    then show ?case using assms(2,3) setup_pool_worker_disp [OF assms(1)] by simp
  next
    case (snoc sig sigs)
    then show ?case using setup_pool_worker_disp [OF assms(1)]
      by (auto simp: deliver_def pool_worker_signal_handler_def signal_numbers)
  qed
  then show ?thesis by simp
qed

theorem pool_worker_told_to_exit_witness:
  "\<exists>p'. setup_pool_worker_signals True True True fresh_proc = (0, p')
      \<and> pr_worker_exit (fold deliver [SIGPIPE, SIGTERM] p') \<and> \<not> pr_worker_exit (fold deliver [SIGPIPE] p')"
proof -
  obtain p' where p: "setup_pool_worker_signals True True True fresh_proc = (0, p')" by (simp add: setup_pool_worker_signals_def)
  have f: "pr_alive fresh_proc" "\<not> pr_worker_exit fresh_proc" by (simp_all add: fresh_proc_def)
  from pool_worker_told_to_exit [OF p f, of "[SIGPIPE, SIGTERM]"] pool_worker_told_to_exit [OF p f, of "[SIGPIPE]"] p
  show ?thesis by (auto simp: signal_numbers)
qed

text \<open>A worker of the older pool is forked by a master that has its own handlers in place. A request to exit that arrives before
  the worker has installed its handlers sets the flag of the master's handler in the child, which no worker reads: the
  worker then runs on as if it had not been told.
\<close>

theorem early_sigterm_lost:
  assumes "setup_master_signals a b c d p = (0, master)" "pr_alive p" "\<not> pr_worker_exit p"
    "setup_pool_worker_signals e f g (deliver SIGTERM master) = (0, child)"
  shows "pr_alive child \<and> \<not> pr_worker_exit child \<and> pr_pool_exit child"
proof -
  have "deliver SIGTERM master = master\<lparr>pr_pool_exit := True\<rparr>"
    using setup_master_disp [OF assms(1)] assms(2) by (simp add: deliver_def master_signal_handler_def signal_numbers)
  then show ?thesis using setup_pool_worker_disp [OF assms(4)] setup_master_disp [OF assms(1)] assms(2,3) by simp
qed

theorem early_sigterm_lost_witness:
  "\<exists>master child. setup_master_signals True True True True fresh_proc = (0, master)
     \<and> setup_pool_worker_signals True True True (deliver SIGTERM master) = (0, child) \<and> \<not> pr_worker_exit child"
proof -
  obtain master where m: "setup_master_signals True True True True fresh_proc = (0, master)" by (simp add: setup_master_signals_def)
  obtain child where c: "setup_pool_worker_signals True True True (deliver SIGTERM master) = (0, child)"
    by (simp add: setup_pool_worker_signals_def)
  have "pr_alive fresh_proc" "\<not> pr_worker_exit fresh_proc" by (simp_all add: fresh_proc_def)
  from early_sigterm_lost [OF m this c] m c show ?thesis by blast
qed

end
