(* ===== verification/Spec2Isabelle.thy ===== *)
theory Spec2Isabelle
  imports Spsc_Queue Pool_Manager Thread_Pool Process_Pool Metrics_Recording Utils_Numeric Utils_Strings Event_Loop
    Train_Transfer Oo_Thread_Pool Wd_Thread_Pool Cpp_Task_Pool Wd_Process_Pool Wd_Send_File
    Benchmarks Metrics_Summary Diagnostics Signals
begin

text \<open>
  Process pools and thread pools in C and C++: a verification development.

  \<^bold>\<open>The program.\<close> The repository holds several generations of the same idea, a fixed set of workers that
  take tasks from a queue:

  \<^item> \<^verbatim>\<open>new_ProcessPool\<close>: a library with a pool of worker processes. A task manager hands out tasks from a
    preallocated pool of nodes, a lock-free ring queue carries their identifiers, worker processes are
    driven over event descriptors and a shared-memory message queue, and an event loop ties the parts
    together; metrics and utilities serve all of them.
  \<^item> \<^verbatim>\<open>ProcessPool\<close>: the older pool of processes, driven over pipes by a master loop around \<^verbatim>\<open>select\<close>.
  \<^item> \<^verbatim>\<open>new_CPP_ThreadPool\<close>: a pool of threads in C (\<^verbatim>\<open>BO_threadPool\<close>) and one in C++ (\<^verbatim>\<open>OO_threadPool\<close>).
  \<^item> \<^verbatim>\<open>CPP_ThreadPool\<close>: the first thread pool in C++, in an object-oriented version and one with function objects.
  \<^item> \<^verbatim>\<open>wd_ThreadPool\<close>: a file server with a pool of threads, and its client; \<^verbatim>\<open>wd_ProcessPool\<close>: one with a pool of processes.

  \<^bold>\<open>Theories.\<close> Each theory models the files named, function by function, under the names of the source.

  \<^item> \<open>Pool_Prelude\<close>: words, outcomes of operations, error codes, ring buffers as lists, bytes, sums over threads.
  \<^item> \<open>Bounded_Queue\<close>: the contract of a task queue, a locale over enqueue, dequeue, contents, invariant and bound.
    In it are proved the agreement of any sequence of calls with a list, the order and the conservation of
    the elements. Six queues of the repository interpret it, with different representations: the
    lock-free ring (\<open>lfq\<close>), the ring of messages in shared memory (\<open>shmq\<close>), the ring of the C thread pool (\<open>tpq\<close>),
    the ring of the older process pool (\<open>ppq\<close>), the linked list in a heap (\<open>wdq\<close>) and the \<^verbatim>\<open>std::queue\<close> with a capacity (\<open>ctq\<close>).
  \<^item> \<open>Cond_Var\<close>: the contract of a condition variable whose clients signal once for each unit they make available; both
    condition variables of \<open>Cpp_Task_Pool\<close> interpret it.
  \<^item> \<open>Lockfree_Queue\<close>, \<open>Spsc_Queue\<close>: \<^verbatim>\<open>core/lockfree_queue.c\<close>, one call at a time at 32 bits, and interleaved with one
    step per atomic access.
  \<^item> \<open>Task_Manager\<close>: \<^verbatim>\<open>core/task_manager.c\<close>; the node pool with its free list, reference counts, states,
    results, futures, batches.
  \<^item> \<open>Shared_Memory\<close>, \<open>Eventfd\<close>: \<^verbatim>\<open>ipc/shared_memory.c\<close> over a memory of bytes, \<^verbatim>\<open>ipc/eventfd_utils.c\<close> over the kernel's
    counters.
  \<^item> \<open>Worker\<close>, \<open>Pool_Manager\<close>, \<open>Event_Loop\<close>: \<^verbatim>\<open>core/worker.c\<close>, \<^verbatim>\<open>core/pool_manager.c\<close>, \<^verbatim>\<open>core/event_loop.c\<close>; they use the
    operations of the theories above, as the C code does. The state of a pool is a record of those states.
  \<^item> \<open>Metrics\<close>, \<open>Metrics_Recording\<close>: \<^verbatim>\<open>utils/metrics.c\<close>; the three registries share the locale \<open>name_registry\<close>, and the
    concurrent recording of latencies is a step relation with one step per atomic access.
  \<^item> \<open>Utils_Numeric\<close>, \<open>Utils_Strings\<close>: \<^verbatim>\<open>utils/utils.c\<close>.
  \<^item> \<open>Pipe_Io\<close>, \<open>Process_Pool\<close>: the older pool, \<^verbatim>\<open>ProcessPool/utils.c\<close>, \<^verbatim>\<open>worker.c\<close> and \<^verbatim>\<open>process_pool.c\<close>. \<open>Signals\<close>:
    the handlers that the masters and workers of both process pools install.
  \<^item> \<open>Thread_Pool\<close>: \<^verbatim>\<open>new_CPP_ThreadPool/BO_threadPool/threadpool.c\<close>. \<open>Oo_Thread_Pool\<close>:
    \<^verbatim>\<open>new_CPP_ThreadPool/OO_threadPool/ThreadPool.cpp\<close> and \<^verbatim>\<open>.h\<close>.
  \<^item> \<open>Cpp_Task_Pool\<close>: \<^verbatim>\<open>TaskQueue.cpp\<close> and \<^verbatim>\<open>ThreadPool.cpp\<close> of both versions of \<^verbatim>\<open>CPP_ThreadPool\<close>.
  \<^item> \<open>Wd_Thread_Pool\<close>, \<open>Train_Transfer\<close>: \<^verbatim>\<open>wd_ThreadPool/server\<close>; its pool, and the transfer of a file from the server to
    the client byte by byte.
  \<^item> \<open>Wd_Process_Pool\<close>, \<open>Wd_Send_File\<close>: \<^verbatim>\<open>wd_ProcessPool\<close>; the parent, its sons and the messages between them, and the transfer of
    a file.
  \<^item> \<open>Benchmarks\<close>: \<^verbatim>\<open>queue_benchmark\<close> and \<^verbatim>\<open>shm_benchmark\<close>, which drive the operations of the two queues above.
  \<^item> \<open>Decimal_Text\<close>, \<open>Metrics_Json\<close>, \<open>Proc_Stats\<close>, \<open>Metrics_Summary\<close>: numbers as text; the JSON report of \<^verbatim>\<open>utils/metrics.c\<close> with
    a reader for it, its reading of \<^verbatim>\<open>/proc\<close>, its printed report. \<open>Diagnostics\<close>: the memory dump and the time stamps of \<^verbatim>\<open>utils/utils.c\<close>.

  \<^bold>\<open>How code becomes a definition.\<close> A struct is a record, an enumeration a datatype, a fixed-width integer a word or
  an integer with its wrap-around written out. An operation is a function from a state to a result and
  a state; \<open>Done\<close>, \<open>Fault\<close> and the blocking outcome of \<open>Pool_Prelude\<close> tell apart a return, a step that C leaves undefined
  (a dereference of a null or freed pointer, an access out of bounds) and a call that never returns.
  Threads are a step relation on a state with a program counter for each thread; a critical section is one
  step where every access to its data is made under the lock, otherwise each atomic access is a step. Waiting on a
  condition variable gives the mutex up; a wake-up, one to any waiter for a signal, leads back to it, and so
  does a spurious one. Interleavings are sequentially consistent.

  \<^bold>\<open>The environment.\<close> What the operating system decides is an argument: whether an allocation, a fork or the creation of a
  thread succeeds, what a read delivers and how many bytes, which clock value is read. A loop around
  such calls takes the list of their outcomes, one per round, and the recursion is structural
  on it; when the list ends in the middle of the loop the result says that the call has not returned, so
  a bound is never silently a success. Where a loop returns for every long enough list this is proved (the stopping of
  workers, the transfer of a train). Functions that sources call and no file defines
  (\<^verbatim>\<open>is_power_of_2\<close>, \<^verbatim>\<open>memory_pool_init\<close>, \<^verbatim>\<open>stats_update\<close>, the \<^verbatim>\<open>METRICS_MAX_*\<close> constants, seven functions of the event loop) are
  parameters.

  \<^bold>\<open>What is shown.\<close>

  \<^item> Queues: refinement of a bounded list by every queue, batches against one-by-one calls, no loss, duplication or
    reordering under one producer and one consumer, and how two producers lose a task.
  \<^item> Memory: nodes, results and blocks are freed exactly once, failed creations undo what they did, in the task
    manager, the workers, the pools, the event loop and the shared memory.
  \<^item> Thread pools: order, conservation, absence of lost wake-ups, progress, shutdown that ends and what it drops,
    and the interleavings in which a caller waits for ever.
  \<^item> Process pools: dispatch conserves tasks, workers serve in order, stopping and destroying reaps every
    child, restarting and its descriptor mistake.
  \<^item> Wire formats: records over pipes, messages in shared memory and trains over a socket come out as they went
    in, for every split of the bytes.
  \<^item> Metrics and utilities: type invariant of the registry, linear recording under concurrency, brackets of
    percentiles, overflow tests of the allocators, bounds of strings and log lines; reports, dumps and time stamps read
    back as what they were written from, and where they do not.

  \<^bold>\<open>Layout of a theory.\<close> Definitions first, then the lemmas of each group, then properties with a witness at a concrete input. An
  invariant of a step relation is a conjunction of predicates on parts of the state, with one lemma for each kind of
  change; the lemma for a step is a case analysis over those.

  The properties that need several components stand with the last of them: \<open>Event_Loop\<close> for the submission of tasks,
  \<open>Pool_Manager\<close> for starting and stopping a pool, and the end of this theory for the way of an event from the pool's
  metrics to the report.

  \<^bold>\<open>Not modelled.\<close> The text of some log lines and error messages, names of processes and threads, one-line wrappers of system calls, socket
  and \<^verbatim>\<open>epoll\<close> set-up, floating-point rounding (doubles are exact reals) and weak memory are left out. The
  tests, examples and build files only call or configure the modelled code. \<^verbatim>\<open>My_ThreadPool\<close> declares \<^verbatim>\<open>addTask\<close>
  and \<^verbatim>\<open>notifyAll\<close> without defining them and does not compile.
\<close>

subsection \<open>From the events of a pool to its report\<close>

lemma execution_times_le: "length (execution_times evs) \<le> length evs"
  unfolding execution_times_def by (induction evs) (auto split: pool_event.split)

lemma unat_count: "k \<le> length evs \<Longrightarrow> length evs < 2 ^ 64 \<Longrightarrow> unat (of_nat k :: u64) = k"
  by (simp add: unat_of_nat)

lemma record_latencies_name: "lt_name (fold record_latency vs t) = lt_name t"
  by (induction vs arbitrary: t) (simp_all add: record_latency_name)

lemma counter_register_start: "mx_start_time (snd (metrics_counter_register l now nm m)) = mx_start_time m"
  by (auto simp: metrics_counter_register_def split: option.split prod.split)

lemma latency_register_start: "mx_start_time (snd (metrics_latency_register l now nm m)) = mx_start_time m"
  by (auto simp: metrics_latency_register_def split: option.split prod.split)

lemma init_pool_metrics_start:
  "metrics_init_pool_metrics l now m = (pm, m') \<Longrightarrow> mx_start_time m' = mx_start_time m"
  using counter_register_start latency_register_start
  by (auto simp: metrics_init_pool_metrics_def split: prod.splits) (metis snd_conv)

lemma pool_events_start: "mx_start_time (fold (pool_event_step pool_ids) evs m) = mx_start_time m"
proof (induction evs arbitrary: m)
  case (Cons ev evs)
  then show ?case by (cases ev) (simp_all add: pool_event_defs Let_def)
qed simp

text \<open>C22. From initialisation to report: after \<open>metrics_init\<close> and \<open>metrics_init_pool_metrics\<close>, any sequence of fewer than
  \<open>2 ^ 64\<close> task and worker events leaves a JSON report that reads as the true number of each event, with
  no counter left out or swapped, the statistics of exactly the recorded times, and the time since initialisation.
\<close>

theorem pool_report_end_to_end:
  assumes "\<not> mx_initialized m" "metrics_init True inits t0 (m, []) = (0, m1, mutexes)"
    "6 \<le> ml_counters l" "2 \<le> ml_latencies l" "metrics_init_pool_metrics l t1 m1 = (pm, m2)" "length evs < 2 ^ 64"
  shows "json_parse (metrics_export_json True now u (fold (pool_event_step pm) evs m2)) = Some (JObj
     [(''timestamp'', JNum (unat now)), (''uptime_ns'', JNum (unat (now - t0))),
      (''counters'', JObj
        [(''tasks_submitted'', JNum (count_list evs EvSubmitted)), (''tasks_completed'', JNum (length (execution_times evs))),
         (''tasks_failed'', JNum (count_list evs EvFailed)), (''tasks_cancelled'', JNum (count_list evs EvCancelled)),
         (''workers_created'', JNum (count_list evs EvWorkerCreated)),
         (''workers_destroyed'', JNum (count_list evs EvWorkerDestroyed))]),
      (''latencies'', JObj
        [latency_json ''task_execution_time''
           (tracker_stats (fold record_latency (execution_times evs) (fresh_tracker t1 ''task_execution_time''))),
         latency_json ''task_queue_time''
           (tracker_stats (fold record_latency (queue_times evs) (fresh_tracker t1 ''task_queue_time'')))]),
      (''resource_usage'', usage_json u)])"
proof -
  have m1: "m1 = zero_metrics\<lparr>mx_start_time := t0, mx_initialized := True\<rparr>"
    using assms(1,2) by (auto simp: metrics_init_def split: prod.splits if_splits)
  then have z: "mx_initialized m1" "mx_counters m1 = []" "mx_latencies m1 = []" "mx_start_time m1 = t0"
    by (simp_all add: zero_metrics_def)
  obtain m' where m': "metrics_init_pool_metrics l t1 m1 = (pool_ids, m')" "mx_initialized m'"
    "mx_counters m' = map (\<lambda>nm. \<lparr>ct_value = 0, ct_reset_time = t1, ct_name = nm\<rparr>)
       [''tasks_submitted'', ''tasks_completed'', ''tasks_failed'', ''tasks_cancelled'', ''workers_created'',
        ''workers_destroyed'']"
    "mx_latencies m' = [fresh_tracker t1 ''task_execution_time'', fresh_tracker t1 ''task_queue_time'']"
    using metrics_init_pool_metrics_ids [OF z(1-3) assms(3,4)] by blast
  then have pm: "pm = pool_ids" "m2 = m'" using assms(5) by simp_all
  obtain w where w: "w = fold (pool_event_step pool_ids) evs m'" by blast
  have start: "mx_start_time w = t0"
    unfolding w using init_pool_metrics_start [OF m'(1)] z(4) by (simp add: pool_events_start)
  note r = pool_event_run [OF m'(2) m'(3) [unfolded list.map] m'(4), of evs, folded w]
  have names: "plain_names w"
    using r by (simp add: plain_names_def plain_latencies_def bump_def record_latencies_name fresh_tracker_def plain_char_def)
  have n: "unat (of_nat (count_list evs ev) :: u64) = count_list evs ev" for ev
    by (rule unat_count [OF count_le_length assms(6)])
  from json_parse_export [OF _ names, of now u] r show ?thesis
    using start assms(6) execution_times_le [of evs]
    by (simp add: pm w [symmetric] metrics_json_def json_u64_def bump_def record_latencies_name fresh_tracker_def unat_count n)
qed

theorem pool_report_end_to_end_witness:
  "\<exists>pm m2. metrics_init_pool_metrics \<lparr>ml_counters = 6, ml_latencies = 2, ml_histograms = 0, ml_buckets = 0\<rparr> 3
        (zero_metrics\<lparr>mx_start_time := 1, mx_initialized := True\<rparr>) = (pm, m2)
     \<and> (\<exists>ls. json_parse (metrics_export_json True 100 example_usage (fold (pool_event_step pm)
            [EvSubmitted, EvWorkerCreated, EvSubmitted, EvCompleted 40] m2))
        = Some (JObj [(''timestamp'', JNum 100), (''uptime_ns'', JNum 99),
           (''counters'', JObj [(''tasks_submitted'', JNum 2), (''tasks_completed'', JNum 1), (''tasks_failed'', JNum 0),
              (''tasks_cancelled'', JNum 0), (''workers_created'', JNum 1), (''workers_destroyed'', JNum 0)]),
           (''latencies'', JObj ls), (''resource_usage'', usage_json example_usage)]))"
proof -
  let ?l = "\<lparr>ml_counters = 6, ml_latencies = 2, ml_histograms = 0, ml_buckets = 0\<rparr>"
  let ?m1 = "zero_metrics\<lparr>mx_start_time := 1, mx_initialized := True\<rparr>"
  let ?evs = "[EvSubmitted, EvWorkerCreated, EvSubmitted, EvCompleted 40]"
  obtain pm m2 where r: "metrics_init_pool_metrics ?l 3 ?m1 = (pm, m2)"
    by (cases "metrics_init_pool_metrics ?l 3 ?m1") blast
  have i: "\<not> mx_initialized zero_metrics" "metrics_init True [] 1 (zero_metrics, []) = (0, ?m1, [RegistryMutex])"
    "6 \<le> ml_counters ?l" "2 \<le> ml_latencies ?l" "length ?evs < 2 ^ 64"
    by (simp_all add: metrics_init_def zero_metrics_def)
  from pool_report_end_to_end [OF i(1-4) r i(5), of 100 example_usage] r show ?thesis
    by (auto simp: execution_times_def)
qed

end
